(* ===== verification/Prelude.thy ===== *)
theory Prelude
  imports Main "HOL-Library.Word"
begin

text \<open>
  Shared ground of the development: names for the machine types and results the Rust code
  uses, the parts of the Rust standard library every component calls (string splitting,
  trimming and ASCII classification, UTF-8 encoding, checked arithmetic, decimal parsing,
  little- and big-endian integers), and the generic lemmas about them.

  Representation. A Rust \<open>&str\<close> or \<open>String\<close> is the list of its Unicode scalar values
  (type \<open>str\<close>); the bytes the code sees through \<open>as_bytes\<close>, \<open>bytes\<close> and \<open>len\<close> are those of
  \<open>utf8\<close>. A byte buffer is a list of 8-bit words. Sizes and positions (\<open>usize\<close>, \<open>u64\<close>) are
  natural numbers with every checked or wrapping operation of the source written out; values
  on which the code works bitwise are words of their width. \<open>Result\<close> is a sum, \<open>Ok\<close> to the
  right and \<open>Err\<close> to the left; newtype wrappers (\<open>ShareId\<close>, \<open>EntryName\<close>, \<open>VirtualPath\<close>) are
  erased.
\<close>

named_theorems str_defs \<open>definitions of the string helpers\<close>
named_theorems codec_simps \<open>round trips and lengths of the encoders\<close>
named_theorems inv_intros \<open>introduction rules of component invariants\<close>

subsection \<open>Machine types and results\<close>

type_synonym u8 = "8 word"
type_synonym u16 = "16 word"
type_synonym u32 = "32 word"
type_synonym u64 = "64 word"
type_synonym u128 = "128 word"
type_synonym bytes = "u8 list"
type_synonym str = "nat list"

abbreviation Ok :: "'a \<Rightarrow> 'e + 'a" where "Ok \<equiv> Inr"
abbreviation Err :: "'e \<Rightarrow> 'e + 'a" where "Err \<equiv> Inl"

text \<open>The question-mark operator on a \<open>Result\<close>.\<close>

fun and_then :: "'e + 'a \<Rightarrow> ('a \<Rightarrow> 'e + 'b) \<Rightarrow> 'e + 'b" where
  "and_then (Inl e) f = Inl e"
| "and_then (Inr x) f = f x"

fun map_err :: "('e \<Rightarrow> 'f) \<Rightarrow> 'e + 'a \<Rightarrow> 'f + 'a" where
  "map_err f (Inl e) = Inl (f e)"
| "map_err f (Inr x) = Inr x"

fun ok_or :: "'e \<Rightarrow> 'a option \<Rightarrow> 'e + 'a" where
  "ok_or e None = Inl e"
| "ok_or e (Some x) = Inr x"

lemma and_then_Ok [simp]: "and_then r f = Inr y \<longleftrightarrow> (\<exists>x. r = Inr x \<and> f x = Inr y)"
  by (cases r) auto

lemma map_err_Ok [simp]: "map_err f r = Inr y \<longleftrightarrow> r = Inr y"
  by (cases r) auto

lemma ok_or_Ok [simp]: "ok_or e m = Inr y \<longleftrightarrow> m = Some y"
  by (cases m) auto

lemma ok_or_Err [simp]: "ok_or e m = Inl e' \<longleftrightarrow> m = None \<and> e' = e"
  by (cases m) auto

lemma and_then_cong [fundef_cong]:
  "r = s \<Longrightarrow> (\<And>x. s = Inr x \<Longrightarrow> f x = g x) \<Longrightarrow> and_then r f = and_then s g"
  by (cases s) auto

text \<open>A loop whose body may return early with an error.\<close>

fun fold_res :: "('a \<Rightarrow> 's \<Rightarrow> 'e + 's) \<Rightarrow> 'a list \<Rightarrow> 's \<Rightarrow> 'e + 's" where
  "fold_res f [] s = Inr s"
| "fold_res f (x # xs) s = and_then (f x s) (fold_res f xs)"

lemma fold_res_cong [fundef_cong]:
  "xs = ys \<Longrightarrow> s = t \<Longrightarrow> (\<And>x s. x \<in> set ys \<Longrightarrow> f x s = g x s) \<Longrightarrow> fold_res f xs s = fold_res g ys t"
proof (induction xs arbitrary: ys s t)
  case Nil
  then show ?case by auto
next
  case (Cons x xs)
  from Cons.prems have "f x t = g x t" "ys = x # xs" "s = t" by auto
  moreover have "fold_res f xs r = fold_res g xs r" for r
    using Cons.prems by (intro Cons.IH) auto
  ultimately show ?case by (cases "g x t") auto
qed

text \<open>
  A computation against a budget. \<open>ok\<close> says that a state is within its limits, \<open>spend s a\<close> charges
  the amount \<open>a\<close>, and spending more never gets back within the limits. A step is \<open>exact\<close> for an
  amount (or for \<open>None\<close>, a failure) when from a state within the limits it succeeds precisely if the
  amount is defined and affordable, and then has spent it. Exactness passes to sequences and loops.
\<close>

fun sum_options :: "('t \<Rightarrow> 't \<Rightarrow> 't) \<Rightarrow> 't \<Rightarrow> 't option list \<Rightarrow> 't option" where
  "sum_options join nothing [] = Some nothing"
| "sum_options join nothing (t # ts) =
     Option.bind t (\<lambda>a. Option.bind (sum_options join nothing ts) (\<lambda>b. Some (join a b)))"

locale budget =
  fixes ok :: "'s \<Rightarrow> bool" and spend :: "'s \<Rightarrow> 't \<Rightarrow> 's" and join :: "'t \<Rightarrow> 't \<Rightarrow> 't" and nothing :: 't
  assumes spend_zero: "spend s nothing = s"
    and spend_plus: "spend s (join a b) = spend (spend s a) b"
    and ok_mono: "ok (spend s a) \<Longrightarrow> ok s"
begin

definition exact :: "('s \<Rightarrow> 'e + 's) \<Rightarrow> 't option \<Rightarrow> bool" where
  "exact f t \<longleftrightarrow> (\<forall>s s'. ok s \<longrightarrow>
     (f s = Inr s' \<longleftrightarrow> (\<exists>a. t = Some a \<and> ok (spend s a) \<and> s' = spend s a)))"

lemma exactD:
  "exact f t \<Longrightarrow> ok s \<Longrightarrow> f s = Inr s' \<longleftrightarrow> (\<exists>a. t = Some a \<and> ok (spend s a) \<and> s' = spend s a)"
  by (simp add: exact_def)

lemma exact_skip: "exact Inr (Some nothing)"
  by (auto simp: exact_def spend_zero)

lemma exact_fail: "(\<And>s s'. ok s \<Longrightarrow> f s \<noteq> Inr s') \<Longrightarrow> exact f None"
  by (simp add: exact_def)

lemma exact_seq:
  assumes "exact f t" "exact g u"
  shows "exact (\<lambda>s. and_then (f s) g) (Option.bind t (\<lambda>a. Option.bind u (\<lambda>b. Some (join a b))))"
  unfolding exact_def
proof (intro allI impI)
  fix s s' assume s: "ok s"
  have "and_then (f s) g = Inr s' \<longleftrightarrow> (\<exists>a. t = Some a \<and> ok (spend s a) \<and> g (spend s a) = Inr s')"
    using exactD [OF assms(1) s] by auto
  also have "\<dots> \<longleftrightarrow> (\<exists>a b. t = Some a \<and> ok (spend s a) \<and> u = Some b
       \<and> ok (spend (spend s a) b) \<and> s' = spend (spend s a) b)"
    using exactD [OF assms(2)] by auto
  also have "\<dots> \<longleftrightarrow> (\<exists>c. Option.bind t (\<lambda>a. Option.bind u (\<lambda>b. Some (join a b))) = Some c
       \<and> ok (spend s c) \<and> s' = spend s c)"
    by (auto simp: spend_plus bind_eq_Some_conv dest: ok_mono)
  finally show "and_then (f s) g = Inr s' \<longleftrightarrow> (\<exists>c. Option.bind t (\<lambda>a. Option.bind u (\<lambda>b. Some (join a b))) = Some c
       \<and> ok (spend s c) \<and> s' = spend s c)" .
qed

lemma exact_fold:
  assumes "\<And>c. c \<in> set cs \<Longrightarrow> exact (f c) (g c)"
  shows "exact (fold_res f cs) (sum_options join nothing (map g cs))"
  using assms
proof (induction cs)
  case Nil
  then show ?case by (auto simp: exact_def spend_zero)
next
  case (Cons c cs)
  then show ?case using exact_seq [of "f c" "g c" "fold_res f cs"] by simp
qed

end

text \<open>A point in time, in nanoseconds since the epoch and negative before it.\<close>

type_synonym SystemTime = int

definition duration_since_epoch :: "SystemTime \<Rightarrow> nat option" where
  "duration_since_epoch t = (if 0 \<le> t then Some (nat t) else None)"

text \<open>Collecting a list of results: the first error wins.\<close>

fun collect :: "('e + 'a) list \<Rightarrow> 'e + 'a list" where
  "collect [] = Inr []"
| "collect (r # rs) = and_then r (\<lambda>x. and_then (collect rs) (\<lambda>xs. Inr (x # xs)))"

lemma collect_Ok_iff: "collect rs = Inr xs \<longleftrightarrow> rs = map Inr xs"
  by (induction rs arbitrary: xs) auto

text \<open>A validator that returns its argument, applied to a list.\<close>

lemma collect_validate:
  assumes "\<And>x y. f x = Inr y \<Longrightarrow> y = x"
  shows "collect (map f xs) = Inr ys \<longleftrightarrow> ys = xs \<and> (\<forall>x \<in> set xs. f x = Inr x)"
proof (induction xs arbitrary: ys)
  case Nil
  then show ?case by auto
next
  case (Cons x xs)
  then show ?case using assms by (auto dest: assms)
qed

subsection \<open>Checked and saturating arithmetic on bounded naturals\<close>

definition checked_add :: "nat \<Rightarrow> nat \<Rightarrow> nat \<Rightarrow> nat option" where
  "checked_add w a b = (if a + b < 2 ^ w then Some (a + b) else None)"

definition saturating_add :: "nat \<Rightarrow> nat \<Rightarrow> nat \<Rightarrow> nat" where
  "saturating_add w a b = min (a + b) (2 ^ w - 1)"

abbreviation checked_add64 :: "nat \<Rightarrow> nat \<Rightarrow> nat option" where
  "checked_add64 \<equiv> checked_add 64"

text \<open>Signed 64-bit subtraction that saturates at the ends of the range.\<close>

definition i64_min :: int where "i64_min = - (2 ^ 63)"
definition i64_max :: int where "i64_max = 2 ^ 63 - 1"

definition i64_clamp :: "int \<Rightarrow> int" where
  "i64_clamp x = max i64_min (min i64_max x)"

definition saturating_sub_i64 :: "int \<Rightarrow> int \<Rightarrow> int" where
  "saturating_sub_i64 a b = i64_clamp (a - b)"

definition saturating_add_i64 :: "int \<Rightarrow> int \<Rightarrow> int" where
  "saturating_add_i64 a b = i64_clamp (a + b)"

lemma checked_add_Some [simp]:
  "checked_add w a b = Some c \<longleftrightarrow> c = a + b \<and> a + b < 2 ^ w"
  by (auto simp: checked_add_def)

lemma checked_add_None: "checked_add w a b = None \<longleftrightarrow> 2 ^ w \<le> a + b"
  by (auto simp: checked_add_def)

lemma saturating_add_le: "saturating_add w a b \<le> a + b"
  by (simp add: saturating_add_def)

lemma saturating_sub_i64_less:
  "k \<le> i64_max \<Longrightarrow> i64_min < k \<Longrightarrow> saturating_sub_i64 a b < k \<longleftrightarrow> a - b < k"
  by (auto simp: saturating_sub_i64_def i64_clamp_def)

subsection \<open>Characters and strings of the Rust standard library\<close>

definition lit :: "string \<Rightarrow> str" where
  "lit s = map of_char s"

definition is_ascii_digit :: "nat \<Rightarrow> bool" where
  "is_ascii_digit c \<longleftrightarrow> 48 \<le> c \<and> c \<le> 57"

definition is_ascii_lowercase :: "nat \<Rightarrow> bool" where
  "is_ascii_lowercase c \<longleftrightarrow> 97 \<le> c \<and> c \<le> 122"

definition is_ascii_uppercase :: "nat \<Rightarrow> bool" where
  "is_ascii_uppercase c \<longleftrightarrow> 65 \<le> c \<and> c \<le> 90"

definition is_ascii_alphanumeric :: "nat \<Rightarrow> bool" where
  "is_ascii_alphanumeric c \<longleftrightarrow>
     is_ascii_digit c \<or> is_ascii_lowercase c \<or> is_ascii_uppercase c"

definition is_ascii_hexdigit :: "nat \<Rightarrow> bool" where
  "is_ascii_hexdigit c \<longleftrightarrow>
     is_ascii_digit c \<or> (97 \<le> c \<and> c \<le> 102) \<or> (65 \<le> c \<and> c \<le> 70)"

text \<open>\<open>char::is_control\<close>: general category Cc.\<close>

definition is_control :: "nat \<Rightarrow> bool" where
  "is_control c \<longleftrightarrow> c < 32 \<or> (127 \<le> c \<and> c \<le> 159)"

text \<open>\<open>char::is_whitespace\<close>: the Unicode property White_Space.\<close>

definition is_whitespace :: "nat \<Rightarrow> bool" where
  "is_whitespace c \<longleftrightarrow>
     (9 \<le> c \<and> c \<le> 13) \<or> c = 32 \<or> c = 0x85 \<or> c = 0xA0 \<or> c = 0x1680 \<or>
     (0x2000 \<le> c \<and> c \<le> 0x200A) \<or> c = 0x2028 \<or> c = 0x2029 \<or> c = 0x202F \<or>
     c = 0x205F \<or> c = 0x3000"

definition to_ascii_lowercase :: "nat \<Rightarrow> nat" where
  "to_ascii_lowercase c = (if is_ascii_uppercase c then c + 32 else c)"

definition eq_ignore_ascii_case :: "str \<Rightarrow> str \<Rightarrow> bool" where
  "eq_ignore_ascii_case s t \<longleftrightarrow> map to_ascii_lowercase s = map to_ascii_lowercase t"

lemmas char_class_defs = is_ascii_digit_def is_ascii_lowercase_def is_ascii_uppercase_def
  is_ascii_alphanumeric_def is_ascii_hexdigit_def is_control_def to_ascii_lowercase_def

lemma eq_ignore_ascii_case_refl [simp]: "eq_ignore_ascii_case s s"
  by (simp add: eq_ignore_ascii_case_def)

lemma eq_ignore_ascii_case_length:
  "eq_ignore_ascii_case s t \<Longrightarrow> length s = length t"
  unfolding eq_ignore_ascii_case_def by (drule arg_cong [where f = length]) simp

definition trim_start :: "str \<Rightarrow> str" where
  "trim_start s = dropWhile is_whitespace s"

definition trim :: "str \<Rightarrow> str" where
  "trim s = rev (trim_start (rev (trim_start s)))"

fun strip_prefix :: "str \<Rightarrow> str \<Rightarrow> str option" where
  "strip_prefix [] s = Some s"
| "strip_prefix (p # ps) [] = None"
| "strip_prefix (p # ps) (c # s) = (if p = c then strip_prefix ps s else None)"

definition strip_suffix :: "str \<Rightarrow> str \<Rightarrow> str option" where
  "strip_suffix p s = map_option rev (strip_prefix (rev p) (rev s))"

lemma strip_prefix_Some [simp]: "strip_prefix p s = Some t \<longleftrightarrow> s = p @ t"
  by (induction p s rule: strip_prefix.induct) auto

lemma strip_suffix_Some [simp]: "strip_suffix p s = Some t \<longleftrightarrow> s = t @ p"
  by (auto simp: strip_suffix_def) (metis rev_append rev_rev_ident)

text \<open>\<open>split(c)\<close>: always at least one piece; \<open>split_once(c)\<close> cuts at the first \<open>c\<close>.\<close>

fun split_on :: "nat \<Rightarrow> str \<Rightarrow> str list" where
  "split_on c [] = [[]]"
| "split_on c (x # s) =
     (if x = c then [] # split_on c s
      else (case split_on c s of [] \<Rightarrow> [[x]] | p # ps \<Rightarrow> (x # p) # ps))"

fun split_once :: "nat \<Rightarrow> str \<Rightarrow> (str \<times> str) option" where
  "split_once c [] = None"
| "split_once c (x # s) =
     (if x = c then Some ([], s)
      else map_option (\<lambda>(a, b). (x # a, b)) (split_once c s))"

definition rsplit_once :: "nat \<Rightarrow> str \<Rightarrow> (str \<times> str) option" where
  "rsplit_once c s = map_option (\<lambda>(a, b). (rev b, rev a)) (split_once c (rev s))"

fun join_on :: "nat \<Rightarrow> str list \<Rightarrow> str" where
  "join_on c [] = []"
| "join_on c [p] = p"
| "join_on c (p # q # ps) = p @ c # join_on c (q # ps)"

lemma join_on_Cons: "join_on c (p # ps) = p @ concat (map ((#) c) ps)"
proof (induction ps arbitrary: p)
  case Nil
  show ?case by simp
next
  case (Cons q ps)
  then show ?case by simp
qed

lemma split_on_nonempty [simp]: "split_on c s \<noteq> []"
  by (induction s) (auto split: list.splits)

lemma join_split_on [simp]: "join_on c (split_on c s) = s"
proof (induction s)
  case Nil
  show ?case by simp
next
  case (Cons x s)
  obtain p ps where p: "split_on c s = p # ps"
    using split_on_nonempty by (metis neq_Nil_conv)
  then show ?case using Cons.IH by (cases ps) auto
qed

lemma split_on_pieces: "p \<in> set (split_on c s) \<Longrightarrow> c \<notin> set p"
proof (induction s arbitrary: p)
  case Nil
  then show ?case by simp
next
  case (Cons x s)
  obtain q qs where q: "split_on c s = q # qs"
    using split_on_nonempty by (metis neq_Nil_conv)
  then show ?case using Cons by (auto split: if_splits)
qed

lemma split_on_no_sep: "c \<notin> set s \<Longrightarrow> split_on c s = [s]"
  by (induction s) auto

lemma split_on_append: "c \<notin> set p \<Longrightarrow> split_on c (p @ c # s) = p # split_on c s"
  by (induction p) auto

lemma split_join_on:
  "ps \<noteq> [] \<Longrightarrow> (\<And>p. p \<in> set ps \<Longrightarrow> c \<notin> set p) \<Longrightarrow> split_on c (join_on c ps) = ps"
proof (induction c ps rule: join_on.induct)
  case (3 c p q ps)
  then show ?case by (simp add: split_on_append)
qed (auto simp: split_on_no_sep)

lemma length_split_on: "length (split_on c s) = Suc (count_list s c)"
proof (induction s)
  case Nil
  show ?case by simp
next
  case (Cons x s)
  obtain q qs where "split_on c s = q # qs"
    using split_on_nonempty by (metis neq_Nil_conv)
  then show ?case using Cons by auto
qed

lemma split_once_Some: "split_once c s = Some (a, b) \<longleftrightarrow> s = a @ c # b \<and> c \<notin> set a"
proof (induction s arbitrary: a)
  case Nil
  then show ?case by simp
next
  case (Cons x s)
  then show ?case by (cases a) auto
qed

lemma split_once_None: "split_once c s = None \<longleftrightarrow> c \<notin> set s"
  by (induction s) auto

text \<open>Occurrence of a substring, \<open>str::contains\<close>.\<close>

fun contains_str :: "str \<Rightarrow> str \<Rightarrow> bool" where
  "contains_str p [] = (p = [])"
| "contains_str p (c # s) = (strip_prefix p (c # s) \<noteq> None \<or> contains_str p s)"

subsection \<open>UTF-8\<close>

definition utf8_char :: "nat \<Rightarrow> nat list" where
  "utf8_char c =
     (if c < 0x80 then [c]
      else if c < 0x800 then [0xC0 + c div 64, 0x80 + c mod 64]
      else if c < 0x10000 then [0xE0 + c div 4096, 0x80 + c div 64 mod 64, 0x80 + c mod 64]
      else [0xF0 + c div 262144, 0x80 + c div 4096 mod 64, 0x80 + c div 64 mod 64, 0x80 + c mod 64])"

definition utf8 :: "str \<Rightarrow> nat list" where
  "utf8 s = concat (map utf8_char s)"

definition str_len :: "str \<Rightarrow> nat" where
  "str_len s = length (utf8 s)"

definition str_bytes :: "str \<Rightarrow> bytes" where
  "str_bytes s = map of_nat (utf8 s)"

definition is_ascii :: "str \<Rightarrow> bool" where
  "is_ascii s \<longleftrightarrow> (\<forall>c \<in> set s. c < 0x80)"

lemma utf8_Nil [simp]: "utf8 [] = []"
  and utf8_Cons [simp]: "utf8 (c # s) = utf8_char c @ utf8 s"
  and utf8_append [simp]: "utf8 (s @ t) = utf8 s @ utf8 t"
  by (simp_all add: utf8_def)

lemma utf8_ascii: "is_ascii s \<Longrightarrow> utf8 s = s"
  by (induction s) (auto simp: is_ascii_def utf8_char_def)

lemma str_len_ascii: "is_ascii s \<Longrightarrow> str_len s = length s"
  by (simp add: str_len_def utf8_ascii)

lemma length_utf8_char: "1 \<le> length (utf8_char c)" "length (utf8_char c) \<le> 4"
  by (auto simp: utf8_char_def)

lemma length_le_str_len: "length s \<le> str_len s"
proof (induction s)
  case Nil
  show ?case by simp
next
  case (Cons c s)
  then show ?case using length_utf8_char(1) [of c] by (simp add: str_len_def)
qed

lemma str_len_Nil [simp]: "str_len [] = 0"
  and str_len_append [simp]: "str_len (s @ t) = str_len s + str_len t"
  and str_len_Cons: "str_len (c # s) = length (utf8_char c) + str_len s"
  by (simp_all add: str_len_def)

lemma str_len_0_iff [simp]: "str_len s = 0 \<longleftrightarrow> s = []"
  using length_le_str_len [of s] by auto

text \<open>An ASCII byte occurs in the encoding exactly as often as the character in the string.\<close>

lemma utf8_char_ascii_mem: "b < 0x80 \<Longrightarrow> b \<in> set (utf8_char c) \<longleftrightarrow> c = b"
  by (auto simp: utf8_char_def)

lemma count_utf8_char: "b < 0x80 \<Longrightarrow> count_list (utf8_char c) b = (if c = b then 1 else 0)"
  by (auto simp: utf8_char_def)

lemma count_utf8: "b < 0x80 \<Longrightarrow> count_list (utf8 s) b = count_list s b"
  by (induction s) (auto simp: count_utf8_char)

subsection \<open>Decimal numbers\<close>

fun dec_value :: "nat \<Rightarrow> str \<Rightarrow> nat" where
  "dec_value acc [] = acc"
| "dec_value acc (c # s) = dec_value (10 * acc + (c - 48)) s"

text \<open>\<open>str::parse\<close> into an unsigned type of \<open>w\<close> bits: an optional plus sign, then digits.\<close>

definition parse_uint :: "nat \<Rightarrow> str \<Rightarrow> nat option" where
  "parse_uint w s =
     (let t = (case strip_prefix [43] s of Some t \<Rightarrow> t | None \<Rightarrow> s)
      in if t = [] \<or> \<not> list_all is_ascii_digit t then None
         else if dec_value 0 t < 2 ^ w then Some (dec_value 0 t) else None)"

lemma parse_uint_bound: "parse_uint w s = Some n \<Longrightarrow> n < 2 ^ w"
  by (auto simp: parse_uint_def Let_def split: if_splits)

lemma parse_uint_digits:
  "s \<noteq> [] \<Longrightarrow> list_all is_ascii_digit s \<Longrightarrow>
   parse_uint w s = (if dec_value 0 s < 2 ^ w then Some (dec_value 0 s) else None)"
  by (cases s) (auto simp: parse_uint_def Let_def is_ascii_digit_def)

subsection \<open>Integers as bytes\<close>

fun le_bytes :: "nat \<Rightarrow> nat \<Rightarrow> bytes" where
  "le_bytes 0 v = []"
| "le_bytes (Suc n) v = of_nat v # le_bytes n (v div 256)"

fun le_nat :: "bytes \<Rightarrow> nat" where
  "le_nat [] = 0"
| "le_nat (b # bs) = unat b + 256 * le_nat bs"

definition be_bytes :: "nat \<Rightarrow> nat \<Rightarrow> bytes" where
  "be_bytes n v = rev (le_bytes n v)"

definition be_nat :: "bytes \<Rightarrow> nat" where
  "be_nat bs = le_nat (rev bs)"

lemma length_le_bytes [simp]: "length (le_bytes n v) = n"
  by (induction n arbitrary: v) auto

lemma length_be_bytes [simp]: "length (be_bytes n v) = n"
  by (simp add: be_bytes_def)

lemma unat_u8 [simp]: "unat (b :: u8) < 256"
proof -
  have "unat b < 2 ^ LENGTH(8)" by (rule unsigned_less)
  then show ?thesis by simp
qed

lemma unat_of_nat_u8: "unat (of_nat v :: u8) = v mod 256"
  by (simp add: unat_of_nat)

lemma le_nat_le_bytes [codec_simps]: "le_nat (le_bytes n v) = v mod 256 ^ n"
proof (induction n arbitrary: v)
  case 0
  show ?case by simp
next
  case (Suc n)
  have "v mod 256 + 256 * (v div 256 mod 256 ^ n) = v mod (256 * 256 ^ n)"
    using mod_mult2_eq [of v 256 "256 ^ n"] by simp
  then show ?case using Suc by (simp add: unat_of_nat_u8)
qed

lemma be_nat_be_bytes [codec_simps]: "be_nat (be_bytes n v) = v mod 256 ^ n"
  by (simp add: be_nat_def be_bytes_def le_nat_le_bytes)

lemma le_nat_bound: "le_nat bs < 256 ^ length bs"
proof (induction bs)
  case Nil
  show ?case by simp
next
  case (Cons b bs)
  then show ?case
    unfolding le_nat.simps length_Cons power_Suc
    using unat_u8 [of b] by linarith
qed

lemma le_bytes_le_nat [codec_simps]: "le_bytes (length bs) (le_nat bs) = bs"
proof (induction bs)
  case Nil
  show ?case by simp
next
  case (Cons b bs)
  have "unat b < 256" by simp
  then have "(unat b + 256 * le_nat bs) div 256 = le_nat bs" by simp
  moreover have "(of_nat (unat b + 256 * le_nat bs) :: u8) = b"
    by (simp only: word_unat_eq_iff unat_of_nat_u8) simp
  ultimately show ?case using Cons by simp
qed

lemma be_bytes_be_nat [codec_simps]: "be_bytes (length bs) (be_nat bs) = bs"
  using le_bytes_le_nat [of "rev bs"] by (simp add: be_bytes_def be_nat_def)

lemma be_nat_bound: "be_nat bs < 256 ^ length bs"
  using le_nat_bound [of "rev bs"] by (simp add: be_nat_def)

subsection \<open>Association lists with distinct keys\<close>

text \<open>Hash maps whose iteration order is observed; the order of the list stands for it.\<close>

abbreviation keys :: "('k \<times> 'a) list \<Rightarrow> 'k list" where "keys es \<equiv> map fst es"

definition remove_key :: "'k \<Rightarrow> ('k \<times> 'a) list \<Rightarrow> ('k \<times> 'a) list" where
  "remove_key k es = filter (\<lambda>(k', _). k' \<noteq> k) es"

definition put_key :: "'k \<Rightarrow> 'a \<Rightarrow> ('k \<times> 'a) list \<Rightarrow> ('k \<times> 'a) list" where
  "put_key k v es =
     (if k \<in> fst ` set es then map (\<lambda>(k', v'). (k', if k' = k then v else v')) es
      else es @ [(k, v)])"

lemma keys_filter: "distinct (keys es) \<Longrightarrow> distinct (keys (filter P es))"
  by (induction es) auto

lemma length_put_key:
  "length (put_key k v es) = (if k \<in> fst ` set es then length es else Suc (length es))"
  by (simp add: put_key_def)

lemma keys_put_key:
  "keys (put_key k v es) = (if k \<in> fst ` set es then keys es else keys es @ [k])"
  by (auto simp: put_key_def)

lemma distinct_put_key: "distinct (keys es) \<Longrightarrow> distinct (keys (put_key k v es))"
  by (simp add: keys_put_key)

lemma map_of_put_key: "map_of (put_key k v es) k' = (if k' = k then Some v else map_of es k')"
proof (cases "k \<in> fst ` set es")
  case True
  moreover have "map_of (map (\<lambda>(k', v'). (k', if k' = k then v else v')) es) k' =
      map_option (\<lambda>v'. if k' = k then v else v') (map_of es k')"
    by (induction es) auto
  moreover have "k' = k \<Longrightarrow> map_of es k' \<noteq> None" using True by (simp add: map_of_eq_None_iff)
  ultimately show ?thesis by (cases "map_of es k'") (auto simp: put_key_def)
next
  case False
  then have "map_of es k = None" by (simp add: map_of_eq_None_iff)
  with False show ?thesis by (simp add: put_key_def map_add_def split: option.split)
qed

lemma map_of_remove_key: "map_of (remove_key k es) k' = (if k' = k then None else map_of es k')"
  by (induction es) (auto simp: remove_key_def)

lemma map_of_filter_snd:
  "distinct (keys es) \<Longrightarrow>
   map_of (filter (\<lambda>(_, w). P w) es) k =
     (case map_of es k of Some w \<Rightarrow> if P w then Some w else None | None \<Rightarrow> None)"
  by (induction es) (auto split: option.splits dest: map_of_SomeD intro!: map_of_eq_None_iff [THEN iffD2] rev_image_eqI)

subsection \<open>Encoders with a partial decoder\<close>

text \<open>
  The contract of an encoder and its decoder over a set of encodable values: what the
  encoder writes, the decoder reads back, and the decoder accepts nothing else. The clients
  of the contract get injectivity of the encoder and uniqueness of the accepted form.
\<close>

locale codec =
  fixes enc :: "'a \<Rightarrow> 'b" and dec :: "'b \<Rightarrow> 'a option" and valid :: "'a \<Rightarrow> bool"
  assumes dec_enc: "valid x \<Longrightarrow> dec (enc x) = Some x"
    and dec_sound: "dec y = Some x \<Longrightarrow> valid x \<and> enc x = y"
begin

lemma enc_inj: "valid x \<Longrightarrow> valid y \<Longrightarrow> enc x = enc y \<Longrightarrow> x = y"
  by (metis dec_enc option.inject)

lemma dec_iff: "dec y = Some x \<longleftrightarrow> valid x \<and> enc x = y"
  using dec_enc dec_sound by blast

lemma dec_inj: "dec y = Some x \<Longrightarrow> dec z = Some x \<Longrightarrow> y = z"
  using dec_sound by metis

lemma dec_None: "dec y = None \<longleftrightarrow> (\<forall>x. valid x \<longrightarrow> enc x \<noteq> y)"
  using dec_enc dec_sound by (metis option.distinct(1) option.exhaust)

end

subsection \<open>Decoding UTF-8\<close>

text \<open>\<open>str::from_utf8\<close> and the code points a string may hold.\<close>

definition is_char :: "nat \<Rightarrow> bool" where
  "is_char c \<longleftrightarrow> c < 0x110000 \<and> \<not> (0xD800 \<le> c \<and> c < 0xE000)"

definition is_cont :: "nat \<Rightarrow> bool" where
  "is_cont b \<longleftrightarrow> 0x80 \<le> b \<and> b < 0xC0"

fun utf8_decode :: "nat list \<Rightarrow> str option" where
  "utf8_decode [] = Some []"
| "utf8_decode (b # bs) =
     (if b < 0x80 then map_option ((#) b) (utf8_decode bs)
      else if 0xC0 \<le> b \<and> b < 0xE0 then
        (case bs of
           c # bs \<Rightarrow>
             (let v = (b - 0xC0) * 64 + (c - 0x80) in
              if is_cont c \<and> 0x80 \<le> v then map_option ((#) v) (utf8_decode bs) else None)
         | _ \<Rightarrow> None)
      else if 0xE0 \<le> b \<and> b < 0xF0 then
        (case bs of
           c # d # bs \<Rightarrow>
             (let v = (b - 0xE0) * 4096 + (c - 0x80) * 64 + (d - 0x80) in
              if is_cont c \<and> is_cont d \<and> 0x800 \<le> v \<and> is_char v
              then map_option ((#) v) (utf8_decode bs) else None)
         | _ \<Rightarrow> None)
      else if 0xF0 \<le> b \<and> b < 0xF8 then
        (case bs of
           c # d # e # bs \<Rightarrow>
             (let v = (b - 0xF0) * 262144 + (c - 0x80) * 4096 + (d - 0x80) * 64 + (e - 0x80) in
              if is_cont c \<and> is_cont d \<and> is_cont e \<and> 0x10000 \<le> v \<and> is_char v
              then map_option ((#) v) (utf8_decode bs) else None)
         | _ \<Rightarrow> None)
      else None)"


text \<open>The encodings of two, three and four bytes by their six-bit groups.\<close>

lemma utf8_char_2:
  assumes "x < 32" "y < 64" "2 \<le> x"
  shows "utf8_char (x * 64 + y) = [0xC0 + x, 0x80 + y]"
  using assms by (simp add: utf8_char_def)

lemma utf8_char_3:
  assumes "x < 16" "y < 64" "z < 64" "0x800 \<le> x * 4096 + y * 64 + z"
  shows "utf8_char (x * 4096 + y * 64 + z) = [0xE0 + x, 0x80 + y, 0x80 + z]"
proof -
  have d: "x * 4096 + y * 64 + z = (x * 64 + y) * 64 + z" by simp
  have "(x * 4096 + y * 64 + z) div 64 = x * 64 + y" unfolding d using assms by simp
  moreover have "(x * 4096 + y * 64 + z) div 4096 = x" using assms by linarith
  moreover have "(x * 4096 + y * 64 + z) mod 64 = z" unfolding d mod_mult_self3 using assms by simp
  ultimately show ?thesis using assms by (simp add: utf8_char_def)
qed

lemma utf8_char_4:
  assumes "x < 8" "y < 64" "z < 64" "w < 64" "0x10000 \<le> x * 262144 + y * 4096 + z * 64 + w"
  shows "utf8_char (x * 262144 + y * 4096 + z * 64 + w) =
    [0xF0 + x, 0x80 + y, 0x80 + z, 0x80 + w]"
proof -
  let ?v = "x * 262144 + y * 4096 + z * 64 + w"
  have d: "?v = ((x * 64 + y) * 64 + z) * 64 + w" by simp
  have "?v div 64 = (x * 64 + y) * 64 + z" unfolding d using assms by simp
  moreover have "?v div 4096 = x * 64 + y" using assms by linarith
  moreover have "?v div 262144 = x" using assms by linarith
  moreover have "?v mod 64 = w" unfolding d mod_mult_self3 using assms by simp
  moreover have "((x * 64 + y) * 64 + z) mod 64 = z" unfolding mod_mult_self3 using assms by simp
  moreover have "(x * 64 + y) mod 64 = y" unfolding mod_mult_self3 using assms by simp
  ultimately show ?thesis unfolding utf8_char_def using assms by (simp only: if_False) simp
qed

lemma six_bit_split: "\<exists>x y. (c :: nat) = x * 64 + y \<and> y < 64 \<and> x = c div 64"
  by (rule exI [of _ "c div 64"], rule exI [of _ "c mod 64"]) simp

lemma utf8_decode_char:
  assumes "is_char c"
  shows "utf8_decode (utf8_char c @ bs) = map_option ((#) c) (utf8_decode bs)"
proof -
  obtain x1 w where w: "c = x1 * 64 + w" "w < 64" using six_bit_split by blast
  obtain x2 z where z: "x1 = x2 * 64 + z" "z < 64" using six_bit_split by blast
  obtain x y where y: "x2 = x * 64 + y" "y < 64" using six_bit_split by blast
  consider "c < 0x80" | "0x80 \<le> c" "c < 0x800" | "0x800 \<le> c" "c < 0x10000" | "0x10000 \<le> c"
    by linarith
  then show ?thesis
  proof cases
    case 1
    then show ?thesis by (simp add: utf8_char_def)
  next
    case 2
    then have "x1 < 32" "2 \<le> x1" using w by simp_all
    then have "utf8_char c = [0xC0 + x1, 0x80 + w]" unfolding w(1) using w(2) by (rule_tac utf8_char_2)
    then show ?thesis using 2 w \<open>x1 < 32\<close> by (simp add: is_cont_def)
  next
    case 3
    then have "x2 < 16" and c: "c = x2 * 4096 + z * 64 + w" using w z by simp_all
    then have "utf8_char c = [0xE0 + x2, 0x80 + z, 0x80 + w]"
      unfolding c using w z 3 c by (intro utf8_char_3) linarith+
    then show ?thesis using 3 c w(2) z(2) assms \<open>x2 < 16\<close> by (simp add: is_cont_def)
  next
    case 4
    then have "x < 8" and c: "c = x * 262144 + y * 4096 + z * 64 + w"
      using w z y assms by (simp_all add: is_char_def)
    then have "utf8_char c = [0xF0 + x, 0x80 + y, 0x80 + z, 0x80 + w]"
      unfolding c using w(2) z(2) y(2) 4 c by (intro utf8_char_4) linarith+
    then show ?thesis using 4 c w(2) z(2) y(2) assms \<open>x < 8\<close> by (simp add: is_cont_def)
  qed
qed

lemma utf8_decode_utf8: "list_all is_char s \<Longrightarrow> utf8_decode (utf8 s) = Some s"
  by (induction s) (simp_all add: utf8_decode_char)

lemma is_cont_split: "is_cont c \<Longrightarrow> c = 0x80 + (c - 0x80) \<and> c - 0x80 < 64"
  by (auto simp: is_cont_def)

declare utf8_decode.simps(2) [simp del]

lemma utf8_decode_sound: "utf8_decode bs = Some s \<Longrightarrow> list_all is_char s \<and> utf8 s = bs"
proof (induction bs arbitrary: s rule: utf8_decode.induct)
  case 1
  then show ?case by simp
next
  case (2 b bs)
  consider "b < 0x80" | "0xC0 \<le> b" "b < 0xE0" | "0xE0 \<le> b" "b < 0xF0" | "0xF0 \<le> b" "b < 0xF8"
    using "2.prems" by (force simp: utf8_decode.simps(2) [of b] split: if_splits)
  then show ?case
  proof cases
    case 1
    then show ?thesis using 2 by (auto simp: utf8_decode.simps(2) [of b] utf8_char_def is_char_def)
  next
    case b: 2
    then obtain c r t where s: "bs = c # r" "is_cont c" "0x80 \<le> (b - 0xC0) * 64 + (c - 0x80)"
      "utf8_decode r = Some t" "s = ((b - 0xC0) * 64 + (c - 0x80)) # t"
      using "2.prems" by (auto simp: utf8_decode.simps(2) [of b] Let_def split: list.splits if_splits)
    note c = is_cont_split [OF s(2)]
    have "utf8_char ((b - 0xC0) * 64 + (c - 0x80)) = [0xC0 + (b - 0xC0), 0x80 + (c - 0x80)]"
      using b c s(3) by (intro utf8_char_2) linarith+
    moreover have "is_char ((b - 0xC0) * 64 + (c - 0x80))" using b c unfolding is_char_def by linarith
    moreover have "list_all is_char t \<and> utf8 t = r"
      using "2.IH"(2) b s by simp
    ultimately show ?thesis using s b c by simp
  next
    case b: 3
    then obtain c d r t where s: "bs = c # d # r" "is_cont c" "is_cont d"
      "0x800 \<le> (b - 0xE0) * 4096 + (c - 0x80) * 64 + (d - 0x80)"
      "is_char ((b - 0xE0) * 4096 + (c - 0x80) * 64 + (d - 0x80))"
      "utf8_decode r = Some t" "s = ((b - 0xE0) * 4096 + (c - 0x80) * 64 + (d - 0x80)) # t"
      using "2.prems" by (auto simp: utf8_decode.simps(2) [of b] Let_def split: list.splits if_splits)
    note c = is_cont_split [OF s(2)] is_cont_split [OF s(3)]
    have "utf8_char ((b - 0xE0) * 4096 + (c - 0x80) * 64 + (d - 0x80)) =
        [0xE0 + (b - 0xE0), 0x80 + (c - 0x80), 0x80 + (d - 0x80)]"
      using b c s(4) by (intro utf8_char_3) linarith+
    moreover have "list_all is_char t \<and> utf8 t = r"
      using "2.IH"(3) b s by simp
    ultimately show ?thesis using s b c by simp
  next
    case b: 4
    then obtain c d e r t where s: "bs = c # d # e # r" "is_cont c" "is_cont d" "is_cont e"
      "0x10000 \<le> (b - 0xF0) * 262144 + (c - 0x80) * 4096 + (d - 0x80) * 64 + (e - 0x80)"
      "is_char ((b - 0xF0) * 262144 + (c - 0x80) * 4096 + (d - 0x80) * 64 + (e - 0x80))"
      "utf8_decode r = Some t"
      "s = ((b - 0xF0) * 262144 + (c - 0x80) * 4096 + (d - 0x80) * 64 + (e - 0x80)) # t"
      using "2.prems" by (auto simp: utf8_decode.simps(2) [of b] Let_def split: list.splits if_splits)
    note c = is_cont_split [OF s(2)] is_cont_split [OF s(3)] is_cont_split [OF s(4)]
    have "utf8_char ((b - 0xF0) * 262144 + (c - 0x80) * 4096 + (d - 0x80) * 64 + (e - 0x80)) =
        [0xF0 + (b - 0xF0), 0x80 + (c - 0x80), 0x80 + (d - 0x80), 0x80 + (e - 0x80)]"
      using b c s(5) by (intro utf8_char_4) linarith+
    moreover have "list_all is_char t \<and> utf8 t = r"
      using "2.IH"(4) b s by simp
    ultimately show ?thesis using s b c by simp
  qed
qed

declare utf8_decode.simps(2) [simp]

interpretation utf8_codec: codec utf8 utf8_decode "list_all is_char"
  by unfold_locales (auto simp: utf8_decode_utf8 dest: utf8_decode_sound)

subsection \<open>Byte slices\<close>

text \<open>\<open>bytes.get(a..b)\<close> and \<open>str::from_utf8\<close> on a byte slice.\<close>

definition slice :: "bytes \<Rightarrow> nat \<Rightarrow> nat \<Rightarrow> bytes option" where
  "slice bs a b = (if a \<le> b \<and> b \<le> length bs then Some (take (b - a) (drop a bs)) else None)"

definition from_utf8 :: "bytes \<Rightarrow> str option" where
  "from_utf8 bs = utf8_decode (map unat bs)"

lemma utf8_char_bytes: "is_char c \<Longrightarrow> \<forall>b \<in> set (utf8_char c). b < 256"
  by (auto simp: is_char_def utf8_char_def)

lemma from_utf8_str_bytes:
  assumes "list_all is_char s" shows "from_utf8 (str_bytes s) = Some s"
proof -
  have "\<forall>b \<in> set (utf8 s). b < 256"
    using assms by (induction s) (auto dest: utf8_char_bytes)
  then have "map unat (str_bytes s) = utf8 s"
    by (auto simp: str_bytes_def unat_of_nat_u8 intro: map_idI)
  then show ?thesis using utf8_decode_utf8 [OF assms] by (simp add: from_utf8_def)
qed

end
