(* ===== verification/Headers.thy ===== *)
theory Headers
  imports Prelude
begin

text \<open>
  Request headers as the handlers see them. The crate \<open>http\<close> owns \<open>HeaderMap\<close> and
  \<open>HeaderValue\<close>: a request is the list of its header fields in received order (names in
  lower case), and a value is its raw bytes with the outcome of \<open>HeaderValue::to_str\<close>, so
  that nothing is assumed about which bytes that conversion accepts.
\<close>

record HeaderValue =
  as_bytes :: "nat list"
  to_str :: "str option"

type_synonym HeaderMap = "(string \<times> HeaderValue) list"

definition get_all :: "HeaderMap \<Rightarrow> string \<Rightarrow> HeaderValue list" where
  "get_all h name = map snd (filter (\<lambda>f. fst f = name) h)"

definition header_get :: "HeaderMap \<Rightarrow> string \<Rightarrow> HeaderValue option" where
  "header_get h name = (case get_all h name of [] \<Rightarrow> None | v # _ \<Rightarrow> Some v)"

definition ascii_value :: "string \<Rightarrow> HeaderValue" where
  "ascii_value s = \<lparr> as_bytes = lit s, to_str = Some (lit s) \<rparr>"

end
