(* ===== verification/ClientAddress.thy ===== *)
theory ClientAddress
  imports Headers
begin

unbundle bit_operations_syntax

text \<open>
  Client addresses behind trusted proxies (\<open>src/src/client_address.rs\<close>) and the grouping of
  addresses into rate-limit sources (\<open>rate_limit_source\<close> of \<open>src/src/auth.rs\<close>), with the
  address parser of the Rust standard library the code calls through \<open>str::parse\<close>.
\<close>

datatype IpAddr = V4 u32 | V6 u128

definition is_ipv4 :: "IpAddr \<Rightarrow> bool" where
  "is_ipv4 a = (case a of V4 _ \<Rightarrow> True | V6 _ \<Rightarrow> False)"

definition to_ipv4_mapped :: "u128 \<Rightarrow> u32 option" where
  "to_ipv4_mapped v = (if drop_bit 32 v = 0xFFFF then Some (ucast v) else None)"

definition to_canonical :: "IpAddr \<Rightarrow> IpAddr" where
  "to_canonical a =
     (case a of V4 _ \<Rightarrow> a
      | V6 v \<Rightarrow> (case to_ipv4_mapped v of Some v4 \<Rightarrow> V4 v4 | None \<Rightarrow> a))"

subsection \<open>Parsing addresses (standard library)\<close>

type_synonym 'a parser = "str \<Rightarrow> ('a \<times> str) option"

definition to_digit :: "nat \<Rightarrow> nat \<Rightarrow> nat option" where
  "to_digit radix c =
     (let d = (if is_ascii_digit c then Some (c - 48)
               else if is_ascii_lowercase c then Some (c - 87)
               else if is_ascii_uppercase c then Some (c - 55) else None)
      in case d of Some n \<Rightarrow> if n < radix then Some n else None | None \<Rightarrow> None)"

fun read_digits :: "nat \<Rightarrow> str \<Rightarrow> nat list \<times> str" where
  "read_digits radix [] = ([], [])"
| "read_digits radix (c # s) =
     (case to_digit radix c of
        None \<Rightarrow> ([], c # s)
      | Some d \<Rightarrow> (case read_digits radix s of (ds, t) \<Rightarrow> (d # ds, t)))"

definition digits_value :: "nat \<Rightarrow> nat list \<Rightarrow> nat" where
  "digits_value radix ds = foldl (\<lambda>acc d. acc * radix + d) 0 ds"

definition read_number :: "nat \<Rightarrow> nat \<Rightarrow> bool \<Rightarrow> nat \<Rightarrow> nat parser" where
  "read_number radix max_digits allow_zero_prefix bits s =
     (case read_digits radix s of (ds, t) \<Rightarrow>
        if max_digits < length ds \<or> ds = [] then None
        else if \<not> allow_zero_prefix \<and> hd ds = 0 \<and> 1 < length ds then None
        else if digits_value radix ds < 2 ^ bits then Some (digits_value radix ds, t) else None)"

definition read_separator :: "nat \<Rightarrow> nat \<Rightarrow> 'a parser \<Rightarrow> 'a parser" where
  "read_separator sep index inner s =
     (if 0 < index then (case s of c # t \<Rightarrow> if c = sep then inner t else None | [] \<Rightarrow> None)
      else inner s)"

fun read_octets :: "nat \<Rightarrow> nat \<Rightarrow> nat list parser" where
  "read_octets 0 index s = Some ([], s)"
| "read_octets (Suc n) index s =
     (case read_separator 46 index (read_number 10 3 False 8) s of
        None \<Rightarrow> None
      | Some (o1, t) \<Rightarrow> map_option (\<lambda>(os, r). (o1 # os, r)) (read_octets n (Suc index) t))"

definition read_ipv4_addr :: "nat list parser" where
  "read_ipv4_addr s = read_octets 4 0 s"

text \<open>
  \<open>read_groups limit i\<close> reads groups \<open>i, i+1, \<dots>\<close> below \<open>limit\<close>: the groups read, whether the
  last two came from an embedded IPv4 address, and the rest of the input.
\<close>

fun read_groups :: "nat \<Rightarrow> nat \<Rightarrow> str \<Rightarrow> nat list \<times> bool \<times> str" where
  "read_groups 0 i s = ([], False, s)"
| "read_groups (Suc n) i s =
     (case (if 0 < n then read_separator 58 i read_ipv4_addr s else None) of
        Some (octets, t) \<Rightarrow>
          ([octets ! 0 * 256 + octets ! 1, octets ! 2 * 256 + octets ! 3], True, t)
      | None \<Rightarrow>
          (case read_separator 58 i (read_number 16 4 True 16) s of
             None \<Rightarrow> ([], False, s)
           | Some (g, t) \<Rightarrow>
               (case read_groups n (Suc i) t of (gs, v4, r) \<Rightarrow> (g # gs, v4, r))))"

definition read_ipv6_addr :: "nat list parser" where
  "read_ipv6_addr s =
     (case read_groups 8 0 s of (head, head_ipv4, t) \<Rightarrow>
        if length head = 8 then Some (head, t)
        else if head_ipv4 then None
        else (case strip_prefix [58, 58] t of
                None \<Rightarrow> None
              | Some r \<Rightarrow>
                  (case read_groups (7 - length head) 0 r of (tail, _, q) \<Rightarrow>
                     Some (head @ replicate (8 - length head - length tail) 0 @ tail, q))))"

definition parse_Ipv4Addr :: "str \<Rightarrow> u32 option" where
  "parse_Ipv4Addr s =
     (if 15 < str_len s then None
      else case read_ipv4_addr s of
             Some (os, []) \<Rightarrow> Some (of_nat (digits_value 256 os)) | _ \<Rightarrow> None)"

definition parse_Ipv6Addr :: "str \<Rightarrow> u128 option" where
  "parse_Ipv6Addr s =
     (case read_ipv6_addr s of
        Some (gs, []) \<Rightarrow> Some (of_nat (digits_value 65536 gs)) | _ \<Rightarrow> None)"

definition parse_IpAddr :: "str \<Rightarrow> IpAddr option" where
  "parse_IpAddr s =
     (case read_ipv4_addr s of
        Some (os, r) \<Rightarrow> (if r = [] then Some (V4 (of_nat (digits_value 256 os))) else None)
      | None \<Rightarrow> map_option V6 (parse_Ipv6Addr s))"

subsection \<open>Networks\<close>

record IpNetwork =
  address :: IpAddr
  prefix :: nat

definition address_width :: "IpAddr \<Rightarrow> nat" where
  "address_width a = (case a of V4 _ \<Rightarrow> 32 | V6 _ \<Rightarrow> 128)"

text \<open>\<open>MAX.checked_shl(n).unwrap_or(0)\<close>: no shift by the full width.\<close>

definition shl_mask :: "nat \<Rightarrow> 'a::len word" where
  "shl_mask n = (if n < LENGTH('a) then push_bit n (-1) else 0)"

definition masked :: "IpAddr \<Rightarrow> nat \<Rightarrow> IpAddr" where
  "masked a p =
     (case a of
        V4 v \<Rightarrow> V4 (v AND shl_mask (32 - p))
      | V6 v \<Rightarrow> V6 (v AND shl_mask (128 - p)))"

definition IpNetwork_parse :: "str \<Rightarrow> string + IpNetwork" where
  "IpNetwork_parse text =
     (let (addr, pre) = (case split_once 47 text of
                           Some (a, p) \<Rightarrow> (a, Some p) | None \<Rightarrow> (text, None)) in
      and_then (ok_or ''is not an IP address or CIDR range'' (parse_IpAddr addr)) (\<lambda>a.
        if (case a of V6 v \<Rightarrow> to_ipv4_mapped v \<noteq> None | V4 _ \<Rightarrow> False)
        then Err ''must use the IPv4 form instead of an IPv4-mapped IPv6 address''
        else
          let width = address_width a in
          and_then
            (case pre of
               None \<Rightarrow> Ok width
             | Some p \<Rightarrow>
                 if p \<noteq> [] \<and> str_len p \<le> 3 \<and> list_all is_ascii_digit (utf8 p)
                 then ok_or ''has an invalid prefix length'' (parse_uint 8 p)
                 else Err ''has an invalid prefix length'')
            (\<lambda>n. if width < n then Err ''has a prefix length longer than the address''
                 else if masked a n \<noteq> a then Err ''has host bits set beyond its prefix length''
                 else Ok \<lparr> address = a, prefix = n \<rparr>)))"

definition network_contains :: "IpNetwork \<Rightarrow> IpAddr \<Rightarrow> bool" where
  "network_contains net a =
     (let a = to_canonical a in
      is_ipv4 a = is_ipv4 (address net) \<and> masked a (prefix net) = address net)"

subsection \<open>Forwarding headers\<close>

datatype ForwardedHeader = XForwardedFor | Forwarded

record TrustedProxies =
  networks :: "IpNetwork list"
  fwd_header :: ForwardedHeader

definition MAX_FORWARDED_BYTES :: nat where "MAX_FORWARDED_BYTES = 8 * 1024"
definition MAX_FORWARDED_ENTRIES :: nat where "MAX_FORWARDED_ENTRIES = 64"

definition is_trusted :: "TrustedProxies \<Rightarrow> IpAddr \<Rightarrow> bool" where
  "is_trusted tp a \<longleftrightarrow> list_ex (\<lambda>net. network_contains net a) (networks tp)"

definition valid_port :: "str \<Rightarrow> bool" where
  "valid_port port \<longleftrightarrow>
     port \<noteq> [] \<and> str_len port \<le> 5 \<and> list_all is_ascii_digit (utf8 port)
     \<and> parse_uint 16 port \<noteq> None"

definition parse_node :: "str \<Rightarrow> IpAddr option" where
  "parse_node text =
     (case strip_prefix [91] text of
        Some rest \<Rightarrow>
          (case split_once 93 rest of
             None \<Rightarrow> None
           | Some (addr, rest) \<Rightarrow>
               if rest \<noteq> [] \<and> (case strip_prefix [58] rest of
                                  None \<Rightarrow> True | Some port \<Rightarrow> \<not> valid_port port)
               then None
               else map_option V6 (parse_Ipv6Addr addr))
      | None \<Rightarrow>
          (case parse_IpAddr text of
             Some a \<Rightarrow> Some a
           | None \<Rightarrow>
               (case split_once 58 text of
                  None \<Rightarrow> None
                | Some (addr, port) \<Rightarrow>
                    if \<not> valid_port port then None
                    else map_option V4 (parse_Ipv4Addr addr))))"

text \<open>
  \<open>split_outside_quotes\<close> scans the bytes once; \<open>quoted\<close> is the scanner's state and \<open>cur\<close> the
  current piece, reversed. The text comes from \<open>to_str\<close>, so its bytes are its characters. A
  backslash inside quotes skips the next byte, also when it is the last one.
\<close>

fun split_quotes :: "nat \<Rightarrow> bool \<Rightarrow> str \<Rightarrow> str \<Rightarrow> str list option" where
  "split_quotes sep quoted cur [] = (if quoted then None else Some [rev cur])"
| "split_quotes sep quoted cur [c] =
     (if c = 92 \<and> quoted then split_quotes sep quoted (c # cur) []
      else if c = 34 then split_quotes sep (\<not> quoted) (c # cur) []
      else if c = sep \<and> \<not> quoted
      then map_option ((#) (rev cur)) (split_quotes sep quoted [] [])
      else split_quotes sep quoted (c # cur) [])"
| "split_quotes sep quoted cur (c # d # s) =
     (if c = 92 \<and> quoted then split_quotes sep quoted (d # c # cur) s
      else if c = 34 then split_quotes sep (\<not> quoted) (c # cur) (d # s)
      else if c = sep \<and> \<not> quoted
      then map_option ((#) (rev cur)) (split_quotes sep quoted [] (d # s))
      else split_quotes sep quoted (c # cur) (d # s))"

definition split_outside_quotes :: "str \<Rightarrow> nat \<Rightarrow> str list option" where
  "split_outside_quotes text sep = split_quotes sep False [] text"

fun forwarded_for_pairs :: "IpAddr option \<Rightarrow> str list \<Rightarrow> IpAddr option" where
  "forwarded_for_pairs found [] = found"
| "forwarded_for_pairs found (pair # pairs) =
     (case split_once 61 (trim pair) of
        None \<Rightarrow> None
      | Some (name, value) \<Rightarrow>
          if \<not> eq_ignore_ascii_case (trim name) (lit ''for'')
          then forwarded_for_pairs found pairs
          else if found \<noteq> None then None
          else
            (let value = trim value;
                 inner = (case strip_prefix [34] value of
                            Some rest \<Rightarrow>
                              (case strip_suffix [34] rest of
                                 None \<Rightarrow> None
                               | Some i \<Rightarrow> if 34 \<in> set i \<or> 92 \<in> set i then None else Some i)
                          | None \<Rightarrow> Some value)
             in case inner of
                  None \<Rightarrow> None
                | Some v \<Rightarrow> (case parse_node v of
                               None \<Rightarrow> None
                             | Some a \<Rightarrow> forwarded_for_pairs (Some a) pairs)))"

definition forwarded_for :: "str \<Rightarrow> IpAddr option" where
  "forwarded_for element =
     (case split_outside_quotes element 59 of
        None \<Rightarrow> None | Some pairs \<Rightarrow> forwarded_for_pairs None pairs)"

definition parse_entry :: "ForwardedHeader \<Rightarrow> str \<Rightarrow> IpAddr option" where
  "parse_entry hdr entry =
     (case hdr of XForwardedFor \<Rightarrow> parse_node (trim entry) | Forwarded \<Rightarrow> forwarded_for entry)"

text \<open>The walk from the right: \<open>rev_entries\<close> is the entry list reversed.\<close>

fun first_untrusted :: "TrustedProxies \<Rightarrow> str list \<Rightarrow> IpAddr option" where
  "first_untrusted tp [] = None"
| "first_untrusted tp (entry # rest) =
     (case parse_entry (fwd_header tp) entry of
        None \<Rightarrow> None
      | Some a \<Rightarrow>
          (let a = to_canonical a in
           if \<not> is_trusted tp a then Some a else first_untrusted tp rest))"

fun combine_values :: "str \<Rightarrow> HeaderValue list \<Rightarrow> str option" where
  "combine_values combined [] = Some combined"
| "combine_values combined (v # vs) =
     (case to_str v of
        None \<Rightarrow> None
      | Some text \<Rightarrow>
          if MAX_FORWARDED_BYTES < str_len combined + str_len text + 1 then None
          else combine_values ((if combined \<noteq> [] then combined @ [44] else combined) @ text) vs)"

definition header_name :: "ForwardedHeader \<Rightarrow> string" where
  "header_name hdr = (case hdr of XForwardedFor \<Rightarrow> ''x-forwarded-for'' | Forwarded \<Rightarrow> ''forwarded'')"

definition forwarded_client :: "TrustedProxies \<Rightarrow> HeaderMap \<Rightarrow> IpAddr option" where
  "forwarded_client tp h =
     (case combine_values [] (get_all h (header_name (fwd_header tp))) of
        None \<Rightarrow> None
      | Some combined \<Rightarrow>
          if combined = [] then None
          else (case split_outside_quotes combined 44 of
                  None \<Rightarrow> None
                | Some entries \<Rightarrow>
                    if MAX_FORWARDED_ENTRIES < length entries then None
                    else first_untrusted tp (rev entries)))"

definition client_address :: "TrustedProxies \<Rightarrow> IpAddr \<Rightarrow> HeaderMap \<Rightarrow> IpAddr" where
  "client_address tp peer h =
     (let peer = to_canonical peer in
      if \<not> is_trusted tp peer then peer
      else case forwarded_client tp h of Some a \<Rightarrow> a | None \<Rightarrow> peer)"

subsection \<open>Rate-limit sources\<close>

definition rate_limit_source :: "IpAddr \<Rightarrow> IpAddr" where
  "rate_limit_source a =
     (case a of V4 _ \<Rightarrow> a
      | V6 v \<Rightarrow> (case to_ipv4_mapped v of
                   Some v4 \<Rightarrow> V4 v4
                 | None \<Rightarrow> V6 (v AND NOT (push_bit 64 1 - 1))))"

subsection \<open>Masks and networks\<close>

lemma bit_shl_mask: "bit (shl_mask n :: 'a::len word) i \<longleftrightarrow> n \<le> i \<and> i < LENGTH('a)"
  by (auto simp: shl_mask_def bit_simps)

lemma and_shl_mask_eq_iff:
  fixes v net :: "'a::len word"
  assumes "net AND shl_mask n = net"
  shows "v AND shl_mask n = net \<longleftrightarrow> (\<forall>i. n \<le> i \<and> i < LENGTH('a) \<longrightarrow> bit v i = bit net i)"
proof -
  have low: "n \<le> i \<and> i < LENGTH('a)" if "bit net i" for i
    using that assms by (metis bit_and_iff bit_shl_mask)
  show ?thesis
    by (auto simp: bit_eq_iff bit_and_iff bit_shl_mask dest: low)
qed

text \<open>The textbook meaning of \<open>address/prefix\<close>: the leading \<open>prefix\<close> bits agree.\<close>

fun same_prefix :: "nat \<Rightarrow> IpAddr \<Rightarrow> IpAddr \<Rightarrow> bool" where
  "same_prefix p (V4 a) (V4 b) = (\<forall>i < 32. 32 - p \<le> i \<longrightarrow> bit a i = bit b i)"
| "same_prefix p (V6 a) (V6 b) = (\<forall>i < 128. 128 - p \<le> i \<longrightarrow> bit a i = bit b i)"
| "same_prefix p _ _ = False"

definition wf_network :: "IpNetwork \<Rightarrow> bool" where
  "wf_network net \<longleftrightarrow>
     prefix net \<le> address_width (address net) \<and>
     masked (address net) (prefix net) = address net \<and>
     to_canonical (address net) = address net"

lemma network_contains_same_prefix:
  assumes "masked (address net) (prefix net) = address net"
  shows "network_contains net a \<longleftrightarrow> same_prefix (prefix net) (to_canonical a) (address net)"
proof (cases "to_canonical a"; cases "address net")
  fix v n
  assume "to_canonical a = V4 v" "address net = V4 n"
  with assms show ?thesis
    using and_shl_mask_eq_iff [of n "32 - prefix net" v]
    by (auto simp: network_contains_def is_ipv4_def masked_def)
next
  fix v n
  assume "to_canonical a = V6 v" "address net = V6 n"
  with assms show ?thesis
    using and_shl_mask_eq_iff [of n "128 - prefix net" v]
    by (auto simp: network_contains_def is_ipv4_def masked_def)
qed (simp_all add: network_contains_def is_ipv4_def)

lemma IpNetwork_parse_wf: "IpNetwork_parse text = Ok net \<Longrightarrow> wf_network net"
  by (auto simp: IpNetwork_parse_def wf_network_def to_canonical_def Let_def
      split: prod.splits if_splits IpAddr.splits option.splits)

subsection \<open>The quoted-string scanner\<close>

lemma split_quotes_Cons:
  "split_quotes sep q cur (c # s) =
     (if c = 92 \<and> q then (case s of [] \<Rightarrow> None | d # t \<Rightarrow> split_quotes sep q (d # c # cur) t)
      else if c = 34 then split_quotes sep (\<not> q) (c # cur) s
      else if c = sep \<and> \<not> q then map_option ((#) (rev cur)) (split_quotes sep q [] s)
      else split_quotes sep q (c # cur) s)"
  by (cases s) auto

declare split_quotes.simps(2,3) [simp del]

lemma split_quotes_unterminated: "34 \<notin> set s \<Longrightarrow> split_quotes sep True cur s = None"
proof (induction s arbitrary: cur rule: length_induct)
  case (1 s)
  then show ?case by (cases s) (auto simp: split_quotes_Cons split: list.split)
qed

lemma split_quotes_plain:
  assumes "34 \<notin> set s" "sep \<noteq> 34"
  shows "split_quotes sep False cur s =
    Some ((rev cur @ hd (split_on sep s)) # tl (split_on sep s))"
  using assms(1)
proof (induction s arbitrary: cur)
  case Nil
  then show ?case by simp
next
  case (Cons c s)
  then show ?case
    using split_on_nonempty [of sep s] by (auto simp: split_quotes_Cons split: list.split)
qed

text \<open>
  Whatever precedes it, a quote-free tail after a separator is split as if it stood alone,
  or the whole text is rejected.
\<close>

lemma split_quotes_tail:
  assumes "34 \<notin> set s" "sep \<noteq> 34" "sep \<noteq> 92"
    and "split_quotes sep q cur (t @ sep # s) = Some es"
  shows "\<exists>ps. es = ps @ split_on sep s"
  using assms(4)
proof (induction t arbitrary: q cur es rule: length_induct)
  case (1 t)
  show ?case
  proof (cases t)
    case Nil
    with 1 assms(1-3) have "\<not> q"
      using split_quotes_unterminated [OF assms(1), of sep] by (auto simp: split_quotes_Cons)
    with Nil 1 assms(1-3) show ?thesis
      by (auto simp: split_quotes_Cons split_quotes_plain intro: exI [of _ "[rev cur]"])
  next
    case (Cons c u)
    note IH = "1.IH" [rule_format]
    show ?thesis
    proof (cases "c = 92 \<and> q")
      case True
      with Cons "1.prems" show ?thesis
        using IH [of "tl u"] split_quotes_unterminated [OF assms(1), of sep]
        by (cases u) (auto simp: split_quotes_Cons)
    next
      case False
      with Cons "1.prems" show ?thesis
        using IH [of u] by (auto simp: split_quotes_Cons split: if_splits) (metis append_Cons)
    qed
  qed
qed

lemma split_outside_quotes_plain:
  "34 \<notin> set s \<Longrightarrow> split_outside_quotes s 44 = Some (split_on 44 s)"
  by (simp add: split_outside_quotes_def split_quotes_plain)

subsection \<open>The walk from the right\<close>

lemma first_untrusted_append:
  "first_untrusted tp es = Some a \<Longrightarrow> first_untrusted tp (es @ fs) = Some a"
  by (induction es) (auto simp: Let_def split: option.splits if_splits)

lemma first_untrusted_untrusted:
  "first_untrusted tp es = Some a \<Longrightarrow> \<not> is_trusted tp a"
  by (induction es) (auto simp: Let_def split: option.splits if_splits)

lemma first_untrusted_split:
  "first_untrusted tp es = Some a \<Longrightarrow>
   \<exists>pre e post b. es = pre @ e # post \<and> parse_entry (fwd_header tp) e = Some b \<and>
     a = to_canonical b \<and>
     (\<forall>x \<in> set pre. \<exists>c. parse_entry (fwd_header tp) x = Some c \<and> is_trusted tp (to_canonical c))"
proof (induction es)
  case Nil
  then show ?case by simp
next
  case (Cons e es)
  then obtain b where b: "parse_entry (fwd_header tp) e = Some b"
    by (auto split: option.splits)
  show ?case
  proof (cases "is_trusted tp (to_canonical b)")
    case True
    with Cons b obtain pre e' post b' where
      "es = pre @ e' # post" "parse_entry (fwd_header tp) e' = Some b'" "a = to_canonical b'"
      "\<forall>x \<in> set pre. \<exists>c. parse_entry (fwd_header tp) x = Some c \<and> is_trusted tp (to_canonical c)"
      by auto
    with True b show ?thesis by (intro exI [of _ "e # pre"]) auto
  next
    case False
    with Cons b have "a = to_canonical b" by simp
    with b show ?thesis by fastforce
  qed
qed

lemma client_address_untrusted_peer:
  "\<not> is_trusted tp (to_canonical peer) \<Longrightarrow> client_address tp peer h = to_canonical peer"
  by (simp add: client_address_def)

lemma client_address_cases:
  "client_address tp peer h = to_canonical peer \<or>
   (is_trusted tp (to_canonical peer) \<and> forwarded_client tp h = Some (client_address tp peer h))"
  by (auto simp: client_address_def Let_def split: option.splits)

subsection \<open>Evaluation\<close>

lemma read_ipv4_addr_unroll: "read_ipv4_addr s = read_octets (Suc (Suc (Suc (Suc 0)))) 0 s"
  by (simp add: read_ipv4_addr_def eval_nat_numeral)

lemmas addr_eval = lit_def parse_entry_def parse_node_def trim_def trim_start_def
  is_whitespace_def parse_IpAddr_def read_ipv4_addr_unroll read_separator_def read_number_def
  to_digit_def char_class_defs digits_value_def to_canonical_def is_trusted_def
  network_contains_def is_ipv4_def masked_def shl_mask_def mask_eq_exp_minus_1
  get_all_def header_name_def ascii_value_def split_quotes_Cons split_outside_quotes_def
  forwarded_client_def client_address_def MAX_FORWARDED_BYTES_def MAX_FORWARDED_ENTRIES_def
  str_len_def utf8_char_def IpNetwork_parse_def address_width_def parse_uint_def

subsection \<open>Properties\<close>


definition example_proxies :: TrustedProxies where
  "example_proxies =
     \<lparr> networks = [\<lparr> address = V4 0x0A000000, prefix = 8 \<rparr>], fwd_header = XForwardedFor \<rparr>"


text \<open>
  The resolved address is the TCP peer unless the peer is a trusted proxy, and then an
  address other than the peer's is one the forwarding header names, is not itself trusted,
  and every entry to its right is a trusted proxy.
\<close>

theorem client_address_sound:
  assumes "client_address tp peer h \<noteq> to_canonical peer"
  shows "is_trusted tp (to_canonical peer) \<and> \<not> is_trusted tp (client_address tp peer h) \<and>
    (\<exists>combined pre e post b. combine_values [] (get_all h (header_name (fwd_header tp))) = Some combined \<and>
       split_outside_quotes combined 44 = Some (pre @ e # post) \<and>
       length (pre @ e # post) \<le> MAX_FORWARDED_ENTRIES \<and>
       parse_entry (fwd_header tp) e = Some b \<and> client_address tp peer h = to_canonical b \<and>
       (\<forall>x \<in> set post. \<exists>c. parse_entry (fwd_header tp) x = Some c \<and> is_trusted tp (to_canonical c)))"
proof -
  from assms have tr: "is_trusted tp (to_canonical peer)"
    and f: "forwarded_client tp h = Some (client_address tp peer h)"
    using client_address_cases by blast+
  from f obtain combined es where c: "combine_values [] (get_all h (header_name (fwd_header tp))) = Some combined"
    and es: "split_outside_quotes combined 44 = Some es" "length es \<le> MAX_FORWARDED_ENTRIES"
    and w: "first_untrusted tp (rev es) = Some (client_address tp peer h)"
    by (auto simp: forwarded_client_def split: option.splits if_splits)
  from first_untrusted_split [OF w] obtain pre e post b where
    r: "rev es = pre @ e # post" and b: "parse_entry (fwd_header tp) e = Some b"
      "client_address tp peer h = to_canonical b"
      "\<forall>x \<in> set pre. \<exists>c. parse_entry (fwd_header tp) x = Some c \<and> is_trusted tp (to_canonical c)"
    by blast
  from r have "es = rev (pre @ e # post)" by (metis rev_rev_ident)
  then have "es = rev post @ e # rev pre" by simp
  with c es b have "split_outside_quotes combined 44 = Some (rev post @ e # rev pre)"
    "length (rev post @ e # rev pre) \<le> MAX_FORWARDED_ENTRIES"
    "\<forall>x \<in> set (rev pre). \<exists>c. parse_entry (fwd_header tp) x = Some c \<and> is_trusted tp (to_canonical c)"
    by auto
  with tr first_untrusted_untrusted [OF w] c b(1,2) show ?thesis by blast
qed

theorem client_address_sound_witness:
  "let h = [(''x-forwarded-for'', ascii_value ''1.2.3.4,9.9.9.9'')] in
   client_address example_proxies (V4 0x0A000001) h \<noteq> to_canonical (V4 0x0A000001) \<and>
   \<not> is_trusted example_proxies (client_address example_proxies (V4 0x0A000001) h)"
proof -
  have "client_address example_proxies (V4 0x0A000001)
      [(''x-forwarded-for'', ascii_value ''1.2.3.4,9.9.9.9'')] \<noteq> to_canonical (V4 0x0A000001)"
    by (simp add: addr_eval example_proxies_def)
  then show ?thesis using client_address_sound by (simp add: Let_def)
qed

text \<open>
  A network that parses is in canonical form, and it contains exactly the addresses of
  its family whose leading \<open>prefix\<close> bits agree with it (an IPv4-mapped IPv6 address counting
  as IPv4).
\<close>

theorem parsed_network_contains:
  assumes "IpNetwork_parse text = Ok net"
  shows "wf_network net \<and>
    (network_contains net a \<longleftrightarrow> same_prefix (prefix net) (to_canonical a) (address net))"
proof -
  from assms have "wf_network net" by (rule IpNetwork_parse_wf)
  then show ?thesis by (simp add: network_contains_same_prefix wf_network_def)
qed

theorem parsed_network_contains_witness:
  "IpNetwork_parse (lit ''10.0.0.0/8'') = Ok \<lparr> address = V4 0x0A000000, prefix = 8 \<rparr> \<and>
   wf_network \<lparr> address = V4 0x0A000000, prefix = 8 \<rparr>"
proof -
  have h: "IpNetwork_parse (lit ''10.0.0.0/8'') = Ok \<lparr> address = V4 0x0A000000, prefix = 8 \<rparr>"
    by (simp add: addr_eval)
  show ?thesis using h parsed_network_contains [OF h] by simp
qed

end
