(* ===== verification/Errors.thy ===== *)
theory Errors
  imports Prelude
begin

text \<open>
  The error vocabulary of the server: the public errors of \<open>src/src/error.rs\<close> and the response
  each becomes, the rejections of the request extractors (\<open>src/src/extract.rs\<close>), the
  filesystem error categories of \<open>src/src/filesystem.rs\<close> with the mapping of operating-system
  errors, and the two translations of a filesystem error into a public one: the
  non-disclosing one of the read routes (\<open>src/src/browse.rs\<close>) and the one of the mutation
  routes with its audit reason (\<open>src/src/mutations.rs\<close>).
\<close>

subsection \<open>Public errors\<close>

datatype AppError =
    Unauthorized | AuthenticationFailed | Forbidden | ReauthenticationRequired
  | TooManyRequests | NotFound | NotReady | InvalidRequest | Conflict | TooLarge
  | PathTooDeep | ShareTooLargeToMeasure | ShareTooDeepToMeasure | Busy
  | UnsupportedMedia | FeatureDisabled | Internal

fun public_parts :: "AppError \<Rightarrow> nat \<times> string \<times> string" where
  "public_parts Unauthorized = (401, ''unauthorized'', ''Authentication required'')"
| "public_parts AuthenticationFailed =
     (401, ''authentication_failed'', ''Authentication failed'')"
| "public_parts Forbidden = (403, ''forbidden'', ''Request forbidden'')"
| "public_parts ReauthenticationRequired =
     (403, ''reauthentication_required'', ''Sign in again to continue'')"
| "public_parts TooManyRequests = (429, ''rate_limited'', ''Too many requests'')"
| "public_parts NotFound = (404, ''not_found'', ''Resource not found'')"
| "public_parts NotReady = (503, ''not_ready'', ''Service is not ready'')"
| "public_parts InvalidRequest = (400, ''invalid_request'', ''Request was invalid'')"
| "public_parts Conflict =
     (409, ''conflict'', ''Resource state changed; restart the operation'')"
| "public_parts TooLarge = (413, ''too_large'', ''Request exceeds a configured limit'')"
| "public_parts PathTooDeep =
     (400, ''path_too_deep'', ''Folders can be nested at most 64 levels deep'')"
| "public_parts ShareTooLargeToMeasure =
     (507, ''share_too_large_to_measure'',
      ''The shared folder has too many items to check its quota'')"
| "public_parts ShareTooDeepToMeasure =
     (507, ''share_too_deep_to_measure'',
      ''The shared folder has folders nested too deeply to check its quota'')"
| "public_parts Busy = (429, ''busy'', ''Too many concurrent operations'')"
| "public_parts UnsupportedMedia =
     (415, ''unsupported_media_type'', ''Resource is not supported as text'')"
| "public_parts FeatureDisabled =
     (404, ''feature_disabled'', ''This feature is disabled on this server'')"
| "public_parts Internal = (500, ''internal_error'', ''Internal service error'')"

record ErrorBody =
  body_code :: string
  body_message :: string

record error_response =
  er_status :: nat
  er_headers :: "(string \<times> string) list"
  er_body :: ErrorBody

text \<open>
  \<open>into_response\<close> serialises the envelope as JSON, then inserts the fixed headers; the
  \<open>Content-Type\<close> is the one axum's \<open>Json\<close> sets.
\<close>

definition into_response :: "AppError \<Rightarrow> error_response" where
  "into_response e =
     (case public_parts e of (st, code, message) \<Rightarrow>
        \<lparr> er_status = st,
          er_headers = [(''content-type'', ''application/json''),
                     (''cache-control'', ''no-store''),
                     (''x-content-type-options'', ''nosniff'')] @
                    (if st = 429 then [(''retry-after'', ''60'')] else []),
          er_body = \<lparr> body_code = code, body_message = message \<rparr> \<rparr>)"

subsection \<open>Extractor rejections\<close>

definition rejection_error :: "nat \<Rightarrow> AppError" where
  "rejection_error st =
     (if st = 413 then TooLarge
      else if 500 \<le> st \<and> st < 600 then Internal
      else InvalidRequest)"

text \<open>
  The three extractors (\<open>ApiPath\<close>, \<open>ApiQuery\<close>, \<open>ApiJson\<close>) wrap an axum extractor, whose
  outcome is the parameter: its value, or the status of its rejection.
\<close>

definition api_extract :: "nat + 'a \<Rightarrow> AppError + 'a" where
  "api_extract r = map_err rejection_error r"

subsection \<open>Filesystem errors\<close>

datatype FsErrorCode =
    AccessDenied | FsConflict | CrossDevice | InvalidPath | FsNotFound | FsTooLarge
  | TooDeep | UnsupportedEntry | Unavailable

text \<open>The kinds of \<open>std::io::ErrorKind\<close> the mapping distinguishes.\<close>

datatype ErrorKind =
    CrossesDevices | IoNotFound | NotADirectory | AlreadyExists | DirectoryNotEmpty
  | InvalidInput | InvalidFilename | PermissionDenied | OtherKind

record io_error =
  raw_os_error :: "nat option"
  io_kind :: ErrorKind

definition map_io :: "io_error \<Rightarrow> FsErrorCode" where
  "map_io e =
     (if raw_os_error e \<in> {Some 6, Some 19, Some 40} then UnsupportedEntry
      else if raw_os_error e = Some 18 then CrossDevice
      else (case io_kind e of
              CrossesDevices \<Rightarrow> CrossDevice
            | IoNotFound \<Rightarrow> FsNotFound
            | NotADirectory \<Rightarrow> FsNotFound
            | AlreadyExists \<Rightarrow> FsConflict
            | DirectoryNotEmpty \<Rightarrow> FsConflict
            | InvalidInput \<Rightarrow> InvalidPath
            | InvalidFilename \<Rightarrow> InvalidPath
            | PermissionDenied \<Rightarrow> AccessDenied
            | OtherKind \<Rightarrow> Unavailable))"

fun non_disclosing_fs_error :: "FsErrorCode \<Rightarrow> AppError" where
  "non_disclosing_fs_error FsTooLarge = TooLarge"
| "non_disclosing_fs_error Unavailable = Internal"
| "non_disclosing_fs_error InvalidPath = InvalidRequest"
| "non_disclosing_fs_error TooDeep = PathTooDeep"
| "non_disclosing_fs_error AccessDenied = NotFound"
| "non_disclosing_fs_error FsConflict = NotFound"
| "non_disclosing_fs_error CrossDevice = NotFound"
| "non_disclosing_fs_error FsNotFound = NotFound"
| "non_disclosing_fs_error UnsupportedEntry = NotFound"

fun map_mutation_fs_error :: "FsErrorCode \<Rightarrow> AppError" where
  "map_mutation_fs_error AccessDenied = Forbidden"
| "map_mutation_fs_error FsConflict = Conflict"
| "map_mutation_fs_error CrossDevice = InvalidRequest"
| "map_mutation_fs_error InvalidPath = InvalidRequest"
| "map_mutation_fs_error FsTooLarge = TooLarge"
| "map_mutation_fs_error TooDeep = PathTooDeep"
| "map_mutation_fs_error Unavailable = Internal"
| "map_mutation_fs_error FsNotFound = NotFound"
| "map_mutation_fs_error UnsupportedEntry = NotFound"

subsection \<open>Rejections of the mutation routes\<close>

fun app_reason :: "AppError \<Rightarrow> string" where
  "app_reason Forbidden = ''access_denied''"
| "app_reason NotFound = ''not_found''"
| "app_reason InvalidRequest = ''invalid_request''"
| "app_reason Conflict = ''conflict''"
| "app_reason TooLarge = ''too_large''"
| "app_reason PathTooDeep = ''path_too_deep''"
| "app_reason ShareTooLargeToMeasure = ''share_too_large_to_measure''"
| "app_reason ShareTooDeepToMeasure = ''share_too_deep_to_measure''"
| "app_reason Busy = ''busy''"
| "app_reason TooManyRequests = ''busy''"
| "app_reason UnsupportedMedia = ''unsupported_media''"
| "app_reason FeatureDisabled = ''feature_disabled''"
| "app_reason Unauthorized = ''unauthenticated''"
| "app_reason AuthenticationFailed = ''unauthenticated''"
| "app_reason ReauthenticationRequired = ''unauthenticated''"
| "app_reason NotReady = ''internal_error''"
| "app_reason Internal = ''internal_error''"

fun fs_reason :: "FsErrorCode \<Rightarrow> string" where
  "fs_reason AccessDenied = ''access_denied''"
| "fs_reason FsConflict = ''conflict''"
| "fs_reason CrossDevice = ''cross_device''"
| "fs_reason InvalidPath = ''invalid_path''"
| "fs_reason FsNotFound = ''not_found''"
| "fs_reason FsTooLarge = ''too_large''"
| "fs_reason TooDeep = ''path_too_deep''"
| "fs_reason UnsupportedEntry = ''unsupported_entry''"
| "fs_reason Unavailable = ''unavailable''"

record Rejection =
  rej_error :: AppError
  rej_reason :: string

definition rejection_from_app :: "AppError \<Rightarrow> Rejection" where
  "rejection_from_app e = \<lparr> rej_error = e, rej_reason = app_reason e \<rparr>"

definition rejection_from_fs :: "FsErrorCode \<Rightarrow> Rejection" where
  "rejection_from_fs c = \<lparr> rej_error = map_mutation_fs_error c, rej_reason = fs_reason c \<rparr>"

subsection \<open>Lemmas\<close>

lemma er_status_into_response [simp]: "er_status (into_response e) = fst (public_parts e)"
  by (cases e) (simp_all add: into_response_def)

lemma public_parts_status:
  "fst (public_parts e) \<in> {400, 401, 403, 404, 409, 413, 415, 429, 500, 503, 507}"
  by (cases e) simp_all

lemma public_code_inj:
  "fst (snd (public_parts a)) = fst (snd (public_parts b)) \<Longrightarrow> a = b"
  by (cases a; cases b; simp)


text \<open>
  Every error response forbids caching and content sniffing, is a client or server
  error, carries a code that identifies the error uniquely, and asks the client to retry
  after a minute exactly when the status is 429.
\<close>

theorem error_response_headers:
  "(''cache-control'', ''no-store'') \<in> set (er_headers (into_response e)) \<and>
   (''x-content-type-options'', ''nosniff'') \<in> set (er_headers (into_response e)) \<and>
   400 \<le> er_status (into_response e) \<and> er_status (into_response e) < 600 \<and>
   ((''retry-after'', ''60'') \<in> set (er_headers (into_response e)) \<longleftrightarrow>
      er_status (into_response e) = 429) \<and>
   (body_code (er_body (into_response e)) = body_code (er_body (into_response e')) \<longleftrightarrow> e = e')"
proof -
  have code: "body_code (er_body (into_response x)) = fst (snd (public_parts x))" for x
    by (simp add: into_response_def split: prod.split)
  have "400 \<le> er_status (into_response e)" "er_status (into_response e) < 600"
    using public_parts_status [of e] by auto
  moreover have "(''retry-after'', ''60'') \<in> set (er_headers (into_response e)) \<longleftrightarrow>
      er_status (into_response e) = 429"
    by (simp add: into_response_def split: prod.split)
  moreover have "body_code (er_body (into_response e)) = body_code (er_body (into_response e'))
      \<longleftrightarrow> e = e'"
    using public_code_inj unfolding code by blast
  ultimately show ?thesis
    by (simp add: into_response_def split: prod.split)
qed

end
