(* ===== verification/Sessions.thy ===== *)
theory Sessions
  imports Errors Headers "HOL-Library.Multiset" "HOL-Library.List_Lexorder" "HOL-Library.Product_Lexorder"
begin

text \<open>
  Tokens, cookies and the session database of \<open>src/src/auth.rs\<close>. A table is a list of rows with
  distinct primary keys; a transaction is a function on the tables, so that a constraint violation
  leaves them unchanged. The order \<open>hex(session_key) DESC\<close> of the SQL queries is the
  lexicographic order of the key bytes.
\<close>

subsection \<open>Tokens\<close>

definition TOKEN_BYTES :: nat where "TOKEN_BYTES = 32"

definition hex_digit :: "nat \<Rightarrow> nat" where
  "hex_digit n = (if n < 10 then 48 + n else 87 + n)"

fun encode_hex :: "bytes \<Rightarrow> str" where
  "encode_hex [] = []"
| "encode_hex (b # bs) = hex_digit (unat b div 16) # hex_digit (unat b mod 16) # encode_hex bs"

definition decode_nibble :: "nat \<Rightarrow> nat option" where
  "decode_nibble v =
     (if 48 \<le> v \<and> v \<le> 57 then Some (v - 48)
      else if 97 \<le> v \<and> v \<le> 102 then Some (v - 97 + 10) else None)"

fun decode_pairs :: "nat list \<Rightarrow> bytes option" where
  "decode_pairs (h # l # rest) =
     (case decode_nibble h of
        None \<Rightarrow> None
      | Some a \<Rightarrow> (case decode_nibble l of
          None \<Rightarrow> None
        | Some b \<Rightarrow> map_option ((#) (of_nat (a * 16 + b))) (decode_pairs rest)))"
| "decode_pairs _ = Some []"

definition decode_token :: "str \<Rightarrow> bytes option" where
  "decode_token value =
     (if str_len value \<noteq> TOKEN_BYTES * 2 then None else decode_pairs (utf8 value))"

lemma decode_hex_digit: "n < 16 \<Longrightarrow> decode_nibble (hex_digit n) = Some n"
  by (auto simp: decode_nibble_def hex_digit_def)

lemma hex_digit_decode: "decode_nibble v = Some n \<Longrightarrow> hex_digit n = v \<and> n < 16"
  by (auto simp: decode_nibble_def hex_digit_def split: if_splits)

lemma nibbles: "unat (b :: u8) div 16 < 16" "unat b mod 16 < 16"
  using unat_u8 [of b] by (linarith, simp)

lemma hex_digit_ascii: "n < 16 \<Longrightarrow> hex_digit n < 128"
  by (simp add: hex_digit_def)

lemma encode_hex_ascii: "is_ascii (encode_hex bs)"
proof (induction bs)
  case (Cons b bs)
  then show ?case using nibbles [of b] by (simp add: is_ascii_def hex_digit_ascii)
qed (simp add: is_ascii_def)

lemma length_encode_hex: "length (encode_hex bs) = 2 * length bs"
  by (induction bs) auto

lemma of_nat_unat_split: "of_nat (unat b div 16 * 16 + unat b mod 16) = (b :: u8)"
  by simp

lemma decode_pairs_encode: "decode_pairs (encode_hex bs) = Some bs"
proof (induction bs)
  case (Cons b bs)
  then show ?case using of_nat_unat_split [of b] nibbles [of b] by (simp only: encode_hex.simps decode_pairs.simps
      decode_hex_digit option.case option.map)
qed simp

lemma decode_pairs_sound:
  "decode_pairs cs = Some bs \<Longrightarrow> even (length cs) \<Longrightarrow> encode_hex bs = cs"
proof (induction cs arbitrary: bs rule: decode_pairs.induct)
  case (1 h l rest)
  then obtain a b tl where ab: "decode_nibble h = Some a" "decode_nibble l = Some b"
    "decode_pairs rest = Some tl" "bs = of_nat (a * 16 + b) # tl"
    by (auto split: option.splits)
  have lt: "a < 16" "b < 16" "hex_digit a = h" "hex_digit b = l"
    using hex_digit_decode ab(1,2) by auto
  then have "unat (of_nat (a * 16 + b) :: u8) = a * 16 + b"
    by (simp only: unat_of_nat_u8) simp
  moreover have "encode_hex tl = rest" using 1 ab by auto
  ultimately show ?case using ab lt by simp
qed auto

text \<open>Session tokens and their cookie texts are in bijection.\<close>

interpretation token_codec: codec encode_hex decode_token "\<lambda>bs. length bs = TOKEN_BYTES"
proof unfold_locales
  fix bs :: bytes assume "length bs = TOKEN_BYTES"
  then show "decode_token (encode_hex bs) = Some bs"
    by (simp add: decode_token_def str_len_ascii encode_hex_ascii length_encode_hex utf8_ascii
        decode_pairs_encode)
next
  fix cookie :: str and bs assume d: "decode_token cookie = Some bs"
  then have l: "length (utf8 cookie) = 64" "decode_pairs (utf8 cookie) = Some bs"
    by (auto simp: decode_token_def str_len_def TOKEN_BYTES_def split: if_splits)
  then have e: "encode_hex bs = utf8 cookie" using decode_pairs_sound by auto
  have "c < 0x80" if "c \<in> set cookie" for c
  proof (rule ccontr)
    assume "\<not> c < 0x80"
    then have "\<exists>b \<in> set (utf8_char c). 0x80 \<le> b" by (auto simp: utf8_char_def)
    then have "\<exists>b \<in> set (utf8 cookie). 0x80 \<le> b" using that by (auto simp: utf8_def)
    then show False using encode_hex_ascii [of bs] unfolding e is_ascii_def by force
  qed
  then have "utf8 cookie = cookie" by (simp add: utf8_ascii is_ascii_def)
  then show "length bs = TOKEN_BYTES \<and> encode_hex bs = cookie"
    using e l(1) length_encode_hex [of bs] by (simp add: TOKEN_BYTES_def)
qed

subsection \<open>Cookies and origins\<close>

definition SESSION_COOKIE :: str where "SESSION_COOKIE = lit ''__Host-crabinet_session''"

definition cookie_pair :: "nat list \<Rightarrow> (str \<times> str) option" where
  "cookie_pair raw = (case utf8_decode raw of None \<Rightarrow> None | Some pair \<Rightarrow> split_once 61 (trim pair))"

fun find_cookie :: "str \<Rightarrow> str option \<Rightarrow> (str \<times> str) option list \<Rightarrow> str option" where
  "find_cookie name found [] = found"
| "find_cookie name found (None # ps) = find_cookie name found ps"
| "find_cookie name found (Some (key, value) # ps) =
     (if key = name
      then (if found \<noteq> None then None else find_cookie name (Some value) ps)
      else find_cookie name found ps)"

definition cookie_value :: "HeaderMap \<Rightarrow> str \<Rightarrow> str option" where
  "cookie_value headers name =
     find_cookie name None
       (concat (map (\<lambda>v. map cookie_pair (split_on 59 (as_bytes v))) (get_all headers ''cookie'')))"

definition session_cookie :: "HeaderMap \<Rightarrow> str option" where
  "session_cookie headers = cookie_value headers SESSION_COOKIE"

text \<open>\<open>http::Uri\<close> parsing is a parameter: the scheme and the authority of a parsed text.\<close>

type_synonym uri_parser = "str \<Rightarrow> (str option \<times> str option) option"

definition validate_same_origin :: "uri_parser \<Rightarrow> HeaderMap \<Rightarrow> AppError + unit" where
  "validate_same_origin parse_uri headers =
     (if (case header_get headers ''sec-fetch-site'' of
            Some site \<Rightarrow> as_bytes site \<noteq> lit ''same-origin'' | None \<Rightarrow> False)
      then Err Forbidden
      else
        and_then (ok_or Forbidden (Option.bind (header_get headers ''host'') to_str)) (\<lambda>host.
        and_then (ok_or Forbidden (Option.bind
            (case header_get headers ''origin'' of
               Some v \<Rightarrow> Some v | None \<Rightarrow> header_get headers ''referer'') to_str)) (\<lambda>source.
        and_then (ok_or Forbidden (parse_uri source)) (\<lambda>(scheme, authority).
          if scheme \<notin> {Some (lit ''http''), Some (lit ''https'')} \<or> authority \<noteq> Some host
          then Err Forbidden else Ok ()))))"

subsection \<open>The session table\<close>

record StoredSession =
  ss_username :: str
  ss_picture_url :: "str option"
  ss_created_at :: int
  ss_last_seen_at :: int
  ss_expires_at :: int

type_synonym sessions = "(bytes \<times> StoredSession) list"

datatype AuthError = Database | Worker | RandomError

record SessionRotation =
  rot_old_key :: "bytes option"
  rot_new_key :: bytes
  rot_username :: str
  rot_picture_url :: "str option"
  rot_now :: int
  rot_expires_at :: int
  rot_idle_cutoff :: int
  rot_max_per_user :: nat
  rot_max_total :: nat

definition recency :: "bytes \<times> StoredSession \<Rightarrow> int \<times> int \<times> nat list" where
  "recency row = (ss_last_seen_at (snd row), ss_created_at (snd row), map unat (fst row))"

text \<open>\<open>ORDER BY last_seen_at DESC, created_at DESC, hex(session_key) DESC\<close>.\<close>

definition by_recency :: "sessions \<Rightarrow> sessions" where
  "by_recency rows = rev (sort_key recency rows)"

text \<open>\<open>DELETE ... WHERE session_key IN (SELECT ... LIMIT -1 OFFSET n)\<close>.\<close>

definition delete_beyond :: "(StoredSession \<Rightarrow> bool) \<Rightarrow> nat \<Rightarrow> sessions \<Rightarrow> sessions" where
  "delete_beyond P n rows =
     (let gone = keys (drop n (by_recency (filter (\<lambda>r. P (snd r)) rows)))
      in filter (\<lambda>r. fst r \<notin> set gone) rows)"

definition session_delete :: "bytes \<Rightarrow> sessions \<Rightarrow> sessions" where
  "session_delete key rows = remove_key key rows"

definition rotate :: "SessionRotation \<Rightarrow> sessions \<Rightarrow> AuthError + sessions" where
  "rotate r rows =
     (let rows = (case rot_old_key r of Some k \<Rightarrow> remove_key k rows | None \<Rightarrow> rows);
          rows = filter (\<lambda>(_, s). \<not> (ss_expires_at s \<le> rot_now r \<or> ss_last_seen_at s \<le> rot_idle_cutoff r)) rows;
          rows = delete_beyond (\<lambda>s. ss_username s = rot_username r) (rot_max_per_user r - 1) rows;
          rows = delete_beyond (\<lambda>_. True) (rot_max_total r - 1) rows
      in if length (rot_new_key r) \<noteq> 32 \<or> rot_new_key r \<in> set (keys rows) then Err Database
         else Ok (rows @ [(rot_new_key r,
           \<lparr> ss_username = rot_username r, ss_picture_url = rot_picture_url r,
             ss_created_at = rot_now r, ss_last_seen_at = rot_now r,
             ss_expires_at = rot_expires_at r \<rparr>)]))"

definition session_lookup :: "bytes \<Rightarrow> sessions \<Rightarrow> StoredSession option" where
  "session_lookup key rows = map_of rows key"

definition session_touch :: "bytes \<Rightarrow> int \<Rightarrow> sessions \<Rightarrow> sessions" where
  "session_touch key now rows =
     map (\<lambda>(k, s). (k, if k = key then s\<lparr>ss_last_seen_at := now\<rparr> else s)) rows"

subsection \<open>The preferences table\<close>

datatype ThemePreference = System | Light | Dark

fun theme_as_str :: "ThemePreference \<Rightarrow> str" where
  "theme_as_str System = lit ''system''"
| "theme_as_str Light = lit ''light''"
| "theme_as_str Dark = lit ''dark''"

definition theme_from_column :: "str \<Rightarrow> ThemePreference option" where
  "theme_from_column v =
     (if v = lit ''system'' then Some System
      else if v = lit ''light'' then Some Light
      else if v = lit ''dark'' then Some Dark else None)"

record DisplayPreferences =
  dp_show_hidden_files :: bool
  dp_theme :: ThemePreference
  dp_autosave :: bool
  dp_wrap_lines :: bool

definition DisplayPreferences_default :: DisplayPreferences where
  "DisplayPreferences_default =
     \<lparr> dp_show_hidden_files = False, dp_theme = System, dp_autosave = True, dp_wrap_lines = False \<rparr>"

record DisplayPreferencesUpdate =
  du_show_hidden_files :: "bool option"
  du_theme :: "ThemePreference option"
  du_autosave :: "bool option"
  du_wrap_lines :: "bool option"

record DefaultFolder =
  df_share_id :: str
  df_path :: str

record PreferenceRow =
  pr_share_id :: str
  pr_path :: str
  pr_show_hidden_files :: bool
  pr_theme :: str
  pr_autosave :: bool
  pr_wrap_lines :: bool

type_synonym preferences = "str \<rightharpoonup> PreferenceRow"

definition coalesce :: "'a option \<Rightarrow> 'a \<Rightarrow> 'a" where
  "coalesce x d = (case x of Some v \<Rightarrow> v | None \<Rightarrow> d)"

definition read_display_preferences :: "preferences \<Rightarrow> str \<Rightarrow> DisplayPreferences" where
  "read_display_preferences prefs username =
     (case prefs username of
        None \<Rightarrow> DisplayPreferences_default
      | Some row \<Rightarrow>
          \<lparr> dp_show_hidden_files = pr_show_hidden_files row,
            dp_theme = coalesce (theme_from_column (pr_theme row)) System,
            dp_autosave = pr_autosave row, dp_wrap_lines = pr_wrap_lines row \<rparr>)"

definition is_default_row :: "PreferenceRow \<Rightarrow> bool" where
  "is_default_row row \<longleftrightarrow>
     pr_share_id row = [] \<and> \<not> pr_show_hidden_files row \<and> pr_theme row = lit ''system''
     \<and> pr_autosave row \<and> \<not> pr_wrap_lines row"

definition delete_default_preferences :: "str \<Rightarrow> preferences \<Rightarrow> preferences" where
  "delete_default_preferences username prefs =
     (case prefs username of
        Some row \<Rightarrow> if is_default_row row then prefs(username := None) else prefs
      | None \<Rightarrow> prefs)"

definition default_folder :: "preferences \<Rightarrow> str \<Rightarrow> DefaultFolder option" where
  "default_folder prefs username =
     (case prefs username of
        Some row \<Rightarrow>
          if pr_share_id row \<noteq> [] then Some \<lparr> df_share_id = pr_share_id row, df_path = pr_path row \<rparr>
          else None
      | None \<Rightarrow> None)"

definition new_row :: PreferenceRow where
  "new_row = \<lparr> pr_share_id = [], pr_path = [], pr_show_hidden_files = False,
               pr_theme = lit ''system'', pr_autosave = True, pr_wrap_lines = False \<rparr>"

definition set_default_folder :: "str \<Rightarrow> DefaultFolder option \<Rightarrow> preferences \<Rightarrow> preferences" where
  "set_default_folder username folder prefs =
     (case folder of
        Some f \<Rightarrow>
          prefs(username \<mapsto> (coalesce (prefs username) new_row)
                  \<lparr> pr_share_id := df_share_id f, pr_path := df_path f \<rparr>)
      | None \<Rightarrow>
          delete_default_preferences username
            (case prefs username of
               Some row \<Rightarrow> prefs(username \<mapsto> row\<lparr>pr_share_id := [], pr_path := []\<rparr>)
             | None \<Rightarrow> prefs))"

definition update_display_preferences ::
  "str \<Rightarrow> DisplayPreferencesUpdate \<Rightarrow> preferences \<Rightarrow> DisplayPreferences \<times> preferences" where
  "update_display_preferences username u prefs =
     (let row = coalesce (prefs username) new_row;
          row = row\<lparr> pr_show_hidden_files := coalesce (du_show_hidden_files u) (pr_show_hidden_files row),
                     pr_theme := coalesce (map_option theme_as_str (du_theme u)) (pr_theme row),
                     pr_autosave := coalesce (du_autosave u) (pr_autosave row),
                     pr_wrap_lines := coalesce (du_wrap_lines u) (pr_wrap_lines row) \<rparr>;
          prefs = prefs(username \<mapsto> row);
          saved = read_display_preferences prefs username
      in (saved, delete_default_preferences username prefs))"

text \<open>
  At start-up the rows of users that are no longer configured leave all four tables; of the
  passkey tables only the key and the username of a row matter here.
\<close>

definition prune_unknown_users ::
  "str list \<Rightarrow> sessions \<times> preferences \<times> ('p \<times> str) list \<times> str list
   \<Rightarrow> sessions \<times> preferences \<times> ('p \<times> str) list \<times> str list" where
  "prune_unknown_users usernames tables =
     (case tables of (rows, prefs, passkeys, passkey_users) \<Rightarrow>
        (filter (\<lambda>(_, s). ss_username s \<in> set usernames) rows,
         prefs |` set usernames,
         filter (\<lambda>(_, u). u \<in> set usernames) passkeys,
         filter (\<lambda>u. u \<in> set usernames) passkey_users))"

lemma theme_column [simp]: "theme_from_column (theme_as_str t) = Some t"
  by (cases t) (simp_all add: theme_from_column_def lit_def)

lemma read_delete_default [simp]:
  "read_display_preferences (delete_default_preferences v prefs) u = read_display_preferences prefs u"
  by (auto simp: read_display_preferences_def delete_default_preferences_def is_default_row_def
      DisplayPreferences_default_def theme_from_column_def coalesce_def split: option.splits)

lemma folder_delete_default [simp]:
  "default_folder (delete_default_preferences v prefs) u = default_folder prefs u"
  by (auto simp: default_folder_def delete_default_preferences_def is_default_row_def
      split: option.splits)

lemma read_new_row: "coalesce (prefs u) new_row = row \<Longrightarrow>
   read_display_preferences prefs u =
     \<lparr> dp_show_hidden_files = pr_show_hidden_files row,
       dp_theme = coalesce (theme_from_column (pr_theme row)) System,
       dp_autosave = pr_autosave row, dp_wrap_lines = pr_wrap_lines row \<rparr>"
  by (auto simp: read_display_preferences_def new_row_def coalesce_def
      DisplayPreferences_default_def theme_from_column_def split: option.splits)

lemma read_set_default_folder:
  "read_display_preferences (set_default_folder u folder prefs) v = read_display_preferences prefs v"
proof (cases folder)
  case None
  show ?thesis unfolding set_default_folder_def None option.case read_delete_default
    by (cases "prefs u") (simp_all add: read_display_preferences_def)
next
  case (Some f)
  then show ?thesis
    by (cases "prefs u"; cases "v = u")
      (simp_all add: set_default_folder_def read_display_preferences_def coalesce_def new_row_def
        DisplayPreferences_default_def theme_from_column_def)
qed

subsection \<open>What a rotation keeps\<close>

lemma set_by_recency [simp]: "set (by_recency rows) = set rows"
  by (simp add: by_recency_def)

lemma mset_by_recency [simp]: "mset (by_recency rows) = mset rows"
  by (simp add: by_recency_def)

lemma distinct_keys_filter: "distinct (keys rows) \<Longrightarrow> distinct (keys (filter P rows))"
  by (rule keys_filter)

lemma delete_beyond_subset: "set (delete_beyond P n rows) \<subseteq> set rows"
  by (auto simp: delete_beyond_def Let_def)

lemma delete_beyond_distinct: "distinct (keys rows) \<Longrightarrow> distinct (keys (delete_beyond P n rows))"
  by (simp add: delete_beyond_def Let_def keys_filter)

lemma length_filter_filter: "length (filter P (filter Q xs)) \<le> length (filter P xs)"
  by (induction xs) auto

lemma delete_beyond_le: "length (filter (\<lambda>r. P (snd r)) (delete_beyond P n rows)) \<le> n"
proof -
  let ?sel = "filter (\<lambda>r. P (snd r)) rows"
  let ?ys = "by_recency ?sel"
  let ?Q = "\<lambda>r. fst r \<notin> set (keys (drop n ?ys))"
  have "length (filter (\<lambda>r. P (snd r)) (delete_beyond P n rows)) = length (filter ?Q ?sel)"
    by (simp add: delete_beyond_def Let_def conj_commute)
  also have "\<dots> = length (filter ?Q ?ys)"
  proof -
    have "mset (filter ?Q ?sel) = mset (filter ?Q ?ys)" by (simp only: mset_filter mset_by_recency)
    then show ?thesis by (metis size_mset)
  qed
  also have "filter ?Q ?ys = filter ?Q (take n ?ys) @ filter ?Q (drop n ?ys)"
    by (metis append_take_drop_id filter_append)
  also have "filter ?Q (drop n ?ys) = []" by (simp add: filter_empty_conv)
  finally show ?thesis
    using length_filter_le [of ?Q "take n ?ys"] by simp
qed

lemma delete_beyond_other:
  assumes "distinct (keys rows)" "\<not> P (snd r)" "r \<in> set rows"
  shows "r \<in> set (delete_beyond P n rows)"
proof -
  have "fst r \<notin> set (keys (drop n (by_recency (filter (\<lambda>r. P (snd r)) rows))))"
  proof
    assume "fst r \<in> set (keys (drop n (by_recency (filter (\<lambda>r. P (snd r)) rows))))"
    then obtain q where "q \<in> set (by_recency (filter (\<lambda>r. P (snd r)) rows))" "fst q = fst r"
      by (auto dest: in_set_dropD)
    then have "q \<in> set rows" "P (snd q)" by auto
    with assms \<open>fst q = fst r\<close> show False by (metis eq_key_imp_eq_value prod.collapse)
  qed
  with assms(3) show ?thesis by (simp add: delete_beyond_def Let_def)
qed

text \<open>A row kept by a bounded deletion is at least as recent as every row it removed.\<close>

lemma sorted_by_recency: "sorted (map recency (rev (by_recency rows)))"
  by (simp add: by_recency_def)

lemma delete_beyond_recent:
  assumes "distinct (keys rows)" "r \<in> set (delete_beyond P n rows)" "P (snd r)"
    "q \<in> set rows" "q \<notin> set (delete_beyond P n rows)"
  shows "recency q \<le> recency r"
proof -
  let ?ys = "by_recency (filter (\<lambda>r. P (snd r)) rows)"
  have ys: "set ?ys = {x \<in> set rows. P (snd x)}" by auto
  from assms(4,5) obtain q' where "q' \<in> set (drop n ?ys)" "fst q' = fst q"
    by (auto simp: delete_beyond_def Let_def)
  then have "q' = q" using ys assms(1,4)
    by (metis (lifting) eq_key_imp_eq_value in_set_dropD mem_Collect_eq prod.collapse)
  then have "q \<in> set (drop n ?ys)" using \<open>q' \<in> _\<close> by simp
  moreover have "r \<in> set (take n ?ys)"
  proof -
    have "r \<in> set rows" "fst r \<notin> set (keys (drop n ?ys))"
      using assms(2) by (auto simp: delete_beyond_def Let_def)
    then have "r \<in> set ?ys" "r \<notin> set (drop n ?ys)" using ys assms(3) by auto
    then show ?thesis by (metis append_take_drop_id set_append UnE)
  qed
  moreover have "sorted (map recency (rev (drop n ?ys) @ rev (take n ?ys)))"
    using sorted_by_recency [of "filter (\<lambda>r. P (snd r)) rows"]
    by (metis append_take_drop_id rev_append)
  ultimately show ?thesis by (simp add: sorted_append)
qed

lemma rotate_Ok:
  assumes "rotate r rows = Ok rows'" "distinct (keys rows)"
  obtains kept where
    "rows' = kept @ [(rot_new_key r, \<lparr> ss_username = rot_username r, ss_picture_url = rot_picture_url r,
        ss_created_at = rot_now r, ss_last_seen_at = rot_now r, ss_expires_at = rot_expires_at r \<rparr>)]"
    "distinct (keys kept)" "rot_new_key r \<notin> set (keys kept)" "length (rot_new_key r) = 32"
    "set kept \<subseteq> set rows" "length kept \<le> rot_max_total r - 1"
    "length (filter (\<lambda>s. ss_username (snd s) = rot_username r) kept) \<le> rot_max_per_user r - 1"
    "\<forall>(k, s) \<in> set kept. rot_now r < ss_expires_at s \<and> rot_idle_cutoff r < ss_last_seen_at s
       \<and> rot_old_key r \<noteq> Some k"
proof -
  define r1 where "r1 = (case rot_old_key r of Some k \<Rightarrow> remove_key k rows | None \<Rightarrow> rows)"
  define r2 where "r2 = filter (\<lambda>(_, s). \<not> (ss_expires_at s \<le> rot_now r \<or> ss_last_seen_at s \<le> rot_idle_cutoff r)) r1"
  define r3 where "r3 = delete_beyond (\<lambda>s. ss_username s = rot_username r) (rot_max_per_user r - 1) r2"
  define kept where "kept = delete_beyond (\<lambda>_. True) (rot_max_total r - 1) r3"
  have d: "distinct (keys kept)"
    unfolding kept_def r3_def r2_def r1_def using assms(2)
    by (intro delete_beyond_distinct keys_filter) (auto simp: remove_key_def keys_filter split: option.split)
  have sub: "set kept \<subseteq> set r3" "set r3 \<subseteq> set r2" unfolding kept_def r3_def
    by (rule delete_beyond_subset)+
  have r1: "set r1 \<subseteq> set rows" "\<forall>(k, s) \<in> set r1. rot_old_key r \<noteq> Some k"
    by (auto simp: r1_def remove_key_def split: option.splits)
  have "length kept \<le> rot_max_total r - 1"
    using delete_beyond_le [of "\<lambda>_. True" _ r3] by (simp add: kept_def)
  moreover have "length (filter (\<lambda>s. ss_username (snd s) = rot_username r) kept) \<le> rot_max_per_user r - 1"
  proof -
    have "kept = filter (\<lambda>x. fst x \<notin> set (keys (drop (rot_max_total r - 1) (by_recency r3)))) r3"
      by (simp add: kept_def delete_beyond_def)
    then have "length (filter (\<lambda>s. ss_username (snd s) = rot_username r) kept) \<le>
        length (filter (\<lambda>s. ss_username (snd s) = rot_username r) r3)"
      using length_filter_filter by simp
    also have "\<dots> \<le> rot_max_per_user r - 1"
      unfolding r3_def by (rule delete_beyond_le)
    finally show ?thesis .
  qed
  moreover have "\<forall>(k, s) \<in> set kept. rot_now r < ss_expires_at s \<and> rot_idle_cutoff r < ss_last_seen_at s
       \<and> rot_old_key r \<noteq> Some k" "set kept \<subseteq> set rows"
    using sub r1 unfolding r2_def by (fastforce simp: not_le)+
  ultimately show ?thesis using assms(1) d that [of kept]
    unfolding rotate_def Let_def r1_def [symmetric] r2_def [symmetric] r3_def [symmetric] kept_def [symmetric]
    by (auto split: if_splits)
qed

subsection \<open>Properties\<close>

text \<open>
  Sign-ins keep the session table within its bounds. Rotating in a new session leaves at most
  \<open>max_sessions_per_user\<close> sessions of its user and \<open>max_sessions_total\<close> in all (when those limits are
  positive), with distinct keys; the new session is found under its key, the presented
  old one is gone, and every other surviving session was there before, has not expired and has
  not been idle past the cutoff.
\<close>

theorem rotate_bounds:
  assumes "rotate r rows = Ok rows'" "distinct (keys rows)"
    "0 < rot_max_per_user r" "0 < rot_max_total r"
  shows "distinct (keys rows')
    \<and> length (filter (\<lambda>s. ss_username (snd s) = rot_username r) rows') \<le> rot_max_per_user r
    \<and> length rows' \<le> rot_max_total r
    \<and> map_option ss_username (session_lookup (rot_new_key r) rows') = Some (rot_username r)
    \<and> (\<forall>k s. session_lookup k rows' = Some s \<and> k \<noteq> rot_new_key r \<longrightarrow>
          (k, s) \<in> set rows \<and> rot_now r < ss_expires_at s \<and> rot_idle_cutoff r < ss_last_seen_at s
          \<and> rot_old_key r \<noteq> Some k)"
proof -
  obtain kept where k:
    "rows' = kept @ [(rot_new_key r, \<lparr> ss_username = rot_username r, ss_picture_url = rot_picture_url r,
        ss_created_at = rot_now r, ss_last_seen_at = rot_now r, ss_expires_at = rot_expires_at r \<rparr>)]"
    "distinct (keys kept)" "rot_new_key r \<notin> set (keys kept)" "length (rot_new_key r) = 32"
    "set kept \<subseteq> set rows" "length kept \<le> rot_max_total r - 1"
    "length (filter (\<lambda>s. ss_username (snd s) = rot_username r) kept) \<le> rot_max_per_user r - 1"
    "\<forall>(k, s) \<in> set kept. rot_now r < ss_expires_at s \<and> rot_idle_cutoff r < ss_last_seen_at s
       \<and> rot_old_key r \<noteq> Some k"
    by (rule rotate_Ok [OF assms(1,2)])
  have "map_of kept (rot_new_key r) = None" using k(3) by (simp add: map_of_eq_None_iff)
  then have "map_option ss_username (session_lookup (rot_new_key r) rows') = Some (rot_username r)"
    by (simp add: session_lookup_def k(1) map_add_def)
  moreover have kept: "(j, s) \<in> set kept" if "session_lookup j rows' = Some s" "j \<noteq> rot_new_key r" for j s
    using that by (auto simp: session_lookup_def k(1) map_add_def dest: map_of_SomeD split: option.splits)
  have "\<forall>j s. session_lookup j rows' = Some s \<and> j \<noteq> rot_new_key r \<longrightarrow>
      (j, s) \<in> set rows \<and> rot_now r < ss_expires_at s \<and> rot_idle_cutoff r < ss_last_seen_at s
      \<and> rot_old_key r \<noteq> Some j"
    using kept k(5,8) by blast
  moreover have "distinct (keys rows')" "length rows' \<le> rot_max_total r"
    "length (filter (\<lambda>s. ss_username (snd s) = rot_username r) rows') \<le> rot_max_per_user r"
    using k(2,3,6,7) assms(3,4) by (simp_all add: k(1))
  ultimately show ?thesis by blast
qed

definition sample_rotation :: SessionRotation where
  "sample_rotation = \<lparr> rot_old_key = None, rot_new_key = replicate 32 7, rot_username = [97],
     rot_picture_url = None, rot_now = 100, rot_expires_at = 200, rot_idle_cutoff = 50,
     rot_max_per_user = 1, rot_max_total = 4 \<rparr>"

theorem rotate_bounds_witness:
  "\<exists>rows'. rotate sample_rotation [] = Ok rows' \<and> length rows' \<le> 4
     \<and> map_option ss_username (session_lookup (replicate 32 7) rows') = Some [97]"
proof -
  obtain rows' where r: "rotate sample_rotation [] = Ok rows'"
    by (simp add: rotate_def sample_rotation_def delete_beyond_def by_recency_def)
  moreover have "distinct (keys ([] :: sessions))" by simp
  ultimately show ?thesis using rotate_bounds [OF r] by (auto simp: sample_rotation_def)
qed

text \<open>
  Display settings follow the account. A partial update returns, and stores, the account's
  previous settings with exactly the given fields replaced; it never changes the start folder or
  another account's row; and setting or clearing the start folder never changes the display
  settings, although rows equal to the defaults are deleted behind the scenes.
\<close>

theorem preferences_update:
  "update_display_preferences username u prefs = (saved, prefs') \<Longrightarrow>
   saved = \<lparr> dp_show_hidden_files = coalesce (du_show_hidden_files u)
               (dp_show_hidden_files (read_display_preferences prefs username)),
             dp_theme = coalesce (du_theme u) (dp_theme (read_display_preferences prefs username)),
             dp_autosave = coalesce (du_autosave u)
               (dp_autosave (read_display_preferences prefs username)),
             dp_wrap_lines = coalesce (du_wrap_lines u)
               (dp_wrap_lines (read_display_preferences prefs username)) \<rparr>
   \<and> read_display_preferences prefs' username = saved
   \<and> default_folder prefs' = default_folder prefs
   \<and> (\<forall>v. v \<noteq> username \<longrightarrow> prefs' v = prefs v)
   \<and> read_display_preferences (set_default_folder username folder prefs) =
       read_display_preferences prefs"
proof -
  assume u: "update_display_preferences username u prefs = (saved, prefs')"
  define row where "row = coalesce (prefs username) new_row"
  define row' where "row' = row\<lparr> pr_show_hidden_files := coalesce (du_show_hidden_files u) (pr_show_hidden_files row),
                     pr_theme := coalesce (map_option theme_as_str (du_theme u)) (pr_theme row),
                     pr_autosave := coalesce (du_autosave u) (pr_autosave row),
                     pr_wrap_lines := coalesce (du_wrap_lines u) (pr_wrap_lines row) \<rparr>"
  have p: "saved = read_display_preferences (prefs(username \<mapsto> row')) username"
    "prefs' = delete_default_preferences username (prefs(username \<mapsto> row'))"
    using u unfolding update_display_preferences_def Let_def row_def [symmetric] row'_def [symmetric]
    by simp_all
  note old = read_new_row [of prefs username, OF row_def [symmetric]]
  have new: "saved = \<lparr> dp_show_hidden_files = pr_show_hidden_files row',
       dp_theme = coalesce (theme_from_column (pr_theme row')) System,
       dp_autosave = pr_autosave row', dp_wrap_lines = pr_wrap_lines row' \<rparr>"
    unfolding p(1) by (rule read_new_row) (simp add: coalesce_def)
  have "pr_share_id row' = pr_share_id row" "pr_path row' = pr_path row" by (simp_all add: row'_def)
  then have "default_folder (prefs(username \<mapsto> row')) v = default_folder prefs v" for v
    by (cases "prefs username"; cases "v = username")
      (simp_all add: default_folder_def row_def coalesce_def new_row_def)
  then have "default_folder prefs' = default_folder prefs" by (simp add: p(2) fun_eq_iff)
  moreover have "\<forall>v. v \<noteq> username \<longrightarrow> prefs' v = prefs v"
    unfolding p(2) by (auto simp: delete_default_preferences_def)
  moreover have "read_display_preferences (set_default_folder username folder prefs) v =
      read_display_preferences prefs v" for v
    by (rule read_set_default_folder)
  moreover have "read_display_preferences prefs' username = saved" by (simp add: p)
  moreover have "coalesce (theme_from_column (pr_theme row')) System =
      coalesce (du_theme u) (coalesce (theme_from_column (pr_theme row)) System)"
    by (cases "du_theme u") (simp_all add: row'_def coalesce_def)
  ultimately show ?thesis unfolding old new by (simp add: row'_def fun_eq_iff)
qed

theorem preferences_update_witness:
  "let u = \<lparr> du_show_hidden_files = Some True, du_theme = None, du_autosave = None, du_wrap_lines = None \<rparr>
   in dp_show_hidden_files (read_display_preferences
        (snd (update_display_preferences [97] u Map.empty)) [97])"
  using preferences_update [of "[97]" "\<lparr> du_show_hidden_files = Some True, du_theme = None,
      du_autosave = None, du_wrap_lines = None \<rparr>" Map.empty, OF surjective_pairing]
  by (simp add: coalesce_def)

end
