(* ===== verification/RateLimit.thy ===== *)
theory RateLimit
  imports Prelude "HOL-Library.Multiset"
begin

text \<open>
  The bounded attempt limiter of \<open>src/src/auth.rs\<close>, which guards password sign-ins per account and
  source and all sign-ins per source. The hash map is an association list with distinct keys whose
  order stands for the map's iteration order; the reachable states below may reorder it at will
  between calls. Times are \<open>i64\<close> seconds with saturating subtraction.
\<close>

subsection \<open>State and operations\<close>

definition RATE_LIMIT_WINDOW_SECONDS :: int where "RATE_LIMIT_WINDOW_SECONDS = 60"
definition MAX_RATE_LIMIT_KEYS :: nat where "MAX_RATE_LIMIT_KEYS = 4096"

record AttemptWindow =
  aw_started_at :: int
  aw_attempts :: nat
  aw_last_seen_at :: int

record 'k RateLimiter =
  rl_entries :: "('k \<times> AttemptWindow) list"
  rl_attempts_per_window :: nat

text \<open>The first entry with the least time, \<open>Iterator::min_by_key\<close>.\<close>

fun min_by_last_seen :: "('k \<times> AttemptWindow) list \<Rightarrow> ('k \<times> AttemptWindow) option" where
  "min_by_last_seen [] = None"
| "min_by_last_seen (e # es) =
     (case min_by_last_seen es of
        None \<Rightarrow> Some e
      | Some f \<Rightarrow> if aw_last_seen_at (snd f) < aw_last_seen_at (snd e) then Some f else Some e)"

definition fresh_window :: "int \<Rightarrow> AttemptWindow" where
  "fresh_window now = \<lparr> aw_started_at = now, aw_attempts = 0, aw_last_seen_at = now \<rparr>"

definition retain_live :: "int \<Rightarrow> ('k \<times> AttemptWindow) list \<Rightarrow> ('k \<times> AttemptWindow) list" where
  "retain_live now es =
     filter (\<lambda>(_, w). saturating_sub_i64 now (aw_last_seen_at w) < RATE_LIMIT_WINDOW_SECONDS) es"

text \<open>Making room for a new key: an exhausted window is never evicted.\<close>

definition make_room ::
  "'k \<Rightarrow> nat \<Rightarrow> ('k \<times> AttemptWindow) list \<Rightarrow> ('k \<times> AttemptWindow) list option" where
  "make_room key limit es =
     (if MAX_RATE_LIMIT_KEYS \<le> length es \<and> key \<notin> fst ` set es then
        (case min_by_last_seen (filter (\<lambda>(_, w). aw_attempts w < limit) es) of
           None \<Rightarrow> None
         | Some (oldest, _) \<Rightarrow> Some (remove_key oldest es))
      else Some es)"

definition touch_window :: "int \<Rightarrow> AttemptWindow \<Rightarrow> AttemptWindow" where
  "touch_window now w =
     (if RATE_LIMIT_WINDOW_SECONDS \<le> saturating_sub_i64 now (aw_started_at w) \<or> now < aw_started_at w
      then fresh_window now else w)\<lparr>aw_last_seen_at := now\<rparr>"

definition allow :: "'k \<Rightarrow> int \<Rightarrow> 'k RateLimiter \<Rightarrow> bool \<times> 'k RateLimiter" where
  "allow key now rl =
     (let es = retain_live now (rl_entries rl); limit = rl_attempts_per_window rl in
      case make_room key limit es of
        None \<Rightarrow> (False, rl\<lparr>rl_entries := es\<rparr>)
      | Some es \<Rightarrow>
          (let w = touch_window now
                     (case map_of es key of Some w \<Rightarrow> w | None \<Rightarrow> fresh_window now)
           in if limit \<le> aw_attempts w
              then (False, rl\<lparr>rl_entries := put_key key w es\<rparr>)
              else (True, rl\<lparr>rl_entries :=
                put_key key (w\<lparr>aw_attempts := saturating_add 32 (aw_attempts w) 1\<rparr>) es\<rparr>)))"

definition clear :: "'k \<Rightarrow> 'k RateLimiter \<Rightarrow> 'k RateLimiter" where
  "clear key rl = rl\<lparr>rl_entries := remove_key key (rl_entries rl)\<rparr>"

subsection \<open>The oldest window\<close>

lemma min_by_last_seen_None [simp]: "min_by_last_seen es = None \<longleftrightarrow> es = []"
  by (cases es) (auto split: option.splits if_split_asm)

lemma min_by_last_seen_mem: "min_by_last_seen es = Some e \<Longrightarrow> e \<in> set es"
  by (induction es arbitrary: e) (auto split: option.splits if_splits)

lemma min_by_last_seen_le:
  "min_by_last_seen es = Some e \<Longrightarrow> f \<in> set es \<Longrightarrow> aw_last_seen_at (snd e) \<le> aw_last_seen_at (snd f)"
proof (induction es arbitrary: e)
  case Nil
  then show ?case by simp
next
  case (Cons a es)
  show ?case
  proof (cases "min_by_last_seen es")
    case None
    with Cons.prems show ?thesis by simp
  next
    case (Some g)
    with Cons.IH [OF Some] Cons.prems show ?thesis by (auto split: if_splits)
  qed
qed


subsection \<open>Invariant\<close>

definition limiter_ok :: "'k RateLimiter \<Rightarrow> bool" where
  "limiter_ok rl \<longleftrightarrow>
     distinct (keys (rl_entries rl)) \<and> length (rl_entries rl) \<le> MAX_RATE_LIMIT_KEYS
     \<and> (\<forall>(k, w) \<in> set (rl_entries rl). aw_attempts w \<le> rl_attempts_per_window rl)"

lemma length_remove_key: "k \<in> fst ` set es \<Longrightarrow> length (remove_key k es) < length es"
  unfolding remove_key_def by (auto intro: length_filter_less)

lemma set_remove_key: "set (remove_key k es) \<subseteq> set es"
  by (auto simp: remove_key_def)

lemma distinct_remove_key: "distinct (keys es) \<Longrightarrow> distinct (keys (remove_key k es))"
  unfolding remove_key_def by (rule keys_filter)

lemma make_room_cases:
  assumes "make_room key limit es = Some es'"
  obtains (kept) "es' = es" "length es < MAX_RATE_LIMIT_KEYS \<or> key \<in> fst ` set es"
  | (evicted) oldest w where "MAX_RATE_LIMIT_KEYS \<le> length es" "key \<notin> fst ` set es"
      "min_by_last_seen (filter (\<lambda>(_, w). aw_attempts w < limit) es) = Some (oldest, w)"
      "es' = remove_key oldest es"
proof (cases "MAX_RATE_LIMIT_KEYS \<le> length es \<and> key \<notin> fst ` set es")
  case True
  with assms show ?thesis using evicted unfolding make_room_def by (simp split: option.splits prod.splits)
next
  case False
  with assms have "es' = es" by (simp only: make_room_def if_False option.inject)
  with False show ?thesis using kept by (simp add: not_le)
qed

lemma make_room_Some:
  assumes "make_room key limit es = Some es'" "distinct (keys es)"
    "length es \<le> MAX_RATE_LIMIT_KEYS"
  shows "set es' \<subseteq> set es" "distinct (keys es')"
    "key \<in> fst ` set es' \<and> length es' \<le> MAX_RATE_LIMIT_KEYS \<or> length es' < MAX_RATE_LIMIT_KEYS"
    "\<And>k w. map_of es k = Some w \<Longrightarrow> limit \<le> aw_attempts w \<Longrightarrow> map_of es' k = Some w"
    "map_of es' key = map_of es key"
proof -
  show "set es' \<subseteq> set es" "distinct (keys es')"
    by (rule make_room_cases [OF assms(1)]; simp add: set_remove_key distinct_remove_key assms(2))+
  show "key \<in> fst ` set es' \<and> length es' \<le> MAX_RATE_LIMIT_KEYS \<or> length es' < MAX_RATE_LIMIT_KEYS"
    using assms(1)
  proof (cases rule: make_room_cases)
    case kept
    then show ?thesis using assms(3) by auto
  next
    case (evicted oldest w)
    then have "oldest \<in> fst ` set es" by (force dest: min_by_last_seen_mem)
    with evicted show ?thesis using length_remove_key [of oldest es] assms(3) by simp
  qed
  show "map_of es' key = map_of es key"
    using assms(1)
  proof (cases rule: make_room_cases)
    case (evicted oldest w)
    then have "oldest \<noteq> key" by (force dest: min_by_last_seen_mem)
    with evicted(4) show ?thesis by (simp add: map_of_remove_key)
  qed simp
  fix k v assume kv: "map_of es k = Some v" "limit \<le> aw_attempts v"
  show "map_of es' k = Some v"
    using assms(1)
  proof (cases rule: make_room_cases)
    case (evicted oldest w)
    then have "(oldest, w) \<in> set es" "aw_attempts w < limit"
      by (auto dest: min_by_last_seen_mem)
    then have "oldest \<noteq> k" using kv assms(2) by (metis map_of_is_SomeI not_less option.inject)
    with evicted(4) kv show ?thesis by (simp add: map_of_remove_key)
  qed (use kv in simp)
qed

lemma retain_live_keeps:
  "distinct (keys es) \<Longrightarrow> distinct (keys (retain_live now es))"
  "length (retain_live now es) \<le> length es" "set (retain_live now es) \<subseteq> set es"
  unfolding retain_live_def by (auto simp: keys_filter)

lemma set_put_key: "e \<in> set (put_key k v es) \<Longrightarrow> e = (k, v) \<or> e \<in> set es"
  by (auto simp: put_key_def split: if_splits)

lemma allow_cases:
  obtains (full) "allow key now rl = (False, rl\<lparr>rl_entries := retain_live now (rl_entries rl)\<rparr>)"
      "make_room key (rl_attempts_per_window rl) (retain_live now (rl_entries rl)) = None"
  | (room) es w w' where
      "make_room key (rl_attempts_per_window rl) (retain_live now (rl_entries rl)) = Some es"
      "w = touch_window now (case map_of es key of Some w \<Rightarrow> w | None \<Rightarrow> fresh_window now)"
      "allow key now rl = (aw_attempts w < rl_attempts_per_window rl,
         rl\<lparr>rl_entries := put_key key w' es\<rparr>)"
      "w' = (if aw_attempts w < rl_attempts_per_window rl
             then w\<lparr>aw_attempts := saturating_add 32 (aw_attempts w) 1\<rparr> else w)"
  by (cases "make_room key (rl_attempts_per_window rl) (retain_live now (rl_entries rl))")
    (auto simp: allow_def Let_def)

lemma touch_window_attempts: "aw_attempts (touch_window now w) \<le> aw_attempts w"
  by (simp add: touch_window_def fresh_window_def)

lemma allow_ok:
  assumes "limiter_ok rl"
  shows "limiter_ok (snd (allow key now rl))"
proof -
  have r: "distinct (keys (retain_live now (rl_entries rl)))"
    "length (retain_live now (rl_entries rl)) \<le> MAX_RATE_LIMIT_KEYS"
    "\<forall>(k, w) \<in> set (retain_live now (rl_entries rl)). aw_attempts w \<le> rl_attempts_per_window rl"
    using assms retain_live_keeps(1) [of "rl_entries rl" now] retain_live_keeps(2) [of now "rl_entries rl"]
    by (auto simp: limiter_ok_def dest: retain_live_keeps(3) [THEN subsetD])
  show ?thesis
  proof (cases rule: allow_cases [of key now rl])
    case full
    with r show ?thesis by (simp add: limiter_ok_def)
  next
    case (room es w w')
    note m = make_room_Some [OF room(1) r(1,2)]
    have "aw_attempts w \<le> rl_attempts_per_window rl"
    proof (cases "map_of es key")
      case None
      then show ?thesis using touch_window_attempts [of now "fresh_window now"] room(2)
        by (simp add: fresh_window_def)
    next
      case (Some v)
      then have "aw_attempts v \<le> rl_attempts_per_window rl"
        using m(1) r(3) by (auto dest: map_of_SomeD)
      then show ?thesis using Some room(2) touch_window_attempts [of now v] by simp
    qed
    then have "aw_attempts w' \<le> rl_attempts_per_window rl"
      using room(4) by (simp add: saturating_add_def min_def)
    then show ?thesis using room(3) m(1-3) r(3)
      by (auto simp: limiter_ok_def distinct_put_key length_put_key dest!: set_put_key)
  qed
qed

lemma clear_ok: "limiter_ok rl \<Longrightarrow> limiter_ok (clear key rl)"
  by (auto simp: limiter_ok_def clear_def remove_key_def keys_filter
      intro: le_trans [OF length_filter_le])

subsection \<open>Runs\<close>

text \<open>
  A run of calls on one limiter, serialized by its mutex. Between two calls the iteration order
  of the map may be any.
\<close>

datatype 'k call = Allow 'k int | Clear 'k

inductive limiter_run :: "'k call list \<Rightarrow> 'k RateLimiter \<Rightarrow> 'k RateLimiter \<Rightarrow> bool" where
  run_nil: "limiter_run [] rl rl"
| run_allow: "\<lbrakk>mset es = mset (rl_entries rl);
               limiter_run calls (snd (allow k now (rl\<lparr>rl_entries := es\<rparr>))) rl'\<rbrakk>
              \<Longrightarrow> limiter_run (Allow k now # calls) rl rl'"
| run_clear: "\<lbrakk>mset es = mset (rl_entries rl); limiter_run calls (clear k (rl\<lparr>rl_entries := es\<rparr>)) rl'\<rbrakk>
              \<Longrightarrow> limiter_run (Clear k # calls) rl rl'"

inductive_simps limiter_run_Nil: "limiter_run [] rl rl'"
inductive_cases limiter_run_Cons: "limiter_run (c # calls) rl rl'"

lemma reorder_ok:
  assumes "limiter_ok rl" "mset es = mset (rl_entries rl)"
  shows "limiter_ok (rl\<lparr>rl_entries := es\<rparr>)" "map_of es = map_of (rl_entries rl)"
proof -
  have l: "length es = length (rl_entries rl)" "set es = set (rl_entries rl)"
    using assms(2) by (metis size_mset, metis set_mset_mset)
  have "mset (keys es) = mset (keys (rl_entries rl))" using assms(2) by simp
  then have d: "distinct (keys es)" using assms(1) mset_eq_imp_distinct_iff
    unfolding limiter_ok_def by blast
  with l assms(1) show "limiter_ok (rl\<lparr>rl_entries := es\<rparr>)" by (simp add: limiter_ok_def)
  show "map_of es = map_of (rl_entries rl)"
    using d l(2) assms(1) map_of_inject_set unfolding limiter_ok_def by blast
qed

lemma limiter_run_ok: "limiter_run calls rl rl' \<Longrightarrow> limiter_ok rl \<Longrightarrow> limiter_ok rl'"
  by (induction rule: limiter_run.induct) (auto intro: allow_ok clear_ok reorder_ok)

lemma limit_const [simp]:
  "rl_attempts_per_window (snd (allow k now rl)) = rl_attempts_per_window rl"
  "rl_attempts_per_window (clear k rl) = rl_attempts_per_window rl"
  by (cases rule: allow_cases [of k now rl]; simp) (simp add: clear_def)

text \<open>The window of a key is exhausted and began at \<open>s\<close>.\<close>

definition exhausted :: "'k \<Rightarrow> int \<Rightarrow> 'k RateLimiter \<Rightarrow> bool" where
  "exhausted k s rl \<longleftrightarrow>
     (\<exists>w. map_of (rl_entries rl) k = Some w \<and> aw_started_at w = s \<and> s \<le> aw_last_seen_at w
          \<and> rl_attempts_per_window rl \<le> aw_attempts w)"

lemma window_arith:
  "saturating_sub_i64 a b < RATE_LIMIT_WINDOW_SECONDS \<longleftrightarrow> a - b < 60"
  "RATE_LIMIT_WINDOW_SECONDS \<le> saturating_sub_i64 a b \<longleftrightarrow> 60 \<le> a - b"
  using saturating_sub_i64_less [of 60 a b]
  by (auto simp: RATE_LIMIT_WINDOW_SECONDS_def i64_max_def i64_min_def not_less [symmetric])

lemma exhausted_allow:
  assumes "limiter_ok rl" "exhausted k s rl" "s \<le> now" "now < s + 60"
  shows "exhausted k s (snd (allow k' now rl))" "k' = k \<Longrightarrow> \<not> fst (allow k' now rl)"
proof -
  from assms(2) obtain w where w: "map_of (rl_entries rl) k = Some w" "aw_started_at w = s"
    "s \<le> aw_last_seen_at w" "rl_attempts_per_window rl \<le> aw_attempts w"
    by (auto simp: exhausted_def)
  have d: "distinct (keys (rl_entries rl))" "length (rl_entries rl) \<le> MAX_RATE_LIMIT_KEYS"
    using assms(1) by (simp_all add: limiter_ok_def)
  let ?es = "retain_live now (rl_entries rl)"
  have live: "map_of ?es k = Some w"
    using w assms(3,4) d(1) by (simp add: retain_live_def map_of_filter_snd window_arith)
  have r: "distinct (keys ?es)" "length ?es \<le> MAX_RATE_LIMIT_KEYS"
    using retain_live_keeps(1) [OF d(1)] retain_live_keeps(2) [of now "rl_entries rl"] d(2) by simp_all
  have t: "touch_window now w = w\<lparr>aw_last_seen_at := now\<rparr>"
    using w(2) assms(3,4) by (simp add: touch_window_def window_arith)
  have "exhausted k s (snd (allow k' now rl)) \<and> (k' = k \<longrightarrow> \<not> fst (allow k' now rl))"
  proof (cases rule: allow_cases [of k' now rl])
    case full
    with live w show ?thesis by (auto simp: exhausted_def)
  next
    case (room es v v')
    note m = make_room_Some [OF room(1) r]
    have k: "map_of es k = Some w" using m(4) [OF live w(4)] .
    show ?thesis
    proof (cases "k' = k")
      case True
      then have "v = w\<lparr>aw_last_seen_at := now\<rparr>" using room(2) k t by simp
      with True room(3,4) w assms(3) show ?thesis by (auto simp: exhausted_def map_of_put_key)
    next
      case False
      with room(3) k w show ?thesis by (auto simp: exhausted_def map_of_put_key)
    qed
  qed
  then show "exhausted k s (snd (allow k' now rl))" "k' = k \<Longrightarrow> \<not> fst (allow k' now rl)"
    by simp_all
qed

lemma exhausted_clear: "exhausted k s rl \<Longrightarrow> k' \<noteq> k \<Longrightarrow> exhausted k s (clear k' rl)"
  by (auto simp: exhausted_def clear_def map_of_remove_key)

lemma exhausted_reorder:
  assumes "limiter_ok rl" "exhausted k s rl" "mset es = mset (rl_entries rl)"
  shows "exhausted k s (rl\<lparr>rl_entries := es\<rparr>)"
  using assms(2) reorder_ok(2) [OF assms(1,3)] by (simp add: exhausted_def)

definition within :: "'k \<Rightarrow> int \<Rightarrow> 'k call \<Rightarrow> bool" where
  "within k s c = (case c of Allow _ now \<Rightarrow> s \<le> now \<and> now < s + 60 | Clear k' \<Rightarrow> k' \<noteq> k)"

lemma exhausted_run:
  "\<lbrakk>limiter_run calls rl rl'; limiter_ok rl; exhausted k s rl; list_all (within k s) calls\<rbrakk> \<Longrightarrow>
   exhausted k s rl'"
proof (induction rule: limiter_run.induct)
  case (run_allow es rl calls k' now rl')
  then show ?case
    using reorder_ok(1) [OF run_allow.prems(1) run_allow.hyps(1)]
      exhausted_reorder [OF run_allow.prems(1,2) run_allow.hyps(1)]
    by (auto simp: within_def intro: allow_ok exhausted_allow(1))
next
  case (run_clear es rl calls k' rl')
  then show ?case
    using reorder_ok(1) [OF run_clear.prems(1) run_clear.hyps(1)]
      exhausted_reorder [OF run_clear.prems(1,2) run_clear.hyps(1)]
    by (auto simp: within_def intro: clear_ok exhausted_clear)
qed simp

subsection \<open>Properties\<close>

text \<open>
  C15: A blocked caller stays blocked. Once the attempts of a key are exhausted in a window that
  began at second \<open>s\<close>, no sequence of sign-in attempts during the 60 seconds of the window, with
  any keys and in any number (so also a flood that fills the bounded map and forces
  evictions), lets the key attempt again, unless a successful sign-in of that very key clears
  it. The map stays within its bound of 4096 keys throughout.
\<close>

theorem blocked_stays_blocked:
  assumes "limiter_ok rl" "exhausted k s rl" "limiter_run calls rl rl'"
    "list_all (within k s) calls" "s \<le> now" "now < s + 60"
  shows "\<not> fst (allow k now rl') \<and> length (rl_entries rl') \<le> 4096"
proof -
  have ok: "limiter_ok rl'" using limiter_run_ok [OF assms(3,1)] .
  with exhausted_allow(2) [OF ok exhausted_run [OF assms(3,1,2,4)] assms(5,6) refl]
  show ?thesis by (simp add: limiter_ok_def MAX_RATE_LIMIT_KEYS_def)
qed

theorem blocked_stays_blocked_witness:
  "\<not> fst (allow (1 :: nat) 130
      (snd (allow 2 120 (snd (allow 1 110 \<lparr> rl_entries =
         [(1, \<lparr> aw_started_at = 100, aw_attempts = 5, aw_last_seen_at = 100 \<rparr>)],
         rl_attempts_per_window = 5 \<rparr>)))))"
proof -
  let ?rl = "\<lparr> rl_entries = [(1 :: nat, \<lparr> aw_started_at = 100, aw_attempts = 5, aw_last_seen_at = 100 \<rparr>)],
         rl_attempts_per_window = 5 \<rparr>"
  have "limiter_run [Allow 1 110, Allow 2 120] ?rl (snd (allow 2 120 (snd (allow 1 110 ?rl))))"
    using limiter_run.intros(2) [OF refl] limiter_run.intros(1) by (metis RateLimiter.surjective
        RateLimiter.update_convs(1))
  moreover have "limiter_ok ?rl" "exhausted 1 100 ?rl"
    by (simp_all add: limiter_ok_def exhausted_def MAX_RATE_LIMIT_KEYS_def)
  ultimately show ?thesis
    using blocked_stays_blocked [of ?rl 1 100 "[Allow 1 110, Allow 2 120]" _ 130]
    by (simp add: within_def)
qed

text \<open>
  The decision of the limiter. For a limiter within its bounds an attempt is allowed exactly
  when its key has attempts left in its running window or, with no running window, when the
  budget is positive and either a slot is free or some tracked window is not exhausted.
\<close>

theorem allow_decision:
  assumes "limiter_ok rl"
  shows "fst (allow k now rl) \<longleftrightarrow>
    (case map_of (retain_live now (rl_entries rl)) k of
       Some w \<Rightarrow> (if aw_started_at w \<le> now \<and> now < aw_started_at w + 60
                  then aw_attempts w < rl_attempts_per_window rl
                  else 0 < rl_attempts_per_window rl)
     | None \<Rightarrow> 0 < rl_attempts_per_window rl
               \<and> (length (retain_live now (rl_entries rl)) < 4096
                  \<or> (\<exists>(k', w) \<in> set (retain_live now (rl_entries rl)). aw_attempts w < rl_attempts_per_window rl)))"
proof -
  let ?es = "retain_live now (rl_entries rl)"
  have r: "distinct (keys ?es)" "length ?es \<le> MAX_RATE_LIMIT_KEYS"
    using assms retain_live_keeps(1) [of "rl_entries rl" now] retain_live_keeps(2) [of now "rl_entries rl"]
    by (simp_all add: limiter_ok_def)
  have t: "aw_attempts (touch_window now w) =
      (if aw_started_at w \<le> now \<and> now < aw_started_at w + 60 then aw_attempts w else 0)" for w
    by (auto simp: touch_window_def fresh_window_def window_arith)
  show ?thesis
  proof (cases rule: allow_cases [of k now rl])
    case full
    then have "k \<notin> fst ` set ?es" "MAX_RATE_LIMIT_KEYS \<le> length ?es"
      "filter (\<lambda>(_, w). aw_attempts w < rl_attempts_per_window rl) ?es = []"
      by (auto simp: make_room_def split: if_splits option.splits)
    then have "map_of ?es k = None" "\<not> length ?es < 4096"
      "\<not> (\<exists>(k', w) \<in> set ?es. aw_attempts w < rl_attempts_per_window rl)"
      by (auto simp: map_of_eq_None_iff MAX_RATE_LIMIT_KEYS_def filter_empty_conv)
    with full(1) show ?thesis by simp
  next
    case (room es w w')
    note m = make_room_Some [OF room(1) r]
    have some: "map_of ?es k = None \<Longrightarrow> length ?es < 4096 \<or>
        (\<exists>(k', w) \<in> set ?es. aw_attempts w < rl_attempts_per_window rl)"
      using room(1) by (cases rule: make_room_cases)
        (auto simp: map_of_eq_None_iff MAX_RATE_LIMIT_KEYS_def dest: min_by_last_seen_mem)
    show ?thesis
    proof (cases "map_of ?es k")
      case None
      then have "w = touch_window now (fresh_window now)" using room(2) m(5) by simp
      then have "aw_attempts w = 0" by (simp add: t fresh_window_def)
      with None room(3) some show ?thesis by simp
    next
      case (Some v)
      then have "w = touch_window now v" using room(2) m(5) by simp
      with Some room(3) show ?thesis by (simp add: t)
    qed
  qed
qed

theorem allow_decision_witness:
  "fst (allow (7 :: nat) 100 \<lparr> rl_entries = [], rl_attempts_per_window = 1 \<rparr>)"
  using allow_decision [of "\<lparr> rl_entries = [], rl_attempts_per_window = 1 \<rparr>" 7 100]
  by (simp add: limiter_ok_def retain_live_def)

end
