(* ===== verification/Paths.thy ===== *)
theory Paths
  imports Errors
begin

text \<open>
  Share identifiers, entry names and virtual paths (\<open>src/src/filesystem.rs\<close>): the grammar a
  request path must satisfy before anything touches the disk. Unicode normalisation (crate
  \<open>unicode-normalization\<close>) and the full upper-casing table of the standard library are the
  two fields of the record \<open>unicode\<close>, an argument of the definitions that use them.
\<close>

record unicode =
  nfc :: "str \<Rightarrow> str"
  to_uppercase :: "str \<Rightarrow> str"

definition MAX_COMPONENT_BYTES :: nat where "MAX_COMPONENT_BYTES = 255"
definition MAX_VIRTUAL_PATH_BYTES :: nat where "MAX_VIRTUAL_PATH_BYTES = 4096"
definition MAX_PATH_DEPTH :: nat where "MAX_PATH_DEPTH = 64"
definition MAX_SHARE_ID_BYTES :: nat where "MAX_SHARE_ID_BYTES = 64"
definition INTERNAL_DIRECTORY :: str where "INTERNAL_DIRECTORY = lit ''.crabinet''"
definition LEGACY_STAGING_DIRECTORY :: str where
  "LEGACY_STAGING_DIRECTORY = lit ''.index-staging''"
definition INTERNAL_TEMP_PREFIX :: str where "INTERNAL_TEMP_PREFIX = lit ''.index-tmp-''"

lemmas path_consts = MAX_COMPONENT_BYTES_def MAX_VIRTUAL_PATH_BYTES_def MAX_PATH_DEPTH_def
  MAX_SHARE_ID_BYTES_def

subsection \<open>Share identifiers\<close>

definition ShareId_new :: "str \<Rightarrow> FsErrorCode + str" where
  "ShareId_new value =
     (if value \<noteq> [] \<and> str_len value \<le> MAX_SHARE_ID_BYTES
         \<and> is_ascii_alphanumeric (hd (utf8 value))
         \<and> list_all (\<lambda>b. is_ascii_alphanumeric b \<or> b \<in> set (lit ''-_.'')) (utf8 value)
         \<and> value \<noteq> lit ''.'' \<and> value \<noteq> lit ''..''
      then Ok value else Err InvalidPath)"

subsection \<open>Reserved and hazardous names\<close>

fun contains_percent_escape_bytes :: "nat list \<Rightarrow> bool" where
  "contains_percent_escape_bytes (a # b # c # s) =
     ((a = 37 \<and> is_ascii_hexdigit b \<and> is_ascii_hexdigit c)
      \<or> contains_percent_escape_bytes (b # c # s))"
| "contains_percent_escape_bytes _ = False"

definition contains_percent_escape :: "str \<Rightarrow> bool" where
  "contains_percent_escape value = contains_percent_escape_bytes (utf8 value)"

definition superscript_digits :: "nat list" where
  "superscript_digits =
     [0x2070, 0xB9, 0xB2, 0xB3, 0x2074, 0x2075, 0x2076, 0x2077, 0x2078, 0x2079]"

definition is_windows_device_name :: "unicode \<Rightarrow> str \<Rightarrow> bool" where
  "is_windows_device_name u value =
     (let stem = to_uppercase u (hd (split_on 46 value)) in
      if stem \<in> set (map lit [''CON'', ''PRN'', ''AUX'', ''NUL'', ''CLOCK$'', ''CONIN$'', ''CONOUT$''])
      then True
      else let prefix = take 3 stem; suffix = drop 3 stem in
           (prefix = lit ''COM'' \<or> prefix = lit ''LPT'')
           \<and> length suffix = 1
           \<and> list_all (\<lambda>c. is_ascii_digit c \<or> c \<in> set superscript_digits) suffix)"

definition starts_with_ignore_ascii_case :: "str \<Rightarrow> str \<Rightarrow> bool" where
  "starts_with_ignore_ascii_case value prefix =
     (let v = utf8 value; p = utf8 prefix in
      length p \<le> length v \<and> eq_ignore_ascii_case (take (length p) v) p)"

definition is_reserved_name :: "str \<Rightarrow> bool" where
  "is_reserved_name value \<longleftrightarrow>
     eq_ignore_ascii_case value INTERNAL_DIRECTORY
     \<or> eq_ignore_ascii_case value LEGACY_STAGING_DIRECTORY
     \<or> starts_with_ignore_ascii_case value INTERNAL_TEMP_PREFIX"

definition is_internal_name :: "str \<Rightarrow> bool" where
  "is_internal_name name = is_reserved_name name"

definition is_internal_temp_name :: "str \<Rightarrow> bool" where
  "is_internal_temp_name name =
     (case strip_prefix INTERNAL_TEMP_PREFIX name of
        None \<Rightarrow> False
      | Some suffix \<Rightarrow> str_len suffix = 32 \<and> list_all is_ascii_hexdigit (utf8 suffix))"

definition is_own_internal_name :: "str \<Rightarrow> bool" where
  "is_own_internal_name name \<longleftrightarrow>
     name = INTERNAL_DIRECTORY \<or> name = LEGACY_STAGING_DIRECTORY \<or> is_internal_temp_name name"

definition is_spoofing_character :: "nat \<Rightarrow> bool" where
  "is_spoofing_character c \<longleftrightarrow>
     c = 0x00AD \<or> c = 0x061C \<or> c = 0x180E \<or> c = 0x200B
     \<or> (0x200E \<le> c \<and> c \<le> 0x200F) \<or> (0x2028 \<le> c \<and> c \<le> 0x202E)
     \<or> (0x2060 \<le> c \<and> c \<le> 0x2064) \<or> (0x2066 \<le> c \<and> c \<le> 0x206F)
     \<or> c = 0xFEFF \<or> (0xFFF9 \<le> c \<and> c \<le> 0xFFFB)"

subsection \<open>Entry names\<close>

definition EntryName_new :: "unicode \<Rightarrow> str \<Rightarrow> FsErrorCode + str" where
  "EntryName_new u value =
     (if value = []
         \<or> MAX_COMPONENT_BYTES < str_len value
         \<or> value = lit ''.'' \<or> value = lit ''..''
         \<or> (\<exists>c \<in> set value. c = 47 \<or> c = 92 \<or> c = 0)
         \<or> (\<exists>c \<in> set value. is_control c)
         \<or> last value = 46 \<or> last value = 32
         \<or> contains_percent_escape value
         \<or> nfc u value \<noteq> value
         \<or> is_windows_device_name u value
         \<or> is_reserved_name value
      then Err InvalidPath else Ok value)"

definition ensure_creatable :: "str \<Rightarrow> FsErrorCode + unit" where
  "ensure_creatable name =
     (if \<exists>c \<in> set name. is_spoofing_character c then Err InvalidPath else Ok ())"

subsection \<open>Virtual paths\<close>

type_synonym VirtualPath = "str list"

definition VirtualPath_root :: VirtualPath where "VirtualPath_root = []"

definition parse_with_depth :: "unicode \<Rightarrow> str \<Rightarrow> nat \<Rightarrow> FsErrorCode + VirtualPath" where
  "parse_with_depth u value max_depth =
     (if value = [] \<or> MAX_VIRTUAL_PATH_BYTES < str_len value
         \<or> max_depth \<le> count_list (utf8 value) 47
      then Err InvalidPath
      else collect (map (EntryName_new u) (split_on 47 value)))"

definition VirtualPath_parse :: "unicode \<Rightarrow> str \<Rightarrow> FsErrorCode + VirtualPath" where
  "VirtualPath_parse u value = parse_with_depth u value MAX_PATH_DEPTH"

definition parse_stored :: "unicode \<Rightarrow> str \<Rightarrow> FsErrorCode + VirtualPath" where
  "parse_stored u value = parse_with_depth u value (2 ^ 64 - 1)"

definition is_root :: "VirtualPath \<Rightarrow> bool" where "is_root p \<longleftrightarrow> p = []"

definition depth :: "VirtualPath \<Rightarrow> nat" where "depth p = length p"

definition file_name :: "VirtualPath \<Rightarrow> str option" where
  "file_name p = (if p = [] then None else Some (last p))"

definition split_file :: "VirtualPath \<Rightarrow> FsErrorCode + (str list \<times> str)" where
  "split_file p = (if p = [] then Err InvalidPath else Ok (butlast p, last p))"

definition split_parent :: "VirtualPath \<Rightarrow> (VirtualPath \<times> str) option" where
  "split_parent p = (if p = [] then None else Some (butlast p, last p))"

definition path_join :: "VirtualPath \<Rightarrow> str \<Rightarrow> VirtualPath" where
  "path_join p name = p @ [name]"

definition path_starts_with :: "VirtualPath \<Rightarrow> VirtualPath \<Rightarrow> bool" where
  "path_starts_with p other \<longleftrightarrow> take (length other) p = other"

text \<open>\<open>Display\<close>: a slash before every component but the first.\<close>

fun display_from :: "nat \<Rightarrow> VirtualPath \<Rightarrow> str" where
  "display_from index [] = []"
| "display_from index (component # rest) =
     (if index \<noteq> 0 then [47] else []) @ component @ display_from (Suc index) rest"

definition path_display :: "VirtualPath \<Rightarrow> str" where
  "path_display p = display_from 0 p"

subsection \<open>Lemmas\<close>

lemma display_from_Suc: "display_from (Suc n) p = concat (map ((#) 47) p)"
  by (induction p arbitrary: n) auto

lemma path_display_join: "path_display p = join_on 47 p"
proof (cases p)
  case Nil
  then show ?thesis by (simp add: path_display_def)
next
  case (Cons c cs)
  then show ?thesis by (simp add: path_display_def display_from_Suc join_on_Cons)
qed

lemma path_starts_with_prefix: "path_starts_with p q \<longleftrightarrow> (\<exists>r. p = q @ r)"
  unfolding path_starts_with_def
  by (metis append_eq_conv_conj append_take_drop_id)

lemma path_starts_with_root [simp]: "path_starts_with p VirtualPath_root"
  by (simp add: path_starts_with_def VirtualPath_root_def)

lemma path_starts_with_refl [simp]: "path_starts_with p p"
  by (simp add: path_starts_with_def)

lemma path_starts_with_trans:
  "path_starts_with p q \<Longrightarrow> path_starts_with q r \<Longrightarrow> path_starts_with p r"
  by (auto simp: path_starts_with_prefix)

lemma split_parent_join [simp]: "split_parent (path_join p n) = Some (p, n)"
  by (simp add: split_parent_def path_join_def)

lemma split_parent_Some: "split_parent p = Some (q, n) \<longleftrightarrow> p = path_join q n"
  by (auto simp: split_parent_def path_join_def)

lemma EntryName_new_cases: "EntryName_new u v = Ok v \<or> EntryName_new u v = Err InvalidPath"
  by (simp add: EntryName_new_def)

lemma EntryName_new_same: "EntryName_new u v = Ok n \<Longrightarrow> n = v"
  by (simp add: EntryName_new_def split: if_splits)

text \<open>What an accepted name guarantees to the code that opens it below a directory handle.\<close>

definition plain_component :: "str \<Rightarrow> bool" where
  "plain_component n \<longleftrightarrow>
     n \<noteq> [] \<and> str_len n \<le> 255 \<and> n \<noteq> lit ''.'' \<and> n \<noteq> lit ''..'' \<and>
     (\<forall>c \<in> set n. c \<noteq> 47 \<and> c \<noteq> 92 \<and> \<not> is_control c) \<and>
     last n \<noteq> 46 \<and> last n \<noteq> 32 \<and> \<not> contains_percent_escape n"

lemma EntryName_new_plain:
  "EntryName_new u v = Ok n \<Longrightarrow> plain_component n \<and> \<not> is_reserved_name n \<and> nfc u n = n"
  by (auto simp: EntryName_new_def plain_component_def path_consts split: if_splits)

lemma split_path_display:
  assumes "p \<noteq> []" "\<forall>n \<in> set p. EntryName_new u n = Ok n"
  shows "split_on 47 (path_display p) = p"
proof -
  have "47 \<notin> set n" if "n \<in> set p" for n
    using EntryName_new_plain [of u n n] assms(2) that by (auto simp: plain_component_def)
  then show ?thesis using assms(1) by (simp add: path_display_join split_join_on)
qed

lemma path_display_nil:
  assumes "\<forall>n \<in> set p. EntryName_new u n = Ok n" shows "path_display p = [] \<longleftrightarrow> p = []"
  using assms EntryName_new_plain by (cases p) (force simp: path_display_def plain_component_def)+

lemma path_display_inj:
  assumes "path_display p = path_display q" "\<forall>n \<in> set p. EntryName_new u n = Ok n" "\<forall>n \<in> set q. EntryName_new u n = Ok n"
  shows "p = q"
proof (cases "p = [] \<or> q = []")
  case True
  then show ?thesis using path_display_nil assms by metis
next
  case False
  then show ?thesis using split_path_display assms by metis
qed

lemma utf8_INTERNAL_TEMP_PREFIX: "utf8 INTERNAL_TEMP_PREFIX = INTERNAL_TEMP_PREFIX"
  by (rule utf8_ascii) (simp add: INTERNAL_TEMP_PREFIX_def lit_def is_ascii_def)

lemma own_internal_reserved: "is_own_internal_name n \<Longrightarrow> is_reserved_name n"
  by (auto simp: is_own_internal_name_def is_reserved_name_def is_internal_temp_name_def
      starts_with_ignore_ascii_case_def utf8_INTERNAL_TEMP_PREFIX Let_def split: option.splits)

lemma reserved_case_variant:
  assumes "eq_ignore_ascii_case v INTERNAL_DIRECTORY \<or> eq_ignore_ascii_case v LEGACY_STAGING_DIRECTORY"
  shows "EntryName_new u v = Err InvalidPath"
  using assms by (auto simp: EntryName_new_def is_reserved_name_def)

lemma parse_with_depth_Ok:
  "parse_with_depth u s d = Ok p \<longleftrightarrow>
   s \<noteq> [] \<and> str_len s \<le> MAX_VIRTUAL_PATH_BYTES \<and> count_list s 47 < d \<and>
   p = split_on 47 s \<and> (\<forall>n \<in> set p. EntryName_new u n = Ok n)"
proof -
  have "collect (map (EntryName_new u) (split_on 47 s)) = Ok p \<longleftrightarrow>
        p = split_on 47 s \<and> (\<forall>n \<in> set p. EntryName_new u n = Ok n)"
    by (subst collect_validate) (auto dest: EntryName_new_same)
  moreover have "count_list (utf8 s) 47 = count_list s 47" by (simp add: count_utf8)
  ultimately show ?thesis unfolding parse_with_depth_def by (simp add: not_le)
qed

text \<open>
  Printing a parsed path gives back the text it was parsed from, so the path that is
  authorised, logged and bound into cursors is the one the client named.
\<close>

theorem parse_display:
  assumes "VirtualPath_parse u s = Ok p"
  shows "path_display p = s"
  using assms by (simp add: VirtualPath_parse_def parse_with_depth_Ok path_display_join)

text \<open>The ASCII part of Unicode: normalisation keeps it and upper-casing maps the letters.\<close>

definition ascii_unicode :: unicode where
  "ascii_unicode = \<lparr> nfc = (\<lambda>s. s),
     to_uppercase = map (\<lambda>c. if is_ascii_lowercase c then c - 32 else c) \<rparr>"

theorem parse_display_witness:
  "VirtualPath_parse ascii_unicode (lit ''a/b'') = Ok [[97], [98]] \<and>
   path_display [[97], [98]] = lit ''a/b''"
proof -
  have h: "VirtualPath_parse ascii_unicode (lit ''a/b'') = Ok [[97], [98]]"
    by code_simp
  show ?thesis using h parse_display [OF h] by simp
qed

text \<open>
  C7: Every component of a path a request can name is safe to open below a directory handle:
  it is not empty, not a dot or dot-dot entry, holds no separator, backslash, NUL or control
  character and no percent escape, fits a directory entry, and is none of the names the
  server keeps for itself; and the path has between 1 and 64 components.
\<close>

theorem parse_safe:
  assumes "VirtualPath_parse u s = Ok p"
  shows "1 \<le> depth p \<and> depth p \<le> MAX_PATH_DEPTH \<and>
    (\<forall>n \<in> set p. plain_component n \<and> \<not> is_own_internal_name n \<and> \<not> is_internal_name n)"
proof -
  from assms have p: "p = split_on 47 s" and c: "count_list s 47 < MAX_PATH_DEPTH"
    and n: "\<And>n. n \<in> set p \<Longrightarrow> EntryName_new u n = Ok n"
    by (auto simp: VirtualPath_parse_def parse_with_depth_Ok)
  have "plain_component n \<and> \<not> is_own_internal_name n \<and> \<not> is_internal_name n"
    if "n \<in> set p" for n
    using EntryName_new_plain [OF n [OF that]] own_internal_reserved
    by (auto simp: is_internal_name_def)
  with p c show ?thesis by (simp add: depth_def length_split_on)
qed

theorem parse_safe_witness:
  "VirtualPath_parse ascii_unicode (lit ''x/Notes.txt'') = Ok [[120], lit ''Notes.txt''] \<and>
   1 \<le> depth [[120], lit ''Notes.txt''] \<and> plain_component (lit ''Notes.txt'')"
proof -
  have h: "VirtualPath_parse ascii_unicode (lit ''x/Notes.txt'') = Ok [[120], lit ''Notes.txt'']"
    by code_simp
  show ?thesis using h parse_safe [OF h] by simp
qed

text \<open>
  Conversely a sequence of accepted names whose printed form is within the length and
  depth limits parses back to itself: every such path is addressable, under one spelling.
\<close>

theorem display_parse:
  assumes "p \<noteq> []" "\<forall>n \<in> set p. EntryName_new u n = Ok n"
    and "depth p \<le> MAX_PATH_DEPTH" "str_len (path_display p) \<le> MAX_VIRTUAL_PATH_BYTES"
  shows "VirtualPath_parse u (path_display p) = Ok p"
proof -
  have split: "split_on 47 (path_display p) = p" by (rule split_path_display [OF assms(1,2)])
  have "path_display p \<noteq> []" using path_display_nil [OF assms(2)] assms(1) by simp
  moreover have "count_list (path_display p) 47 < MAX_PATH_DEPTH"
    using length_split_on [of 47 "path_display p"] split assms(3) by (simp add: depth_def)
  ultimately show ?thesis
    using assms split by (simp add: VirtualPath_parse_def parse_with_depth_Ok)
qed

theorem display_parse_witness:
  "EntryName_new ascii_unicode (lit ''docs'') = Ok (lit ''docs'') \<and>
   VirtualPath_parse ascii_unicode (path_display [lit ''docs'']) = Ok [lit ''docs'']"
proof -
  have n: "EntryName_new ascii_unicode (lit ''docs'') = Ok (lit ''docs'')"
    by code_simp
  have "VirtualPath_parse ascii_unicode (path_display [lit ''docs'']) = Ok [lit ''docs'']"
    by (rule display_parse) (use n in \<open>simp_all add: depth_def path_consts path_display_def
          lit_def str_len_def utf8_char_def\<close>)
  with n show ?thesis by simp
qed

end
