(* ===== verification/Auth.thy ===== *)
theory Auth
  imports Sessions RateLimit ClientAddress Paths
begin

text \<open>
  The authentication service of \<open>src/src/auth.rs\<close>: password and OIDC sign-in, session validation,
  CSRF protection, and the grants a request runs with. The configuration is one record and the
  mutable state another. HMAC-SHA-256, SHA-256 and the Argon2 check are parameters
  (\<open>crypto\<close>); what a request observes of the clock, the random source, the verifier semaphore
  and the database is its environment, so that every failure branch of the source is one of
  the model. Audit logging is not modelled.
\<close>

subsection \<open>Configuration, state and environment\<close>

definition MAX_USERNAME_BYTES :: nat where "MAX_USERNAME_BYTES = 64"
definition MAX_PASSWORD_BYTES :: nat where "MAX_PASSWORD_BYTES = 4096"

record UserRecord =
  ur_password_hash :: "str option"
  ur_email :: "str option"
  ur_disabled :: bool
  ur_oidc_subject :: "str option"

datatype Permission = Read | Write

record ShareRecord =
  sr_id :: str
  sr_name :: str
  sr_grants :: "str \<rightharpoonup> Permission"
  sr_read_only :: bool
  sr_search_enabled :: bool

record crypto =
  hmac_sha256 :: "bytes \<Rightarrow> bytes \<Rightarrow> bytes"
  sha256 :: "bytes \<Rightarrow> bytes"
  argon2_verify :: "str \<Rightarrow> bytes \<Rightarrow> bool"

type_synonym RateLimitKey = "bytes \<times> IpAddr option"

record AuthConfig =
  ac_users :: "(str \<times> UserRecord) list"
  ac_password_enabled :: bool
  ac_shares :: "ShareRecord list"
  ac_token_key :: bytes
  ac_dummy_password_hash :: str
  ac_idle_timeout_seconds :: int
  ac_absolute_timeout_seconds :: int
  ac_max_sessions_per_user :: nat
  ac_max_sessions_total :: nat
  ac_trusted_proxies :: TrustedProxies

record AuthState =
  as_sessions :: sessions
  as_rate_limit :: "RateLimitKey RateLimiter"
  as_source_rate_limit :: "(IpAddr option) RateLimiter"

datatype Permit = Acquired | TimedOut | Closed

datatype db_op = DbLookup | DbTouch | DbDelete | DbRotate

record env =
  e_now_source :: int
  e_now_account :: int
  e_now :: int
  e_permit :: Permit
  e_random :: "bytes option"
  e_db :: "db_op \<Rightarrow> bool"

text \<open>A fallible handler: its result and the state it leaves, also when it fails.\<close>

type_synonym 'a handler = "AuthState \<Rightarrow> (AppError + 'a) \<times> AuthState"

definition auth_error :: "AuthError \<Rightarrow> AppError" where "auth_error e = Internal"

subsection \<open>Digests\<close>

definition digest :: "crypto \<Rightarrow> AuthConfig \<Rightarrow> string \<Rightarrow> bytes \<Rightarrow> bytes" where
  "digest c a domain token =
     hmac_sha256 c (ac_token_key a) (map of_nat (lit domain) @ [0] @ token)"

definition session_key :: "crypto \<Rightarrow> AuthConfig \<Rightarrow> str \<Rightarrow> bytes option" where
  "session_key c a encoded = map_option (digest c a ''session'') (decode_token encoded)"

definition normalized_identifier_digest :: "crypto \<Rightarrow> str \<Rightarrow> bytes" where
  "normalized_identifier_digest c username =
     sha256 c (map of_nat (map to_ascii_lowercase (utf8 (trim username))))"

definition is_plausible_username :: "str \<Rightarrow> bool" where
  "is_plausible_username u \<longleftrightarrow>
     1 \<le> str_len u \<and> str_len u \<le> MAX_USERNAME_BYTES \<and> u \<noteq> [46] \<and> u \<noteq> [46, 46]
     \<and> list_all (\<lambda>b. is_ascii_alphanumeric b \<or> b = 45 \<or> b = 95 \<or> b = 46) (utf8 u)"

subsection \<open>Sign-in\<close>

record LoginRejection =
  lr_error :: AppError
  lr_reason :: string
  lr_subject :: "str option"

definition rejection :: "AppError \<Rightarrow> string \<Rightarrow> LoginRejection" where
  "rejection e reason = \<lparr> lr_error = e, lr_reason = reason, lr_subject = None \<rparr>"

definition internal_rejection :: "AppError \<Rightarrow> LoginRejection" where
  "internal_rejection e = rejection e ''internal_error''"

record NewSession =
  ns_cookie_token :: str
  ns_csrf_token :: str
  ns_username :: str
  ns_picture_url :: "str option"

definition sign_in_source :: "AuthConfig \<Rightarrow> IpAddr option \<Rightarrow> HeaderMap \<Rightarrow> IpAddr option" where
  "sign_in_source a peer headers =
     map_option (\<lambda>p. rate_limit_source (client_address (ac_trusted_proxies a) p headers)) peer"

definition allow_sign_in_source :: "env \<Rightarrow> IpAddr option \<Rightarrow> unit handler" where
  "allow_sign_in_source env source st =
     (case allow source (e_now_source env) (as_source_rate_limit st) of
        (ok, rl) \<Rightarrow> (if ok then Ok () else Err TooManyRequests, st\<lparr>as_source_rate_limit := rl\<rparr>))"

definition issue_session ::
  "crypto \<Rightarrow> AuthConfig \<Rightarrow> env \<Rightarrow> str \<Rightarrow> str option \<Rightarrow> bytes option \<Rightarrow> NewSession handler" where
  "issue_session c a env username picture_url old_key st =
     (case e_random env of
        None \<Rightarrow> (Err (auth_error RandomError), st)
      | Some token \<Rightarrow>
          (case (if e_db env DbRotate then rotate
                   \<lparr> rot_old_key = old_key, rot_new_key = digest c a ''session'' token,
                     rot_username = username, rot_picture_url = picture_url, rot_now = e_now env,
                     rot_expires_at = saturating_add_i64 (e_now env) (ac_absolute_timeout_seconds a),
                     rot_idle_cutoff = saturating_sub_i64 (e_now env) (ac_idle_timeout_seconds a),
                     rot_max_per_user = ac_max_sessions_per_user a,
                     rot_max_total = ac_max_sessions_total a \<rparr> (as_sessions st)
                 else Err Database) of
             Inl e \<Rightarrow> (Err (auth_error e), st)
           | Inr rows \<Rightarrow>
               (Ok \<lparr> ns_cookie_token = encode_hex token,
                     ns_csrf_token = encode_hex (digest c a ''csrf-token'' token),
                     ns_username = username, ns_picture_url = picture_url \<rparr>,
                st\<lparr>as_sessions := rows\<rparr>)))"

definition usable_candidate :: "AuthConfig \<Rightarrow> (str \<times> UserRecord) option \<Rightarrow> bool" where
  "usable_candidate a candidate \<longleftrightarrow>
     ac_password_enabled a
     \<and> (case candidate of
          Some (_, user) \<Rightarrow> \<not> ur_disabled user \<and> ur_password_hash user \<noteq> None | None \<Rightarrow> False)"

definition candidate_hash :: "AuthConfig \<Rightarrow> (str \<times> UserRecord) option \<Rightarrow> str" where
  "candidate_hash a candidate =
     (case candidate of
        Some (_, user) \<Rightarrow>
          (case ur_password_hash user of
             Some h \<Rightarrow> if usable_candidate a candidate then h else ac_dummy_password_hash a
           | None \<Rightarrow> ac_dummy_password_hash a)
      | None \<Rightarrow> ac_dummy_password_hash a)"

definition unusable_reason :: "(str \<times> UserRecord) option \<Rightarrow> string" where
  "unusable_reason candidate =
     (case candidate of
        Some (_, user) \<Rightarrow> if ur_disabled user then ''disabled'' else ''method_unavailable''
      | None \<Rightarrow> ''bad_credentials'')"

text \<open>The checks after the account limiter admitted the attempt.\<close>

definition check_password ::
  "crypto \<Rightarrow> AuthConfig \<Rightarrow> env \<Rightarrow> (str \<times> UserRecord) option \<Rightarrow> str \<Rightarrow> str \<Rightarrow> RateLimitKey \<Rightarrow>
   str option \<Rightarrow> AuthState \<Rightarrow> (LoginRejection + NewSession) \<times> AuthState" where
  "check_password c a env candidate account password rate_key old_cookie st =
     (let valid = argon2_verify c (candidate_hash a candidate) (str_bytes password) in
      if \<not> usable_candidate a candidate
      then (Err (rejection AuthenticationFailed (unusable_reason candidate)), st)
      else if \<not> valid then (Err (rejection AuthenticationFailed ''bad_credentials''), st)
      else
        (case issue_session c a env account None
                (Option.bind old_cookie (session_key c a)) st of
           (Inl e, st) \<Rightarrow> (Err (internal_rejection e), st)
         | (Inr session, st) \<Rightarrow>
             (Ok session, st\<lparr>as_rate_limit := clear rate_key (as_rate_limit st)\<rparr>)))"

definition verify_login ::
  "crypto \<Rightarrow> AuthConfig \<Rightarrow> env \<Rightarrow> (str \<times> UserRecord) option \<Rightarrow> str \<Rightarrow> str \<Rightarrow> IpAddr option \<Rightarrow>
   str option \<Rightarrow> AuthState \<Rightarrow> (LoginRejection + NewSession) \<times> AuthState" where
  "verify_login c a env candidate username password client old_cookie st =
     (let source = map_option rate_limit_source client;
          account = (case candidate of Some (name, _) \<Rightarrow> name | None \<Rightarrow> username)
      in if MAX_PASSWORD_BYTES < str_len password
         then (Err (rejection AuthenticationFailed ''bad_credentials''), st)
         else
           (case allow_sign_in_source env source st of
              (Inl e, st) \<Rightarrow>
                (Err (if e = TooManyRequests then rejection e ''rate_limited_source''
                      else internal_rejection e), st)
            | (Inr _, st) \<Rightarrow>
                (case e_permit env of
                   TimedOut \<Rightarrow> (Err (rejection Busy ''busy''), st)
                 | Closed \<Rightarrow> (Err (internal_rejection Internal), st)
                 | Acquired \<Rightarrow>
                     (let rate_key = (normalized_identifier_digest c account, source) in
                      case allow rate_key (e_now_account env) (as_rate_limit st) of
                        (ok, rl) \<Rightarrow>
                          (let st = st\<lparr>as_rate_limit := rl\<rparr> in
                           if \<not> ok
                           then (Err (rejection TooManyRequests ''rate_limited_account''), st)
                           else check_password c a env candidate account password rate_key
                                  old_cookie st)))))"

definition login_candidate :: "AuthConfig \<Rightarrow> str \<Rightarrow> (str \<times> UserRecord) option" where
  "login_candidate a username =
     (if is_plausible_username username then map_option (Pair username) (map_of (ac_users a) username)
      else if str_len username \<le> 254 \<and> is_ascii username \<and> 64 \<in> set username
      then List.find (\<lambda>(_, user). case ur_email user of
                                      Some email \<Rightarrow> eq_ignore_ascii_case email username
                                    | None \<Rightarrow> False) (ac_users a)
      else None)"

definition login ::
  "crypto \<Rightarrow> AuthConfig \<Rightarrow> env \<Rightarrow> str \<Rightarrow> str \<Rightarrow> IpAddr option \<Rightarrow> str option \<Rightarrow> NewSession handler" where
  "login c a env username password client old_cookie st =
     (case verify_login c a env (login_candidate a username) username password client old_cookie st of
        (r, st) \<Rightarrow> (map_err lr_error r, st))"

definition login_oidc ::
  "crypto \<Rightarrow> AuthConfig \<Rightarrow> env \<Rightarrow> str \<Rightarrow> str \<Rightarrow> str option \<Rightarrow> bytes option \<Rightarrow>
   AuthState \<Rightarrow> (LoginRejection + (str \<times> str \<times> str)) \<times> AuthState" where
  "login_oidc c a env email subject picture_url old_session_key st =
     (let email = map to_ascii_lowercase email in
      case List.find (\<lambda>(_, user). ur_email user = Some email) (ac_users a) of
        None \<Rightarrow> (Err (rejection AuthenticationFailed ''unknown_identity''), st)
      | Some (username, user) \<Rightarrow>
          (let refuse = (\<lambda>reason. (rejection AuthenticationFailed reason)\<lparr>lr_subject := Some username\<rparr>) in
           if ur_disabled user then (Err (refuse ''disabled''), st)
           else if (case ur_oidc_subject user of Some expected \<Rightarrow> expected \<noteq> subject | None \<Rightarrow> False)
           then (Err (refuse ''subject_mismatch''), st)
           else
             (case issue_session c a env username picture_url old_session_key st of
                (Inl e, st) \<Rightarrow> (Err (internal_rejection e), st)
              | (Inr s, st) \<Rightarrow> (Ok (ns_username s, ns_cookie_token s, ns_csrf_token s), st))))"

subsection \<open>Sessions of requests\<close>

record AuthenticatedSession =
  au_username :: str
  au_session_token :: bytes
  au_created_at :: int
  au_picture_url :: "str option"

definition session_expired :: "AuthConfig \<Rightarrow> int \<Rightarrow> StoredSession \<Rightarrow> bool" where
  "session_expired a now s \<longleftrightarrow>
     ss_expires_at s \<le> now
     \<or> ac_idle_timeout_seconds a \<le> saturating_sub_i64 now (ss_last_seen_at s)
     \<or> now < ss_created_at s"

definition user_is_active :: "AuthConfig \<Rightarrow> str \<Rightarrow> bool" where
  "user_is_active a username =
     (case map_of (ac_users a) username of Some user \<Rightarrow> \<not> ur_disabled user | None \<Rightarrow> False)"

definition validate_session ::
  "crypto \<Rightarrow> AuthConfig \<Rightarrow> env \<Rightarrow> HeaderMap \<Rightarrow> (bytes \<times> bytes \<times> StoredSession \<times> int) handler" where
  "validate_session c a env headers st =
     (case session_cookie headers of
        None \<Rightarrow> (Err Unauthorized, st)
      | Some cookie \<Rightarrow>
          (case decode_token cookie of
             None \<Rightarrow> (Err Unauthorized, st)
           | Some raw_token \<Rightarrow>
               (let key = digest c a ''session'' raw_token; now = e_now env in
                if \<not> e_db env DbLookup then (Err (auth_error Database), st)
                else case session_lookup key (as_sessions st) of
                       None \<Rightarrow> (Err Unauthorized, st)
                     | Some session \<Rightarrow>
                         if session_expired a now session \<or> \<not> user_is_active a (ss_username session)
                         then (if \<not> e_db env DbDelete then (Err (auth_error Database), st)
                               else (Err Unauthorized,
                                     st\<lparr>as_sessions := session_delete key (as_sessions st)\<rparr>))
                         else (Ok (key, raw_token, session, now), st))))"

definition authenticate ::
  "crypto \<Rightarrow> AuthConfig \<Rightarrow> env \<Rightarrow> HeaderMap \<Rightarrow> AuthenticatedSession handler" where
  "authenticate c a env headers st =
     (case validate_session c a env headers st of
        (Inl e, st) \<Rightarrow> (Err e, st)
      | (Inr (key, raw_token, session, now), st) \<Rightarrow>
          if \<not> e_db env DbTouch then (Err (auth_error Database), st)
          else (Ok \<lparr> au_username = ss_username session, au_session_token = raw_token,
                     au_created_at = ss_created_at session, au_picture_url = ss_picture_url session \<rparr>,
                st\<lparr>as_sessions := session_touch key now (as_sessions st)\<rparr>))"

definition session_is_active :: "crypto \<Rightarrow> AuthConfig \<Rightarrow> env \<Rightarrow> HeaderMap \<Rightarrow> AuthState \<Rightarrow> bool \<times> AuthState" where
  "session_is_active c a env headers st =
     (case validate_session c a env headers st of (r, st) \<Rightarrow> (\<not> isl r, st))"

definition auth_logout :: "crypto \<Rightarrow> AuthConfig \<Rightarrow> env \<Rightarrow> HeaderMap \<Rightarrow> unit handler" where
  "auth_logout c a env headers st =
     (case session_cookie headers of
        None \<Rightarrow> (Err Unauthorized, st)
      | Some cookie \<Rightarrow>
          (case session_key c a cookie of
             None \<Rightarrow> (Err Unauthorized, st)
           | Some key \<Rightarrow>
               if \<not> e_db env DbDelete then (Err (auth_error Database), st)
               else (Ok (), st\<lparr>as_sessions := session_delete key (as_sessions st)\<rparr>)))"

definition verify_csrf :: "crypto \<Rightarrow> AuthConfig \<Rightarrow> AuthenticatedSession \<Rightarrow> HeaderMap \<Rightarrow> bool" where
  "verify_csrf c a session headers =
     (case Option.bind (Option.bind (header_get headers ''x-csrf-token'') to_str) decode_token of
        None \<Rightarrow> False
      | Some token \<Rightarrow> token = digest c a ''csrf-token'' (au_session_token session))"

subsection \<open>Grants\<close>

datatype AccessLevel = ReadOnly | ReadWrite

record ShareGrant =
  sg_share_id :: str
  sg_access :: AccessLevel

record AuthenticatedIdentity =
  id_subject :: str
  id_grants :: "ShareGrant list"

definition share_access :: "ShareRecord \<Rightarrow> Permission \<Rightarrow> AccessLevel" where
  "share_access share permission =
     (if sr_read_only share \<or> permission = Read then ReadOnly else ReadWrite)"

text \<open>An invalid share identifier, which the configuration excludes, is a panic: \<open>None\<close>.\<close>

fun collect_grants :: "str \<Rightarrow> ShareRecord list \<Rightarrow> ShareGrant list option" where
  "collect_grants username [] = Some []"
| "collect_grants username (share # shares) =
     (case sr_grants share username of
        None \<Rightarrow> collect_grants username shares
      | Some permission \<Rightarrow>
          (case ShareId_new (sr_id share) of
             Inl _ \<Rightarrow> None
           | Inr i \<Rightarrow> map_option ((#) \<lparr> sg_share_id = i, sg_access = share_access share permission \<rparr>)
                        (collect_grants username shares)))"

definition browse_identity :: "AuthConfig \<Rightarrow> str \<Rightarrow> AuthenticatedIdentity option" where
  "browse_identity a username =
     map_option (\<lambda>gs. \<lparr> id_subject = username, id_grants = gs \<rparr>) (collect_grants username (ac_shares a))"

record EffectiveShare =
  es_id :: str
  es_name :: str
  es_access :: string
  es_search_enabled :: bool

definition effective_shares :: "AuthConfig \<Rightarrow> str \<Rightarrow> EffectiveShare list" where
  "effective_shares a username =
     List.map_filter (\<lambda>share. map_option (\<lambda>permission.
        \<lparr> es_id = sr_id share, es_name = sr_name share,
          es_access = (if sr_read_only share \<or> permission = Read then ''read'' else ''read-write''),
          es_search_enabled = sr_search_enabled share \<rparr>) (sr_grants share username)) (ac_shares a)"

definition grant_for :: "AuthenticatedIdentity \<Rightarrow> str \<Rightarrow> ShareGrant option" where
  "grant_for identity share_id = List.find (\<lambda>g. sg_share_id g = share_id) (id_grants identity)"

record GlobalPolicy =
  gp_read_only :: bool

record ShareFs =
  sf_id :: str
  sf_staging :: bool

definition authorize :: "ShareFs \<Rightarrow> ShareGrant option \<Rightarrow> GlobalPolicy \<Rightarrow> FsErrorCode + AccessLevel" where
  "authorize share grant policy =
     (case grant of
        Some g \<Rightarrow>
          if sg_share_id g = sf_id share
          then Ok (if gp_read_only policy \<or> \<not> sf_staging share then ReadOnly else sg_access g)
          else Err AccessDenied
      | None \<Rightarrow> Err AccessDenied)"

definition authorize_owned ::
  "(str \<rightharpoonup> ShareFs) \<Rightarrow> GlobalPolicy \<Rightarrow> AuthenticatedIdentity \<Rightarrow> str \<Rightarrow> AppError + (ShareFs \<times> AccessLevel)" where
  "authorize_owned shares policy identity share_id =
     (case shares share_id of
        None \<Rightarrow> Err NotFound
      | Some share \<Rightarrow>
          map_err non_disclosing_fs_error
            (and_then (authorize share (grant_for identity share_id) policy)
               (\<lambda>access. Ok (share, access))))"

subsection \<open>Middleware\<close>

text \<open>What the middleware hands the protected handler; a panic is the outer \<open>None\<close>.\<close>

definition require_authentication ::
  "crypto \<Rightarrow> AuthConfig \<Rightarrow> env \<Rightarrow> HeaderMap \<Rightarrow>
   AuthState \<Rightarrow> (AppError + (str \<times> AuthenticatedIdentity option)) \<times> AuthState" where
  "require_authentication c a env headers st =
     (case authenticate c a env headers st of
        (Inl e, st) \<Rightarrow> (Err e, st)
      | (Inr session, st) \<Rightarrow> (Ok (au_username session, browse_identity a (au_username session)), st))"

definition require_state_change ::
  "crypto \<Rightarrow> uri_parser \<Rightarrow> AuthConfig \<Rightarrow> env \<Rightarrow> HeaderMap \<Rightarrow>
   AuthState \<Rightarrow> (AppError + (str \<times> AuthenticatedIdentity option)) \<times> AuthState" where
  "require_state_change c parse_uri a env headers st =
     (case validate_same_origin parse_uri headers of
        Inl e \<Rightarrow> (Err e, st)
      | Inr _ \<Rightarrow>
          (case authenticate c a env headers st of
             (Inl e, st) \<Rightarrow> (Err e, st)
           | (Inr session, st) \<Rightarrow>
               if \<not> verify_csrf c a session headers then (Err Forbidden, st)
               else (Ok (au_username session, browse_identity a (au_username session)), st)))"

definition logout ::
  "crypto \<Rightarrow> uri_parser \<Rightarrow> AuthConfig \<Rightarrow> env \<Rightarrow> HeaderMap \<Rightarrow> unit handler" where
  "logout c parse_uri a env headers st =
     (case validate_same_origin parse_uri headers of
        Inl e \<Rightarrow> (Err e, st)
      | Inr _ \<Rightarrow>
          (case authenticate c a env headers st of
             (Inl e, st) \<Rightarrow> (Err e, st)
           | (Inr session, st) \<Rightarrow>
               if \<not> verify_csrf c a session headers then (Err Forbidden, st)
               else auth_logout c a env headers st))"


subsection \<open>Invariant of the service\<close>

definition user_sessions :: "str \<Rightarrow> sessions \<Rightarrow> sessions" where
  "user_sessions u rows = filter (\<lambda>r. ss_username (snd r) = u) rows"

definition auth_inv :: "AuthConfig \<Rightarrow> AuthState \<Rightarrow> bool" where
  "auth_inv a st \<longleftrightarrow>
     distinct (keys (as_sessions st))
     \<and> length (as_sessions st) \<le> ac_max_sessions_total a
     \<and> (\<forall>u. length (user_sessions u (as_sessions st)) \<le> ac_max_sessions_per_user a)
     \<and> limiter_ok (as_rate_limit st) \<and> limiter_ok (as_source_rate_limit st)"

definition limits_positive :: "AuthConfig \<Rightarrow> bool" where
  "limits_positive a \<longleftrightarrow> 0 < ac_max_sessions_per_user a \<and> 0 < ac_max_sessions_total a"

lemma keys_session_touch [simp]: "keys (session_touch k now rows) = keys rows"
  by (simp add: session_touch_def split_def comp_def)

lemma user_sessions_touch: "length (user_sessions u (session_touch k now rows)) = length (user_sessions u rows)"
proof -
  have "ss_username (snd (case r of (k', s) \<Rightarrow> (k', if k' = k then s\<lparr>ss_last_seen_at := now\<rparr> else s))) =
      ss_username (snd r)" for r :: "bytes \<times> StoredSession"
    by (simp split: prod.split)
  then show ?thesis by (simp add: user_sessions_def session_touch_def filter_map comp_def)
qed

lemma session_lookup_touch:
  "session_lookup j (session_touch k now rows) =
     map_option (\<lambda>s. if j = k then s\<lparr>ss_last_seen_at := now\<rparr> else s) (session_lookup j rows)"
  unfolding session_lookup_def session_touch_def by (induction rows) auto

lemma session_lookup_delete:
  "session_lookup j (session_delete k rows) = (if j = k then None else session_lookup j rows)"
  by (simp add: session_lookup_def session_delete_def map_of_remove_key)

lemma filter_le_filter:
  "distinct (keys xs) \<Longrightarrow> set xs \<subseteq> set ys \<Longrightarrow> length (filter P xs) \<le> length (filter P ys)"
proof -
  assume a: "distinct (keys xs)" "set xs \<subseteq> set ys"
  have "distinct (filter P xs)" using a(1) distinct_map by (metis distinct_filter)
  then have "length (filter P xs) = card (set (filter P xs))" by (rule distinct_card [symmetric])
  also have "\<dots> \<le> card (set (filter P ys))" using a(2) by (intro card_mono) auto
  also have "\<dots> \<le> length (filter P ys)" by (rule card_length)
  finally show ?thesis .
qed

lemma delete_inv:
  assumes "auth_inv a st" shows "auth_inv a (st\<lparr>as_sessions := session_delete k (as_sessions st)\<rparr>)"
proof -
  have d: "distinct (keys (as_sessions st))" using assms by (simp add: auth_inv_def)
  have le: "length (filter P (remove_key k (as_sessions st))) \<le> length (filter P (as_sessions st))" for P
    by (rule filter_le_filter [OF distinct_remove_key [OF d] set_remove_key])
  have "length (user_sessions u (remove_key k (as_sessions st))) \<le> ac_max_sessions_per_user a" for u
    using le assms le_trans unfolding auth_inv_def user_sessions_def by blast
  moreover have "length (remove_key k (as_sessions st)) \<le> ac_max_sessions_total a"
    using le [of "\<lambda>_. True"] assms by (simp add: auth_inv_def)
  ultimately show ?thesis
    using assms distinct_remove_key [OF d] by (simp add: auth_inv_def session_delete_def)
qed

lemma touch_inv: "auth_inv a st \<Longrightarrow> auth_inv a (st\<lparr>as_sessions := session_touch k now (as_sessions st)\<rparr>)"
  unfolding auth_inv_def using length_map by (simp add: user_sessions_touch) (simp add: session_touch_def)

lemma rotate_inv:
  assumes "rotate r (as_sessions st) = Ok rows" "auth_inv a st" "limits_positive a"
    "rot_max_per_user r = ac_max_sessions_per_user a" "rot_max_total r = ac_max_sessions_total a"
  shows "auth_inv a (st\<lparr>as_sessions := rows\<rparr>)"
proof -
  have d: "distinct (keys (as_sessions st))" using assms(2) by (simp add: auth_inv_def)
  obtain kept where k:
    "rows = kept @ [(rot_new_key r, \<lparr> ss_username = rot_username r, ss_picture_url = rot_picture_url r,
        ss_created_at = rot_now r, ss_last_seen_at = rot_now r, ss_expires_at = rot_expires_at r \<rparr>)]"
    "distinct (keys kept)" "rot_new_key r \<notin> set (keys kept)" "length (rot_new_key r) = 32"
    "set kept \<subseteq> set (as_sessions st)" "length kept \<le> rot_max_total r - 1"
    "length (filter (\<lambda>s. ss_username (snd s) = rot_username r) kept) \<le> rot_max_per_user r - 1"
    "\<forall>(k, s) \<in> set kept. rot_now r < ss_expires_at s \<and> rot_idle_cutoff r < ss_last_seen_at s
       \<and> rot_old_key r \<noteq> Some k"
    by (rule rotate_Ok [OF assms(1) d])
  have "length (user_sessions u rows) \<le> ac_max_sessions_per_user a" for u
  proof (cases "u = rot_username r")
    case True
    then have "length (user_sessions u rows) =
        Suc (length (filter (\<lambda>s. ss_username (snd s) = rot_username r) kept))"
      by (simp add: user_sessions_def k(1))
    then show ?thesis using k(7) assms(3,4) unfolding limits_positive_def by linarith
  next
    case False
    then have "length (user_sessions u rows) \<le> length (user_sessions u (as_sessions st))"
      using filter_le_filter [OF k(2,5)] by (simp add: user_sessions_def k(1))
    also have "\<dots> \<le> ac_max_sessions_per_user a" using assms(2) by (simp add: auth_inv_def)
    finally show ?thesis .
  qed
  moreover have "length rows \<le> ac_max_sessions_total a"
  proof -
    have "length rows = Suc (length kept)" by (simp add: k(1))
    then show ?thesis using k(6) assms(3,5) unfolding limits_positive_def by linarith
  qed
  moreover have "distinct (keys rows)" using k(2,3) by (simp add: k(1))
  ultimately show ?thesis using assms(2) by (simp add: auth_inv_def)
qed

lemma issue_session_Ok:
  assumes "issue_session c a env username pic old st = (Ok s, st')"
  obtains token rows where "e_random env = Some token"
    "rotate \<lparr> rot_old_key = old, rot_new_key = digest c a ''session'' token,
       rot_username = username, rot_picture_url = pic, rot_now = e_now env,
       rot_expires_at = saturating_add_i64 (e_now env) (ac_absolute_timeout_seconds a),
       rot_idle_cutoff = saturating_sub_i64 (e_now env) (ac_idle_timeout_seconds a),
       rot_max_per_user = ac_max_sessions_per_user a,
       rot_max_total = ac_max_sessions_total a \<rparr> (as_sessions st) = Ok rows"
    "st' = st\<lparr>as_sessions := rows\<rparr>"
    "s = \<lparr> ns_cookie_token = encode_hex token, ns_csrf_token = encode_hex (digest c a ''csrf-token'' token),
           ns_username = username, ns_picture_url = pic \<rparr>"
  using assms by (auto simp: issue_session_def split: option.splits sum.splits if_splits)

lemma issue_session_Err:
  "issue_session c a env username pic old st = (Err e, st') \<Longrightarrow> st' = st \<and> e = Internal"
  by (auto simp: issue_session_def auth_error_def split: option.splits sum.splits if_splits)

lemma issue_session_inv:
  assumes "issue_session c a env username pic old st = (r, st')" "auth_inv a st" "limits_positive a"
  shows "auth_inv a st'"
proof (cases r)
  case (Inl e)
  with assms(1,2) show ?thesis using issue_session_Err by metis
next
  case (Inr s)
  with assms(1) obtain token rows where
    "rotate \<lparr> rot_old_key = old, rot_new_key = digest c a ''session'' token,
       rot_username = username, rot_picture_url = pic, rot_now = e_now env,
       rot_expires_at = saturating_add_i64 (e_now env) (ac_absolute_timeout_seconds a),
       rot_idle_cutoff = saturating_sub_i64 (e_now env) (ac_idle_timeout_seconds a),
       rot_max_per_user = ac_max_sessions_per_user a,
       rot_max_total = ac_max_sessions_total a \<rparr> (as_sessions st) = Ok rows"
    "st' = st\<lparr>as_sessions := rows\<rparr>"
    using issue_session_Ok by metis
  then show ?thesis using rotate_inv [OF _ assms(2,3)] by simp
qed

lemma issue_session_found:
  assumes "issue_session c a env username pic old st = (Ok s, st')" "distinct (keys (as_sessions st))"
  shows "\<exists>token. e_random env = Some token \<and> ns_cookie_token s = encode_hex token
    \<and> ns_csrf_token s = encode_hex (digest c a ''csrf-token'' token) \<and> ns_username s = username
    \<and> session_lookup (digest c a ''session'' token) (as_sessions st') =
        Some \<lparr> ss_username = username, ss_picture_url = pic, ss_created_at = e_now env,
               ss_last_seen_at = e_now env,
               ss_expires_at = saturating_add_i64 (e_now env) (ac_absolute_timeout_seconds a) \<rparr>"
  using assms(1)
proof (rule issue_session_Ok)
  fix token rows
  assume t: "e_random env = Some token" "st' = st\<lparr>as_sessions := rows\<rparr>"
    "s = \<lparr> ns_cookie_token = encode_hex token, ns_csrf_token = encode_hex (digest c a ''csrf-token'' token),
           ns_username = username, ns_picture_url = pic \<rparr>"
  assume r: "rotate \<lparr> rot_old_key = old, rot_new_key = digest c a ''session'' token,
       rot_username = username, rot_picture_url = pic, rot_now = e_now env,
       rot_expires_at = saturating_add_i64 (e_now env) (ac_absolute_timeout_seconds a),
       rot_idle_cutoff = saturating_sub_i64 (e_now env) (ac_idle_timeout_seconds a),
       rot_max_per_user = ac_max_sessions_per_user a,
       rot_max_total = ac_max_sessions_total a \<rparr> (as_sessions st) = Ok rows"
  from r assms(2) show ?thesis
    by (rule rotate_Ok) (use t in \<open>auto simp: session_lookup_def map_add_def map_of_eq_None_iff
        split: option.split dest: map_of_SomeD intro: rev_image_eqI\<close>)
qed

lemma limiter_updates_inv:
  "auth_inv a st \<Longrightarrow> limiter_ok rl \<Longrightarrow> auth_inv a (st\<lparr>as_rate_limit := rl\<rparr>)"
  "auth_inv a st \<Longrightarrow> limiter_ok rl' \<Longrightarrow> auth_inv a (st\<lparr>as_source_rate_limit := rl'\<rparr>)"
  by (simp_all add: auth_inv_def)

lemma allow_ok_pair: "allow k now rl = (b, rl') \<Longrightarrow> limiter_ok rl \<Longrightarrow> limiter_ok rl'"
  using allow_ok [of rl k now] by simp

lemma check_password_inv:
  assumes "check_password c a env cand acct pw key cookie st = (r, st')" "auth_inv a st" "limits_positive a"
  shows "auth_inv a st'"
  using assms
  by (auto simp: check_password_def Let_def auth_inv_def clear_ok split: if_splits prod.splits sum.splits
      dest: issue_session_inv [unfolded auth_inv_def])

lemma verify_login_cases:
  assumes "verify_login c a env cand username password client cookie st = (r, st')"
  obtains (early) e where "r = Err e" "st' = st"
  | (limited) e rl where "r = Err e" "st' = st\<lparr>as_source_rate_limit := rl\<rparr>"
      "snd (allow (map_option rate_limit_source client) (e_now_source env) (as_source_rate_limit st)) = rl"
  | (refused) e rl rl' acct where "r = Err e"
      "snd (allow (map_option rate_limit_source client) (e_now_source env) (as_source_rate_limit st)) = rl"
      "snd (allow acct (e_now_account env) (as_rate_limit st)) = rl'"
      "st' = st\<lparr>as_source_rate_limit := rl, as_rate_limit := rl'\<rparr>"
  | (checked) rl rl' acct where
      "acct = (case cand of Some (name, _) \<Rightarrow> name | None \<Rightarrow> username)"
      "str_len password \<le> MAX_PASSWORD_BYTES"
      "allow (map_option rate_limit_source client) (e_now_source env) (as_source_rate_limit st) = (True, rl)"
      "e_permit env = Acquired"
      "allow (normalized_identifier_digest c acct, map_option rate_limit_source client)
         (e_now_account env) (as_rate_limit st) = (True, rl')"
      "check_password c a env cand acct password
         (normalized_identifier_digest c acct, map_option rate_limit_source client) cookie
         (st\<lparr>as_source_rate_limit := rl, as_rate_limit := rl'\<rparr>) = (r, st')"
proof -
  let ?src = "map_option rate_limit_source client"
  let ?acct = "case cand of Some (name, _) \<Rightarrow> name | None \<Rightarrow> username"
  obtain b1 rl where s1: "allow ?src (e_now_source env) (as_source_rate_limit st) = (b1, rl)"
    by fastforce
  obtain b2 rl' where s2: "allow (normalized_identifier_digest c ?acct, ?src)
      (e_now_account env) (as_rate_limit st) = (b2, rl')" by fastforce
  note v = assms [unfolded verify_login_def Let_def allow_sign_in_source_def s1]
  show thesis
  proof (cases "MAX_PASSWORD_BYTES < str_len password")
    case True
    with v show ?thesis using early by auto
  next
    case len: False
    show ?thesis
    proof (cases "b1 \<and> e_permit env = Acquired")
      case False
      with v len s1 show ?thesis using limited by (cases b1; cases "e_permit env") auto
    next
      case True
      show ?thesis
      proof (cases b2)
        case False
        with v len True s2 have
          "r = Err (rejection TooManyRequests ''rate_limited_account'')"
          "st' = st\<lparr>as_source_rate_limit := rl, as_rate_limit := rl'\<rparr>" by auto
        moreover have "snd (allow (normalized_identifier_digest c ?acct, ?src)
            (e_now_account env) (as_rate_limit st)) = rl'" using s2 by simp
        ultimately show ?thesis using refused s1 by simp
      next
        case b2: True
        with v len True s1 s2 show ?thesis using checked [OF refl] by auto
      qed
    qed
  qed
qed

lemma verify_login_inv:
  assumes "verify_login c a env cand username password client cookie st = (r, st')"
    "auth_inv a st" "limits_positive a"
  shows "auth_inv a st'"
  using assms(1)
proof (cases rule: verify_login_cases)
  case early
  with assms(2) show ?thesis by simp
next
  case (limited e rl)
  with assms(2) show ?thesis by (auto simp: auth_inv_def intro: allow_ok)
next
  case (refused e rl rl' acct)
  with assms(2) show ?thesis by (auto simp: auth_inv_def intro: allow_ok)
next
  case (checked rl rl' acct)
  then have "auth_inv a (st\<lparr>as_source_rate_limit := rl, as_rate_limit := rl'\<rparr>)"
    using assms(2) by (auto simp: auth_inv_def intro: allow_ok_pair)
  from check_password_inv [OF checked(6) this assms(3)] show ?thesis .
qed

lemma validate_session_state:
  "validate_session c a env headers st = (r, st') \<Longrightarrow>
   st' = st \<or> (\<exists>k. st' = st\<lparr>as_sessions := session_delete k (as_sessions st)\<rparr>)"
  by (auto simp: validate_session_def Let_def split: option.splits if_splits)

lemma validate_session_inv:
  "validate_session c a env headers st = (r, st') \<Longrightarrow> auth_inv a st \<Longrightarrow> auth_inv a st'"
  using validate_session_state delete_inv by metis

lemma authenticate_inv:
  "authenticate c a env headers st = (r, st') \<Longrightarrow> auth_inv a st \<Longrightarrow> auth_inv a st'"
  by (auto simp: authenticate_def split: prod.splits sum.splits if_splits
      dest: validate_session_inv intro: touch_inv)

lemma auth_logout_inv:
  "auth_logout c a env headers st = (r, st') \<Longrightarrow> auth_inv a st \<Longrightarrow> auth_inv a st'"
  by (auto simp: auth_logout_def split: option.splits if_splits intro: delete_inv)

lemma logout_inv:
  "logout c pu a env headers st = (r, st') \<Longrightarrow> auth_inv a st \<Longrightarrow> auth_inv a st'"
  by (auto simp: logout_def split: sum.splits prod.splits if_splits
      dest: authenticate_inv auth_logout_inv)

text \<open>One request of the service, in any order with the others.\<close>

inductive auth_step :: "crypto \<Rightarrow> AuthConfig \<Rightarrow> AuthState \<Rightarrow> AuthState \<Rightarrow> bool" for c a where
  s_login: "login c a env username password client cookie st = (r, st') \<Longrightarrow> auth_step c a st st'"
| s_oidc: "login_oidc c a env email subject pic old st = (r', st') \<Longrightarrow> auth_step c a st st'"
| s_authenticate: "authenticate c a env headers st = (r'', st') \<Longrightarrow> auth_step c a st st'"
| s_active: "session_is_active c a env headers st = (b, st') \<Longrightarrow> auth_step c a st st'"
| s_logout: "logout c pu a env headers st = (q, st') \<Longrightarrow> auth_step c a st st'"

lemma auth_step_inv:
  assumes "auth_step c a st st'" "auth_inv a st" "limits_positive a" shows "auth_inv a st'"
  using assms
proof (induction rule: auth_step.induct)
  case (s_login env username password client cookie st r st')
  then show ?case by (auto simp: login_def split: prod.splits dest: verify_login_inv)
next
  case (s_oidc env email subject pic old st r' st')
  then show ?case
    by (auto simp: login_oidc_def Let_def split: option.splits if_splits prod.splits sum.splits
        dest: issue_session_inv)
next
  case (s_authenticate env headers st r'' st')
  then show ?case by (blast intro: authenticate_inv)
next
  case (s_active env headers st b st')
  then show ?case by (auto simp: session_is_active_def split: prod.splits dest: validate_session_inv)
next
  case (s_logout pu env headers st q st')
  then show ?case by (blast intro: logout_inv)
qed

definition auth_start :: "nat \<Rightarrow> nat \<Rightarrow> AuthState" where
  "auth_start per_account per_source =
     \<lparr> as_sessions = [],
       as_rate_limit = \<lparr> rl_entries = [], rl_attempts_per_window = per_account \<rparr>,
       as_source_rate_limit = \<lparr> rl_entries = [], rl_attempts_per_window = per_source \<rparr> \<rparr>"

lemma auth_start_inv: "auth_inv a (auth_start m n)"
  by (simp add: auth_inv_def auth_start_def user_sessions_def limiter_ok_def)

lemma auth_reach_inv:
  "(auth_step c a)\<^sup>*\<^sup>* (auth_start m n) st \<Longrightarrow> limits_positive a \<Longrightarrow> auth_inv a st"
  by (induction rule: rtranclp_induct) (auto intro: auth_start_inv auth_step_inv)

lemma login_candidate_user:
  "login_candidate a username = Some (name, user) \<Longrightarrow> (name, user) \<in> set (ac_users a)"
  by (auto simp: login_candidate_def find_Some_iff dest: map_of_SomeD nth_mem split: if_splits)

subsection \<open>Sessions presented in cookies\<close>

lemma trim_id:
  assumes "s \<noteq> []" "\<not> is_whitespace (hd s)" "\<not> is_whitespace (last s)" shows "trim s = s"
proof -
  have "dropWhile is_whitespace t = t" if "t \<noteq> []" "\<not> is_whitespace (hd t)" for t
    using that by (cases t) auto
  with assms show ?thesis by (simp add: trim_def trim_start_def hd_rev)
qed

lemma encode_hex_chars: "set (encode_hex bs) \<subseteq> {48..57} \<union> {97..102}"
proof (induction bs)
  case (Cons b bs)
  have "hex_digit n \<in> {48..57} \<union> {97..102}" if "n < 16" for n
    using that by (auto simp: hex_digit_def)
  with Cons nibbles [of b] show ?case by simp
qed simp

lemma session_cookie_token:
  assumes "get_all headers ''cookie'' = [v]"
    "as_bytes v = SESSION_COOKIE @ [61] @ encode_hex bs"
  shows "session_cookie headers = Some (encode_hex bs)"
proof -
  let ?raw = "SESSION_COOKIE @ [61] @ encode_hex bs"
  have h: "set (encode_hex bs) \<subseteq> {48..57} \<union> {97..102}" by (rule encode_hex_chars)
  have c: "set SESSION_COOKIE \<subseteq> {45, 95} \<union> {65..90} \<union> {97..122}"
    by (simp add: SESSION_COOKIE_def lit_def)
  have semi: "59 \<notin> set ?raw" using h c by auto
  have chars: "list_all is_char ?raw" "is_ascii ?raw" using h c
    by (auto simp: list_all_iff is_char_def is_ascii_def)
  have "utf8_decode ?raw = Some ?raw"
    using utf8_decode_utf8 [OF chars(1)] utf8_ascii [OF chars(2)] by simp
  moreover have "trim ?raw = ?raw"
  proof (rule trim_id)
    show "\<not> is_whitespace (hd ?raw)" by (simp add: SESSION_COOKIE_def lit_def is_whitespace_def)
    have "last ?raw \<in> {61} \<union> {48..57} \<union> {97..102}"
      using subsetD [OF h, of "last (encode_hex bs)"] by (cases "encode_hex bs = []") auto
    then show "\<not> is_whitespace (last ?raw)" by (auto simp: is_whitespace_def)
  qed simp
  moreover have "split_once 61 ?raw = Some (SESSION_COOKIE, encode_hex bs)"
    unfolding split_once_Some using c by auto
  ultimately have "cookie_pair ?raw = Some (SESSION_COOKIE, encode_hex bs)"
    by (simp add: cookie_pair_def)
  moreover have "split_on 59 ?raw = [?raw]" by (rule split_on_no_sep [OF semi])
  ultimately show ?thesis using assms by (simp add: session_cookie_def cookie_value_def)
qed

lemma authenticate_Ok:
  assumes "\<forall>op. e_db env op"
  shows "(\<exists>st'. authenticate c a env headers st = (Ok sess, st')) \<longleftrightarrow>
    (\<exists>cookie token s. session_cookie headers = Some cookie \<and> decode_token cookie = Some token
       \<and> session_lookup (digest c a ''session'' token) (as_sessions st) = Some s
       \<and> \<not> session_expired a (e_now env) s \<and> user_is_active a (ss_username s)
       \<and> sess = \<lparr> au_username = ss_username s, au_session_token = token,
                  au_created_at = ss_created_at s, au_picture_url = ss_picture_url s \<rparr>)"
  using assms
  by (auto simp: authenticate_def validate_session_def Let_def
      split: option.splits if_splits prod.splits sum.splits)

lemma login_checked:
  assumes "login c a env username password client cookie st = (Ok s, st')"
  obtains name user h rl rl' where
    "login_candidate a username = Some (name, user)" "ac_password_enabled a" "\<not> ur_disabled user"
    "ur_password_hash user = Some h" "argon2_verify c h (str_bytes password)"
    "str_len password \<le> MAX_PASSWORD_BYTES"
    "fst (allow (map_option rate_limit_source client) (e_now_source env) (as_source_rate_limit st))"
    "fst (allow (normalized_identifier_digest c name, map_option rate_limit_source client)
       (e_now_account env) (as_rate_limit st))"
    "issue_session c a env name None (Option.bind cookie (session_key c a))
       (st\<lparr>as_source_rate_limit := rl', as_rate_limit := rl\<rparr>) =
       (Ok s, st'\<lparr>as_rate_limit := rl\<rparr>)"
proof -
  from assms have "verify_login c a env (login_candidate a username) username password client cookie st = (Ok s, st')"
    by (auto simp: login_def split: prod.splits)
  then show ?thesis
  proof (cases rule: verify_login_cases)
    case (checked rl rl' acct)
    from checked(6) obtain name user h st1 where
      c: "login_candidate a username = Some (name, user)" "ac_password_enabled a" "\<not> ur_disabled user"
        "ur_password_hash user = Some h" "argon2_verify c h (str_bytes password)" and
      i: "issue_session c a env acct None (Option.bind cookie (session_key c a))
           (st\<lparr>as_source_rate_limit := rl, as_rate_limit := rl'\<rparr>) = (Ok s, st1)"
        "as_rate_limit st' = clear (normalized_identifier_digest c acct, map_option rate_limit_source client) (as_rate_limit st1)"
        "st' = st1\<lparr>as_rate_limit := as_rate_limit st'\<rparr>"
      by (auto simp: check_password_def usable_candidate_def candidate_hash_def Let_def
          split: if_splits prod.splits sum.splits option.splits)
    have "as_rate_limit st1 = rl'" using i(1) by (auto elim: issue_session_Ok)
    then have "st1 = st'\<lparr>as_rate_limit := rl'\<rparr>" using i(3) by (cases st1; cases st') simp
    with c i(1) checked that [of name user h] show ?thesis by simp
  qed auto
qed

subsection \<open>Properties\<close>


definition sample_crypto :: crypto where
  "sample_crypto = \<lparr> hmac_sha256 = (\<lambda>_ m. take 32 (rev m @ replicate 32 0)), sha256 = (\<lambda>_. []),
     argon2_verify = (\<lambda>h p. map unat p = h) \<rparr>"

definition sample_user :: UserRecord where
  "sample_user = \<lparr> ur_password_hash = Some [115], ur_email = None, ur_disabled = False,
     ur_oidc_subject = None \<rparr>"

definition sample_config :: AuthConfig where
  "sample_config = \<lparr> ac_users = [([97], sample_user)], ac_password_enabled = True, ac_shares = [],
     ac_token_key = [1], ac_dummy_password_hash = [], ac_idle_timeout_seconds = 60,
     ac_absolute_timeout_seconds = 600, ac_max_sessions_per_user = 2, ac_max_sessions_total = 3,
     ac_trusted_proxies = \<lparr> networks = [], fwd_header = XForwardedFor \<rparr> \<rparr>"

definition sample_env :: env where
  "sample_env = \<lparr> e_now_source = 100, e_now_account = 100, e_now = 100, e_permit = Acquired,
     e_random = Some (replicate 32 7), e_db = (\<lambda>_. True) \<rparr>"


text \<open>
  C9: A password sign-in succeeds only for the right reasons. A returned session belongs to a
  configured, enabled user with a password hash that the given password (of at most 4096
  bytes) matches, with password sign-in enabled and both rate limiters granting the attempt; and
  the session table then holds a fresh session of that user under the keyed digest of the
  cookie's token.
\<close>

theorem login_sound:
  assumes "login c a env username password client cookie st = (Ok s, st')"
    "distinct (keys (as_sessions st))"
  shows "\<exists>user h token. (ns_username s, user) \<in> set (ac_users a) \<and> \<not> ur_disabled user
    \<and> ac_password_enabled a \<and> ur_password_hash user = Some h
    \<and> argon2_verify c h (str_bytes password) \<and> str_len password \<le> 4096
    \<and> fst (allow (map_option rate_limit_source client) (e_now_source env) (as_source_rate_limit st))
    \<and> fst (allow (normalized_identifier_digest c (ns_username s), map_option rate_limit_source client)
            (e_now_account env) (as_rate_limit st))
    \<and> e_random env = Some token \<and> ns_cookie_token s = encode_hex token
    \<and> session_lookup (digest c a ''session'' token) (as_sessions st') =
        Some \<lparr> ss_username = ns_username s, ss_picture_url = None, ss_created_at = e_now env,
               ss_last_seen_at = e_now env,
               ss_expires_at = saturating_add_i64 (e_now env) (ac_absolute_timeout_seconds a) \<rparr>"
proof -
  from assms(1) obtain name user h rl rl' where l:
    "login_candidate a username = Some (name, user)" "ac_password_enabled a" "\<not> ur_disabled user"
    "ur_password_hash user = Some h" "argon2_verify c h (str_bytes password)"
    "str_len password \<le> MAX_PASSWORD_BYTES"
    "fst (allow (map_option rate_limit_source client) (e_now_source env) (as_source_rate_limit st))"
    "fst (allow (normalized_identifier_digest c name, map_option rate_limit_source client)
       (e_now_account env) (as_rate_limit st))"
    "issue_session c a env name None (Option.bind cookie (session_key c a))
       (st\<lparr>as_source_rate_limit := rl', as_rate_limit := rl\<rparr>) =
       (Ok s, st'\<lparr>as_rate_limit := rl\<rparr>)"
    by (rule login_checked)
  from issue_session_found [OF l(9)] assms(2) l(1-8) login_candidate_user [OF l(1)]
  show ?thesis by (fastforce simp: MAX_PASSWORD_BYTES_def)
qed

text \<open>
  C10: A signed-in browser is recognised. After a successful password sign-in, a request that
  carries only the issued cookie, at a time within the idle and absolute timeouts, is
  authenticated as the signed-in user, and the CSRF token handed out with the session
  verifies for it.
\<close>

theorem login_then_authenticate:
  assumes "login c a env username password client cookie st = (Ok s, st')"
    and "distinct (keys (as_sessions st))" "distinct (keys (ac_users a))"
    and hmac: "\<forall>k m. length (hmac_sha256 c k m) = 32" and token: "\<forall>t. e_random env = Some t \<longrightarrow> length t = 32"
    and headers: "get_all headers ''cookie'' = [v]" "as_bytes v = SESSION_COOKIE @ [61] @ ns_cookie_token s"
    and csrf: "header_get headers ''x-csrf-token'' = Some w" "to_str w = Some (ns_csrf_token s)"
    and time: "e_now env \<le> e_now env'" "e_now env' - e_now env < ac_idle_timeout_seconds a"
      "e_now env' < saturating_add_i64 (e_now env) (ac_absolute_timeout_seconds a)"
      "ac_idle_timeout_seconds a \<le> i64_max" and db: "\<forall>op. e_db env' op"
  shows "\<exists>sess st''. authenticate c a env' headers st' = (Ok sess, st'')
    \<and> au_username sess = ns_username s \<and> verify_csrf c a sess headers"
proof -
  from assms(1) obtain name user h rl rl' where l:
    "login_candidate a username = Some (name, user)" "ac_password_enabled a" "\<not> ur_disabled user"
    "ur_password_hash user = Some h" "argon2_verify c h (str_bytes password)"
    "str_len password \<le> MAX_PASSWORD_BYTES"
    "fst (allow (map_option rate_limit_source client) (e_now_source env) (as_source_rate_limit st))"
    "fst (allow (normalized_identifier_digest c name, map_option rate_limit_source client)
       (e_now_account env) (as_rate_limit st))"
    "issue_session c a env name None (Option.bind cookie (session_key c a))
       (st\<lparr>as_source_rate_limit := rl', as_rate_limit := rl\<rparr>) =
       (Ok s, st'\<lparr>as_rate_limit := rl\<rparr>)"
    by (rule login_checked)
  from issue_session_found [OF l(9)] assms(2) obtain t where t:
    "e_random env = Some t" "ns_cookie_token s = encode_hex t"
    "ns_csrf_token s = encode_hex (digest c a ''csrf-token'' t)" "ns_username s = name"
    "session_lookup (digest c a ''session'' t) (as_sessions st') =
       Some \<lparr> ss_username = name, ss_picture_url = None, ss_created_at = e_now env,
              ss_last_seen_at = e_now env,
              ss_expires_at = saturating_add_i64 (e_now env) (ac_absolute_timeout_seconds a) \<rparr>"
    by auto
  have ck: "session_cookie headers = Some (encode_hex t)"
    using session_cookie_token headers t(2) by metis
  have dt: "decode_token (encode_hex t) = Some t"
    using token t(1) token_codec.dec_enc by (simp add: TOKEN_BYTES_def)
  have "map_of (ac_users a) name = Some user"
    using login_candidate_user [OF l(1)] assms(3) by simp
  then have ua: "user_is_active a name" using l(3) by (simp add: user_is_active_def)
  have "saturating_sub_i64 (e_now env') (e_now env) < ac_idle_timeout_seconds a"
    using time by (auto simp: saturating_sub_i64_def i64_clamp_def i64_min_def)
  then have ex: "\<not> session_expired a (e_now env') \<lparr> ss_username = name, ss_picture_url = None,
      ss_created_at = e_now env, ss_last_seen_at = e_now env,
      ss_expires_at = saturating_add_i64 (e_now env) (ac_absolute_timeout_seconds a) \<rparr>"
    using time by (simp add: session_expired_def)
  have "decode_token (ns_csrf_token s) = Some (digest c a ''csrf-token'' t)"
    unfolding t(3) using hmac token_codec.dec_enc by (simp add: digest_def TOKEN_BYTES_def)
  then have "verify_csrf c a \<lparr> au_username = name, au_session_token = t, au_created_at = e_now env,
      au_picture_url = None \<rparr> headers"
    using csrf by (simp add: verify_csrf_def)
  moreover have "\<exists>st''. authenticate c a env' headers st' =
      (Ok \<lparr> au_username = name, au_session_token = t, au_created_at = e_now env, au_picture_url = None \<rparr>, st'')"
    unfolding authenticate_Ok [OF db] using ck dt t(5) ex ua by simp
  ultimately show ?thesis using t(4) by fastforce
qed

lemma sample_allow: "\<exists>rl'. allow k 100 \<lparr> rl_entries = [], rl_attempts_per_window = 5 \<rparr> = (True, rl')"
  by (simp add: allow_def retain_live_def make_room_def MAX_RATE_LIMIT_KEYS_def touch_window_def
      fresh_window_def Let_def)

lemma sample_login:
  "\<exists>s st. login sample_crypto sample_config sample_env [97] [115] None None (auth_start 5 5) = (Ok s, st)
     \<and> ns_username s = [97] \<and> ns_cookie_token s = encode_hex (replicate 32 7)
     \<and> ns_csrf_token s = encode_hex (digest sample_crypto sample_config ''csrf-token'' (replicate 32 7))"
proof -
  have c: "login_candidate sample_config [97] = Some ([97], sample_user)"
    by (simp add: login_candidate_def is_plausible_username_def sample_config_def str_len_def
        utf8_char_def MAX_USERNAME_BYTES_def char_class_defs)
  have v: "argon2_verify sample_crypto (candidate_hash sample_config (Some ([97], sample_user))) (str_bytes [115])"
    by (simp add: sample_crypto_def candidate_hash_def usable_candidate_def sample_config_def
        sample_user_def str_bytes_def utf8_char_def)
  have u: "usable_candidate sample_config (Some ([97], sample_user))"
    by (simp add: usable_candidate_def sample_config_def sample_user_def)
  have len: "length (digest sample_crypto sample_config ''session'' t) = 32" for t
    by (simp add: digest_def sample_crypto_def)
  have p: "str_len [115] \<le> MAX_PASSWORD_BYTES" by (simp add: str_len_def utf8_char_def MAX_PASSWORD_BYTES_def)
  obtain rl1 where a1: "allow None (e_now_source sample_env) (as_source_rate_limit (auth_start 5 5)) = (True, rl1)"
    using sample_allow [of "None :: IpAddr option"] by (auto simp: sample_env_def auth_start_def)
  obtain rl2 where a2: "allow (normalized_identifier_digest sample_crypto [97], None) (e_now_account sample_env)
      (as_rate_limit (auth_start 5 5)) = (True, rl2)"
    using sample_allow [of "(normalized_identifier_digest sample_crypto [97], None :: IpAddr option)"]
    by (auto simp: sample_env_def auth_start_def)
  have perm: "e_permit sample_env = Acquired" by (simp add: sample_env_def)
  have iss: "\<exists>rows. issue_session sample_crypto sample_config sample_env [97] None None
      (auth_start 5 5\<lparr>as_source_rate_limit := rl1, as_rate_limit := rl2\<rparr>) =
      (Ok \<lparr> ns_cookie_token = encode_hex (replicate 32 7),
            ns_csrf_token = encode_hex (digest sample_crypto sample_config ''csrf-token'' (replicate 32 7)),
            ns_username = [97], ns_picture_url = None \<rparr>,
       auth_start 5 5\<lparr>as_source_rate_limit := rl1, as_rate_limit := rl2, as_sessions := rows\<rparr>)"
    by (simp add: issue_session_def sample_env_def rotate_def len delete_beyond_def by_recency_def
        auth_start_def)
  show ?thesis using iss p
    by (auto simp: login_def verify_login_def allow_sign_in_source_def c a1 a2 perm check_password_def
        u v Let_def)
qed

lemma sample_start: "distinct (keys (as_sessions (auth_start m n)))"
  by (simp add: auth_start_def)

theorem login_sound_witness:
  "\<exists>s st. login sample_crypto sample_config sample_env [97] [115] None None (auth_start 5 5) = (Ok s, st)
     \<and> (\<exists>user. (ns_username s, user) \<in> set (ac_users sample_config) \<and> \<not> ur_disabled user)"
proof -
  obtain s st where l: "login sample_crypto sample_config sample_env [97] [115] None None (auth_start 5 5) = (Ok s, st)"
    using sample_login by blast
  from login_sound [OF l sample_start] l show ?thesis by blast
qed

definition sample_headers :: HeaderMap where
  "sample_headers =
     [(''cookie'', \<lparr> as_bytes = SESSION_COOKIE @ [61] @ encode_hex (replicate 32 7), to_str = None \<rparr>),
      (''x-csrf-token'', \<lparr> as_bytes = [], to_str = Some (encode_hex
         (digest sample_crypto sample_config ''csrf-token'' (replicate 32 7))) \<rparr>)]"

theorem login_then_authenticate_witness:
  "\<exists>s st sess st'. login sample_crypto sample_config sample_env [97] [115] None None (auth_start 5 5) = (Ok s, st)
     \<and> authenticate sample_crypto sample_config (sample_env\<lparr>e_now := 130\<rparr>) sample_headers st = (Ok sess, st')
     \<and> au_username sess = [97]"
proof -
  obtain s st where l: "login sample_crypto sample_config sample_env [97] [115] None None (auth_start 5 5) = (Ok s, st)"
    "ns_username s = [97]" "ns_cookie_token s = encode_hex (replicate 32 7)"
    "ns_csrf_token s = encode_hex (digest sample_crypto sample_config ''csrf-token'' (replicate 32 7))"
    using sample_login by blast
  have hm: "\<forall>k m. length (hmac_sha256 sample_crypto k m) = 32" by (simp add: sample_crypto_def min_def)
  have ck: "get_all sample_headers ''cookie'' = [\<lparr> as_bytes = SESSION_COOKIE @ [61]
      @ encode_hex (replicate 32 7), to_str = None \<rparr>]"
    by (simp add: sample_headers_def get_all_def)
  have cs: "header_get sample_headers ''x-csrf-token'' = Some \<lparr> as_bytes = [], to_str = Some (encode_hex
         (digest sample_crypto sample_config ''csrf-token'' (replicate 32 7))) \<rparr>"
    by (simp add: sample_headers_def get_all_def header_get_def)
  have "\<exists>sess st'. authenticate sample_crypto sample_config (sample_env\<lparr>e_now := 130\<rparr>) sample_headers st
      = (Ok sess, st') \<and> au_username sess = ns_username s \<and> verify_csrf sample_crypto sample_config sess sample_headers"
    by (rule login_then_authenticate [OF l(1) sample_start _ hm _ ck(1) _ cs(1)])
      (simp_all add: l ck cs sample_env_def sample_config_def saturating_add_i64_def i64_clamp_def
        i64_min_def i64_max_def)
  with l show ?thesis by auto
qed

text \<open>
  C13: Signing out ends the session. After a successful sign-out, no later request with the same
  cookie is authenticated, at any time and with any database behaviour, until the same
  session key is issued again: the request is refused and changes nothing.
\<close>

theorem logout_ends_session:
  assumes "logout c parse_uri a env headers st = (Ok (), st')"
    and "session_cookie headers' = session_cookie headers"
  shows "(fst (authenticate c a env' headers' st') = Err Unauthorized
          \<or> fst (authenticate c a env' headers' st') = Err Internal)
    \<and> snd (authenticate c a env' headers' st') = st'"
proof -
  from assms(1) obtain cookie token st1 where l: "session_cookie headers = Some cookie"
    "decode_token cookie = Some token"
    "st' = st1\<lparr>as_sessions := session_delete (digest c a ''session'' token) (as_sessions st1)\<rparr>"
    by (auto simp: logout_def auth_logout_def session_key_def
        split: sum.splits prod.splits if_splits option.splits)
  then have "session_lookup (digest c a ''session'' token) (as_sessions st') = None"
    by (simp add: session_lookup_delete)
  with l(1,2) assms(2) show ?thesis
    by (simp add: authenticate_def validate_session_def Let_def auth_error_def)
qed

definition sample_session_state :: AuthState where
  "sample_session_state = (auth_start 5 5)\<lparr>as_sessions :=
     [(digest sample_crypto sample_config ''session'' (replicate 32 7),
       \<lparr> ss_username = [97], ss_picture_url = None, ss_created_at = 100, ss_last_seen_at = 100,
         ss_expires_at = 700 \<rparr>)]\<rparr>"

definition origin_headers :: HeaderMap where
  "origin_headers = (''host'', ascii_value ''h'') # (''origin'', ascii_value ''https://h'') # sample_headers"

definition sample_uri :: uri_parser where
  "sample_uri s = Some (Some (lit ''https''), Some (lit ''h''))"

lemma sample_cookie:
  "session_cookie sample_headers = Some (encode_hex (replicate 32 7))"
  "session_cookie origin_headers = Some (encode_hex (replicate 32 7))"
  using session_cookie_token [of sample_headers _ "replicate 32 7"]
    session_cookie_token [of origin_headers _ "replicate 32 7"]
  by (simp_all add: origin_headers_def sample_headers_def get_all_def)

lemma sample_token: "decode_token (encode_hex (replicate 32 7)) = Some (replicate 32 7)"
  by (rule token_codec.dec_enc) (simp add: TOKEN_BYTES_def)

lemma sample_authenticates:
  "\<exists>st'. authenticate sample_crypto sample_config sample_env origin_headers sample_session_state =
     (Ok \<lparr> au_username = [97], au_session_token = replicate 32 7, au_created_at = 100,
           au_picture_url = None \<rparr>, st')"
proof -
  have db: "\<forall>op. e_db sample_env op" by (simp add: sample_env_def)
  show ?thesis unfolding authenticate_Ok [OF db]
    by (simp add: sample_cookie sample_token sample_session_state_def session_lookup_def
        session_expired_def sample_env_def user_is_active_def sample_config_def sample_user_def
        saturating_sub_i64_def i64_clamp_def i64_min_def i64_max_def)
qed

lemma sample_verifies:
  "verify_csrf sample_crypto sample_config \<lparr> au_username = [97], au_session_token = replicate 32 7,
     au_created_at = 100, au_picture_url = None \<rparr> origin_headers"
proof -
  have "decode_token (encode_hex (digest sample_crypto sample_config ''csrf-token'' t)) =
      Some (digest sample_crypto sample_config ''csrf-token'' t)" for t
    by (rule token_codec.dec_enc) (simp add: TOKEN_BYTES_def digest_def sample_crypto_def)
  then show ?thesis
    by (simp add: verify_csrf_def origin_headers_def sample_headers_def header_get_def get_all_def
        ascii_value_def)
qed

lemma sample_origin: "validate_same_origin sample_uri origin_headers = Ok ()"
  by (simp add: validate_same_origin_def origin_headers_def sample_headers_def header_get_def
      get_all_def sample_uri_def ascii_value_def)

theorem logout_ends_session_witness:
  "\<exists>st'. logout sample_crypto sample_uri sample_config sample_env origin_headers sample_session_state
       = (Ok (), st')
     \<and> fst (authenticate sample_crypto sample_config sample_env sample_headers st') \<in> {Err Unauthorized, Err Internal}"
proof -
  obtain st1 where a: "authenticate sample_crypto sample_config sample_env origin_headers sample_session_state =
     (Ok \<lparr> au_username = [97], au_session_token = replicate 32 7, au_created_at = 100,
           au_picture_url = None \<rparr>, st1)" using sample_authenticates by blast
  obtain st' where l: "logout sample_crypto sample_uri sample_config sample_env origin_headers sample_session_state
       = (Ok (), st')"
    by (simp add: logout_def sample_origin a sample_verifies auth_logout_def sample_cookie
        session_key_def sample_token) (simp add: sample_env_def)
  from logout_ends_session [OF l, of sample_headers sample_env] l show ?thesis
    by (auto simp: sample_cookie)
qed

lemma same_origin_Ok:
  assumes "validate_same_origin parse_uri headers = Ok ()"
  shows "(\<exists>host source scheme. Option.bind (header_get headers ''host'') to_str = Some host
      \<and> Option.bind (case header_get headers ''origin'' of
           Some v \<Rightarrow> Some v | None \<Rightarrow> header_get headers ''referer'') to_str = Some source
      \<and> parse_uri source = Some (Some scheme, Some host) \<and> scheme \<in> {lit ''http'', lit ''https''})
    \<and> (\<forall>v. header_get headers ''sec-fetch-site'' = Some v \<longrightarrow> as_bytes v = lit ''same-origin'')"
proof -
  have "\<not> (case header_get headers ''sec-fetch-site'' of
            Some site \<Rightarrow> as_bytes site \<noteq> lit ''same-origin'' | None \<Rightarrow> False)"
    using assms by (auto simp: validate_same_origin_def split: if_splits)
  then show ?thesis
    using assms by (auto simp: validate_same_origin_def split: if_splits prod.splits)
qed

text \<open>
  C12: State changes need a live session, its CSRF token and the same origin. If the middleware lets
  a state-changing request through, then the Origin (or Referer) header's authority is the
  request's host over http or https, a Sec-Fetch-Site header if present says same-origin, the
  session cookie names an unexpired session of an enabled user, and the X-CSRF-Token header is
  the keyed digest of that very session token.
\<close>

theorem state_change_protected:
  assumes "require_state_change c parse_uri a env headers st = (Ok (username, identity), st')"
  shows "\<exists>cookie token s host source scheme.
    session_cookie headers = Some cookie \<and> decode_token cookie = Some token
    \<and> session_lookup (digest c a ''session'' token) (as_sessions st) = Some s
    \<and> \<not> session_expired a (e_now env) s \<and> user_is_active a username \<and> ss_username s = username
    \<and> Option.bind (Option.bind (header_get headers ''x-csrf-token'') to_str) decode_token =
        Some (digest c a ''csrf-token'' token)
    \<and> Option.bind (header_get headers ''host'') to_str = Some host
    \<and> Option.bind (case header_get headers ''origin'' of
           Some v \<Rightarrow> Some v | None \<Rightarrow> header_get headers ''referer'') to_str = Some source
    \<and> parse_uri source = Some (Some scheme, Some host)
    \<and> scheme \<in> {lit ''http'', lit ''https''}
    \<and> (\<forall>v. header_get headers ''sec-fetch-site'' = Some v \<longrightarrow> as_bytes v = lit ''same-origin'')
    \<and> identity = browse_identity a username"
proof -
  from assms obtain sess where o: "validate_same_origin parse_uri headers = Ok ()" and
    au: "authenticate c a env headers st = (Ok sess, st')" and cs: "verify_csrf c a sess headers" and
    u: "username = au_username sess" "identity = browse_identity a username"
    by (auto simp: require_state_change_def split: sum.splits prod.splits if_splits)
  from au obtain cookie token s where
    t: "session_cookie headers = Some cookie" "decode_token cookie = Some token"
      "session_lookup (digest c a ''session'' token) (as_sessions st) = Some s"
      "\<not> session_expired a (e_now env) s" "user_is_active a (ss_username s)"
      "sess = \<lparr> au_username = ss_username s, au_session_token = token,
                au_created_at = ss_created_at s, au_picture_url = ss_picture_url s \<rparr>"
    by (auto simp: authenticate_def validate_session_def Let_def
        split: option.splits if_splits prod.splits sum.splits)
  have "Option.bind (Option.bind (header_get headers ''x-csrf-token'') to_str) decode_token =
        Some (digest c a ''csrf-token'' token)"
    using cs t(6) by (auto simp: verify_csrf_def split: option.splits)
  moreover note same_origin_Ok [OF o]
  ultimately show ?thesis using t u by auto
qed

theorem state_change_protected_witness:
  "\<exists>i st'. require_state_change sample_crypto sample_uri sample_config sample_env origin_headers
      sample_session_state = (Ok ([97], i), st') \<and> user_is_active sample_config [97]"
proof -
  obtain st1 where a: "authenticate sample_crypto sample_config sample_env origin_headers sample_session_state =
     (Ok \<lparr> au_username = [97], au_session_token = replicate 32 7, au_created_at = 100,
           au_picture_url = None \<rparr>, st1)" using sample_authenticates by blast
  have "require_state_change sample_crypto sample_uri sample_config sample_env origin_headers
      sample_session_state = (Ok ([97], browse_identity sample_config [97]), st1)"
    by (simp add: require_state_change_def sample_origin a sample_verifies)
  from state_change_protected [OF this] this show ?thesis by blast
qed

text \<open>
  C14: Access follows the configuration. A request running with the identity built for a user
  reaches a share only if the configuration grants that user access to a share of this
  identifier; and it gets write access only if such a share is granted with write permission
  and is not read-only, the share is open for writing and the server is not in read-only
  mode.
\<close>

theorem access_follows_grants:
  assumes "browse_identity a username = Some identity"
    "authorize_owned shares policy identity share_id = Ok (fs, access)"
  shows "\<exists>share \<in> set (ac_shares a). \<exists>permission.
    sr_id share = share_id \<and> sr_grants share username = Some permission
    \<and> shares share_id = Some fs \<and> sf_id fs = share_id
    \<and> (access = ReadWrite \<longrightarrow>
         permission = Write \<and> \<not> sr_read_only share \<and> sf_staging fs \<and> \<not> gp_read_only policy)"
proof -
  have col: "\<exists>share \<in> set ss. \<exists>p. sr_id share = sg_share_id g \<and> sr_grants share username = Some p
      \<and> sg_access g = share_access share p"
    if "collect_grants username ss = Some gs" "g \<in> set gs" for ss gs g
    using that
  proof (induction ss arbitrary: gs)
    case (Cons share ss)
    show ?case
    proof (cases "sr_grants share username")
      case None
      with Cons show ?thesis by auto
    next
      case (Some p)
      with Cons.prems(1) obtain i gs' where
        i: "ShareId_new (sr_id share) = Ok i" "collect_grants username ss = Some gs'"
        "gs = \<lparr> sg_share_id = i, sg_access = share_access share p \<rparr> # gs'"
        by (auto split: sum.splits)
      have "i = sr_id share" using i(1) by (simp add: ShareId_new_def split: if_splits)
      with i(3) Some Cons.IH [OF i(2)] Cons.prems(2) show ?thesis by auto
    qed
  qed simp
  obtain g where g: "grant_for identity share_id = Some g" "shares share_id = Some fs"
    "sg_share_id g = sf_id fs"
    "access = (if gp_read_only policy \<or> \<not> sf_staging fs then ReadOnly else sg_access g)"
    using assms(2) by (auto simp: authorize_owned_def authorize_def split: option.splits if_splits)
  have m: "g \<in> set (id_grants identity)" "sg_share_id g = share_id"
    using g(1) by (auto simp: grant_for_def find_Some_iff)
  from assms(1) have "collect_grants username (ac_shares a) = Some (id_grants identity)"
    by (auto simp: browse_identity_def)
  from col [OF this m(1)] obtain share p where s: "share \<in> set (ac_shares a)"
    "sr_id share = share_id" "sr_grants share username = Some p" "sg_access g = share_access share p"
    using m(2) by auto
  moreover have "access = ReadWrite \<Longrightarrow>
      p = Write \<and> \<not> sr_read_only share \<and> sf_staging fs \<and> \<not> gp_read_only policy"
    using g(4) s(4) by (cases p) (simp_all add: share_access_def split: if_splits)
  ultimately show ?thesis using g(2,3) m(2) by auto
qed

theorem access_follows_grants_witness:
  "let share = \<lparr> sr_id = [115], sr_name = [115], sr_grants = Map.empty([97] \<mapsto> Write),
                 sr_read_only = False, sr_search_enabled = False \<rparr>;
       fs = \<lparr> sf_id = [115], sf_staging = True \<rparr>;
       i = \<lparr> id_subject = [97], id_grants = [\<lparr> sg_share_id = [115], sg_access = ReadWrite \<rparr>] \<rparr>
   in browse_identity (sample_config\<lparr>ac_shares := [share]\<rparr>) [97] = Some i
      \<and> authorize_owned (Map.empty([115] \<mapsto> fs)) \<lparr> gp_read_only = False \<rparr> i [115] = Ok (fs, ReadWrite)
      \<and> sf_staging fs"
proof -
  let ?share = "\<lparr> sr_id = [115], sr_name = [115], sr_grants = Map.empty([97] \<mapsto> Write),
                 sr_read_only = False, sr_search_enabled = False \<rparr>"
  let ?fs = "\<lparr> sf_id = [115], sf_staging = True \<rparr>"
  let ?i = "\<lparr> id_subject = [97], id_grants = [\<lparr> sg_share_id = [115], sg_access = ReadWrite \<rparr>] \<rparr>"
  have b: "browse_identity (sample_config\<lparr>ac_shares := [?share]\<rparr>) [97] = Some ?i"
    by (simp add: browse_identity_def share_access_def ShareId_new_def str_len_def utf8_char_def
        MAX_SHARE_ID_BYTES_def char_class_defs lit_def)
  have o: "authorize_owned (Map.empty([115] \<mapsto> ?fs)) \<lparr> gp_read_only = False \<rparr> ?i [115] = Ok (?fs, ReadWrite)"
    by (simp add: authorize_owned_def authorize_def grant_for_def)
  from access_follows_grants [OF b o] b o show ?thesis by simp
qed

end
