(* ===== verification/Gates.thy ===== *)
theory Gates
  imports Prelude "HOL-Library.Multiset"
begin

text \<open>
  The concurrency gates of \<open>src/src/browse.rs\<close>: a process-wide semaphore combined with a count per
  subject. \<open>try_acquire\<close> and the drop of a lease each touch the semaphore and the locked map
  in two steps that other threads may interleave with; the step relation below splits
  them there.
\<close>

subsection \<open>State and operations\<close>

record SubjectGate =
  sg_process :: nat
  sg_subjects :: "str \<rightharpoonup> nat"
  sg_per_subject :: nat

definition SubjectGate_new :: "nat \<Rightarrow> nat \<Rightarrow> SubjectGate" where
  "SubjectGate_new process per_subject =
     \<lparr> sg_process = process, sg_subjects = Map.empty, sg_per_subject = per_subject \<rparr>"

text \<open>\<open>Semaphore::try_acquire_owned\<close> and the drop of its permit.\<close>

definition take_permit :: "SubjectGate \<Rightarrow> SubjectGate option" where
  "take_permit g = (if sg_process g = 0 then None else Some (g\<lparr>sg_process := sg_process g - 1\<rparr>))"

definition return_permit :: "SubjectGate \<Rightarrow> SubjectGate" where
  "return_permit g = g\<lparr>sg_process := sg_process g + 1\<rparr>"

definition active :: "SubjectGate \<Rightarrow> str \<Rightarrow> nat" where
  "active g subject = (case sg_subjects g subject of Some n \<Rightarrow> n | None \<Rightarrow> 0)"

text \<open>The locked part of \<open>try_acquire\<close>: whether the subject is admitted.\<close>

definition admit_subject :: "str \<Rightarrow> SubjectGate \<Rightarrow> bool \<times> SubjectGate" where
  "admit_subject subject g =
     (if sg_per_subject g \<le> active g subject
      then (False, g\<lparr>sg_subjects := (sg_subjects g)(subject \<mapsto> active g subject)\<rparr>)
      else (True, g\<lparr>sg_subjects := (sg_subjects g)(subject \<mapsto> active g subject + 1)\<rparr>))"

definition try_acquire :: "str \<Rightarrow> SubjectGate \<Rightarrow> bool \<times> SubjectGate" where
  "try_acquire subject g =
     (case take_permit g of
        None \<Rightarrow> (False, g)
      | Some g1 \<Rightarrow>
          (case admit_subject subject g1 of
             (True, g2) \<Rightarrow> (True, g2)
           | (False, g2) \<Rightarrow> (False, return_permit g2)))"

text \<open>The body of \<open>SubjectLease::drop\<close>; the permit field is dropped after it.\<close>

definition release_subject :: "str \<Rightarrow> SubjectGate \<Rightarrow> SubjectGate" where
  "release_subject subject g =
     (case sg_subjects g subject of
        None \<Rightarrow> g
      | Some n \<Rightarrow>
          (let n = n - 1 in
           g\<lparr>sg_subjects := (if n = 0 then (sg_subjects g)(subject := None)
                              else (sg_subjects g)(subject \<mapsto> n))\<rparr>))"

definition drop_lease :: "str \<Rightarrow> SubjectGate \<Rightarrow> SubjectGate" where
  "drop_lease subject g = return_permit (release_subject subject g)"

subsection \<open>Interleaved threads\<close>

text \<open>
  Threads are in one of four places: holding a permit before the lock, holding a lease,
  refused with the permit still held, or dropping a lease with its subject already released.
\<close>

record gate_state =
  gs_gate :: SubjectGate
  gs_admitting :: "str multiset"
  gs_leases :: "str multiset"
  gs_returning :: "str multiset"

inductive gate_step :: "gate_state \<Rightarrow> gate_state \<Rightarrow> bool" where
  enter: "take_permit (gs_gate s) = Some g
    \<Longrightarrow> gate_step s (s\<lparr>gs_gate := g, gs_admitting := add_mset u (gs_admitting s)\<rparr>)"
| admitted: "\<lbrakk>u \<in># gs_admitting s; admit_subject u (gs_gate s) = (True, g)\<rbrakk>
    \<Longrightarrow> gate_step s (s\<lparr>gs_gate := g, gs_admitting := gs_admitting s - {#u#},
                        gs_leases := add_mset u (gs_leases s)\<rparr>)"
| refused: "\<lbrakk>u \<in># gs_admitting s; admit_subject u (gs_gate s) = (False, g)\<rbrakk>
    \<Longrightarrow> gate_step s (s\<lparr>gs_gate := g, gs_admitting := gs_admitting s - {#u#},
                        gs_returning := add_mset u (gs_returning s)\<rparr>)"
| drop: "u \<in># gs_leases s
    \<Longrightarrow> gate_step s (s\<lparr>gs_gate := release_subject u (gs_gate s), gs_leases := gs_leases s - {#u#},
                        gs_returning := add_mset u (gs_returning s)\<rparr>)"
| returned: "u \<in># gs_returning s
    \<Longrightarrow> gate_step s (s\<lparr>gs_gate := return_permit (gs_gate s), gs_returning := gs_returning s - {#u#}\<rparr>)"

definition gate_init :: "nat \<Rightarrow> nat \<Rightarrow> gate_state" where
  "gate_init process per_subject =
     \<lparr> gs_gate = SubjectGate_new process per_subject, gs_admitting = {#}, gs_leases = {#},
       gs_returning = {#} \<rparr>"

definition no_zero :: "SubjectGate \<Rightarrow> bool" where
  "no_zero g \<longleftrightarrow> (\<forall>u. sg_subjects g u \<noteq> Some 0)"

definition gate_inv :: "nat \<Rightarrow> nat \<Rightarrow> gate_state \<Rightarrow> bool" where
  "gate_inv process per_subject s \<longleftrightarrow>
     sg_per_subject (gs_gate s) = per_subject
     \<and> sg_process (gs_gate s) + size (gs_admitting s) + size (gs_leases s) + size (gs_returning s)
       = process
     \<and> (\<forall>u. active (gs_gate s) u = count (gs_leases s) u)
     \<and> (\<forall>u. count (gs_leases s) u \<le> per_subject)
     \<and> (0 < per_subject \<longrightarrow> no_zero (gs_gate s))"

lemma admit_subject_effect:
  assumes "admit_subject u g = (b, g')"
  shows "b \<longleftrightarrow> active g u < sg_per_subject g"
    "active g' v = (if b \<and> v = u then active g u + 1 else active g v)"
    "sg_process g' = sg_process g" "sg_per_subject g' = sg_per_subject g"
    "no_zero g \<Longrightarrow> 0 < sg_per_subject g \<Longrightarrow> no_zero g'"
  using assms by (auto simp: admit_subject_def active_def no_zero_def split: if_splits option.splits)

lemma release_subject_effect:
  "active (release_subject u g) v = (if v = u then active g u - 1 else active g v)"
  "sg_process (release_subject u g) = sg_process g"
  "sg_per_subject (release_subject u g) = sg_per_subject g"
  "no_zero g \<Longrightarrow> no_zero (release_subject u g)"
  by (auto simp: release_subject_def active_def no_zero_def Let_def split: option.splits)

lemma gate_init_inv: "gate_inv process per_subject (gate_init process per_subject)"
  by (simp add: gate_inv_def gate_init_def SubjectGate_new_def active_def no_zero_def)

lemma size_remove_mem: "u \<in># M \<Longrightarrow> size M = Suc (size (M - {#u#}))"
  by (metis size_Suc_Diff1)

lemma gate_step_inv:
  assumes "gate_step s s'" "gate_inv n m s" shows "gate_inv n m s'"
  using assms
proof (induction rule: gate_step.induct)
  case (enter s g u)
  then show ?case
    by (auto simp: gate_inv_def take_permit_def active_def no_zero_def split: if_splits)
next
  case (admitted u s g)
  from size_remove_mem [OF admitted(1)] admit_subject_effect [OF admitted(2)] admitted(3)
  show ?case by (auto simp: gate_inv_def)
next
  case (refused u s g)
  from size_remove_mem [OF refused(1)] admit_subject_effect [OF refused(2)] refused(3)
  show ?case by (auto simp: gate_inv_def)
next
  case (drop u s)
  have le: "count (gs_leases s) u - Suc 0 \<le> m"
    using drop(2) diff_le_self le_trans unfolding gate_inv_def by blast
  from size_remove_mem [OF drop(1)] drop(2) le show ?case
    by (auto simp: gate_inv_def release_subject_effect)
next
  case (returned u s)
  from size_remove_mem [OF returned(1)] returned(2) show ?case
    by (simp add: gate_inv_def return_permit_def active_def no_zero_def)
qed

lemma gate_reach_inv: "gate_step\<^sup>*\<^sup>* (gate_init n m) s \<Longrightarrow> gate_inv n m s"
  by (induction rule: rtranclp_induct) (auto intro: gate_init_inv gate_step_inv)

lemma try_acquire_admitted:
  "fst (try_acquire u g) \<longleftrightarrow>
     0 < sg_process g \<and> active g u < sg_per_subject g"
  by (auto simp: try_acquire_def take_permit_def admit_subject_def active_def)

subsection \<open>Properties\<close>

text \<open>
  C16: The gates hold under every interleaving. However the threads that acquire and drop leases
  interleave, at most \<open>process\<close> leases exist at once and at most \<open>per_subject\<close> for one subject, the
  map counts exactly the live leases, and when no lease and no thread in transit is left every
  permit is back and no subject is remembered, so slots never leak.
\<close>

theorem gate_never_exceeded:
  assumes "gate_step\<^sup>*\<^sup>* (gate_init process per_subject) s"
  shows "size (gs_leases s) \<le> process \<and> (\<forall>u. count (gs_leases s) u \<le> per_subject)
    \<and> (gs_leases s = {#} \<and> gs_admitting s = {#} \<and> gs_returning s = {#} \<and> 0 < per_subject
         \<longrightarrow> gs_gate s = SubjectGate_new process per_subject)"
proof -
  have inv: "gate_inv process per_subject s" by (rule gate_reach_inv [OF assms])
  have "gs_gate s = SubjectGate_new process per_subject"
    if "gs_leases s = {#}" "gs_admitting s = {#}" "gs_returning s = {#}" "0 < per_subject"
  proof -
    have "sg_subjects (gs_gate s) u = None" for u
      using inv that spec [of "\<lambda>u. active (gs_gate s) u = count (gs_leases s) u" u]
      by (cases "sg_subjects (gs_gate s) u") (auto simp: gate_inv_def active_def no_zero_def)
    then have "sg_subjects (gs_gate s) = Map.empty" by auto
    with inv that show ?thesis by (cases "gs_gate s") (simp add: gate_inv_def SubjectGate_new_def)
  qed
  moreover have "size (gs_leases s) \<le> process" "\<forall>u. count (gs_leases s) u \<le> per_subject"
    using inv unfolding gate_inv_def by (linarith, blast)
  ultimately show ?thesis by blast
qed

theorem gate_never_exceeded_witness:
  "\<exists>s. gate_step\<^sup>*\<^sup>* (gate_init 2 1) s \<and> gs_leases s = {#[97]#} \<and> count (gs_leases s) [97] \<le> 1"
proof -
  let ?s1 = "(gate_init 2 1)\<lparr>gs_gate := \<lparr>sg_process = 1, sg_subjects = Map.empty, sg_per_subject = 1\<rparr>,
    gs_admitting := {#[97]#}\<rparr>"
  let ?s2 = "?s1\<lparr>gs_gate := \<lparr>sg_process = 1, sg_subjects = Map.empty([97] \<mapsto> 1), sg_per_subject = 1\<rparr>,
    gs_admitting := {#}, gs_leases := {#[97]#}\<rparr>"
  have "gate_step (gate_init 2 1) ?s1"
    using enter [of "gate_init 2 1" _ "[97]"]
    by (simp add: gate_init_def SubjectGate_new_def take_permit_def)
  moreover have "gate_step ?s1 ?s2"
    using admitted [of "[97]" ?s1]
    by (simp add: gate_init_def admit_subject_def active_def)
  ultimately have r: "gate_step\<^sup>*\<^sup>* (gate_init 2 1) ?s2"
    by (meson converse_rtranclp_into_rtranclp rtranclp.rtrancl_refl)
  with gate_never_exceeded [OF r] show ?thesis by (intro exI [of _ ?s2]) simp
qed

end
