(* ===== verification/Filesystem.thy ===== *)
theory Filesystem
  imports Paths "HOL-Library.Multiset" "HOL-Library.List_Lexorder"
begin

text \<open>
  The walks of \<open>src/src/filesystem.rs\<close>: the entry policy (\<open>supported_entry\<close>), directory listings,
  the archive walk, the folder-size walk, the quota measurement and the depth check before a move.

  A directory handle is modelled by what the walk observes through it: the result of \<open>entries()\<close>
  and, for every directory entry, its raw name, its metadata, its file type and what opening it without
  following links yields when the walk gets there. Any step may fail with an I/O error, and nothing
  relates the answers, so entries that vanish or change between two calls are included.
\<close>

subsection \<open>Entries and metadata\<close>

datatype EntryKind = Directory | File

record Metadata =
  md_is_file :: bool
  md_is_dir :: bool
  md_len :: nat
  md_modified :: "SystemTime option"
  md_accessed :: "SystemTime option"
  md_created :: "SystemTime option"
  md_ino :: nat
  md_nlink :: nat

datatype Dir = Dir (entries: "io_error + (io_error + DirEntry) list")
  and DirEntry = DirEntry
    (de_file_name: "nat list")
    (de_metadata: "io_error + Metadata")
    (de_is_dir: "io_error + bool")
    (de_open: "io_error + Dir")

record DirectoryEntry =
  dy_name :: str
  dy_kind :: EntryKind
  dy_size :: nat
  dy_modified :: "SystemTime option"
  dy_file_id :: nat

record EntryMetadata =
  em_kind :: EntryKind
  em_size :: nat
  em_modified :: "SystemTime option"
  em_accessed :: "SystemTime option"
  em_created :: "SystemTime option"
  em_file_id :: nat

definition matches_validator :: "EntryMetadata \<Rightarrow> EntryMetadata \<Rightarrow> bool" where
  "matches_validator a b \<longleftrightarrow>
     em_kind a = em_kind b \<and> em_size a = em_size b \<and> em_modified a = em_modified b
     \<and> em_file_id a = em_file_id b"

definition classify_metadata :: "Metadata \<Rightarrow> FsErrorCode + EntryKind" where
  "classify_metadata m =
     (if md_is_file m then Ok File else if md_is_dir m then Ok Directory else Err UnsupportedEntry)"

definition metadata_identity :: "Metadata \<Rightarrow> nat" where "metadata_identity m = md_ino m"

definition assert_no_external_alias :: "Metadata \<Rightarrow> EntryKind \<Rightarrow> FsErrorCode + unit" where
  "assert_no_external_alias m kind =
     (if kind = File \<and> md_nlink m \<noteq> 1 then Err UnsupportedEntry else Ok ())"

definition entry_metadata :: "Metadata \<Rightarrow> EntryKind \<Rightarrow> EntryMetadata" where
  "entry_metadata m kind =
     \<lparr> em_kind = kind, em_size = md_len m, em_modified = md_modified m, em_accessed = md_accessed m,
       em_created = md_created m, em_file_id = metadata_identity m \<rparr>"

definition validate_regular_handle :: "Metadata \<Rightarrow> FsErrorCode + unit" where
  "validate_regular_handle m =
     and_then (classify_metadata m) (\<lambda>kind.
       if kind \<noteq> File then Err UnsupportedEntry else assert_no_external_alias m kind)"

definition supported_entry :: "unicode \<Rightarrow> DirEntry \<Rightarrow> FsErrorCode + DirectoryEntry option" where
  "supported_entry u entry =
     (case utf8_decode (de_file_name entry) of
        None \<Rightarrow> Ok None
      | Some name \<Rightarrow>
          if is_internal_name name then Ok None
          else (case EntryName_new u name of
                  Inl _ \<Rightarrow> Ok None
                | Inr name \<Rightarrow>
                    (case de_metadata entry of
                       Inl e \<Rightarrow> if io_kind e = IoNotFound then Ok None else Err (map_io e)
                     | Inr m \<Rightarrow>
                         (case classify_metadata m of
                            Inl e \<Rightarrow> if e = UnsupportedEntry then Ok None else Err e
                          | Inr kind \<Rightarrow>
                              (case assert_no_external_alias m kind of
                                 Inl e \<Rightarrow> if e = UnsupportedEntry then Ok None else Err e
                               | Inr _ \<Rightarrow>
                                   Ok (Some \<lparr> dy_name = name, dy_kind = kind, dy_size = md_len m,
                                              dy_modified = md_modified m,
                                              dy_file_id = metadata_identity m \<rparr>))))))"

subsection \<open>Directory listings\<close>

text \<open>Names compare as \<open>String\<close>s do, by their UTF-8 bytes; \<open>sort_by\<close> is stable.\<close>

definition name_key :: "DirectoryEntry \<Rightarrow> nat list" where
  "name_key e = utf8 (dy_name e)"

fun scan_bounded :: "unicode \<Rightarrow> nat \<Rightarrow> nat \<Rightarrow> (io_error + DirEntry) list \<Rightarrow> FsErrorCode + DirectoryEntry list" where
  "scan_bounded u max_entries scanned [] = Ok []"
| "scan_bounded u max_entries scanned (r # rs) =
     (if scanned = max_entries then Err FsTooLarge
      else and_then (map_err map_io r) (\<lambda>entry.
           and_then (supported_entry u entry) (\<lambda>found.
           and_then (scan_bounded u max_entries (scanned + 1) rs) (\<lambda>result.
             Ok (case found of Some e \<Rightarrow> e # result | None \<Rightarrow> result)))))"

definition list_bounded :: "unicode \<Rightarrow> Dir \<Rightarrow> nat \<Rightarrow> FsErrorCode + DirectoryEntry list" where
  "list_bounded u directory max_entries =
     and_then (map_err map_io (entries directory)) (\<lambda>es.
     and_then (scan_bounded u max_entries 0 es) (\<lambda>result.
       Ok (sort_key name_key result)))"

subsection \<open>The archive walk\<close>

record ArchiveLimits =
  al_max_entries :: nat
  al_max_bytes :: nat
  al_max_name_bytes :: nat

record ArchiveItem =
  ai_relative :: str
  ai_kind :: EntryKind
  ai_size :: nat
  ai_modified :: "SystemTime option"

record ArchiveTree =
  at_modified :: "SystemTime option"
  at_items :: "ArchiveItem list"

record ArchiveWalk =
  aw_limits :: ArchiveLimits
  aw_items :: "ArchiveItem list"
  aw_scanned :: nat
  aw_bytes :: nat
  aw_name_bytes :: nat

text \<open>
  The cancellation check is a function of the walk's progress. No two calls of it see the
  same progress, so any sequence of answers is some such function.
\<close>

type_synonym work_check = "ArchiveWalk \<Rightarrow> bool"

definition check_work :: "work_check \<Rightarrow> ArchiveWalk \<Rightarrow> FsErrorCode + unit" where
  "check_work check w = (if check w then Ok () else Err Unavailable)"

text \<open>A classified child with what opening it will yield.\<close>

type_synonym child = "DirectoryEntry \<times> (io_error + Dir)"

definition scan_entry ::
  "unicode \<Rightarrow> work_check \<Rightarrow> io_error + DirEntry \<Rightarrow> child list \<times> ArchiveWalk \<Rightarrow> FsErrorCode + (child list \<times> ArchiveWalk)" where
  "scan_entry u check r s =
     (let (children, w) = s in
      and_then (check_work check w) (\<lambda>_.
      let w = w\<lparr>aw_scanned := aw_scanned w + 1\<rparr> in
      if al_max_entries (aw_limits w) < aw_scanned w then Err FsTooLarge
      else and_then (map_err map_io r) (\<lambda>entry.
           and_then (supported_entry u entry) (\<lambda>found.
             Ok (case found of Some e \<Rightarrow> children @ [(e, de_open entry)] | None \<Rightarrow> children, w)))))"

definition relative_name :: "str \<Rightarrow> str \<Rightarrow> str" where
  "relative_name prefix name = (if prefix = [] then name else prefix @ [47] @ name)"

lemma scan_entry_children:
  assumes "fold_res (scan_entry u check) es (cs, w) = Ok (cs', w')"
  shows "\<forall>c \<in> set cs'. c \<in> set cs \<or> (\<exists>e. Inr e \<in> set es \<and> snd c = de_open e)"
  using assms
proof (induction es arbitrary: cs w)
  case Nil
  then show ?case by simp
next
  case (Cons r es)
  from Cons.prems obtain cs1 w1 where "scan_entry u check r (cs, w) = Ok (cs1, w1)"
    and rest: "fold_res (scan_entry u check) es (cs1, w1) = Ok (cs', w')" by auto
  then have "\<forall>c \<in> set cs1. c \<in> set cs \<or> (\<exists>e. r = Inr e \<and> snd c = de_open e)"
    by (auto simp: scan_entry_def Let_def split: if_splits option.splits)
  with Cons.IH [OF rest] show ?case by fastforce
qed

lemma size_open:
  assumes "Inr e \<in> set es" "de_open e = Inr d"
  shows "size d < size (Dir (Inr es))"
proof -
  have "size d < size e" using assms(2) by (cases e) simp
  moreover have "size e < size_list (size_sum (\<lambda>_. 0) size) es"
    using assms(1) by (induction es) (auto simp: less_Suc_eq_le intro: trans_le_add1 trans_le_add2)
  ultimately show ?thesis by simp
qed

lemma size_child:
  assumes "fold_res (scan_entry u check) es ([], w) = Ok (cs, w')" "(c, Inr d) \<in> set cs"
  shows "size d < size (Dir (Inr es))"
proof -
  have "\<exists>e. Inr e \<in> set es \<and> Inr d = de_open e"
    using scan_entry_children [OF assms(1)] assms(2) by fastforce
  then show ?thesis using size_open by metis
qed

function visit :: "unicode \<Rightarrow> work_check \<Rightarrow> Dir \<Rightarrow> str \<Rightarrow> nat \<Rightarrow> ArchiveWalk \<Rightarrow> FsErrorCode + ArchiveWalk"
  and add :: "unicode \<Rightarrow> work_check \<Rightarrow> child \<Rightarrow> str \<Rightarrow> nat \<Rightarrow> bool \<Rightarrow> ArchiveWalk \<Rightarrow> FsErrorCode + ArchiveWalk" where
  "visit u check (Dir listed) prefix level w =
     and_then (map_err map_io listed) (\<lambda>es.
     and_then (fold_res (scan_entry u check) es ([], w)) (\<lambda>(children, w).
       if children \<noteq> [] \<and> MAX_PATH_DEPTH \<le> level then Err TooDeep
       else fold_res (\<lambda>child w. add u check child prefix level True w)
              (sort_key (name_key \<circ> fst) children) w))"
| "add u check (child, opened) prefix level skip_vanished w =
     and_then (check_work check w) (\<lambda>_.
     let relative = relative_name prefix (dy_name child);
         w = w\<lparr>aw_name_bytes := saturating_add 64 (aw_name_bytes w) (str_len relative)\<rparr>;
         item = \<lparr> ai_relative = relative, ai_kind = dy_kind child, ai_size = dy_size child,
                  ai_modified = dy_modified child \<rparr>
     in if al_max_name_bytes (aw_limits w) < aw_name_bytes w then Err FsTooLarge
        else (case dy_kind child of
                File \<Rightarrow>
                  let w = w\<lparr>aw_bytes := saturating_add 64 (aw_bytes w) (dy_size child)\<rparr> in
                  if al_max_bytes (aw_limits w) < aw_bytes w then Err FsTooLarge
                  else Ok (w\<lparr>aw_items := aw_items w @ [item]\<rparr>)
              | Directory \<Rightarrow>
                  (case opened of
                     Inl e \<Rightarrow> if skip_vanished \<and> io_kind e = IoNotFound then Ok w else Err (map_io e)
                   | Inr d \<Rightarrow> visit u check d relative (level + 1) (w\<lparr>aw_items := aw_items w @ [item]\<rparr>))))"
  by pat_completeness auto
termination
  by (relation "measure (\<lambda>x. case x of
        Inl (u, check, d, prefix, level, w) \<Rightarrow> 2 * size d + 2
      | Inr (u, check, (c, opened), prefix, level, skip, w) \<Rightarrow>
          (case opened of Inl _ \<Rightarrow> 0 | Inr d \<Rightarrow> 2 * size d + 3))")
    (auto split: sum.splits, frule (1) size_child, simp)

declare visit.simps [simp del] add.simps [simp del]

text \<open>
  The operating system below a directory handle: opening a child directory without following
  links, the metadata of an open directory, and opening a child file read-only without
  following links, which yields the metadata of the opened handle.
\<close>

record os =
  os_open_dir :: "Dir \<Rightarrow> str \<Rightarrow> io_error + Dir"
  os_dir_metadata :: "Dir \<Rightarrow> io_error + Metadata"
  os_open_with :: "Dir \<Rightarrow> str \<Rightarrow> io_error + (io_error + Metadata)"

definition open_directory :: "os \<Rightarrow> Dir \<Rightarrow> VirtualPath \<Rightarrow> FsErrorCode + Dir" where
  "open_directory os root components =
     fold_res (\<lambda>component current. map_err map_io (os_open_dir os current component)) components root"

definition metadata_in_parent :: "os \<Rightarrow> Dir \<Rightarrow> str \<Rightarrow> FsErrorCode + EntryMetadata" where
  "metadata_in_parent os parent name =
     (case os_open_with os parent name of
        Inr metadata \<Rightarrow>
          and_then (map_err map_io metadata) (\<lambda>m.
          and_then (classify_metadata m) (\<lambda>kind.
          and_then (assert_no_external_alias m kind) (\<lambda>_.
            Ok (entry_metadata m kind))))
      | Inl e \<Rightarrow>
          if raw_os_error e \<in> {Some 6, Some 19, Some 21, Some 40} then
            and_then (map_err map_io (os_open_dir os parent name)) (\<lambda>directory.
            and_then (map_err map_io (os_dir_metadata os directory)) (\<lambda>m.
            and_then (classify_metadata m) (\<lambda>kind.
              if kind = Directory then Ok (entry_metadata m kind) else Err UnsupportedEntry)))
          else Err (map_io e))"

definition walk_start :: "ArchiveLimits \<Rightarrow> ArchiveWalk" where
  "walk_start limits = \<lparr> aw_limits = limits, aw_items = [], aw_scanned = 0, aw_bytes = 0, aw_name_bytes = 0 \<rparr>"

definition archive_items :: "unicode \<Rightarrow> os \<Rightarrow> Dir \<Rightarrow> VirtualPath \<Rightarrow> ArchiveLimits \<Rightarrow> FsErrorCode + ArchiveTree" where
  "archive_items u os root path limits =
     and_then (open_directory os root path) (\<lambda>directory.
     and_then (map_err map_io (os_dir_metadata os directory)) (\<lambda>m.
     and_then (visit u (\<lambda>_. True) directory [] (depth path) (walk_start limits)) (\<lambda>walk.
       Ok \<lparr> at_modified = md_modified m, at_items = aw_items walk \<rparr>)))"

fun windows_equal :: "'a list \<Rightarrow> bool" where
  "windows_equal (x # y # xs) = (x = y \<or> windows_equal (y # xs))"
| "windows_equal _ = False"

definition select_entry ::
  "unicode \<Rightarrow> os \<Rightarrow> work_check \<Rightarrow> Dir \<Rightarrow> nat \<Rightarrow> str \<Rightarrow> ArchiveWalk \<Rightarrow> FsErrorCode + ArchiveWalk" where
  "select_entry u os check directory level name w =
     and_then (check_work check w) (\<lambda>_.
     let w = w\<lparr>aw_scanned := aw_scanned w + 1\<rparr> in
     if al_max_entries (aw_limits w) < aw_scanned w then Err FsTooLarge
     else and_then (metadata_in_parent os directory name) (\<lambda>m.
            add u check (\<lparr> dy_name = name, dy_kind = em_kind m, dy_size = em_size m,
                           dy_modified = em_modified m, dy_file_id = em_file_id m \<rparr>,
                         os_open_dir os directory name) [] level False w))"

definition archive_selection_checked ::
  "unicode \<Rightarrow> os \<Rightarrow> Dir \<Rightarrow> VirtualPath \<Rightarrow> str list \<Rightarrow> ArchiveLimits \<Rightarrow> work_check \<Rightarrow> FsErrorCode + ArchiveItem list" where
  "archive_selection_checked u os root parent names limits check =
     (let sorted = sort_key utf8 names in
      if sorted = [] \<or> windows_equal sorted then Err InvalidPath
      else and_then (open_directory os root parent) (\<lambda>directory.
           and_then (fold_res (select_entry u os check directory (depth parent)) sorted (walk_start limits)) (\<lambda>walk.
             Ok (aw_items walk))))"

definition archive_selection ::
  "unicode \<Rightarrow> os \<Rightarrow> Dir \<Rightarrow> VirtualPath \<Rightarrow> str list \<Rightarrow> ArchiveLimits \<Rightarrow> FsErrorCode + ArchiveItem list" where
  "archive_selection u os root parent names limits =
     archive_selection_checked u os root parent names limits (\<lambda>_. True)"

subsection \<open>What the archive walk must return\<close>

text \<open>
  The specification has no budget and no accumulator. \<open>children_of\<close> lists the supported children
  of a directory; a tally is what a subtree contributes: its items in order (a folder before its
  contents, siblings by name), the entries scanned, the bytes of its files and of its names.
\<close>

fun children_of :: "unicode \<Rightarrow> (io_error + DirEntry) list \<Rightarrow> child list option" where
  "children_of u [] = Some []"
| "children_of u (Inl e # rs) = None"
| "children_of u (Inr entry # rs) =
     (case supported_entry u entry of
        Inl e \<Rightarrow> None
      | Inr None \<Rightarrow> children_of u rs
      | Inr (Some c) \<Rightarrow> map_option ((#) (c, de_open entry)) (children_of u rs))"

record tally =
  ty_items :: "ArchiveItem list"
  ty_scanned :: nat
  ty_bytes :: nat
  ty_names :: nat

definition tally_plus :: "tally \<Rightarrow> tally \<Rightarrow> tally" where
  "tally_plus a b = \<lparr> ty_items = ty_items a @ ty_items b, ty_scanned = ty_scanned a + ty_scanned b,
     ty_bytes = ty_bytes a + ty_bytes b, ty_names = ty_names a + ty_names b \<rparr>"

definition tally_zero :: tally where
  "tally_zero = \<lparr> ty_items = [], ty_scanned = 0, ty_bytes = 0, ty_names = 0 \<rparr>"

abbreviation tally_sum :: "tally option list \<Rightarrow> tally option" where
  "tally_sum \<equiv> sum_options tally_plus tally_zero"

definition item_of :: "str \<Rightarrow> DirectoryEntry \<Rightarrow> ArchiveItem" where
  "item_of prefix c = \<lparr> ai_relative = relative_name prefix (dy_name c), ai_kind = dy_kind c,
     ai_size = dy_size c, ai_modified = dy_modified c \<rparr>"

definition item_tally :: "str \<Rightarrow> DirectoryEntry \<Rightarrow> bool \<Rightarrow> tally" where
  "item_tally prefix c archived = \<lparr> ty_items = (if archived then [item_of prefix c] else []), ty_scanned = 0,
     ty_bytes = (if dy_kind c = File then dy_size c else 0),
     ty_names = str_len (relative_name prefix (dy_name c)) \<rparr>"

lemma children_of_open:
  "children_of u es = Some cs \<Longrightarrow> c \<in> set cs \<Longrightarrow> \<exists>e. Inr e \<in> set es \<and> snd c = de_open e \<and> supported_entry u e = Ok (Some (fst c))"
proof (induction u es arbitrary: cs rule: children_of.induct)
  case (3 u entry rs)
  then show ?case by (auto split: sum.splits option.splits) blast+
qed auto

lemma size_children_of:
  assumes "children_of u es = Some cs" "(c, Inr d) \<in> set cs"
  shows "size d < size (Dir (Inr es))"
  using children_of_open [OF assms] size_open by (metis snd_conv)

function dir_tally :: "unicode \<Rightarrow> str \<Rightarrow> nat \<Rightarrow> Dir \<Rightarrow> tally option"
  and child_tally :: "unicode \<Rightarrow> str \<Rightarrow> nat \<Rightarrow> bool \<Rightarrow> child \<Rightarrow> tally option" where
  "dir_tally u prefix level (Dir listed) =
     (case listed of
        Inl _ \<Rightarrow> None
      | Inr es \<Rightarrow>
          (case children_of u es of
             None \<Rightarrow> None
           | Some cs \<Rightarrow>
               if cs \<noteq> [] \<and> MAX_PATH_DEPTH \<le> level then None
               else map_option (\<lambda>t. t\<lparr>ty_scanned := ty_scanned t + length es\<rparr>)
                      (tally_sum (map (child_tally u prefix level True) (sort_key (name_key \<circ> fst) cs)))))"
| "child_tally u prefix level skip_vanished (c, opened) =
     (case dy_kind c of
        File \<Rightarrow> Some (item_tally prefix c True)
      | Directory \<Rightarrow>
          (case opened of
             Inl e \<Rightarrow> if skip_vanished \<and> io_kind e = IoNotFound then Some (item_tally prefix c False) else None
           | Inr d \<Rightarrow> map_option (tally_plus (item_tally prefix c True))
                       (dir_tally u (relative_name prefix (dy_name c)) (level + 1) d)))"
  by pat_completeness auto
termination
  by (relation "measure (\<lambda>x. case x of
        Inl (u, prefix, level, d) \<Rightarrow> 2 * size d + 2
      | Inr (u, prefix, level, skip, (c, opened)) \<Rightarrow>
          (case opened of Inl _ \<Rightarrow> 0 | Inr d \<Rightarrow> 2 * size d + 3))")
    (auto split: sum.splits, frule (1) size_children_of, simp)

declare dir_tally.simps [simp del] child_tally.simps [simp del]

definition within :: "ArchiveWalk \<Rightarrow> bool" where
  "within w \<longleftrightarrow> aw_scanned w \<le> al_max_entries (aw_limits w) \<and> aw_bytes w \<le> al_max_bytes (aw_limits w)
     \<and> aw_name_bytes w \<le> al_max_name_bytes (aw_limits w)
     \<and> al_max_bytes (aw_limits w) < 2 ^ 64 - 1 \<and> al_max_name_bytes (aw_limits w) < 2 ^ 64 - 1"

definition grow :: "ArchiveWalk \<Rightarrow> tally \<Rightarrow> ArchiveWalk" where
  "grow w t = w\<lparr> aw_items := aw_items w @ ty_items t, aw_scanned := aw_scanned w + ty_scanned t,
     aw_bytes := aw_bytes w + ty_bytes t, aw_name_bytes := aw_name_bytes w + ty_names t \<rparr>"

lemma grow_sel [simp]:
  "aw_limits (grow w t) = aw_limits w" "aw_items (grow w t) = aw_items w @ ty_items t"
  "aw_scanned (grow w t) = aw_scanned w + ty_scanned t" "aw_bytes (grow w t) = aw_bytes w + ty_bytes t"
  "aw_name_bytes (grow w t) = aw_name_bytes w + ty_names t"
  by (simp_all add: grow_def)

lemma grow_zero [simp]: "grow w tally_zero = w"
  by (simp add: grow_def tally_zero_def)

lemma grow_plus: "grow w (tally_plus a b) = grow (grow w a) b"
  by (simp add: grow_def tally_plus_def add_ac)

lemma within_grow: "within (grow w t) \<Longrightarrow> within w"
  by (auto simp: within_def)

interpretation archive_budget: budget within grow tally_plus tally_zero
  by unfold_locales (simp_all add: grow_plus within_grow)

definition exact :: "(ArchiveWalk \<Rightarrow> FsErrorCode + ArchiveWalk) \<Rightarrow> tally option \<Rightarrow> bool" where
  "exact f t \<longleftrightarrow> (\<forall>w w'. within w \<longrightarrow>
     (f w = Ok w' \<longleftrightarrow> (\<exists>a. t = Some a \<and> within (grow w a) \<and> w' = grow w a)))"

lemma exact_budget: "exact = archive_budget.exact"
  by (intro ext) (simp only: exact_def archive_budget.exact_def)

lemma walk_exact_fold:
  assumes "\<And>c. c \<in> set cs \<Longrightarrow> exact (f c) (g c)"
  shows "exact (fold_res f cs) (tally_sum (map g cs))"
  unfolding exact_budget by (rule archive_budget.exact_fold) (use assms in \<open>simp add: exact_budget\<close>)

lemma scan_exact:
  assumes "aw_scanned w \<le> al_max_entries (aw_limits w)"
  shows "fold_res (scan_entry u (\<lambda>_. True)) es (cs, w) = Ok r \<longleftrightarrow>
    (\<exists>cc. children_of u es = Some cc \<and> aw_scanned w + length es \<le> al_max_entries (aw_limits w)
       \<and> r = (cs @ cc, w\<lparr>aw_scanned := aw_scanned w + length es\<rparr>))"
  using assms
proof (induction u es arbitrary: cs w rule: children_of.induct)
  case (1 u)
  then show ?case by auto
next
  case (2 u e rs)
  then show ?case by (simp add: scan_entry_def check_work_def Let_def)
next
  case (3 u entry rs)
  let ?w = "w\<lparr>aw_scanned := aw_scanned w + 1\<rparr>"
  show ?case
  proof (cases "aw_scanned w + 1 \<le> al_max_entries (aw_limits w)")
    case False
    then show ?thesis by (simp add: scan_entry_def check_work_def Let_def)
  next
    case True
    then have s: "aw_scanned ?w \<le> al_max_entries (aw_limits ?w)" by simp
    show ?thesis
    proof (cases "supported_entry u entry")
      case (Inl e)
      then show ?thesis by (simp add: scan_entry_def check_work_def Let_def)
    next
      case (Inr found)
      then show ?thesis using True 3(1) [OF Inr _ s] 3(2) [OF Inr _ s]
        by (cases found) (auto simp: scan_entry_def check_work_def Let_def)
    qed
  qed
qed

lemma file_exact:
  assumes "dy_kind c = File"
  shows "exact (add u (\<lambda>_. True) (c, opened) prefix level skip) (Some (item_tally prefix c True))"
  using assms
  by (auto simp: exact_def add.simps check_work_def Let_def item_tally_def item_of_def within_def grow_def
      saturating_add_def min_def)

lemma items_after_names: "w\<lparr>aw_name_bytes := n, aw_items := l\<rparr> = w\<lparr>aw_items := l, aw_name_bytes := n\<rparr>"
  by (cases w) simp

lemma add_directory:
  assumes "dy_kind c = Directory" "within w"
  shows "add u (\<lambda>_. True) (c, opened) prefix level skip w =
    (if within (grow w (item_tally prefix c True)) then
       (case opened of
          Inl e \<Rightarrow> if skip \<and> io_kind e = IoNotFound then Ok (grow w (item_tally prefix c False)) else Err (map_io e)
        | Inr d \<Rightarrow> visit u (\<lambda>_. True) d (relative_name prefix (dy_name c)) (level + 1)
                    (grow w (item_tally prefix c True)))
     else Err FsTooLarge)"
  using assms
  by (auto simp: add.simps check_work_def Let_def item_tally_def item_of_def within_def grow_def
      saturating_add_def min_def items_after_names split: sum.splits)

lemma within_item_tally:
  "within (grow w (item_tally prefix c True)) \<longleftrightarrow> within (grow w (item_tally prefix c False))"
  by (simp add: within_def item_tally_def)

lemma walk_exact:
  "exact (visit u (\<lambda>_. True) d prefix level) (dir_tally u prefix level d)"
  "exact (add u (\<lambda>_. True) c prefix level skip) (child_tally u prefix level skip c)"
proof (induction u prefix level d and u prefix level skip c rule: dir_tally_child_tally.induct)
  case (1 u prefix level listed)
  show ?case
  proof (cases listed)
    case (Inl e)
    then show ?thesis by (simp add: exact_def visit.simps dir_tally.simps)
  next
    case es: (Inr es)
    let ?d = "Dir listed"
    show ?thesis
    proof (cases "children_of u es")
      case None
      then show ?thesis using es
        by (auto simp: exact_def visit.simps dir_tally.simps scan_exact within_def)
    next
      case cs: (Some cs)
      let ?loop = "fold_res (\<lambda>child. add u (\<lambda>_. True) child prefix level True) (sort_key (name_key \<circ> fst) cs)"
      let ?sum = "tally_sum (map (child_tally u prefix level True) (sort_key (name_key \<circ> fst) cs))"
      have loop: "exact ?loop ?sum" if "\<not> (cs \<noteq> [] \<and> MAX_PATH_DEPTH \<le> level)"
        by (rule walk_exact_fold) (use 1 [OF es cs that] in auto)
      have step: "grow (w\<lparr>aw_scanned := aw_scanned w + n\<rparr>) t = grow w (t\<lparr>ty_scanned := ty_scanned t + n\<rparr>)" for w n t
        by (simp add: grow_def)
      show ?thesis unfolding exact_def
      proof (intro allI impI)
        fix w w' assume w: "within w"
        let ?w = "w\<lparr>aw_scanned := aw_scanned w + length es\<rparr>"
        have v: "visit u (\<lambda>_. True) ?d prefix level w = Ok w' \<longleftrightarrow>
            within ?w \<and> \<not> (cs \<noteq> [] \<and> MAX_PATH_DEPTH \<le> level) \<and> ?loop ?w = Ok w'"
          using w es cs by (auto simp: visit.simps scan_exact within_def)
        also have "\<dots> \<longleftrightarrow> within ?w \<and> \<not> (cs \<noteq> [] \<and> MAX_PATH_DEPTH \<le> level) \<and>
            (\<exists>a. ?sum = Some a \<and> within (grow ?w a) \<and> w' = grow ?w a)"
          using loop by (auto simp: exact_def)
        finally show "visit u (\<lambda>_. True) ?d prefix level w = Ok w' \<longleftrightarrow>
            (\<exists>a. dir_tally u prefix level ?d = Some a \<and> within (grow w a) \<and> w' = grow w a)"
          using es cs within_grow [of ?w] by (auto simp: dir_tally.simps step)
      qed
    qed
  qed
next
  case (2 u prefix level skip c opened)
  show ?case
  proof (cases "dy_kind c")
    case File
    then show ?thesis using file_exact by (simp add: child_tally.simps)
  next
    case dir: Directory
    show ?thesis
    proof (cases opened)
      case (Inl e)
      then show ?thesis using dir
        by (auto simp: exact_def add_directory child_tally.simps within_item_tally)
    next
      case (Inr d)
      have "exact (visit u (\<lambda>_. True) d (relative_name prefix (dy_name c)) (level + 1))
          (dir_tally u (relative_name prefix (dy_name c)) (level + 1) d)"
        by (rule 2 [OF dir Inr])
      then show ?thesis using dir Inr
        by (auto simp: exact_def add_directory child_tally.simps grow_plus dest: within_grow)
    qed
  qed
qed

lemma visit_start:
  assumes "al_max_bytes limits < 2 ^ 64 - 1" "al_max_name_bytes limits < 2 ^ 64 - 1"
  shows "visit u (\<lambda>_. True) d prefix level (walk_start limits) = Ok w \<longleftrightarrow>
    (\<exists>t. dir_tally u prefix level d = Some t \<and> ty_scanned t \<le> al_max_entries limits
       \<and> ty_bytes t \<le> al_max_bytes limits \<and> ty_names t \<le> al_max_name_bytes limits
       \<and> w = grow (walk_start limits) t)"
proof -
  have "within (walk_start limits)" using assms by (simp add: within_def walk_start_def)
  moreover have "within (grow (walk_start limits) t) \<longleftrightarrow> ty_scanned t \<le> al_max_entries limits
       \<and> ty_bytes t \<le> al_max_bytes limits \<and> ty_names t \<le> al_max_name_bytes limits" for t
    using assms by (simp add: within_def walk_start_def)
  ultimately show ?thesis using walk_exact(1) [of u d prefix level] by (simp add: exact_def)
qed

text \<open>
  C17: The folder archive walk succeeds exactly when the folder can be read throughout within the
  depth limit and its totals (entries scanned, omitted ones included; bytes of the archived files;
  bytes of the relative names) are within the limits; it then returns every supported entry once, a
  folder before its contents and siblings in the order of their names.
\<close>

theorem archive_items_exact:
  assumes "al_max_bytes limits < 2 ^ 64 - 1" "al_max_name_bytes limits < 2 ^ 64 - 1"
  shows "archive_items u os root path limits = Ok tree \<longleftrightarrow>
    (\<exists>d m t. open_directory os root path = Ok d \<and> os_dir_metadata os d = Inr m
       \<and> dir_tally u [] (depth path) d = Some t
       \<and> ty_scanned t \<le> al_max_entries limits \<and> ty_bytes t \<le> al_max_bytes limits
       \<and> ty_names t \<le> al_max_name_bytes limits
       \<and> tree = \<lparr> at_modified = md_modified m, at_items = ty_items t \<rparr>)"
  unfolding archive_items_def using visit_start [OF assms] by (auto simp: walk_start_def)

subsection \<open>Names in an archive\<close>

definition rights :: "('e + 'a) list \<Rightarrow> 'a list" where
  "rights rs = List.map_filter (\<lambda>r. case r of Inl _ \<Rightarrow> None | Inr x \<Rightarrow> Some x) rs"

lemma rights_simps [simp]: "rights [] = []" "rights (Inl e # rs) = rights rs" "rights (Inr x # rs) = x # rights rs"
  by (simp_all add: rights_def List.map_filter_simps)

lemma set_rights: "x \<in> set (rights rs) \<longleftrightarrow> Inr x \<in> set rs"
  by (induction rs) (auto simp: rights_def List.map_filter_simps split: sum.splits)

text \<open>What a file system promises of a directory: no name occurs twice.\<close>

function names_distinct :: "Dir \<Rightarrow> bool" where
  "names_distinct (Dir listed) =
     (case listed of
        Inl _ \<Rightarrow> True
      | Inr es \<Rightarrow> distinct (map de_file_name (rights es))
          \<and> list_all (\<lambda>e. case de_open e of Inl _ \<Rightarrow> True | Inr d' \<Rightarrow> names_distinct d') (rights es))"
  by pat_completeness auto
termination by (relation "measure size") (auto simp: set_rights dest!: size_open)

declare names_distinct.simps [simp del]

text \<open>An entry name as a listing reports it: accepted, and decoded from UTF-8.\<close>

definition stored_name :: "unicode \<Rightarrow> str \<Rightarrow> bool" where
  "stored_name u n \<longleftrightarrow> EntryName_new u n = Ok n \<and> list_all is_char n"

lemma supported_entry_name:
  assumes "supported_entry u e = Ok (Some c)"
  shows "utf8_decode (de_file_name e) = Some (dy_name c)" "stored_name u (dy_name c)"
proof -
  show d: "utf8_decode (de_file_name e) = Some (dy_name c)"
    using assms EntryName_new_same
    by (auto simp: supported_entry_def split: option.splits sum.splits if_splits) metis
  have "EntryName_new u (dy_name c) = Ok (dy_name c)"
    using assms EntryName_new_same
    by (auto simp: supported_entry_def split: option.splits sum.splits if_splits) metis
  then show "stored_name u (dy_name c)" using utf8_codec.dec_sound [OF d] by (simp add: stored_name_def)
qed

lemma children_of_names:
  assumes "children_of u es = Some cs" "distinct (map de_file_name (rights es))"
  shows "distinct (map (dy_name \<circ> fst) cs)"
  using assms
proof (induction u es arbitrary: cs rule: children_of.induct)
  case (3 u entry rs)
  show ?case
  proof (cases "supported_entry u entry")
    case (Inr found)
    show ?thesis
    proof (cases found)
      case None
      then show ?thesis using 3 Inr by simp
    next
      case (Some c)
      with 3(3) Inr obtain ds where ds: "children_of u rs = Some ds" "cs = (c, de_open entry) # ds" by auto
      have "dy_name (fst x) \<noteq> dy_name c" if "x \<in> set ds" for x
      proof
        assume same: "dy_name (fst x) = dy_name c"
        from children_of_open [OF ds(1) that] obtain e where e: "Inr e \<in> set rs" "supported_entry u e = Ok (Some (fst x))"
          by blast
        have "de_file_name e = de_file_name entry"
          using supported_entry_name(1) [OF e(2)] supported_entry_name(1) [OF Inr [unfolded Some]] same
            utf8_codec.dec_inj by metis
        then have "de_file_name entry \<in> de_file_name ` set (rights rs)"
          using e(1) by (metis set_rights imageI)
        with 3(4) show False by simp
      qed
      then have "dy_name c \<notin> (dy_name \<circ> fst) ` set ds" by fastforce
      then show ?thesis using 3(2) [OF Inr Some ds(1)] 3(4) ds(2) by simp
    qed
  qed (use 3 in simp)
qed auto

text \<open>Distinct valid paths below a folder at some level, printed after the prefix.\<close>

definition valid_below :: "unicode \<Rightarrow> nat \<Rightarrow> str list \<Rightarrow> bool" where
  "valid_below u level q \<longleftrightarrow> q \<noteq> [] \<and> (\<forall>n \<in> set q. stored_name u n) \<and> level + length q \<le> MAX_PATH_DEPTH"

definition named_below :: "unicode \<Rightarrow> str \<Rightarrow> nat \<Rightarrow> str set \<Rightarrow> ArchiveItem list \<Rightarrow> bool" where
  "named_below u prefix level tops items \<longleftrightarrow>
     (\<exists>qs. map ai_relative items = map (\<lambda>q. relative_name prefix (path_display q)) qs \<and> distinct qs
       \<and> (\<forall>q \<in> set qs. valid_below u level q \<and> hd q \<in> tops))"

lemma named_below_empty [simp]: "named_below u prefix level tops []"
  by (simp add: named_below_def)

lemma named_below_append:
  assumes "named_below u prefix level A xs" "named_below u prefix level B ys" "A \<inter> B = {}"
  shows "named_below u prefix level (A \<union> B) (xs @ ys)"
proof -
  obtain qs where "map ai_relative xs = map (\<lambda>q. relative_name prefix (path_display q)) qs" "distinct qs"
    "\<forall>q \<in> set qs. valid_below u level q \<and> hd q \<in> A" using assms(1) by (auto simp: named_below_def)
  moreover obtain rs where "map ai_relative ys = map (\<lambda>q. relative_name prefix (path_display q)) rs" "distinct rs"
    "\<forall>q \<in> set rs. valid_below u level q \<and> hd q \<in> B" using assms(2) by (auto simp: named_below_def)
  ultimately show ?thesis using assms(3) unfolding named_below_def
    by (intro exI [of _ "qs @ rs"]) auto
qed

lemma named_below_sum:
  assumes "tally_sum (map g cs) = Some t" "distinct (map (dy_name \<circ> fst) cs)"
    and "\<And>c a. c \<in> set cs \<Longrightarrow> g c = Some a \<Longrightarrow> named_below u prefix level {dy_name (fst c)} (ty_items a)"
  shows "named_below u prefix level (dy_name ` fst ` set cs) (ty_items t)"
  using assms
proof (induction cs arbitrary: t)
  case Nil
  then show ?case by (auto simp: tally_zero_def)
next
  case (Cons c cs)
  then obtain a b where "g c = Some a" "tally_sum (map g cs) = Some b" "t = tally_plus a b"
    by (auto simp: bind_eq_Some_conv)
  moreover have "named_below u prefix level (dy_name ` fst ` set cs) (ty_items b)"
    by (rule Cons.IH) (use Cons.prems calculation in auto)
  ultimately show ?case using Cons.prems
      named_below_append [of u prefix level "{dy_name (fst c)}" "ty_items a" "dy_name ` fst ` set cs" "ty_items b"]
    by (auto simp: tally_plus_def image_image)
qed

lemma relative_name_Cons:
  "n \<noteq> [] \<Longrightarrow> q \<noteq> [] \<Longrightarrow>
   relative_name (relative_name prefix n) (path_display q) = relative_name prefix (path_display (n # q))"
  by (cases q) (auto simp: relative_name_def path_display_join join_on_Cons)

lemma named_below_child:
  assumes "stored_name u n" "level < MAX_PATH_DEPTH"
    "named_below u (relative_name prefix n) (level + 1) tops items" "ai_relative i = relative_name prefix n"
  shows "named_below u prefix level {n} (i # items)"
proof -
  from assms(3) obtain qs where qs: "map ai_relative items = map (\<lambda>q. relative_name (relative_name prefix n) (path_display q)) qs"
    "distinct qs" "\<forall>q \<in> set qs. valid_below u (level + 1) q" by (auto simp: named_below_def)
  have n: "n \<noteq> []" using assms(1) EntryName_new_plain by (auto simp: plain_component_def stored_name_def)
  have "map ai_relative (i # items) = map (\<lambda>q. relative_name prefix (path_display q)) ([n] # map ((#) n) qs)"
    using qs(1,3) n assms(4) relative_name_Cons [OF n, of _ prefix]
    by (auto simp: valid_below_def path_display_join)
  moreover have "distinct ([n] # map ((#) n) qs)" using qs(2,3) by (auto simp: distinct_map valid_below_def)
  moreover have "\<forall>q \<in> set ([n] # map ((#) n) qs). valid_below u level q \<and> hd q \<in> {n}"
    using qs(3) assms(1,2) by (auto simp: valid_below_def)
  ultimately show ?thesis unfolding named_below_def by blast
qed

lemma tally_names:
  "names_distinct d \<Longrightarrow> dir_tally u prefix level d = Some t \<Longrightarrow> named_below u prefix level UNIV (ty_items t)"
  "\<lbrakk> stored_name u (dy_name (fst c)); level < MAX_PATH_DEPTH;
     case snd c of Inl _ \<Rightarrow> True | Inr d \<Rightarrow> names_distinct d; child_tally u prefix level skip c = Some t \<rbrakk> \<Longrightarrow>
   named_below u prefix level {dy_name (fst c)} (ty_items t)"
proof (induction u prefix level d and u prefix level skip c arbitrary: t and t rule: dir_tally_child_tally.induct)
  case (1 u prefix level listed)
  from 1(3) obtain es cs a where es: "listed = Inr es" and cs: "children_of u es = Some cs"
    and deep: "\<not> (cs \<noteq> [] \<and> MAX_PATH_DEPTH \<le> level)"
    and a: "tally_sum (map (child_tally u prefix level True) (sort_key (name_key \<circ> fst) cs)) = Some a"
      "ty_items t = ty_items a"
    by (auto simp: dir_tally.simps split: sum.splits option.splits if_splits)
  have names: "distinct (map de_file_name (rights es))"
    "\<And>e. Inr e \<in> set es \<Longrightarrow> case de_open e of Inl _ \<Rightarrow> True | Inr d' \<Rightarrow> names_distinct d'"
    using 1(2) es by (auto simp: names_distinct.simps list_all_iff set_rights split: sum.splits)
  have "named_below u prefix level {dy_name (fst c)} (ty_items b)"
    if c: "c \<in> set cs" and b: "child_tally u prefix level True c = Some b" for c b
  proof -
    obtain e where e: "Inr e \<in> set es" "snd c = de_open e" "supported_entry u e = Ok (Some (fst c))"
      using children_of_open [OF cs c] by blast
    show ?thesis
      by (rule 1(1) [OF es cs deep]) (use c b deep e names(2) [OF e(1)] supported_entry_name(2) [OF e(3)] in auto)
  qed
  moreover have "distinct (map (dy_name \<circ> fst) (sort_key (name_key \<circ> fst) cs))"
    using children_of_names [OF cs names(1)] by (metis distinct_sort distinct_map set_sort)
  ultimately have "named_below u prefix level (dy_name ` fst ` set cs) (ty_items a)"
    using named_below_sum [OF a(1)] by simp
  then show ?case using a(2) by (auto simp: named_below_def)
next
  case (2 u prefix level skip c opened)
  have one: "named_below u prefix level {dy_name c} [item_of prefix c]"
    by (rule named_below_child [OF _ _ named_below_empty]) (use 2 in \<open>auto simp: item_of_def\<close>)
  show ?case
  proof (cases "dy_kind c")
    case File
    then show ?thesis using 2(5) one by (auto simp: child_tally.simps item_tally_def)
  next
    case dir: Directory
    show ?thesis
    proof (cases opened)
      case (Inl e)
      then show ?thesis using 2(5) dir by (auto simp: child_tally.simps item_tally_def split: if_splits)
    next
      case (Inr d)
      from 2(5) dir Inr obtain a where a: "dir_tally u (relative_name prefix (dy_name c)) (level + 1) d = Some a"
        "t = tally_plus (item_tally prefix c True) a" by (auto simp: child_tally.simps)
      have "named_below u (relative_name prefix (dy_name c)) (level + 1) UNIV (ty_items a)"
        by (rule 2(1) [OF dir Inr _ a(1)]) (use 2 Inr in simp)
      from named_below_child [OF _ _ this, of "item_of prefix c"] 2(2,3)
      show ?thesis using a(2) by (simp add: tally_plus_def item_tally_def item_of_def)
    qed
  qed
qed

lemma archive_items_named:
  assumes "archive_items u os root path limits = Ok tree"
    and "al_max_bytes limits < 2 ^ 64 - 1" "al_max_name_bytes limits < 2 ^ 64 - 1"
    and "open_directory os root path = Ok d" "names_distinct d"
  shows "distinct (map ai_relative (at_items tree))
    \<and> (\<forall>i \<in> set (at_items tree). \<exists>q. ai_relative i = path_display q \<and> q \<noteq> []
         \<and> (\<forall>n \<in> set q. stored_name u n \<and> plain_component n)
         \<and> depth path + length q \<le> MAX_PATH_DEPTH)"
proof -
  from assms(1,4) visit_start [OF assms(2,3)] obtain t where
    "dir_tally u [] (depth path) d = Some t" "at_items tree = ty_items t"
    by (auto simp: archive_items_def walk_start_def)
  with tally_names(1) [OF assms(5)] have "named_below u [] (depth path) UNIV (at_items tree)" by simp
  then obtain qs where qs: "map ai_relative (at_items tree) = map path_display qs" "distinct qs"
    "\<forall>q \<in> set qs. valid_below u (depth path) q" by (auto simp: named_below_def relative_name_def)
  have "distinct (map path_display qs)"
    using qs(2,3) path_display_inj unfolding distinct_map inj_on_def valid_below_def stored_name_def by metis
  moreover have "\<exists>q \<in> set qs. ai_relative i = path_display q" if "i \<in> set (at_items tree)" for i
    using qs(1) that by (metis imageE imageI image_set)
  ultimately show ?thesis using qs(1,3) EntryName_new_plain by (fastforce simp: valid_below_def stored_name_def)
qed

text \<open>
  As long as no directory holds a name twice, no two entries of a folder archive share a name,
  and each name is a relative path of accepted entry names that stays within the depth limit: it
  holds no empty, dot or dot-dot component, so unpacking cannot write outside the folder.
\<close>

theorem archive_names_safe:
  assumes "archive_items u os root path limits = Ok tree"
    and "al_max_bytes limits < 2 ^ 64 - 1" "al_max_name_bytes limits < 2 ^ 64 - 1"
    and "open_directory os root path = Ok d" "names_distinct d"
  shows "distinct (map ai_relative (at_items tree))
    \<and> (\<forall>i \<in> set (at_items tree). \<exists>q. ai_relative i = path_display q \<and> q \<noteq> []
         \<and> (\<forall>n \<in> set q. stored_name u n \<and> plain_component n)
         \<and> depth path + length q \<le> MAX_PATH_DEPTH)"
  using archive_items_named [OF assms] .

subsection \<open>A sample folder\<close>

definition sample_metadata :: "bool \<Rightarrow> nat \<Rightarrow> nat \<Rightarrow> Metadata" where
  "sample_metadata is_file len links = \<lparr> md_is_file = is_file, md_is_dir = \<not> is_file, md_len = len,
     md_modified = Some 0, md_accessed = None, md_created = None, md_ino = 7, md_nlink = links \<rparr>"

definition no_entry :: io_error where
  "no_entry = \<lparr> raw_os_error = Some 2, io_kind = IoNotFound \<rparr>"

definition sample_file :: "nat list \<Rightarrow> nat \<Rightarrow> nat \<Rightarrow> io_error + DirEntry" where
  "sample_file name len links =
     Inr (DirEntry name (Inr (sample_metadata True len links)) (Inr False) (Inl no_entry))"

definition sample_subfolder :: Dir where
  "sample_subfolder = Dir (Inr [sample_file [99] 5 1])"

text \<open>A folder with a file \<open>b\<close>, a subfolder \<open>a\<close> with a file \<open>c\<close>, and a hard-linked file \<open>d\<close>.\<close>

definition sample_folder :: Dir where
  "sample_folder = Dir (Inr
     [sample_file [98] 3 1,
      Inr (DirEntry [97] (Inr (sample_metadata False 0 2)) (Inr True) (Inr sample_subfolder)),
      sample_file [100] 9 2])"

definition sample_os :: os where
  "sample_os = \<lparr> os_open_dir = (\<lambda>_ name. if name = [97] then Inr sample_subfolder else Inl no_entry),
     os_dir_metadata = (\<lambda>_. Inr (sample_metadata False 0 2)), os_open_with = (\<lambda>_ _. Inl no_entry) \<rparr>"

definition sample_limits :: ArchiveLimits where
  "sample_limits = \<lparr> al_max_entries = 4, al_max_bytes = 8, al_max_name_bytes = 5 \<rparr>"

definition sample_tree :: ArchiveTree where
  "sample_tree = \<lparr> at_modified = Some 0, at_items =
     [\<lparr> ai_relative = [97], ai_kind = Directory, ai_size = 0, ai_modified = Some 0 \<rparr>,
      \<lparr> ai_relative = [97, 47, 99], ai_kind = File, ai_size = 5, ai_modified = Some 0 \<rparr>,
      \<lparr> ai_relative = [98], ai_kind = File, ai_size = 3, ai_modified = Some 0 \<rparr>] \<rparr>"

lemma sample_tally:
  "dir_tally ascii_unicode [] 0 sample_folder =
     Some \<lparr> ty_items = at_items sample_tree, ty_scanned = 4, ty_bytes = 8, ty_names = 5 \<rparr>"
  by code_simp

theorem archive_items_exact_witness:
  "archive_items ascii_unicode sample_os sample_folder [] sample_limits = Ok sample_tree"
  by (subst archive_items_exact)
    (auto simp: sample_limits_def sample_os_def open_directory_def depth_def sample_metadata_def sample_tally sample_tree_def)

theorem archive_names_safe_witness:
  "names_distinct sample_folder \<and> distinct (map ai_relative (at_items sample_tree))"
proof -
  have n: "names_distinct sample_folder"
    by (simp add: names_distinct.simps sample_folder_def sample_subfolder_def sample_file_def)
  have "archive_items ascii_unicode sample_os sample_folder [] sample_limits = Ok sample_tree"
  proof -
    have "visit ascii_unicode (\<lambda>_. True) sample_folder [] 0 (walk_start sample_limits) =
        Ok (grow (walk_start sample_limits) (the (dir_tally ascii_unicode [] 0 sample_folder)))"
      by (subst visit_start) (simp_all add: sample_limits_def sample_tally)
    then show ?thesis
      by (simp add: archive_items_def sample_os_def open_directory_def depth_def sample_metadata_def
          sample_tally sample_tree_def, simp add: walk_start_def)
  qed
  from archive_names_safe [OF this _ _ _ n] n show ?thesis by (simp add: sample_limits_def open_directory_def)
qed

end
