(* ===== verification/Walks.thy ===== *)
theory Walks
  imports Filesystem
begin

text \<open>
  The other bounded walks of \<open>src/src/filesystem.rs\<close> over the directories of \<open>Filesystem\<close>: the
  folder-size walk, the quota measurement with its Trash part (\<open>src/src/filesystem/trash.rs\<close>),
  and the depth check before a directory moves.
\<close>

subsection \<open>Folder sizes\<close>

record FolderSize =
  fsz_bytes :: nat
  fsz_complete :: bool

record FolderSizeBudget =
  fb_max_entries :: nat
  fb_max_duration :: nat

record SizeWalk =
  sw_max_entries :: nat
  sw_scanned :: nat
  sw_bytes :: nat
  sw_complete :: bool

text \<open>
  The deadline test is asked once per scanned entry, so it is a function of the number of
  entries scanned.
\<close>

definition entry_weight :: "(io_error + DirEntry) list \<Rightarrow> nat" where
  "entry_weight rs = size_list (size_sum (\<lambda>_. 0) size) rs"

lemma entry_weight_Cons: "entry_weight (r # rs) = Suc (size_sum (\<lambda>_. 0) size r + entry_weight rs)"
  by (simp add: entry_weight_def)

text \<open>A scanned entry after the entry policy, with what opening it yields.\<close>

definition scanned_child :: "unicode \<Rightarrow> io_error + DirEntry \<Rightarrow> FsErrorCode + child option" where
  "scanned_child u r =
     and_then (map_err map_io r) (\<lambda>e.
     and_then (supported_entry u e) (\<lambda>c.
       Ok (map_option (\<lambda>c. (c, de_open e)) c)))"

text \<open>
  What the loop body of the walk decides for one entry: leave it out, leave it out and mark the
  result incomplete, add a file's bytes, or enter a directory. Entries below the depth limit, and
  directories that cannot be read, make the result incomplete; one that vanished does not.
\<close>

datatype size_action = Skip | Fail | Count nat | Enter "(io_error + DirEntry) list"

definition size_action :: "unicode \<Rightarrow> nat \<Rightarrow> io_error + DirEntry \<Rightarrow> size_action" where
  "size_action u level r =
     (case scanned_child u r of
        Inl _ \<Rightarrow> Fail
      | Inr None \<Rightarrow> Skip
      | Inr (Some (child, opened)) \<Rightarrow>
          if MAX_PATH_DEPTH \<le> level then Fail
          else (case dy_kind child of
                  File \<Rightarrow> Count (dy_size child)
                | Directory \<Rightarrow>
                    (case and_then opened entries of
                       Inr es \<Rightarrow> Enter es
                     | Inl e \<Rightarrow> if io_kind e = IoNotFound then Skip else Fail)))"

lemma entry_weight_enter:
  assumes "size_action u level r = Enter es"
  shows "entry_weight es < size_sum (\<lambda>_. 0) size r"
proof -
  obtain e where e: "r = Inr e" "de_open e = Inr (Dir (Inr es))"
  proof -
    from assms obtain c opened where "scanned_child u r = Ok (Some (c, opened))" "and_then opened entries = Inr es"
      by (auto simp: size_action_def split: sum.splits option.splits EntryKind.splits if_splits)
    then show ?thesis using that by (auto simp: scanned_child_def) (metis Dir.collapse)
  qed
  then show ?thesis by (cases e) (simp add: entry_weight_def)
qed

definition incomplete :: "SizeWalk \<Rightarrow> SizeWalk" where
  "incomplete w = w\<lparr>sw_complete := False\<rparr>"

function size_visit :: "unicode \<Rightarrow> (nat \<Rightarrow> bool) \<Rightarrow> (io_error + DirEntry) list \<Rightarrow> nat \<Rightarrow> SizeWalk \<Rightarrow> bool \<times> SizeWalk" where
  "size_visit u late [] level w = (True, w)"
| "size_visit u late (r # rs) level w =
     (let w = w\<lparr>sw_scanned := sw_scanned w + 1\<rparr> in
      if sw_max_entries w < sw_scanned w \<or> late (sw_scanned w) then (False, incomplete w)
      else
        (case size_action u level r of
           Skip \<Rightarrow> size_visit u late rs level w
         | Fail \<Rightarrow> size_visit u late rs level (incomplete w)
         | Count n \<Rightarrow> size_visit u late rs level (w\<lparr>sw_bytes := saturating_add 64 (sw_bytes w) n\<rparr>)
         | Enter es \<Rightarrow>
             (case size_visit u late es (level + 1) w of
                (True, w) \<Rightarrow> size_visit u late rs level w
              | (False, w) \<Rightarrow> (False, w))))"
  by pat_completeness auto
termination
  by (relation "measure (\<lambda>(u, late, rs, level, w). entry_weight rs)")
    (auto simp: entry_weight_Cons dest: entry_weight_enter)

declare size_visit.simps(2) [simp del]

text \<open>\<open>now k\<close> is the clock when the \<open>k\<close>-th entry has been scanned, and \<open>now 0\<close> the start of the walk.\<close>

definition folder_size ::
  "unicode \<Rightarrow> os \<Rightarrow> (nat \<Rightarrow> nat) \<Rightarrow> Dir \<Rightarrow> VirtualPath \<Rightarrow> FolderSizeBudget \<Rightarrow> FsErrorCode + FolderSize" where
  "folder_size u os now root path bound =
     and_then (open_directory os root path) (\<lambda>directory.
     and_then (map_err map_io (entries directory)) (\<lambda>es.
       let deadline = now 0 + fb_max_duration bound;
           walk = snd (size_visit u (\<lambda>k. deadline \<le> now k) es (depth path)
                    \<lparr> sw_max_entries = fb_max_entries bound, sw_scanned = 0, sw_bytes = 0, sw_complete = True \<rparr>)
       in Ok \<lparr> fsz_bytes = sw_bytes walk, fsz_complete = sw_complete walk \<rparr>))"

text \<open>
  The specification: the bytes of all supported files that can be reached within the depth
  limit, and whether everything on the way could be read.
\<close>

function measured :: "unicode \<Rightarrow> (io_error + DirEntry) list \<Rightarrow> nat \<Rightarrow> nat \<times> bool" where
  "measured u [] level = (0, True)"
| "measured u (r # rs) level =
     (let m' = measured u rs level;
          m = (case size_action u level r of
           Skip \<Rightarrow> (0, True)
         | Fail \<Rightarrow> (0, False)
         | Count n \<Rightarrow> (n, True)
         | Enter es \<Rightarrow> measured u es (level + 1))
      in (fst m + fst m', snd m \<and> snd m'))"
  by pat_completeness auto
termination
  by (relation "measure (\<lambda>(u, rs, level). entry_weight rs)")
    (auto simp: entry_weight_Cons dest: entry_weight_enter)

declare measured.simps(2) [simp del]

text \<open>What one walk guarantees of its result against the specification.\<close>

definition sized :: "nat \<times> bool \<Rightarrow> SizeWalk \<Rightarrow> bool \<times> SizeWalk \<Rightarrow> bool" where
  "sized m w r \<longleftrightarrow>
     sw_bytes (snd r) \<le> saturating_add 64 (sw_bytes w) (fst m)
     \<and> sw_max_entries (snd r) = sw_max_entries w
     \<and> sw_complete (snd r) = (fst r \<and> sw_complete w \<and> snd m)
     \<and> (sw_complete (snd r) \<longrightarrow> sw_bytes (snd r) = saturating_add 64 (sw_bytes w) (fst m))"

lemma sized_trans:
  assumes "sized m w (True, w1)" "sized m' w1 r"
  shows "sized (fst m + fst m', snd m \<and> snd m') w r"
  using assms by (auto simp: sized_def saturating_add_def min_def split: if_splits)

lemma sized_stop:
  assumes "sized m w (False, w1)" shows "sized (fst m + b, snd m \<and> c) w (False, w1)"
  using assms by (auto simp: sized_def saturating_add_def)

lemma size_visit_sized: 
  assumes "sw_bytes w < 2 ^ 64"
  shows "sized (measured u rs level) w (size_visit u late rs level w)"
  using assms
proof (induction u rs level arbitrary: w rule: measured.induct)
  case (1 u level)
  then show ?case by (simp add: sized_def saturating_add_def)
next
  case (2 u r rs level)
  let ?m = "measured u rs level" and ?w = "w\<lparr>sw_scanned := sw_scanned w + 1\<rparr>"
  have rest: "sized ?m v (size_visit u late rs level v)" if "sw_bytes v < 2 ^ 64" for v
    using 2(1) that by blast
  have skip: "sized (fst ?m, False) w (size_visit u late rs level (incomplete ?w))"
    "sized (fst ?m, snd ?m) w (size_visit u late rs level ?w)"
    using rest [of "incomplete ?w"] rest [of ?w] 2(3) by (auto simp: sized_def incomplete_def)
  show ?case
  proof (cases "sw_max_entries w < sw_scanned w + 1 \<or> late (sw_scanned w + 1)")
    case True
    then show ?thesis using 2(3)
      by (auto simp: size_visit.simps Let_def sized_def incomplete_def saturating_add_def)
  next
    case go: False
    note unfold = size_visit.simps measured.simps Let_def
    show ?thesis
    proof (cases "size_action u level r")
      case (Count n)
      let ?v = "?w\<lparr>sw_bytes := saturating_add 64 (sw_bytes w) n\<rparr>"
      have v: "sized (n, True) w (True, ?v)" "sw_bytes ?v < 2 ^ 64"
        by (simp_all add: sized_def saturating_add_def)
      have "sized (n + fst ?m, True \<and> snd ?m) w (size_visit u late rs level ?v)"
        using sized_trans [OF v(1) rest [OF v(2)]] by simp
      then show ?thesis using go Count by (simp add: unfold)
    next
      case (Enter es)
      obtain m1 ok v where sub: "measured u es (level + 1) = m1" "size_visit u late es (level + 1) ?w = (ok, v)"
        by force
      have "sized m1 ?w (ok, v)" using 2(2) [OF refl Enter, of ?w] sub 2(3) by simp
      then have v: "sized m1 w (ok, v)" "sw_bytes v < 2 ^ 64" by (auto simp: sized_def saturating_add_def)
      then show ?thesis
        using go Enter sub sized_trans [of m1 w v ?m] rest [of v] sized_stop [of m1 w v]
        by (cases ok) (simp_all add: unfold split_def)
    qed (use go skip in \<open>simp_all add: unfold\<close>)
  qed
qed

text \<open>The number of entries a walk scans when nothing stops it.\<close>

function size_count :: "unicode \<Rightarrow> (io_error + DirEntry) list \<Rightarrow> nat \<Rightarrow> nat" where
  "size_count u [] level = 0"
| "size_count u (r # rs) level =
     1 + (case size_action u level r of Enter es \<Rightarrow> size_count u es (level + 1) | _ \<Rightarrow> 0) + size_count u rs level"
  by pat_completeness auto
termination
  by (relation "measure (\<lambda>(u, rs, level). entry_weight rs)")
    (auto simp: entry_weight_Cons dest: entry_weight_enter)

declare size_count.simps(2) [simp del]

lemma size_visit_finishes:
  assumes "sw_scanned w + size_count u rs level \<le> sw_max_entries w" "\<forall>k. \<not> late k"
  shows "\<exists>w'. size_visit u late rs level w = (True, w') \<and> sw_max_entries w' = sw_max_entries w
    \<and> sw_scanned w' = sw_scanned w + size_count u rs level"
  using assms
proof (induction u rs level arbitrary: w rule: size_count.induct)
  case (1 u level)
  then show ?case by simp
next
  case (2 u r rs level)
  let ?w = "w\<lparr>sw_scanned := sw_scanned w + 1\<rparr>"
  have go: "\<not> (sw_max_entries w < sw_scanned w + 1 \<or> late (sw_scanned w + 1))"
    using 2(3,4) by (simp add: size_count.simps)
  show ?case
  proof (cases "size_action u level r")
    case (Enter es)
    then obtain v where v: "size_visit u late es (level + 1) ?w = (True, v)" "sw_max_entries v = sw_max_entries w"
      "sw_scanned v = sw_scanned w + 1 + size_count u es (level + 1)"
      using 2(1) [OF Enter _ 2(4), of ?w] 2(3) by (auto simp: size_count.simps)
    then show ?thesis using 2(2) [OF _ 2(4), of v] 2(3) go Enter
      by (auto simp: size_visit.simps size_count.simps Let_def)
  next
    case Skip
    then show ?thesis using 2(2) [OF _ 2(4), of ?w] 2(3) go by (auto simp: size_visit.simps size_count.simps Let_def)
  next
    case Fail
    then show ?thesis using 2(2) [OF _ 2(4), of "incomplete ?w"] 2(3) go
      by (auto simp: size_visit.simps size_count.simps Let_def incomplete_def)
  next
    case (Count n)
    then show ?thesis using 2(2) [OF _ 2(4), of "?w\<lparr>sw_bytes := saturating_add 64 (sw_bytes w) n\<rparr>"] 2(3) go
      by (auto simp: size_visit.simps size_count.simps Let_def)
  qed
qed

subsection \<open>Folder sizes and archives agree\<close>

definition child_size :: "unicode \<Rightarrow> nat \<Rightarrow> child \<Rightarrow> nat \<times> bool" where
  "child_size u level c =
     (case dy_kind (fst c) of
        File \<Rightarrow> (dy_size (fst c), True)
      | Directory \<Rightarrow>
          (case and_then (snd c) entries of
             Inr es \<Rightarrow> measured u es (level + 1)
           | Inl e \<Rightarrow> (0, io_kind e = IoNotFound)))"

lemma measured_children:
  assumes "children_of u es = Some cs" "cs \<noteq> [] \<longrightarrow> level < MAX_PATH_DEPTH"
    "\<forall>c \<in> set cs. child_size u level c = (f c, True)"
  shows "measured u es level = (sum_list (map f cs), True)"
  using assms
proof (induction u es arbitrary: cs rule: children_of.induct)
  case (3 u entry rs)
  show ?case
  proof (cases "supported_entry u entry")
    case (Inr found)
    show ?thesis
    proof (cases found)
      case None
      then show ?thesis using 3 Inr by (simp add: measured.simps size_action_def scanned_child_def Let_def)
    next
      case (Some c)
      with 3(3) Inr obtain ds where ds: "children_of u rs = Some ds" "cs = (c, de_open entry) # ds" by auto
      have "measured u rs level = (sum_list (map f ds), True)"
        using 3(4,5) ds(2) by (intro 3(2) [OF Inr Some ds(1)]) auto
      moreover have "child_size u level (c, de_open entry) = (f (c, de_open entry), True)" using 3(5) ds(2) by simp
      ultimately show ?thesis using 3(4) ds(2) Inr Some
        by (auto simp: measured.simps size_action_def scanned_child_def Let_def child_size_def
            split: EntryKind.splits sum.splits if_splits)
    qed
  qed (use 3 in simp)
qed auto

lemma tally_sum_bytes:
  "tally_sum (map g cs) = Some t \<Longrightarrow>
   (\<forall>c \<in> set cs. g c \<noteq> None) \<and> ty_bytes t = sum_list (map (\<lambda>c. ty_bytes (the (g c))) cs)"
  by (induction cs arbitrary: t) (auto simp: tally_zero_def tally_plus_def bind_eq_Some_conv)

lemma sum_list_sort_key: "sum_list (map f (sort_key k xs)) = (sum_list (map f xs) :: nat)"
  by (metis mset_map mset_sort sum_mset_sum_list)

lemma tally_measured:
  "dir_tally u prefix level d = Some t \<Longrightarrow> \<exists>es. entries d = Inr es \<and> measured u es level = (ty_bytes t, True)"
  "child_tally u prefix level skip c = Some t \<Longrightarrow> child_size u level c = (ty_bytes t, True)"
proof (induction u prefix level d and u prefix level skip c arbitrary: t and t rule: dir_tally_child_tally.induct)
  case (1 u prefix level listed)
  from 1(2) obtain es cs a where es: "listed = Inr es" and cs: "children_of u es = Some cs"
    and deep: "\<not> (cs \<noteq> [] \<and> MAX_PATH_DEPTH \<le> level)"
    and a: "tally_sum (map (child_tally u prefix level True) (sort_key (name_key \<circ> fst) cs)) = Some a"
      "ty_bytes t = ty_bytes a"
    by (auto simp: dir_tally.simps split: sum.splits option.splits if_splits)
  let ?f = "\<lambda>c. ty_bytes (the (child_tally u prefix level True c))"
  have "child_size u level c = (?f c, True)" if "c \<in> set cs" for c
    using tally_sum_bytes [OF a(1)] that 1(1) [OF es cs deep] by auto
  then have "measured u es level = (sum_list (map ?f cs), True)"
    by (intro measured_children [OF cs]) (use deep in auto)
  then show ?case using tally_sum_bytes [OF a(1)] a(2) es by (simp add: sum_list_sort_key)
next
  case (2 u prefix level skip c opened)
  then show ?case
    by (auto simp: child_tally.simps child_size_def item_tally_def tally_plus_def
        split: EntryKind.splits sum.splits if_splits) (fastforce simp: item_tally_def)+
qed

text \<open>
  C18: A folder size is a lower bound of the bytes of the supported files beneath the folder, capped
  at the largest 64-bit number, and exact when it is reported complete; it is complete
  whenever the folder can be read throughout and neither bound of the budget is reached. If an
  archive of the folder is possible at all, those are the bytes the archive walk counts.
\<close>

theorem folder_size_exact:
  assumes "folder_size u os now root path bound = Ok r"
  shows "\<exists>d es. open_directory os root path = Ok d \<and> entries d = Inr es
    \<and> fsz_bytes r \<le> fst (measured u es (depth path)) \<and> fsz_bytes r < 2 ^ 64
    \<and> (fsz_complete r \<longrightarrow> fsz_bytes r = min (fst (measured u es (depth path))) (2 ^ 64 - 1))
    \<and> (snd (measured u es (depth path)) \<and> size_count u es (depth path) \<le> fb_max_entries bound
         \<and> (\<forall>k. now k < now 0 + fb_max_duration bound) \<longrightarrow> fsz_complete r)
    \<and> (\<forall>prefix t. dir_tally u prefix (depth path) d = Some t \<longrightarrow> measured u es (depth path) = (ty_bytes t, True))"
proof -
  from assms obtain d es where d: "open_directory os root path = Ok d" "entries d = Inr es"
    by (auto simp: folder_size_def)
  let ?m = "measured u es (depth path)"
  let ?w = "\<lparr> sw_max_entries = fb_max_entries bound, sw_scanned = 0, sw_bytes = 0, sw_complete = True \<rparr>"
  let ?v = "size_visit u (\<lambda>k. now 0 + fb_max_duration bound \<le> now k) es (depth path) ?w"
  have r: "r = \<lparr> fsz_bytes = sw_bytes (snd ?v), fsz_complete = sw_complete (snd ?v) \<rparr>"
    using assms d by (auto simp: folder_size_def Let_def)
  have v: "sized ?m ?w ?v" by (rule size_visit_sized) simp
  then have bytes: "fsz_bytes r \<le> fst ?m \<and> fsz_bytes r < 2 ^ 64
    \<and> (fsz_complete r \<longrightarrow> fsz_bytes r = min (fst ?m) (2 ^ 64 - 1))"
    using r by (auto simp: sized_def saturating_add_def)
  have complete: "fsz_complete r" if "snd ?m" "size_count u es (depth path) \<le> fb_max_entries bound"
    "\<forall>k. now k < now 0 + fb_max_duration bound"
    using size_visit_finishes [of ?w u es "depth path" "\<lambda>k. now 0 + fb_max_duration bound \<le> now k"] that r v
    by (auto simp: sized_def not_le)
  have "?m = (ty_bytes t, True)" if "dir_tally u prefix (depth path) d = Some t" for prefix t
    using tally_measured(1) [OF that] d(2) by auto
  with d bytes complete show ?thesis by blast
qed

lemma sample_size:
  "measured ascii_unicode [sample_file [98] 3 1,
      Inr (DirEntry [97] (Inr (sample_metadata False 0 2)) (Inr True) (Inr sample_subfolder)),
      sample_file [100] 9 2] 0 = (8, True)"
  by code_simp

theorem folder_size_exact_witness:
  "folder_size ascii_unicode sample_os (\<lambda>_. 0) sample_folder [] \<lparr> fb_max_entries = 9, fb_max_duration = 1 \<rparr> =
     Ok \<lparr> fsz_bytes = 8, fsz_complete = True \<rparr>"
proof -
  let ?b = "\<lparr> fb_max_entries = 9, fb_max_duration = 1 \<rparr>"
  obtain r where r: "folder_size ascii_unicode sample_os (\<lambda>_. 0) sample_folder [] ?b = Ok r"
    by (auto simp: folder_size_def open_directory_def sample_folder_def Let_def)
  have c: "size_count ascii_unicode [sample_file [98] 3 1,
      Inr (DirEntry [97] (Inr (sample_metadata False 0 2)) (Inr True) (Inr sample_subfolder)),
      sample_file [100] 9 2] 0 = 4"
    by code_simp
  from folder_size_exact [OF r] have "fsz_bytes r = 8 \<and> fsz_complete r"
    using sample_size c by (auto simp: open_directory_def sample_folder_def depth_def)
  with r show ?thesis by (cases r) simp
qed

subsection \<open>Quota measurement\<close>

definition DIRECTORY_QUOTA_BYTES :: nat where "DIRECTORY_QUOTA_BYTES = 4096"
definition MAX_SUBTREE_CHECK_ENTRIES :: nat where "MAX_SUBTREE_CHECK_ENTRIES = 1000000"
definition PAYLOAD_DEPTH :: nat where "PAYLOAD_DEPTH = 1"

datatype UsageError = LimitExceeded | TooManyEntries | UsageTooDeep | UsageFs FsErrorCode

record UsageScan =
  us_entries :: nat
  us_max_entries :: nat
  us_bytes :: nat
  us_max_bytes :: nat

definition usage_visit :: "UsageScan \<Rightarrow> UsageError + UsageScan" where
  "usage_visit s =
     and_then (ok_or TooManyEntries (checked_add 64 (us_entries s) 1)) (\<lambda>n.
       if us_max_entries s < n then Err TooManyEntries else Ok (s\<lparr>us_entries := n\<rparr>))"

definition usage_charge :: "nat \<Rightarrow> UsageScan \<Rightarrow> UsageError + UsageScan" where
  "usage_charge bytes s =
     and_then (ok_or LimitExceeded (checked_add 64 (us_bytes s) bytes)) (\<lambda>n.
       if us_max_bytes s < n then Err LimitExceeded else Ok (s\<lparr>us_bytes := n\<rparr>))"

abbreviation usage_io :: "io_error + 'a \<Rightarrow> UsageError + 'a" where
  "usage_io r \<equiv> map_err (UsageFs \<circ> map_io) r"

definition own_internal :: "DirEntry \<Rightarrow> bool" where
  "own_internal entry = (case utf8_decode (de_file_name entry) of Some n \<Rightarrow> is_own_internal_name n | None \<Rightarrow> False)"

lemma entry_weight_child:
  assumes "de_open entry = Inr child" "entries child = Inr es"
  shows "entry_weight es < size entry"
  using assms by (cases entry; cases child) (simp add: entry_weight_def)

function measure_entries :: "(io_error + DirEntry) list \<Rightarrow> UsageScan \<Rightarrow> nat \<Rightarrow> UsageError + UsageScan" where
  "measure_entries [] scan level = Ok scan"
| "measure_entries (r # rs) scan level =
     and_then (usage_visit scan) (\<lambda>scan.
     and_then (usage_io r) (\<lambda>entry.
       if own_internal entry then measure_entries rs scan level
       else if MAX_PATH_DEPTH \<le> level then Err UsageTooDeep
       else
         and_then (usage_io (de_metadata entry)) (\<lambda>metadata.
           if md_is_dir metadata then
             and_then (usage_charge DIRECTORY_QUOTA_BYTES scan) (\<lambda>scan.
             and_then (usage_io (and_then (de_open entry) entries)) (\<lambda>es.
             and_then (measure_entries es scan (level + 1)) (\<lambda>scan.
               measure_entries rs scan level)))
           else if md_is_file metadata then
             and_then (usage_charge (md_len metadata) scan) (\<lambda>scan. measure_entries rs scan level)
           else measure_entries rs scan level)))"
  by pat_completeness auto
termination
  by (relation "measure (\<lambda>(rs, scan, level). entry_weight rs)")
    (auto simp: entry_weight_Cons dest: entry_weight_child)

declare measure_entries.simps(2) [simp del]

definition measure_directory :: "Dir \<Rightarrow> UsageScan \<Rightarrow> nat \<Rightarrow> UsageError + UsageScan" where
  "measure_directory directory scan level =
     and_then (usage_io (entries directory)) (\<lambda>es. measure_entries es scan level)"

definition valid_id :: "str \<Rightarrow> bool" where
  "valid_id i \<longleftrightarrow> str_len i = 32 \<and> list_all (\<lambda>b. is_ascii_hexdigit b \<and> \<not> is_ascii_uppercase b) (utf8 i)"

definition measure_trash_entry :: "io_error + DirEntry \<Rightarrow> UsageScan \<Rightarrow> UsageError + UsageScan" where
  "measure_trash_entry r scan =
     and_then (usage_visit scan) (\<lambda>scan.
     and_then (usage_io r) (\<lambda>entry.
     and_then (ok_or (UsageFs UnsupportedEntry) (utf8_decode (de_file_name entry))) (\<lambda>name.
       if \<not> valid_id name then Ok scan
       else
         and_then (usage_io (de_metadata entry)) (\<lambda>meta.
         and_then (map_err UsageFs (classify_metadata meta)) (\<lambda>kind.
         and_then (map_err UsageFs (assert_no_external_alias meta kind)) (\<lambda>_.
           case kind of
             File \<Rightarrow> usage_charge (md_len meta) scan
           | Directory \<Rightarrow>
               and_then (usage_charge DIRECTORY_QUOTA_BYTES scan) (\<lambda>scan.
               and_then (usage_io (de_open entry)) (\<lambda>child.
                 measure_directory child scan PAYLOAD_DEPTH))))))))"

definition measure_trash :: "Dir \<Rightarrow> UsageScan \<Rightarrow> UsageError + UsageScan" where
  "measure_trash trash scan =
     and_then (usage_io (entries trash)) (\<lambda>es. fold_res measure_trash_entry es scan)"

definition usage_bounded :: "Dir \<Rightarrow> Dir option \<Rightarrow> nat \<Rightarrow> nat \<Rightarrow> UsageError + nat" where
  "usage_bounded root trash max_entries max_bytes =
     (let scan = \<lparr> us_entries = 0, us_max_entries = max_entries, us_bytes = 0, us_max_bytes = max_bytes \<rparr> in
      and_then (measure_directory root scan 0) (\<lambda>scan.
      and_then (case trash of Some t \<Rightarrow> measure_trash t scan | None \<Rightarrow> Ok scan) (\<lambda>scan.
        Ok (us_bytes scan))))"

subsection \<open>Depth of a moved directory\<close>

function subtree_entries :: "(io_error + DirEntry) list \<Rightarrow> nat \<Rightarrow> nat \<Rightarrow> FsErrorCode + nat" where
  "subtree_entries [] allowance visited = Ok visited"
| "subtree_entries (r # rs) allowance visited =
     (let visited = visited + 1 in
      if MAX_SUBTREE_CHECK_ENTRIES < visited then Err FsTooLarge
      else
        and_then (map_err map_io r) (\<lambda>entry.
          if allowance = 0 then Err TooDeep
          else
            and_then (map_err map_io (de_is_dir entry)) (\<lambda>is_dir.
              if \<not> is_dir then subtree_entries rs allowance visited
              else
                (case de_open entry of
                   Inl e \<Rightarrow>
                     if io_kind e = IoNotFound then subtree_entries rs allowance visited else Err (map_io e)
                 | Inr child \<Rightarrow>
                     and_then (map_err map_io (entries child)) (\<lambda>es.
                     and_then (subtree_entries es (allowance - 1) visited) (\<lambda>visited.
                       subtree_entries rs allowance visited))))))"
  by pat_completeness auto
termination
  by (relation "measure (\<lambda>(rs, allowance, visited). entry_weight rs)")
    (auto simp: entry_weight_Cons dest: entry_weight_child)

declare subtree_entries.simps(2) [simp del]

definition ensure_subtree_within :: "Dir \<Rightarrow> nat \<Rightarrow> nat \<Rightarrow> FsErrorCode + nat" where
  "ensure_subtree_within directory allowance visited =
     and_then (map_err map_io (entries directory)) (\<lambda>es. subtree_entries es allowance visited)"

text \<open>The number of levels of entries below a directory, as far as directories can be opened.\<close>

function levels :: "(io_error + DirEntry) list \<Rightarrow> nat" where
  "levels [] = 0"
| "levels (Inl e # rs) = max 1 (levels rs)"
| "levels (Inr entry # rs) =
     max (1 + (if de_is_dir entry = Inr True
               then (case and_then (de_open entry) entries of Inr es \<Rightarrow> levels es | Inl _ \<Rightarrow> 0) else 0))
         (levels rs)"
  by pat_completeness auto
termination
  by (relation "measure entry_weight") (auto simp: entry_weight_Cons dest: entry_weight_child)

declare levels.simps(3) [simp del]

lemma subtree_entries_levels:
  "subtree_entries rs allowance visited = Ok v \<Longrightarrow> levels rs \<le> allowance"
proof (induction rs arbitrary: allowance visited v rule: levels.induct)
  case 1
  then show ?case by simp
next
  case (2 e rs)
  then show ?case by (auto simp: subtree_entries.simps Let_def split: if_splits)
next
  case (3 entry rs)
  from 3(3) have a: "allowance \<noteq> 0" by (auto simp: subtree_entries.simps Let_def split: if_splits)
  show ?case
  proof (cases "de_is_dir entry = Inr True \<and> (\<exists>es. and_then (de_open entry) entries = Inr es)")
    case True
    then obtain es where es: "de_is_dir entry = Inr True" "and_then (de_open entry) entries = Inr es" by blast
    with 3(3) a obtain v1 where "subtree_entries es (allowance - 1) (visited + 1) = Ok v1"
      "subtree_entries rs allowance v1 = Ok v"
      by (auto simp: subtree_entries.simps Let_def split: if_splits)
    with 3(1) [OF es] 3(2) have "levels es \<le> allowance - 1" "levels rs \<le> allowance" by blast+
    with es a show ?thesis by (auto simp: levels.simps)
  next
    case False
    with 3(3) a have "subtree_entries rs allowance (visited + 1) = Ok v"
      by (auto simp: subtree_entries.simps Let_def split: if_splits sum.splits)
    with 3(2) have "levels rs \<le> allowance" by blast
    with False a show ?thesis by (auto simp: levels.simps split: sum.splits)
  qed
qed

subsection \<open>What a measurement counts\<close>

text \<open>
  The specification of the quota: entries visited and bytes charged below a directory, \<open>None\<close> when something
  cannot be read or lies too deep.
\<close>

fun usage_plus :: "(nat \<times> nat) option \<Rightarrow> (nat \<times> nat) option \<Rightarrow> (nat \<times> nat) option" where
  "usage_plus (Some (n, b)) (Some (n', b')) = Some (Suc (n + n'), b + b')"
| "usage_plus _ _ = None"

function usage_of :: "(io_error + DirEntry) list \<Rightarrow> nat \<Rightarrow> (nat \<times> nat) option" where
  "usage_of [] level = Some (0, 0)"
| "usage_of (Inl e # rs) level = None"
| "usage_of (Inr entry # rs) level =
     usage_plus
       (if own_internal entry then Some (0, 0)
        else if MAX_PATH_DEPTH \<le> level then None
        else (case de_metadata entry of
                Inl e \<Rightarrow> None
              | Inr m \<Rightarrow>
                  if md_is_dir m then
                    (case and_then (de_open entry) entries of
                       Inl e \<Rightarrow> None
                     | Inr es \<Rightarrow> map_option (\<lambda>(n, b). (n, DIRECTORY_QUOTA_BYTES + b)) (usage_of es (level + 1)))
                  else if md_is_file m then Some (0, md_len m) else Some (0, 0)))
       (usage_of rs level)"
  by pat_completeness auto
termination
  by (relation "measure (\<lambda>(rs, level). entry_weight rs)")
    (auto simp: entry_weight_Cons dest: entry_weight_child)

declare usage_of.simps(3) [simp del]

definition usage_ok :: "UsageScan \<Rightarrow> bool" where
  "usage_ok s \<longleftrightarrow> us_entries s \<le> us_max_entries s \<and> us_bytes s \<le> us_max_bytes s
     \<and> us_max_entries s < 2 ^ 64 \<and> us_max_bytes s < 2 ^ 64"

definition spend :: "UsageScan \<Rightarrow> nat \<times> nat \<Rightarrow> UsageScan" where
  "spend s u = s\<lparr>us_entries := us_entries s + fst u, us_bytes := us_bytes s + snd u\<rparr>"

interpretation usage_budget: budget usage_ok spend "\<lambda>a b. (fst a + fst b, snd a + snd b)" "(0, 0)"
  by unfold_locales (simp_all add: spend_def usage_ok_def add_ac)

lemma usage_visit_exact: "usage_budget.exact usage_visit (Some (1, 0))"
  by (auto simp: usage_budget.exact_def usage_visit_def usage_ok_def spend_def checked_add_def)

lemma usage_charge_exact: "usage_budget.exact (usage_charge n) (Some (0, n))"
  by (auto simp: usage_budget.exact_def usage_charge_def usage_ok_def spend_def checked_add_def)

lemma and_then_assoc: "and_then (and_then r f) g = and_then r (\<lambda>x. and_then (f x) g)"
  by (cases r) auto

lemma and_then_if: "and_then (if b then r else r') f = (if b then and_then r f else and_then r' f)"
  by simp

text \<open>One entry of a measurement and what it contributes.\<close>

definition measure_one :: "DirEntry \<Rightarrow> nat \<Rightarrow> UsageScan \<Rightarrow> UsageError + UsageScan" where
  "measure_one entry level scan =
     (if own_internal entry then Ok scan
      else if MAX_PATH_DEPTH \<le> level then Err UsageTooDeep
      else
        and_then (usage_io (de_metadata entry)) (\<lambda>metadata.
          if md_is_dir metadata then
            and_then (usage_charge DIRECTORY_QUOTA_BYTES scan) (\<lambda>scan.
            and_then (usage_io (and_then (de_open entry) entries)) (\<lambda>es. measure_entries es scan (level + 1)))
          else if md_is_file metadata then usage_charge (md_len metadata) scan
          else Ok scan))"

definition usage_one :: "DirEntry \<Rightarrow> nat \<Rightarrow> (nat \<times> nat) option" where
  "usage_one entry level =
     (if own_internal entry then Some (0, 0)
      else if MAX_PATH_DEPTH \<le> level then None
      else (case de_metadata entry of
              Inl e \<Rightarrow> None
            | Inr m \<Rightarrow>
                if md_is_dir m then
                  (case and_then (de_open entry) entries of
                     Inl e \<Rightarrow> None
                   | Inr es \<Rightarrow> map_option (\<lambda>(n, b). (n, DIRECTORY_QUOTA_BYTES + b)) (usage_of es (level + 1)))
                else if md_is_file m then Some (0, md_len m) else Some (0, 0)))"

lemma measure_entries_Cons:
  "measure_entries (Inr entry # rs) s level =
     and_then (usage_visit s) (\<lambda>s. and_then (measure_one entry level s) (\<lambda>s. measure_entries rs s level))"
  by (simp add: measure_entries.simps measure_one_def and_then_assoc and_then_if cong: if_cong)

lemma usage_of_Cons:
  "usage_of (Inr entry # rs) level =
     Option.bind (Some (1, 0)) (\<lambda>a. Option.bind
       (Option.bind (usage_one entry level) (\<lambda>a. Option.bind (usage_of rs level) (\<lambda>b. Some (fst a + fst b, snd a + snd b))))
       (\<lambda>b. Some (fst a + fst b, snd a + snd b)))"
  unfolding usage_of.simps usage_one_def [symmetric]
  by (cases "usage_one entry level"; cases "usage_of rs level") (auto simp: split_def)

lemma measure_entries_exact: "usage_budget.exact (\<lambda>s. measure_entries rs s level) (usage_of rs level)"
proof (induction rs level rule: usage_of.induct)
  case (1 level)
  then show ?case using usage_budget.exact_skip by simp
next
  case (2 e rs level)
  then show ?case by (auto simp: measure_entries.simps intro!: usage_budget.exact_fail)
next
  case (3 entry rs level)
  have "usage_budget.exact (measure_one entry level) (usage_one entry level)"
  proof -
    have d: "usage_budget.exact (\<lambda>s. and_then (usage_charge DIRECTORY_QUOTA_BYTES s) (\<lambda>s. measure_entries es s (level + 1)))
        (map_option (\<lambda>(n, b). (n, DIRECTORY_QUOTA_BYTES + b)) (usage_of es (level + 1)))"
      if "\<not> own_internal entry" "\<not> MAX_PATH_DEPTH \<le> level" "de_metadata entry = Inr m" "md_is_dir m"
        "and_then (de_open entry) entries = Inr es" for m es
    proof -
      have "map_option (\<lambda>(n, b). (n, DIRECTORY_QUOTA_BYTES + b)) (usage_of es (level + 1)) =
          Option.bind (Some (0, DIRECTORY_QUOTA_BYTES)) (\<lambda>a. Option.bind (usage_of es (level + 1))
            (\<lambda>b. Some (fst a + fst b, snd a + snd b)))"
        by (cases "usage_of es (level + 1)") (auto simp: split_def)
      then show ?thesis
        using usage_budget.exact_seq [OF usage_charge_exact 3(1) [OF that], of DIRECTORY_QUOTA_BYTES] by simp
    qed
    consider (skip) "own_internal entry" | (deep) "\<not> own_internal entry" "MAX_PATH_DEPTH \<le> level"
      | (bad) e where "\<not> own_internal entry" "\<not> MAX_PATH_DEPTH \<le> level" "de_metadata entry = Inl e"
      | (dir) m where "\<not> own_internal entry" "\<not> MAX_PATH_DEPTH \<le> level" "de_metadata entry = Inr m" "md_is_dir m"
      | (other) m where "\<not> own_internal entry" "\<not> MAX_PATH_DEPTH \<le> level" "de_metadata entry = Inr m" "\<not> md_is_dir m"
      by (cases "de_metadata entry") blast+
    then show ?thesis
    proof cases
      case (dir m)
      then show ?thesis using d [OF dir]
        by (cases "and_then (de_open entry) entries") (auto simp: measure_one_def [abs_def] usage_one_def intro!: usage_budget.exact_fail)
    next
      case (other m)
      then show ?thesis
        by (auto simp: measure_one_def [abs_def] usage_one_def intro: usage_budget.exact_skip usage_charge_exact)
    qed (auto simp: measure_one_def [abs_def] usage_one_def intro: usage_budget.exact_skip usage_budget.exact_fail)
  qed
  from usage_budget.exact_seq [OF usage_visit_exact usage_budget.exact_seq [OF this 3(2)]]
  show ?case by (simp add: measure_entries_Cons usage_of_Cons)
qed

lemma measure_directory_exact:
  "usage_budget.exact (\<lambda>s. measure_directory d s level)
     (case entries d of Inl _ \<Rightarrow> None | Inr es \<Rightarrow> usage_of es level)"
  by (cases "entries d") (auto simp: measure_directory_def measure_entries_exact intro!: usage_budget.exact_fail)


lemma sample_not_internal: "n \<in> {97, 98, 99, 100} \<Longrightarrow> \<not> own_internal (DirEntry [n] m f d)"
  by (auto simp: own_internal_def is_own_internal_name_def INTERNAL_DIRECTORY_def LEGACY_STAGING_DIRECTORY_def
      is_internal_temp_name_def INTERNAL_TEMP_PREFIX_def lit_def is_cont_def)


text \<open>
  A directory that passes the depth check before a move keeps every entry beneath it within
  the depth limit at its destination.
\<close>

theorem moved_subtree_within_depth:
  assumes "ensure_subtree_within d (MAX_PATH_DEPTH - depth destination) visited = Ok v"
    and "depth destination \<le> MAX_PATH_DEPTH"
  shows "\<exists>es. entries d = Inr es \<and> depth destination + levels es \<le> MAX_PATH_DEPTH"
  using assms subtree_entries_levels by (fastforce simp: ensure_subtree_within_def)

theorem moved_subtree_within_depth_witness:
  "ensure_subtree_within sample_folder (MAX_PATH_DEPTH - depth [[120]]) 0 = Ok 4
   \<and> (\<exists>es. entries sample_folder = Inr es \<and> depth [[120]] + levels es \<le> MAX_PATH_DEPTH)"
proof -
  have e: "ensure_subtree_within sample_folder (MAX_PATH_DEPTH - depth [[120]]) 0 = Ok 4"
    by (simp add: ensure_subtree_within_def sample_folder_def sample_file_def sample_subfolder_def
        subtree_entries.simps MAX_SUBTREE_CHECK_ENTRIES_def path_consts depth_def)
  show ?thesis using moved_subtree_within_depth [OF e] e by (simp add: depth_def path_consts)
qed

end
