(* ===== verification/FolderSizes.thy ===== *)
theory FolderSizes
  imports Walks
begin

text \<open>
  The folder-size cache of \<open>src/src/folder_sizes.rs\<close>, shared by all users of a share: bounded,
  short-lived, and invalidated by changes. Instants are naturals (nanoseconds) with saturating
  differences; the generation is a \<open>u64\<close> that wraps. The hash map is an association list as in
  the rate limiter.
\<close>

subsection \<open>State and operations\<close>

definition FOLDER_SIZE_TTL :: nat where "FOLDER_SIZE_TTL = 60 * 1000000000"
definition MAX_CACHED_FOLDER_SIZES :: nat where "MAX_CACHED_FOLDER_SIZES = 2048"

record Cached =
  cd_size :: FolderSize
  cd_stored :: nat

type_synonym size_key = "str \<times> VirtualPath"

record FolderSizeCache =
  fc_entries :: "(size_key \<times> Cached) list"
  fc_generation :: nat
  fc_ttl :: nat
  fc_capacity :: nat

definition FolderSizeCache_new :: "nat \<Rightarrow> nat \<Rightarrow> FolderSizeCache" where
  "FolderSizeCache_new ttl capacity =
     \<lparr> fc_entries = [], fc_generation = 0, fc_ttl = ttl, fc_capacity = max capacity 1 \<rparr>"

definition fresh :: "FolderSizeCache \<Rightarrow> nat \<Rightarrow> Cached \<Rightarrow> bool" where
  "fresh c now e \<longleftrightarrow> now - cd_stored e < fc_ttl c"

definition get_at :: "str \<Rightarrow> VirtualPath \<Rightarrow> nat \<Rightarrow> FolderSizeCache \<Rightarrow> FolderSize option \<times> FolderSizeCache" where
  "get_at share_id path now c =
     (case map_of (fc_entries c) (share_id, path) of
        None \<Rightarrow> (None, c)
      | Some e \<Rightarrow>
          if fresh c now e then (Some (cd_size e), c)
          else (None, c\<lparr>fc_entries := remove_key (share_id, path) (fc_entries c)\<rparr>))"

fun min_by_stored :: "('k \<times> Cached) list \<Rightarrow> 'k option" where
  "min_by_stored [] = None"
| "min_by_stored [(k, e)] = Some k"
| "min_by_stored ((k, e) # (k', e') # es) =
     (if cd_stored e' < cd_stored e then min_by_stored ((k', e') # es) else min_by_stored ((k, e) # es))"

definition make_space :: "FolderSizeCache \<Rightarrow> nat \<Rightarrow> (size_key \<times> Cached) list" where
  "make_space c now =
     (let live = filter (\<lambda>(_, e). fresh c now e) (fc_entries c) in
      if fc_capacity c \<le> length live
      then (case min_by_stored live of Some k \<Rightarrow> remove_key k live | None \<Rightarrow> live)
      else live)"

definition insert_at ::
  "str \<Rightarrow> VirtualPath \<Rightarrow> FolderSize \<Rightarrow> nat \<Rightarrow> nat \<Rightarrow> FolderSizeCache \<Rightarrow> FolderSizeCache" where
  "insert_at share_id path sz started now c =
     (if fc_generation c \<noteq> started then c
      else
        (let es = (if (share_id, path) \<notin> fst ` set (fc_entries c) \<and> fc_capacity c \<le> length (fc_entries c)
                   then make_space c now else fc_entries c)
         in c\<lparr>fc_entries := put_key (share_id, path) \<lparr> cd_size = sz, cd_stored = now \<rparr> es\<rparr>))"

definition related :: "size_key \<Rightarrow> size_key \<Rightarrow> bool" where
  "related changed cached \<longleftrightarrow>
     fst cached = fst changed
     \<and> (path_starts_with (snd changed) (snd cached) \<or> path_starts_with (snd cached) (snd changed))"

definition invalidate :: "str \<Rightarrow> VirtualPath \<Rightarrow> FolderSizeCache \<Rightarrow> FolderSizeCache" where
  "invalidate share_id path c =
     c\<lparr> fc_generation := (fc_generation c + 1) mod 2 ^ 64,
        fc_entries := filter (\<lambda>(k, _). \<not> related (share_id, path) k) (fc_entries c) \<rparr>"

definition invalidate_share :: "str \<Rightarrow> FolderSizeCache \<Rightarrow> FolderSizeCache" where
  "invalidate_share share_id c = invalidate share_id VirtualPath_root c"

subsection \<open>Walks and invalidations\<close>

text \<open>
  A run of the server as the cache sees it. \<open>sr_log\<close> records the invalidated paths in order. A
  walk of a folder remembers the generation it started with and, as a ghost, its position in the
  log; \<open>sr_origin\<close> keeps, for each folder, the position and the result of the walk stored last.
\<close>

record walk =
  wk_generation :: nat
  wk_began :: nat
  wk_key :: size_key

record size_run =
  sr_cache :: FolderSizeCache
  sr_log :: "size_key list"
  sr_walks :: "walk set"
  sr_origin :: "size_key \<rightharpoonup> nat \<times> FolderSize"

definition begin_walk :: "size_key \<Rightarrow> size_run \<Rightarrow> size_run" where
  "begin_walk k s = s\<lparr>sr_walks := insert \<lparr> wk_generation = fc_generation (sr_cache s),
     wk_began = length (sr_log s), wk_key = k \<rparr> (sr_walks s)\<rparr>"

definition finish_walk :: "walk \<Rightarrow> FolderSize \<Rightarrow> nat \<Rightarrow> size_run \<Rightarrow> size_run" where
  "finish_walk w sz now s = s\<lparr>
     sr_cache := insert_at (fst (wk_key w)) (snd (wk_key w)) sz (wk_generation w) now (sr_cache s),
     sr_origin := (if wk_generation w = fc_generation (sr_cache s)
                   then (sr_origin s)(wk_key w \<mapsto> (wk_began w, sz)) else sr_origin s)\<rparr>"

definition note_change :: "size_key \<Rightarrow> size_run \<Rightarrow> size_run" where
  "note_change k s = s\<lparr>sr_cache := invalidate (fst k) (snd k) (sr_cache s), sr_log := sr_log s @ [k]\<rparr>"

inductive size_step :: "size_run \<Rightarrow> size_run \<Rightarrow> bool" where
  start_walk: "size_step s (begin_walk k s)"
| end_walk: "w \<in> sr_walks s \<Longrightarrow> size_step s (finish_walk w sz now s)"
| change: "size_step s (note_change k s)"
| lookup: "size_step s (s\<lparr>sr_cache := snd (get_at i p now (sr_cache s))\<rparr>)"

definition size_start :: "nat \<Rightarrow> nat \<Rightarrow> size_run" where
  "size_start ttl capacity =
     \<lparr> sr_cache = FolderSizeCache_new ttl capacity, sr_log = [], sr_walks = {}, sr_origin = Map.empty \<rparr>"

definition unchanged_since :: "size_key list \<Rightarrow> nat \<Rightarrow> size_key \<Rightarrow> bool" where
  "unchanged_since log i k \<longleftrightarrow> (\<forall>c \<in> set (drop i log). \<not> related c k)"

definition cache_ok :: "FolderSizeCache \<Rightarrow> bool" where
  "cache_ok c \<longleftrightarrow> distinct (keys (fc_entries c)) \<and> 0 < fc_capacity c
     \<and> length (fc_entries c) \<le> fc_capacity c"

definition entry_ok :: "size_run \<Rightarrow> size_key \<times> Cached \<Rightarrow> bool" where
  "entry_ok s ke \<longleftrightarrow> (\<exists>i \<le> length (sr_log s).
     sr_origin s (fst ke) = Some (i, cd_size (snd ke)) \<and> unchanged_since (sr_log s) i (fst ke))"

definition size_inv :: "size_run \<Rightarrow> bool" where
  "size_inv s \<longleftrightarrow>
     cache_ok (sr_cache s)
     \<and> fc_generation (sr_cache s) = length (sr_log s) mod 2 ^ 64
     \<and> (\<forall>w \<in> sr_walks s. wk_generation w = wk_began w mod 2 ^ 64 \<and> wk_began w \<le> length (sr_log s))
     \<and> (length (sr_log s) < 2 ^ 64 \<longrightarrow> (\<forall>ke \<in> set (fc_entries (sr_cache s)). entry_ok s ke))"

lemma min_by_stored_mem: "es \<noteq> [] \<Longrightarrow> \<exists>k. min_by_stored es = Some k \<and> k \<in> fst ` set es"
  by (induction es rule: min_by_stored.induct) (auto split: if_splits)

lemma length_remove_key_lt: "k \<in> fst ` set es \<Longrightarrow> length (remove_key k es) < length es"
  unfolding remove_key_def by (auto intro: length_filter_less)

lemma keys_remove_key: "distinct (keys es) \<Longrightarrow> distinct (keys (remove_key k es))"
  unfolding remove_key_def by (rule keys_filter)

lemma make_space:
  assumes "distinct (keys (fc_entries c))" "length (fc_entries c) \<le> fc_capacity c" "0 < fc_capacity c"
  shows "distinct (keys (make_space c now))" "length (make_space c now) < fc_capacity c"
    "set (make_space c now) \<subseteq> set (fc_entries c)"
proof -
  let ?live = "filter (\<lambda>(_, e). fresh c now e) (fc_entries c)"
  have l: "distinct (keys ?live)" "length ?live \<le> fc_capacity c" "set ?live \<subseteq> set (fc_entries c)"
    using assms(1,2) le_trans [OF length_filter_le] by (auto simp: keys_filter)
  have "distinct (keys (make_space c now)) \<and> length (make_space c now) < fc_capacity c
      \<and> set (make_space c now) \<subseteq> set (fc_entries c)"
  proof (cases "fc_capacity c \<le> length ?live")
    case True
    then have "?live \<noteq> []" using assms(3) by auto
    then obtain k where k: "min_by_stored ?live = Some k" "k \<in> fst ` set ?live"
      using min_by_stored_mem by blast
    have "make_space c now = remove_key k ?live" using True k(1) by (simp add: make_space_def Let_def)
    then show ?thesis
      using keys_remove_key [OF l(1)] length_remove_key_lt [OF k(2)] l(2,3)
      by (auto simp: remove_key_def)
  next
    case False
    then show ?thesis using l by (simp add: make_space_def Let_def)
  qed
  then show "distinct (keys (make_space c now))" "length (make_space c now) < fc_capacity c"
    "set (make_space c now) \<subseteq> set (fc_entries c)" by blast+
qed

lemma insert_at_effect:
  assumes "cache_ok c"
  shows "cache_ok (insert_at i p sz g now c)"
    "set (fc_entries (insert_at i p sz g now c)) \<subseteq>
       (if g = fc_generation c
        then insert ((i, p), \<lparr> cd_size = sz, cd_stored = now \<rparr>)
               {ke \<in> set (fc_entries c). fst ke \<noteq> (i, p)}
        else set (fc_entries c))"
    "fc_generation (insert_at i p sz g now c) = fc_generation c"
    "fc_capacity (insert_at i p sz g now c) = fc_capacity c"
proof -
  let ?es = "if (i, p) \<notin> fst ` set (fc_entries c) \<and> fc_capacity c \<le> length (fc_entries c)
       then make_space c now else fc_entries c"
  have c: "distinct (keys (fc_entries c))" "length (fc_entries c) \<le> fc_capacity c" "0 < fc_capacity c"
    using assms by (simp_all add: cache_ok_def)
  have es: "distinct (keys ?es)" "set ?es \<subseteq> set (fc_entries c)"
    "length ?es < fc_capacity c \<or> (i, p) \<in> fst ` set ?es \<and> length ?es \<le> fc_capacity c"
    using make_space [OF c] c by auto
  have k: "set (put_key (i, p) v ?es) \<subseteq> insert ((i, p), v) {ke \<in> set (fc_entries c). fst ke \<noteq> (i, p)}" for v
    using es(2) by (force simp: put_key_def split: if_splits)
  have d: "distinct (keys (fc_entries (insert_at i p sz g now c)))"
    using distinct_put_key [OF es(1)] c(1) by (simp add: insert_at_def Let_def)
  have l: "length (fc_entries (insert_at i p sz g now c)) \<le> fc_capacity c"
    using es(3) c(2) by (auto simp: insert_at_def Let_def length_put_key)
  have cap: "fc_capacity (insert_at i p sz g now c) = fc_capacity c" by (simp add: insert_at_def Let_def)
  show "cache_ok (insert_at i p sz g now c)"
    unfolding cache_ok_def cap using d l c(3) by blast
  show "set (fc_entries (insert_at i p sz g now c)) \<subseteq>
       (if g = fc_generation c
        then insert ((i, p), \<lparr> cd_size = sz, cd_stored = now \<rparr>)
               {ke \<in> set (fc_entries c). fst ke \<noteq> (i, p)}
        else set (fc_entries c))"
    using k by (simp add: insert_at_def Let_def)
qed (simp_all add: insert_at_def Let_def)

lemma cache_ok_subset:
  assumes "cache_ok c" "fc_entries c' = filter f (fc_entries c)" "fc_capacity c' = fc_capacity c"
  shows "cache_ok c'"
  using assms le_trans [OF length_filter_le, of "fc_entries c"] by (simp add: cache_ok_def keys_filter)

lemma unchanged_since_snoc:
  "i \<le> length log \<Longrightarrow> unchanged_since (log @ [c]) i k \<longleftrightarrow> unchanged_since log i k \<and> \<not> related c k"
  by (auto simp: unchanged_since_def)

lemma finish_walk_inv:
  assumes w: "w \<in> sr_walks s" and s: "size_inv s"
  shows "size_inv (finish_walk w sz now s)"
proof -
  let ?c = "sr_cache s" and ?s' = "finish_walk w sz now s"
  let ?new = "(wk_key w, \<lparr> cd_size = sz, cd_stored = now \<rparr>)"
  have ok: "cache_ok ?c" using s by (simp add: size_inv_def)
  note e = insert_at_effect [OF ok, of "fst (wk_key w)" "snd (wk_key w)" sz "wk_generation w" now]
  have began: "wk_generation w = wk_began w mod 2 ^ 64" "wk_began w \<le> length (sr_log s)"
    using s w by (auto simp: size_inv_def)
  have entries: "entry_ok ?s' ke"
    if small: "length (sr_log s) < 2 ^ 64" and ke: "ke \<in> set (fc_entries (sr_cache ?s'))" for ke
  proof (cases "wk_generation w = fc_generation ?c")
    case True
    then have here: "wk_began w = length (sr_log s)" using s began small by (simp add: size_inv_def)
    from ke e(2) True consider "ke = ?new" | "ke \<in> set (fc_entries ?c)" "fst ke \<noteq> wk_key w"
      by (auto simp: finish_walk_def)
    then show ?thesis
      using True here s small
      by cases (auto simp: entry_ok_def finish_walk_def unchanged_since_def size_inv_def)
  next
    case False
    then have "ke \<in> set (fc_entries ?c)" using ke e(2) by (auto simp: finish_walk_def)
    then show ?thesis using False s small by (auto simp: entry_ok_def finish_walk_def size_inv_def)
  qed
  then show ?thesis using s e by (simp add: size_inv_def finish_walk_def)
qed

lemma note_change_inv:
  assumes "size_inv s" shows "size_inv (note_change k s)"
proof -
  let ?s' = "note_change k s"
  have ok: "cache_ok (sr_cache ?s')"
    by (rule cache_ok_subset [of "sr_cache s"]) (use assms in \<open>auto simp: size_inv_def note_change_def invalidate_def\<close>)
  have "entry_ok ?s' ke"
    if "length (sr_log ?s') < 2 ^ 64" "ke \<in> set (fc_entries (sr_cache ?s'))" for ke
  proof -
    have "ke \<in> set (fc_entries (sr_cache s))" "\<not> related k (fst ke)"
      using that(2) by (auto simp: note_change_def invalidate_def)
    moreover have small: "length (sr_log s) < 2 ^ 64" using that(1) by (simp add: note_change_def)
    moreover from calculation(1) obtain i where "i \<le> length (sr_log s)"
      "sr_origin s (fst ke) = Some (i, cd_size (snd ke))" "unchanged_since (sr_log s) i (fst ke)"
      using assms small by (auto simp: size_inv_def entry_ok_def)
    ultimately show ?thesis by (auto simp: entry_ok_def note_change_def unchanged_since_snoc)
  qed
  then show ?thesis using assms ok
    by (auto simp: size_inv_def note_change_def invalidate_def mod_Suc_eq)
qed

lemma lookup_inv:
  assumes "size_inv s" shows "size_inv (s\<lparr>sr_cache := snd (get_at i p now (sr_cache s))\<rparr>)"
proof (cases "snd (get_at i p now (sr_cache s)) = sr_cache s")
  case True
  with assms show ?thesis by simp
next
  case False
  then have g: "snd (get_at i p now (sr_cache s)) =
      (sr_cache s)\<lparr>fc_entries := remove_key (i, p) (fc_entries (sr_cache s))\<rparr>" (is "_ = ?c")
    by (auto simp: get_at_def split: option.splits if_splits)
  have "cache_ok ?c"
    by (rule cache_ok_subset [of "sr_cache s"])
      (use assms in \<open>auto simp: size_inv_def remove_key_def\<close>)
  with assms g show ?thesis by (auto simp: size_inv_def entry_ok_def remove_key_def)
qed

lemma size_step_inv:
  assumes "size_step s s'" "size_inv s" shows "size_inv s'"
  using assms
proof (induction rule: size_step.induct)
  case (start_walk s k)
  then show ?case by (auto simp: size_inv_def entry_ok_def begin_walk_def)
next
  case (end_walk w s sz now)
  then show ?case by (rule finish_walk_inv)
next
  case (change s k)
  then show ?case by (rule note_change_inv)
next
  case (lookup s i p now)
  then show ?case by (rule lookup_inv)
qed

lemma size_start_inv: "size_inv (size_start ttl capacity)"
  by (simp add: size_inv_def size_start_def cache_ok_def FolderSizeCache_new_def)

lemma size_reach_inv:
  assumes "size_step\<^sup>*\<^sup>* (size_start ttl capacity) s" shows "size_inv s"
  using assms by (induction rule: rtranclp_induct) (auto intro: size_start_inv size_step_inv)

lemma get_at_hit:
  assumes "fst (get_at i p now c) = Some sz"
  obtains e where "((i, p), e) \<in> set (fc_entries c)" "cd_size e = sz" "now - cd_stored e < fc_ttl c"
  using assms by (auto simp: get_at_def fresh_def split: option.splits if_splits dest: map_of_SomeD)

text \<open>
  C20: In every run of starting walks, finishing walks, changes and lookups (fewer than
  2^64 changes), the cache holds at most its capacity of sizes, and a size it serves for a folder is the
  result of a walk of that folder that began after the last change at, above or beneath it: an
  overtaken walk is never served.
\<close>

theorem folder_size_fresh:
  assumes "size_step\<^sup>*\<^sup>* (size_start ttl capacity) s"
    and "length (sr_log s) < 2 ^ 64"
    and "fst (get_at i p now (sr_cache s)) = Some sz"
  shows "length (fc_entries (sr_cache s)) \<le> fc_capacity (sr_cache s)
    \<and> (\<exists>began. sr_origin s (i, p) = Some (began, sz)
        \<and> (\<forall>c \<in> set (drop began (sr_log s)). \<not> related c (i, p)))"
proof -
  have inv: "size_inv s" by (rule size_reach_inv [OF assms(1)])
  obtain e where e: "((i, p), e) \<in> set (fc_entries (sr_cache s))" "cd_size e = sz"
    by (rule get_at_hit [OF assms(3)])
  have "entry_ok s ((i, p), e)" using inv assms(2) e(1) by (simp add: size_inv_def)
  then show ?thesis using inv e(2) by (auto simp: size_inv_def cache_ok_def entry_ok_def unchanged_since_def)
qed

text \<open>
  A concrete run: a walk of folder \<open>a\<close> is stored, a later walk of it is overtaken by a change of the
  sibling \<open>b\<close>, and the first result is still served.
\<close>

definition folder_a :: size_key where "folder_a = ([100], [[97]])"
definition folder_b :: size_key where "folder_b = ([100], [[98]])"

definition walk_at :: "nat \<Rightarrow> walk" where
  "walk_at g = \<lparr> wk_generation = g, wk_began = g, wk_key = folder_a \<rparr>"

definition example_run :: size_run where
  "example_run =
     finish_walk (walk_at 0) \<lparr> fsz_bytes = 9, fsz_complete = True \<rparr> 3
       (note_change folder_b
         (finish_walk (walk_at 0) \<lparr> fsz_bytes = 7, fsz_complete = True \<rparr> 2
           (begin_walk folder_a (size_start 5 1))))"

lemma example_run_reachable: "size_step\<^sup>*\<^sup>* (size_start 5 1) example_run"
proof -
  let ?s1 = "begin_walk folder_a (size_start 5 1)"
  let ?s2 = "finish_walk (walk_at 0) \<lparr> fsz_bytes = 7, fsz_complete = True \<rparr> 2 ?s1"
  let ?s3 = "note_change folder_b ?s2"
  have w: "walk_at 0 \<in> sr_walks ?s1"
    by (simp add: begin_walk_def size_start_def FolderSizeCache_new_def walk_at_def)
  have w': "walk_at 0 \<in> sr_walks ?s3" using w by (simp add: note_change_def finish_walk_def)
  show ?thesis unfolding example_run_def
    by (rule rtranclp.rtrancl_into_rtrancl [OF rtranclp.rtrancl_into_rtrancl
          [OF rtranclp.rtrancl_into_rtrancl [OF rtranclp.rtrancl_into_rtrancl [OF rtranclp.rtrancl_refl]]]])
      (rule start_walk end_walk [OF w] change end_walk [OF w'])+
qed

lemmas example_run_simps = example_run_def finish_walk_def note_change_def begin_walk_def walk_at_def
  size_start_def FolderSizeCache_new_def insert_at_def invalidate_def get_at_def put_key_def
  folder_a_def folder_b_def related_def path_starts_with_def fresh_def

theorem folder_size_fresh_witness:
  "fst (get_at [100] [[97]] 4 (sr_cache example_run)) = Some \<lparr> fsz_bytes = 7, fsz_complete = True \<rparr>
   \<and> (\<exists>began. sr_origin example_run ([100], [[97]]) = Some (began, \<lparr> fsz_bytes = 7, fsz_complete = True \<rparr>)
        \<and> (\<forall>c \<in> set (drop began (sr_log example_run)). \<not> related c ([100], [[97]])))"
proof -
  have l: "length (sr_log example_run) < 2 ^ 64" by (simp add: example_run_simps)
  have g: "fst (get_at [100] [[97]] 4 (sr_cache example_run)) = Some \<lparr> fsz_bytes = 7, fsz_complete = True \<rparr>"
    by (simp add: example_run_simps)
  show ?thesis using folder_size_fresh [OF example_run_reachable l g] g by blast
qed

end
