(* ===== verification/Crc.thy ===== *)
theory Crc
  imports Prelude
begin

unbundle bit_operations_syntax

text \<open>
  The CRC-32 of \<open>src/src/zip.rs\<close> (\<open>crc_tables\<close>, \<open>Crc32\<close>), which consumes eight bytes per
  step through eight tables, and its equivalence with the bit-at-a-time definition of the
  checksum (IEEE 802.3, reflected polynomial \<open>0xEDB88320\<close>).
\<close>

subsection \<open>The code\<close>

text \<open>The body of the inner loop of \<open>crc_tables\<close>: one bit.\<close>

definition crc_bit :: "u32 \<Rightarrow> u32" where
  "crc_bit crc = (if crc AND 1 = 0 then drop_bit 1 crc else 0xEDB88320 XOR drop_bit 1 crc)"

definition crc_table0 :: "u32 list" where
  "crc_table0 = map (\<lambda>index. (crc_bit ^^ 8) (of_nat index)) [0..<256]"

definition crc_next_table :: "u32 list \<Rightarrow> u32 list" where
  "crc_next_table previous =
     map (\<lambda>p. drop_bit 8 p XOR crc_table0 ! unat (p AND 0xFF)) previous"

definition CRC_TABLES :: "u32 list list" where
  "CRC_TABLES = map (\<lambda>table. (crc_next_table ^^ table) crc_table0) [0..<8]"

definition Crc32_new :: u32 where
  "Crc32_new = -1"

definition u32_from_le_bytes :: "u8 \<Rightarrow> u8 \<Rightarrow> u8 \<Rightarrow> u8 \<Rightarrow> u32" where
  "u32_from_le_bytes b0 b1 b2 b3 =
     ucast b0 OR push_bit 8 (ucast b1) OR push_bit 16 (ucast b2) OR push_bit 24 (ucast b3)"

definition crc_chunk :: "u32 \<Rightarrow> u32 \<Rightarrow> u32" where
  "crc_chunk low high =
     CRC_TABLES ! 7 ! unat (low AND 0xFF)
     XOR CRC_TABLES ! 6 ! unat (drop_bit 8 low AND 0xFF)
     XOR CRC_TABLES ! 5 ! unat (drop_bit 16 low AND 0xFF)
     XOR CRC_TABLES ! 4 ! unat (drop_bit 24 low)
     XOR CRC_TABLES ! 3 ! unat (high AND 0xFF)
     XOR CRC_TABLES ! 2 ! unat (drop_bit 8 high AND 0xFF)
     XOR CRC_TABLES ! 1 ! unat (drop_bit 16 high AND 0xFF)
     XOR CRC_TABLES ! 0 ! unat (drop_bit 24 high)"

definition crc_byte :: "u32 \<Rightarrow> u8 \<Rightarrow> u32" where
  "crc_byte crc byte =
     CRC_TABLES ! 0 ! unat ((crc XOR ucast byte) AND 0xFF) XOR drop_bit 8 crc"

fun Crc32_update :: "u32 \<Rightarrow> bytes \<Rightarrow> u32" where
  "Crc32_update crc (b0 # b1 # b2 # b3 # b4 # b5 # b6 # b7 # rest) =
     Crc32_update
       (crc_chunk (u32_from_le_bytes b0 b1 b2 b3 XOR crc) (u32_from_le_bytes b4 b5 b6 b7)) rest"
| "Crc32_update crc remainder = foldl crc_byte crc remainder"

definition Crc32_finish :: "u32 \<Rightarrow> u32" where
  "Crc32_finish crc = NOT crc"

subsection \<open>The reference definition\<close>

definition ref_byte :: "u32 \<Rightarrow> u8 \<Rightarrow> u32" where
  "ref_byte crc byte = (crc_bit ^^ 8) (crc XOR ucast byte)"

definition reference_crc :: "bytes \<Rightarrow> u32" where
  "reference_crc bs = NOT (foldl ref_byte (-1) bs)"

subsection \<open>The shift register is linear\<close>

abbreviation T8 :: "u32 \<Rightarrow> u32" where
  "T8 x \<equiv> (crc_bit ^^ 8) x"

abbreviation TB :: "nat \<Rightarrow> u32 \<Rightarrow> u32" where
  "TB n x \<equiv> ((\<lambda>y. T8 y) ^^ n) x"

lemma crc_bit_alt:
  "crc_bit x = drop_bit 1 x XOR (if bit x 0 then 0xEDB88320 else 0)"
  by (simp add: crc_bit_def and_one_eq bit_0 xor.commute odd_iff_mod_2_eq_one)

lemma crc_bit_xor: "crc_bit (x XOR y) = crc_bit x XOR crc_bit y"
  by (simp add: crc_bit_alt bit_xor_iff drop_bit_xor xor.assoc xor.left_commute)

lemma crc_bits_xor: "(crc_bit ^^ n) (x XOR y) = (crc_bit ^^ n) x XOR (crc_bit ^^ n) y"
  by (induction n) (simp_all add: crc_bit_xor)

lemma TB_xor: "TB n (x XOR y) = TB n x XOR TB n y"
  by (induction n) (simp_all add: crc_bits_xor)

lemma crc_bits_shift:
  "(\<And>i. i < n \<Longrightarrow> \<not> bit x i) \<Longrightarrow> (crc_bit ^^ n) x = drop_bit n x"
proof (induction n)
  case 0
  show ?case by simp
next
  case (Suc n)
  then have "(crc_bit ^^ Suc n) x = crc_bit (drop_bit n x)" by simp
  also have "\<dots> = drop_bit 1 (drop_bit n x)"
    using Suc.prems by (simp add: crc_bit_alt bit_drop_bit_eq)
  finally show ?case by (simp add: drop_bit_drop_bit)
qed

lemma T8_push: "take_bit 24 y = y \<Longrightarrow> T8 (push_bit 8 y) = y"
proof -
  assume y: "take_bit 24 y = y"
  have "T8 (push_bit 8 y) = drop_bit 8 (push_bit 8 y)"
    by (rule crc_bits_shift) (simp add: bit_push_bit_iff)
  also have "\<dots> = take_bit 24 y"
    by (rule bit_word_eqI) (auto simp: bit_simps)
  finally show ?thesis using y by simp
qed

lemma T8_split: "T8 x = T8 (take_bit 8 x) XOR drop_bit 8 x"
proof -
  have "x = take_bit 8 x XOR push_bit 8 (drop_bit 8 x)"
    by (rule bit_word_eqI) (auto simp: bit_simps)
  then have "T8 x = T8 (take_bit 8 x) XOR T8 (push_bit 8 (drop_bit 8 x))"
    by (metis crc_bits_xor)
  moreover have "take_bit 24 (drop_bit 8 x) = drop_bit 8 x"
    by (rule bit_word_eqI) (auto simp: bit_simps dest: bit_imp_le_length)
  ultimately show ?thesis by (simp add: T8_push)
qed

subsection \<open>The tables\<close>

lemma and_0xFF: "x AND 0xFF = take_bit 8 (x :: u32)"
  by (simp add: take_bit_eq_mask mask_eq_exp_minus_1)

lemma unat_take_bit_8: "unat (take_bit 8 (x :: u32)) < 256"
  using take_bit_nat_less_exp [of 8 "unat x"] unfolding unsigned_take_bit_eq by simp

lemma crc_table0_nth: "n < 256 \<Longrightarrow> crc_table0 ! n = T8 (of_nat n)"
  by (simp add: crc_table0_def)

lemma crc_tables_nth: "n < 256 \<Longrightarrow> (crc_next_table ^^ t) crc_table0 ! n = TB (Suc t) (of_nat n)"
proof (induction t)
  case 0
  then show ?case by (simp add: crc_table0_nth)
next
  case (Suc t)
  have len: "length ((crc_next_table ^^ k) crc_table0) = 256" for k
    by (induction k) (simp_all add: crc_next_table_def crc_table0_def)
  let ?p = "(crc_next_table ^^ t) crc_table0 ! n"
  have "(crc_next_table ^^ Suc t) crc_table0 ! n =
      drop_bit 8 ?p XOR crc_table0 ! unat (take_bit 8 ?p)"
    using Suc.prems len by (simp add: crc_next_table_def and_0xFF)
  also have "\<dots> = T8 ?p"
    using unat_take_bit_8 [of ?p] by (simp add: crc_table0_nth T8_split [of ?p] xor.commute)
  finally show ?case using Suc by simp
qed

lemma CRC_TABLES_nth:
  "t < 8 \<Longrightarrow> unat x < 256 \<Longrightarrow> CRC_TABLES ! t ! unat x = TB (Suc t) x"
  using crc_tables_nth [of "unat x" t] by (simp add: CRC_TABLES_def)

lemma unat_drop_24: "unat (drop_bit 24 (x :: u32)) < 256"
proof -
  have "unat x < 2 ^ LENGTH(32)" by (rule unsigned_less)
  then have "unat x div 2 ^ 24 < 256" by (simp add: less_mult_imp_div_less)
  then show ?thesis by (subst unat_drop_bit_eq) (simp add: drop_bit_eq_div)
qed

subsection \<open>Byte and chunk steps\<close>

lemma crc_byte_ref: "crc_byte = ref_byte"
proof (intro ext)
  fix crc :: u32 and b :: u8
  have "drop_bit 8 (crc XOR ucast b) = drop_bit 8 crc"
    by (rule bit_word_eqI) (auto simp: bit_simps dest: bit_imp_le_length)
  then show "crc_byte crc b = ref_byte crc b"
    using unat_take_bit_8 [of "crc XOR ucast b"]
    by (simp add: crc_byte_def ref_byte_def and_0xFF CRC_TABLES_nth T8_split [of "crc XOR ucast b"])
qed

lemma word32_split:
  "(x :: u32) = take_bit 8 x XOR push_bit 8 (take_bit 8 (drop_bit 8 x))
     XOR push_bit 16 (take_bit 8 (drop_bit 16 x)) XOR push_bit 24 (drop_bit 24 x)"
  by (rule bit_word_eqI) (auto simp: bit_simps)

lemma TB_Suc_push: "take_bit 24 y = y \<Longrightarrow> TB (Suc n) (push_bit 8 y) = TB n y"
  by (simp add: funpow_swap1 T8_push)

lemma TB_push:
  assumes "take_bit 8 y = y"
  shows "TB (Suc n) (push_bit 8 y) = TB n y"
    and "TB (Suc (Suc n)) (push_bit 16 y) = TB n y"
    and "TB (Suc (Suc (Suc n))) (push_bit 24 y) = TB n y"
proof -
  have a: "take_bit 24 y = y"
    using take_bit_take_bit [of 24 8 y] assms by simp
  have b: "take_bit 24 (push_bit 8 y) = push_bit 8 y" "take_bit 24 (push_bit 16 y) = push_bit 16 y"
    using assms take_bit_take_bit [of 16 8 y] by (simp_all add: take_bit_push_bit)
  have p: "push_bit 16 y = push_bit 8 (push_bit 8 y)" "push_bit 24 y = push_bit 8 (push_bit 16 y)"
    by (simp_all add: push_bit_push_bit)
  show 1: "TB (Suc n) (push_bit 8 y) = TB n y" for n
    using a by (rule TB_Suc_push)
  show 2: "TB (Suc (Suc n)) (push_bit 16 y) = TB n y" for n
    unfolding p(1) using b(1) 1 TB_Suc_push by metis
  show "TB (Suc (Suc (Suc n))) (push_bit 24 y) = TB n y"
    unfolding p(2) using b(2) 2 TB_Suc_push by metis
qed

lemma TB_split:
  "TB (Suc (Suc (Suc (Suc n)))) x =
     TB (Suc (Suc (Suc (Suc n)))) (take_bit 8 x)
     XOR TB (Suc (Suc (Suc n))) (take_bit 8 (drop_bit 8 x))
     XOR TB (Suc (Suc n)) (take_bit 8 (drop_bit 16 x))
     XOR TB (Suc n) (drop_bit 24 x)"
proof -
  have d: "take_bit 8 (drop_bit 24 x) = drop_bit 24 x"
    by (rule bit_word_eqI) (auto simp: bit_simps dest: bit_imp_le_length)
  have "TB m x = TB m (take_bit 8 x) XOR TB m (push_bit 8 (take_bit 8 (drop_bit 8 x)))
     XOR TB m (push_bit 16 (take_bit 8 (drop_bit 16 x))) XOR TB m (push_bit 24 (drop_bit 24 x))" for m
    by (subst word32_split [of x]) (simp only: TB_xor)
  from this [of "Suc (Suc (Suc (Suc n)))"] show ?thesis
    by (simp only: TB_push(1) [of "take_bit 8 (drop_bit 8 x)"]
        TB_push(2) [of "take_bit 8 (drop_bit 16 x)"] TB_push(3) [OF d] take_bit_take_bit min.idem)
qed

lemma Suc_chain:
  "Suc (Suc (Suc (Suc (Suc (Suc (Suc (Suc 0))))))) = 8" "Suc (Suc (Suc (Suc (Suc (Suc (Suc 0)))))) = 7"
  "Suc (Suc (Suc (Suc (Suc (Suc 0))))) = 6" "Suc (Suc (Suc (Suc (Suc 0)))) = 5"
  "Suc (Suc (Suc (Suc 0))) = 4" "Suc (Suc (Suc 0)) = 3"
  by simp_all

lemma crc_chunk_TB: "crc_chunk low high = TB 8 low XOR TB 4 high"
proof -
  note n = CRC_TABLES_nth and u = unat_take_bit_8 unat_drop_24
  have l: "TB 8 low = CRC_TABLES ! 7 ! unat (low AND 0xFF)
     XOR CRC_TABLES ! 6 ! unat (drop_bit 8 low AND 0xFF)
     XOR CRC_TABLES ! 5 ! unat (drop_bit 16 low AND 0xFF) XOR CRC_TABLES ! 4 ! unat (drop_bit 24 low)"
    using TB_split [of 4 low] by (simp add: n u and_0xFF)
  have h: "TB 4 high = CRC_TABLES ! 3 ! unat (high AND 0xFF)
     XOR CRC_TABLES ! 2 ! unat (drop_bit 8 high AND 0xFF)
     XOR CRC_TABLES ! 1 ! unat (drop_bit 16 high AND 0xFF) XOR CRC_TABLES ! 0 ! unat (drop_bit 24 high)"
    using TB_split [of 0 high, unfolded Suc_chain] by (simp add: n u and_0xFF)
  show ?thesis unfolding l h by (simp add: crc_chunk_def xor.assoc)
qed

lemma bytes_of_le:
  "take_bit 8 (u32_from_le_bytes b0 b1 b2 b3) = ucast b0"
  "take_bit 8 (drop_bit 8 (u32_from_le_bytes b0 b1 b2 b3)) = ucast b1"
  "take_bit 8 (drop_bit 16 (u32_from_le_bytes b0 b1 b2 b3)) = ucast b2"
  "drop_bit 24 (u32_from_le_bytes b0 b1 b2 b3) = ucast b3"
  by (rule bit_word_eqI, auto simp: u32_from_le_bytes_def bit_simps dest: bit_imp_le_length)+

lemma TB_le:
  "TB (Suc (Suc (Suc (Suc n)))) (u32_from_le_bytes b0 b1 b2 b3) =
     TB (Suc (Suc (Suc (Suc n)))) (ucast b0) XOR TB (Suc (Suc (Suc n))) (ucast b1)
     XOR TB (Suc (Suc n)) (ucast b2) XOR TB (Suc n) (ucast b3)"
  by (subst TB_split) (simp only: bytes_of_le)

lemma foldl_ref_byte:
  "foldl ref_byte crc bs = TB (length bs) crc XOR foldl ref_byte 0 bs"
proof (induction bs arbitrary: crc)
  case Nil
  show ?case by simp
next
  case (Cons b bs)
  have "foldl ref_byte crc (b # bs) = TB (length bs) (T8 (crc XOR ucast b)) XOR foldl ref_byte 0 bs"
    using Cons.IH [of "ref_byte crc b"] by (simp add: ref_byte_def [of _ b])
  moreover have "foldl ref_byte 0 (b # bs) = TB (length bs) (T8 (ucast b)) XOR foldl ref_byte 0 bs"
    using Cons.IH [of "ref_byte 0 b"] by (simp add: ref_byte_def [of _ b])
  ultimately show ?case
    by (simp add: crc_bits_xor TB_xor funpow_swap1 xor.assoc xor.left_commute)
qed

lemma foldl_ref_byte_Cons:
  "foldl ref_byte 0 (b # bs) = TB (Suc (length bs)) (ucast b) XOR foldl ref_byte 0 bs"
  using foldl_ref_byte [of "ref_byte 0 b" bs] by (simp add: ref_byte_def [of _ b] funpow_swap1)

lemma crc_chunk_ref:
  "crc_chunk (u32_from_le_bytes b0 b1 b2 b3 XOR crc) (u32_from_le_bytes b4 b5 b6 b7) =
   foldl ref_byte crc [b0, b1, b2, b3, b4, b5, b6, b7]"
proof -
  have "foldl ref_byte crc [b0, b1, b2, b3, b4, b5, b6, b7] = TB 8 crc XOR
      (TB 8 (ucast b0) XOR TB 7 (ucast b1) XOR TB 6 (ucast b2) XOR TB 5 (ucast b3)) XOR
      (TB 4 (ucast b4) XOR TB 3 (ucast b5) XOR TB 2 (ucast b6) XOR TB 1 (ucast b7))"
    by (subst foldl_ref_byte)
       (simp add: foldl_ref_byte_Cons Suc_chain numeral_2_eq_2 xor.assoc del: foldl.simps(2) funpow.simps)
  moreover have "TB 8 (u32_from_le_bytes b0 b1 b2 b3) =
      TB 8 (ucast b0) XOR TB 7 (ucast b1) XOR TB 6 (ucast b2) XOR TB 5 (ucast b3)"
    using TB_le [of 4] by simp
  moreover have "TB 4 (u32_from_le_bytes b4 b5 b6 b7) =
      TB 4 (ucast b4) XOR TB 3 (ucast b5) XOR TB 2 (ucast b6) XOR TB 1 (ucast b7)"
    using TB_le [of 0, unfolded Suc_chain] by (simp add: numeral_2_eq_2)
  ultimately show ?thesis
    by (simp add: crc_chunk_TB TB_xor xor.assoc xor.left_commute del: foldl.simps funpow.simps)
qed

lemma Crc32_update_ref: "Crc32_update crc bs = foldl ref_byte crc bs"
proof (induction crc bs rule: Crc32_update.induct)
  case (1 crc b0 b1 b2 b3 b4 b5 b6 b7 rest)
  then show ?case by (simp add: crc_chunk_ref)
qed (simp_all add: crc_byte_ref)

lemma Crc32_update_append: "Crc32_update crc (xs @ ys) = Crc32_update (Crc32_update crc xs) ys"
  by (simp add: Crc32_update_ref)

text \<open>
  C5: The eight-bytes-at-a-time checksum is the bitwise CRC-32: however the data is cut into
  the pieces handed to \<open>update\<close>, the finished value is that of the whole data.
\<close>

theorem crc32_pieces:
  "Crc32_finish (foldl Crc32_update Crc32_new pieces) = reference_crc (concat pieces)"
proof -
  have "foldl Crc32_update crc pieces = foldl ref_byte crc (concat pieces)" for crc
    by (induction pieces arbitrary: crc) (simp_all add: Crc32_update_ref)
  then show ?thesis by (simp add: Crc32_finish_def Crc32_new_def reference_crc_def)
qed

end
