(* ===== verification/Zip.thy ===== *)
theory Zip
  imports Crc
begin

unbundle bit_operations_syntax

text \<open>
  The archive layout of \<open>src/src/zip.rs\<close>: the plan of a ZIP archive computed from what is
  known before the files are read (\<open>ZipPlan::new\<close>), the records written for each entry, and
  the completion of the plan while entries stream. Byte counts are naturals bounded as the
  checked \<open>u64\<close> arithmetic of the source bounds them. The civil calendar (crate \<open>time\<close>) is a
  parameter.
\<close>

subsection \<open>Constants\<close>

definition LOCAL_HEADER_SIGNATURE :: nat where "LOCAL_HEADER_SIGNATURE = 0x04034b50"
definition DATA_DESCRIPTOR_SIGNATURE :: nat where "DATA_DESCRIPTOR_SIGNATURE = 0x08074b50"
definition CENTRAL_HEADER_SIGNATURE :: nat where "CENTRAL_HEADER_SIGNATURE = 0x02014b50"
definition ZIP64_END_SIGNATURE :: nat where "ZIP64_END_SIGNATURE = 0x06064b50"
definition ZIP64_LOCATOR_SIGNATURE :: nat where "ZIP64_LOCATOR_SIGNATURE = 0x07064b50"
definition END_SIGNATURE :: nat where "END_SIGNATURE = 0x06054b50"
definition FLAG_DATA_DESCRIPTOR :: nat where "FLAG_DATA_DESCRIPTOR = 8"
definition FLAG_UTF8 :: nat where "FLAG_UTF8 = 2048"
definition METHOD_STORED :: nat where "METHOD_STORED = 0"
definition METHOD_DEFLATED :: nat where "METHOD_DEFLATED = 8"
definition VERSION_DEFAULT :: nat where "VERSION_DEFAULT = 20"
definition VERSION_ZIP64 :: nat where "VERSION_ZIP64 = 45"
definition CREATOR_UNIX :: nat where "CREATOR_UNIX = 768"
definition EXTENDED_TIMESTAMP_ID :: nat where "EXTENDED_TIMESTAMP_ID = 0x5455"
definition EXTENDED_TIMESTAMP_LEN :: nat where "EXTENDED_TIMESTAMP_LEN = 9"
definition ZIP64_EXTRA_ID :: nat where "ZIP64_EXTRA_ID = 1"
definition LOCAL_HEADER_LEN :: nat where "LOCAL_HEADER_LEN = 30"
definition CENTRAL_HEADER_LEN :: nat where "CENTRAL_HEADER_LEN = 46"
definition DATA_DESCRIPTOR_LEN :: nat where "DATA_DESCRIPTOR_LEN = 16"
definition ZIP64_DATA_DESCRIPTOR_LEN :: nat where "ZIP64_DATA_DESCRIPTOR_LEN = 24"
definition END_LEN :: nat where "END_LEN = 22"
definition ZIP64_END_LEN :: nat where "ZIP64_END_LEN = 56"
definition ZIP64_LOCATOR_LEN :: nat where "ZIP64_LOCATOR_LEN = 20"
definition U32_SENTINEL :: nat where "U32_SENTINEL = 0xFFFFFFFF"
definition U16_SENTINEL :: nat where "U16_SENTINEL = 0xFFFF"
definition FILE_ATTRIBUTES :: nat where "FILE_ATTRIBUTES = 33188 * 65536"
definition DIRECTORY_ATTRIBUTES :: nat where "DIRECTORY_ATTRIBUTES = 16877 * 65536 + 16"
definition DOS_MIN :: "nat \<times> nat" where "DOS_MIN = (0, 33)"
definition DOS_MAX :: "nat \<times> nat" where "DOS_MAX = (0xBF7D, 0xFF9F)"
definition MIN_DEFLATE_BYTES :: nat where "MIN_DEFLATE_BYTES = 1024"

lemmas zip_lens = EXTENDED_TIMESTAMP_LEN_def LOCAL_HEADER_LEN_def CENTRAL_HEADER_LEN_def
  DATA_DESCRIPTOR_LEN_def ZIP64_DATA_DESCRIPTOR_LEN_def END_LEN_def ZIP64_END_LEN_def
  ZIP64_LOCATOR_LEN_def
lemmas zip_sentinels = U32_SENTINEL_def U16_SENTINEL_def

definition COMPRESSED_EXTENSIONS :: "str list" where
  "COMPRESSED_EXTENSIONS = map lit
     [''apng'', ''avif'', ''gif'', ''heic'', ''heics'', ''heif'', ''hif'', ''jfif'', ''jpe'',
      ''jpeg'', ''jpg'', ''jxl'', ''png'', ''svgz'', ''webp'', ''3fr'', ''arw'', ''cr2'', ''cr3'',
      ''crw'', ''dng'', ''erf'', ''kdc'', ''mrw'', ''nef'', ''nrw'', ''orf'', ''pef'', ''raf'',
      ''rw2'', ''sr2'', ''srf'', ''srw'', ''x3f'', ''3g2'', ''3gp'', ''avi'', ''flv'', ''m2ts'',
      ''m4v'', ''mkv'', ''mov'', ''mp4'', ''mpeg'', ''mpg'', ''mts'', ''ogv'', ''qt'', ''vob'',
      ''webm'', ''wmv'', ''aac'', ''flac'', ''m4a'', ''m4b'', ''mp3'', ''oga'', ''ogg'', ''opus'',
      ''wma'', ''aab'', ''apk'', ''docm'', ''docx'', ''ear'', ''epub'', ''ipa'', ''jar'', ''kmz'',
      ''nupkg'', ''odg'', ''odp'', ''ods'', ''odt'', ''pptm'', ''pptx'', ''vsix'', ''war'', ''whl'',
      ''xlsm'', ''xlsx'', ''xpi'', ''zip'', ''zipx'', ''7z'', ''br'', ''bz2'', ''cab'', ''deb'',
      ''dmg'', ''gz'', ''lz'', ''lz4'', ''lzma'', ''rar'', ''rpm'', ''tbz'', ''tbz2'', ''tgz'',
      ''txz'', ''tzst'', ''xz'', ''zst'', ''pdf'', ''woff'', ''woff2'']"

subsection \<open>Which files may be deflated\<close>

definition has_compressed_extension :: "str \<Rightarrow> bool" where
  "has_compressed_extension name =
     (let file = last (split_on 47 name) in
      case rsplit_once 46 file of
        None \<Rightarrow> False
      | Some (_, extension) \<Rightarrow>
          str_len extension \<le> 5 \<and> map to_ascii_lowercase extension \<in> set COMPRESSED_EXTENSIONS)"

definition may_deflate :: "str \<Rightarrow> nat \<Rightarrow> bool" where
  "may_deflate name sz \<longleftrightarrow> MIN_DEFLATE_BYTES \<le> sz \<and> \<not> has_compressed_extension name"

definition is_mostly_ascii :: "bytes \<Rightarrow> bool" where
  "is_mostly_ascii bs =
     (let printable = length (filter (\<lambda>b. (32 \<le> b \<and> b \<le> 126) \<or> b = 9 \<or> b = 10 \<or> b = 13) bs)
      in 0 \<notin> set bs \<and> length bs * 9 \<le> printable * 10)"

definition deflated_may_overflow :: "nat \<Rightarrow> bool" where
  "deflated_may_overflow sz \<longleftrightarrow>
     U32_SENTINEL \<le> saturating_add 64 (saturating_add 64 sz (sz div 8)) 1024"

subsection \<open>Times\<close>

definition as_secs :: "nat \<Rightarrow> nat" where "as_secs d = d div 1000000000"

record DateTime =
  year :: int
  month :: nat
  day :: nat
  hour :: nat
  minute :: nat
  second :: nat

definition dos_timestamp :: "(int \<Rightarrow> DateTime option) \<Rightarrow> SystemTime option \<Rightarrow> nat \<times> nat" where
  "dos_timestamp from_unix_timestamp modified =
     (case Option.bind modified duration_since_epoch of
        None \<Rightarrow> DOS_MIN
      | Some d \<Rightarrow>
          (let secs = (if int (as_secs d) \<le> i64_max then int (as_secs d) else i64_max) in
           case from_unix_timestamp secs of
             None \<Rightarrow> DOS_MAX
           | Some time \<Rightarrow>
               if year time < 1980 then DOS_MIN
               else if 2108 \<le> year time then DOS_MAX
               else ((hour time * 2048) OR (minute time * 32) OR (second time div 2),
                     (nat (year time - 1980) * 512) OR (month time * 32) OR day time)))"

definition unix_mtime :: "SystemTime option \<Rightarrow> nat option" where
  "unix_mtime modified =
     (case Option.bind modified duration_since_epoch of
        None \<Rightarrow> None
      | Some d \<Rightarrow> if as_secs d \<le> 2 ^ 31 - 1 then Some (as_secs d) else None)"

subsection \<open>Entries\<close>

record ZipSource =
  src_name :: str
  src_size :: "nat option"
  src_modified :: "SystemTime option"

datatype Method = Stored | Candidate | Deflated

datatype ArchiveCompression = Auto | Store

record ZipEntry =
  ze_name :: str
  ze_size :: "nat option"
  ze_method :: Method
  ze_dos_time :: nat
  ze_dos_date :: nat
  ze_mtime :: "nat option"
  ze_offset :: nat
  ze_crc :: u32
  ze_compressed :: nat

definition zip64_sizes :: "ZipEntry \<Rightarrow> bool" where
  "zip64_sizes e =
     (case ze_size e of
        None \<Rightarrow> False
      | Some sz \<Rightarrow> (case ze_method e of
                       Stored \<Rightarrow> U32_SENTINEL \<le> sz
                     | _ \<Rightarrow> deflated_may_overflow sz))"

definition zip64_offset :: "ZipEntry \<Rightarrow> bool" where
  "zip64_offset e \<longleftrightarrow> U32_SENTINEL \<le> ze_offset e"

definition ze_version :: "ZipEntry \<Rightarrow> nat" where
  "ze_version e = (if zip64_sizes e \<or> zip64_offset e then VERSION_ZIP64 else VERSION_DEFAULT)"

definition ze_flags :: "ZipEntry \<Rightarrow> nat" where
  "ze_flags e = (if ze_size e \<noteq> None then FLAG_UTF8 OR FLAG_DATA_DESCRIPTOR else FLAG_UTF8)"

definition method_code :: "ZipEntry \<Rightarrow> nat" where
  "method_code e = (if ze_method e = Deflated then METHOD_DEFLATED else METHOD_STORED)"

definition timestamp_extra_len :: "ZipEntry \<Rightarrow> nat" where
  "timestamp_extra_len e = (if ze_mtime e \<noteq> None then EXTENDED_TIMESTAMP_LEN else 0)"

definition local_extra_len :: "ZipEntry \<Rightarrow> nat" where
  "local_extra_len e = timestamp_extra_len e + (if zip64_sizes e then 20 else 0)"

definition central_zip64_fields :: "ZipEntry \<Rightarrow> nat" where
  "central_zip64_fields e = (if zip64_sizes e then 2 else 0) + (if zip64_offset e then 1 else 0)"

definition central_extra_len :: "ZipEntry \<Rightarrow> nat" where
  "central_extra_len e =
     (let fields = central_zip64_fields e; zip64 = (if fields = 0 then 0 else 4 + 8 * fields)
      in timestamp_extra_len e + zip64)"

definition local_len :: "ZipEntry \<Rightarrow> nat" where
  "local_len e = LOCAL_HEADER_LEN + str_len (ze_name e) + local_extra_len e"

definition descriptor_len :: "ZipEntry \<Rightarrow> nat" where
  "descriptor_len e =
     (case ze_size e of
        None \<Rightarrow> 0
      | Some _ \<Rightarrow> if zip64_sizes e then ZIP64_DATA_DESCRIPTOR_LEN else DATA_DESCRIPTOR_LEN)"

definition central_len :: "ZipEntry \<Rightarrow> nat" where
  "central_len e = CENTRAL_HEADER_LEN + str_len (ze_name e) + central_extra_len e"

subsection \<open>The plan\<close>

record ZipPlan =
  zp_entries :: "ZipEntry list"
  zp_variable :: bool
  zp_position :: nat
  zp_central_offset :: nat
  zp_central_len :: nat
  zp_len :: nat

definition needs_zip64_end :: "ZipPlan \<Rightarrow> bool" where
  "needs_zip64_end p \<longleftrightarrow>
     U16_SENTINEL \<le> length (zp_entries p)
     \<or> U32_SENTINEL \<le> zp_central_offset p \<or> U32_SENTINEL \<le> zp_central_len p"

definition end_len :: "ZipPlan \<Rightarrow> nat" where
  "end_len p = (if needs_zip64_end p then ZIP64_END_LEN + ZIP64_LOCATOR_LEN + END_LEN else END_LEN)"

definition plan_method :: "ArchiveCompression \<Rightarrow> str \<Rightarrow> nat option \<Rightarrow> Method" where
  "plan_method compression name sz =
     (case sz of
        Some n \<Rightarrow> if compression = Auto \<and> may_deflate name n then Candidate else Stored
      | None \<Rightarrow> Stored)"

definition plan_entry ::
  "(int \<Rightarrow> DateTime option) \<Rightarrow> ArchiveCompression \<Rightarrow> nat \<Rightarrow> ZipSource \<Rightarrow> ZipEntry option" where
  "plan_entry cal compression offset source =
     (let name = src_name source in
      if name = [] \<or> last name = 47 then None
      else
        let name = (if src_size source = None then name @ [47] else name) in
        if 65535 < str_len name then None
        else
          let (dos_time, dos_date) = dos_timestamp cal (src_modified source) in
          Some \<lparr> ze_name = name, ze_size = src_size source,
                 ze_method = plan_method compression name (src_size source),
                 ze_dos_time = dos_time, ze_dos_date = dos_date,
                 ze_mtime = unix_mtime (src_modified source), ze_offset = offset,
                 ze_crc = 0, ze_compressed = 0 \<rparr>)"

definition entry_end :: "nat \<Rightarrow> ZipEntry \<Rightarrow> nat option" where
  "entry_end offset e =
     Option.bind (checked_add64 offset (local_len e)) (\<lambda>a.
       Option.bind (checked_add64 a (case ze_size e of None \<Rightarrow> 0 | Some n \<Rightarrow> n)) (\<lambda>b.
         checked_add64 b (descriptor_len e)))"

fun plan_entries ::
  "(int \<Rightarrow> DateTime option) \<Rightarrow> ArchiveCompression \<Rightarrow> nat \<Rightarrow> ZipSource list \<Rightarrow>
   (ZipEntry list \<times> nat) option" where
  "plan_entries cal compression offset [] = Some ([], offset)"
| "plan_entries cal compression offset (source # sources) =
     (case plan_entry cal compression offset source of
        None \<Rightarrow> None
      | Some e \<Rightarrow>
          (case entry_end offset e of
             None \<Rightarrow> None
           | Some next \<Rightarrow>
               map_option (\<lambda>(es, end). (e # es, end)) (plan_entries cal compression next sources)))"

fun total_central_len :: "nat \<Rightarrow> ZipEntry list \<Rightarrow> nat option" where
  "total_central_len acc [] = Some acc"
| "total_central_len acc (e # es) =
     (case checked_add64 acc (central_len e) of
        None \<Rightarrow> None | Some t \<Rightarrow> total_central_len t es)"

definition ZipPlan_new ::
  "(int \<Rightarrow> DateTime option) \<Rightarrow> ZipSource list \<Rightarrow> ArchiveCompression \<Rightarrow> ZipPlan option" where
  "ZipPlan_new cal sources compression =
     (case plan_entries cal compression 0 sources of
        None \<Rightarrow> None
      | Some (entries, central_offset) \<Rightarrow>
          (case total_central_len 0 entries of
             None \<Rightarrow> None
           | Some clen \<Rightarrow>
               (let plan = \<lparr> zp_entries = entries,
                             zp_variable = list_ex (\<lambda>e. ze_method e = Candidate) entries,
                             zp_position = 0, zp_central_offset = central_offset,
                             zp_central_len = clen, zp_len = 0 \<rparr>
                in case Option.bind (checked_add64 central_offset clen)
                          (\<lambda>n. checked_add64 n (end_len plan)) of
                     None \<Rightarrow> None
                   | Some n \<Rightarrow> Some (plan\<lparr>zp_len := n\<rparr>))))"

definition fixed_len :: "ZipPlan \<Rightarrow> nat option" where
  "fixed_len p = (if zp_variable p then None else Some (zp_len p))"

subsection \<open>Records\<close>

definition put_timestamp_extra :: "nat option \<Rightarrow> bytes" where
  "put_timestamp_extra mtime =
     (case mtime of
        None \<Rightarrow> []
      | Some t \<Rightarrow> le_bytes 2 EXTENDED_TIMESTAMP_ID @ le_bytes 2 5 @ [1] @ le_bytes 4 t)"

definition local_header :: "ZipEntry \<Rightarrow> bytes" where
  "local_header e =
     (let size_field = (if zip64_sizes e then 0xFFFFFFFF else 0) in
      le_bytes 4 LOCAL_HEADER_SIGNATURE @ le_bytes 2 (ze_version e) @ le_bytes 2 (ze_flags e)
      @ le_bytes 2 (method_code e) @ le_bytes 2 (ze_dos_time e) @ le_bytes 2 (ze_dos_date e)
      @ le_bytes 4 0 @ le_bytes 4 size_field @ le_bytes 4 size_field
      @ le_bytes 2 (str_len (ze_name e)) @ le_bytes 2 (local_extra_len e)
      @ str_bytes (ze_name e) @ put_timestamp_extra (ze_mtime e)
      @ (if zip64_sizes e
         then le_bytes 2 ZIP64_EXTRA_ID @ le_bytes 2 16 @ le_bytes 8 0 @ le_bytes 8 0 else []))"

definition settle_method :: "bool \<Rightarrow> ZipEntry \<Rightarrow> ZipEntry" where
  "settle_method deflate e =
     (if ze_method e = Candidate then e\<lparr>ze_method := if deflate then Deflated else Stored\<rparr> else e)"

definition write_local_header :: "ZipPlan \<Rightarrow> nat \<Rightarrow> bool \<Rightarrow> ZipPlan \<times> bytes" where
  "write_local_header p index deflate =
     (let position = zp_position p;
          e = (settle_method deflate (zp_entries p ! index))\<lparr>ze_offset := position\<rparr>
      in (p\<lparr>zp_entries := (zp_entries p)[index := e],
            zp_position := saturating_add 64 position (local_len e)\<rparr>,
          local_header e))"

datatype zip_error = EntryChanged | LayoutError | NoProgress | ReadError

definition data_descriptor :: "ZipEntry \<Rightarrow> nat \<Rightarrow> bytes" where
  "data_descriptor e sz =
     le_bytes 4 DATA_DESCRIPTOR_SIGNATURE @ le_bytes 4 (unat (ze_crc e))
     @ (if zip64_sizes e then le_bytes 8 (ze_compressed e) @ le_bytes 8 sz
        else le_bytes 4 (ze_compressed e) @ le_bytes 4 sz)"

definition write_data_descriptor ::
  "ZipPlan \<Rightarrow> nat \<Rightarrow> u32 \<Rightarrow> nat \<Rightarrow> zip_error + (ZipPlan \<times> bytes)" where
  "write_data_descriptor p index crc compressed =
     (let e = zp_entries p ! index in
      case ze_size e of
        None \<Rightarrow> Ok (p, [])
      | Some sz \<Rightarrow>
          if (ze_method e \<noteq> Deflated \<and> compressed \<noteq> sz)
             \<or> (\<not> zip64_sizes e \<and> U32_SENTINEL \<le> compressed)
          then Err LayoutError
          else
            (let e = e\<lparr>ze_crc := crc, ze_compressed := compressed\<rparr> in
             case Option.bind (checked_add64 (zp_position p) compressed)
                    (\<lambda>position. checked_add64 position (descriptor_len e)) of
               None \<Rightarrow> Err LayoutError
             | Some position \<Rightarrow>
                 Ok (p\<lparr>zp_entries := (zp_entries p)[index := e], zp_position := position\<rparr>,
                     data_descriptor e sz)))"

definition finish_entries :: "ZipPlan \<Rightarrow> zip_error + ZipPlan" where
  "finish_entries p =
     (let central_offset = zp_position p in
      case total_central_len 0 (zp_entries p) of
        None \<Rightarrow> Err LayoutError
      | Some clen \<Rightarrow>
          (let planned = (zp_central_offset p, zp_central_len p);
               q = p\<lparr>zp_central_offset := central_offset, zp_central_len := clen\<rparr>
           in case Option.bind (checked_add64 central_offset clen)
                     (\<lambda>n. checked_add64 n (end_len q)) of
                None \<Rightarrow> Err LayoutError
              | Some n \<Rightarrow>
                  if \<not> zp_variable p \<and> ((central_offset, clen) \<noteq> planned \<or> n \<noteq> zp_len p)
                  then Err LayoutError
                  else Ok (q\<lparr>zp_len := n\<rparr>)))"

definition central_header :: "ZipEntry \<Rightarrow> bytes" where
  "central_header e =
     (let sz = (case ze_size e of None \<Rightarrow> 0 | Some n \<Rightarrow> n);
          (compressed_field, size_field) =
            (if zip64_sizes e then (0xFFFFFFFF, 0xFFFFFFFF) else (ze_compressed e, sz));
          offset_field = (if zip64_offset e then 0xFFFFFFFF else ze_offset e);
          fields = central_zip64_fields e
      in
      le_bytes 4 CENTRAL_HEADER_SIGNATURE @ le_bytes 2 (CREATOR_UNIX OR ze_version e)
      @ le_bytes 2 (ze_version e) @ le_bytes 2 (ze_flags e) @ le_bytes 2 (method_code e)
      @ le_bytes 2 (ze_dos_time e) @ le_bytes 2 (ze_dos_date e) @ le_bytes 4 (unat (ze_crc e))
      @ le_bytes 4 compressed_field @ le_bytes 4 size_field
      @ le_bytes 2 (str_len (ze_name e)) @ le_bytes 2 (central_extra_len e)
      @ le_bytes 2 0 @ le_bytes 2 0 @ le_bytes 2 0
      @ le_bytes 4 (if ze_size e \<noteq> None then FILE_ATTRIBUTES else DIRECTORY_ATTRIBUTES)
      @ le_bytes 4 offset_field @ str_bytes (ze_name e) @ put_timestamp_extra (ze_mtime e)
      @ (if fields \<noteq> 0
         then le_bytes 2 ZIP64_EXTRA_ID @ le_bytes 2 (8 * fields)
              @ (if zip64_sizes e then le_bytes 8 sz @ le_bytes 8 (ze_compressed e) else [])
              @ (if zip64_offset e then le_bytes 8 (ze_offset e) else [])
         else []))"

definition write_central_header :: "ZipPlan \<Rightarrow> nat \<Rightarrow> bytes" where
  "write_central_header p index = central_header (zp_entries p ! index)"

definition write_end :: "ZipPlan \<Rightarrow> bytes" where
  "write_end p =
     (let count = length (zp_entries p);
          count_field = min count U16_SENTINEL
      in
      (if needs_zip64_end p then
         le_bytes 4 ZIP64_END_SIGNATURE @ le_bytes 8 (ZIP64_END_LEN - 12)
         @ le_bytes 2 (CREATOR_UNIX OR VERSION_ZIP64) @ le_bytes 2 VERSION_ZIP64
         @ le_bytes 4 0 @ le_bytes 4 0 @ le_bytes 8 count @ le_bytes 8 count
         @ le_bytes 8 (zp_central_len p) @ le_bytes 8 (zp_central_offset p)
         @ le_bytes 4 ZIP64_LOCATOR_SIGNATURE @ le_bytes 4 0
         @ le_bytes 8 (zp_central_offset p + zp_central_len p) @ le_bytes 4 1
       else [])
      @ le_bytes 4 END_SIGNATURE @ le_bytes 2 0 @ le_bytes 2 0
      @ le_bytes 2 count_field @ le_bytes 2 count_field
      @ le_bytes 4 (min (zp_central_len p) U32_SENTINEL)
      @ le_bytes 4 (min (zp_central_offset p) U32_SENTINEL) @ le_bytes 2 0)"

subsection \<open>Writing a whole archive\<close>

text \<open>
  The order in which \<open>ArchiveStream::next_chunk\<close> (\<open>src/src/browse.rs\<close>) calls these
  operations, without its cutting of the output into chunks: for each entry the local
  header, the bytes its encoder produced and the data descriptor; then the central
  directory and the end records. An element of \<open>feeds\<close> is what the encoder of that entry
  yields: whether it deflates, the CRC, and the data.
\<close>

type_synonym feed = "bool \<times> u32 \<times> bytes"

fun write_entries :: "feed list \<Rightarrow> nat \<Rightarrow> ZipPlan \<Rightarrow> zip_error + (ZipPlan \<times> bytes)" where
  "write_entries [] i p = Ok (p, [])"
| "write_entries ((deflate, crc, data) # feeds) i p =
     (if ze_size (zp_entries p ! i) = None
      then (case write_local_header p i False of (p1, h) \<Rightarrow>
              and_then (write_entries feeds (Suc i) p1) (\<lambda>(p2, rest). Ok (p2, h @ rest)))
      else (case write_local_header p i deflate of (p1, h) \<Rightarrow>
              and_then (write_data_descriptor p1 i crc (length data)) (\<lambda>(p2, d).
                and_then (write_entries feeds (Suc i) p2) (\<lambda>(p3, rest).
                  Ok (p3, h @ data @ d @ rest)))))"

definition central_directory :: "ZipPlan \<Rightarrow> bytes" where
  "central_directory p = concat (map (write_central_header p) [0..<length (zp_entries p)])"

definition write_archive :: "feed list \<Rightarrow> ZipPlan \<Rightarrow> zip_error + (ZipPlan \<times> bytes)" where
  "write_archive feeds p =
     and_then (write_entries feeds 0 p) (\<lambda>(p1, body).
       and_then (finish_entries p1) (\<lambda>p2. Ok (p2, body @ central_directory p2 @ write_end p2)))"

subsection \<open>Record lengths\<close>

lemma length_str_bytes [simp]: "length (str_bytes s) = str_len s"
  by (simp add: str_bytes_def str_len_def)

lemma length_put_timestamp_extra:
  "length (put_timestamp_extra (ze_mtime e)) = timestamp_extra_len e"
  by (simp add: put_timestamp_extra_def timestamp_extra_len_def zip_lens split: option.split)

lemma length_local_header [simp]: "length (local_header e) = local_len e"
  by (simp add: local_header_def local_len_def local_extra_len_def length_put_timestamp_extra
      zip_lens Let_def)

lemma length_data_descriptor:
  "ze_size e = Some sz \<Longrightarrow> length (data_descriptor e n) = descriptor_len e"
  by (simp add: data_descriptor_def descriptor_len_def zip_lens)

lemma length_central_header [simp]: "length (central_header e) = central_len e"
  by (simp add: central_header_def central_len_def central_extra_len_def central_zip64_fields_def
      length_put_timestamp_extra zip_lens Let_def)

lemma length_write_end [simp]: "length (write_end p) = end_len p"
  by (simp add: write_end_def end_len_def zip_lens Let_def)

lemma total_central_len_Some:
  "total_central_len t es = Some n \<longleftrightarrow>
     n = t + sum_list (map central_len es) \<and> (es = [] \<or> n < 2 ^ 64)"
proof (induction es arbitrary: t)
  case Nil
  then show ?case by auto
next
  case (Cons e es)
  show ?case
  proof (cases "t + central_len e < 2 ^ 64")
    case True
    then have step: "total_central_len t (e # es) = total_central_len (t + central_len e) es"
      by (simp add: checked_add_def)
    show ?thesis unfolding step Cons.IH using True by (cases es) auto
  next
    case False
    then have "total_central_len t (e # es) = None" by (simp add: checked_add_def)
    with False show ?thesis by simp
  qed
qed

lemma length_central_directory:
  "length (central_directory p) = sum_list (map central_len (zp_entries p))"
proof -
  have "map (\<lambda>i. length (write_central_header p i)) [0..<length (zp_entries p)] =
        map central_len (zp_entries p)"
    by (rule nth_equalityI) (simp_all add: write_central_header_def)
  then show ?thesis by (simp add: central_directory_def length_concat comp_def)
qed

subsection \<open>Streaming entries keeps the plan exact\<close>

abbreviation u64_max :: nat where "u64_max \<equiv> 2 ^ 64 - 1"

lemma zip64_sizes_crc [simp]:
  "zip64_sizes (e\<lparr>ze_crc := c, ze_compressed := n\<rparr>) = zip64_sizes e"
  by (cases "ze_size e") (simp_all add: zip64_sizes_def)

lemma local_header_crc [simp]:
  "local_header (e\<lparr>ze_crc := c, ze_compressed := n\<rparr>) = local_header e"
  "local_len (e\<lparr>ze_crc := c, ze_compressed := n\<rparr>) = local_len e"
  "central_len (e\<lparr>ze_crc := c, ze_compressed := n\<rparr>) = central_len e"
  "descriptor_len (e\<lparr>ze_crc := c, ze_compressed := n\<rparr>) = descriptor_len e"
  by (simp_all add: local_header_def local_len_def local_extra_len_def timestamp_extra_len_def
      zip64_offset_def ze_version_def ze_flags_def method_code_def
      central_len_def central_extra_len_def central_zip64_fields_def descriptor_len_def)

text \<open>What one entry does to the plan: header, data and descriptor.\<close>

definition written_entry :: "ZipEntry \<Rightarrow> nat \<Rightarrow> feed \<Rightarrow> ZipEntry" where
  "written_entry e position fd =
     (case fd of (deflate, crc, data) \<Rightarrow>
        if ze_size e = None then (settle_method False e)\<lparr>ze_offset := position\<rparr>
        else (settle_method deflate e)
               \<lparr>ze_offset := position, ze_crc := crc, ze_compressed := length data\<rparr>)"

definition entry_bytes :: "ZipEntry \<Rightarrow> feed \<Rightarrow> bytes" where
  "entry_bytes e fd =
     (case ze_size e of
        None \<Rightarrow> local_header e
      | Some sz \<Rightarrow> local_header e @ snd (snd fd) @ data_descriptor e sz)"

lemma settle_method_simps [simp]:
  "ze_size (settle_method d e) = ze_size e" "ze_name (settle_method d e) = ze_name e"
  "ze_mtime (settle_method d e) = ze_mtime e" "ze_method (settle_method d e) \<noteq> Candidate"
  "ze_method e \<noteq> Candidate \<Longrightarrow> settle_method d e = e"
  by (simp_all add: settle_method_def)

lemma ze_size_written [simp]: "ze_size (written_entry e pos fd) = ze_size e"
  by (simp add: written_entry_def split: prod.split)

lemma ze_offset_written [simp]: "ze_offset (written_entry e pos fd) = pos"
  by (simp add: written_entry_def split: prod.split)

text \<open>One step of the entry loop, as a single rule.\<close>

lemma write_local_header_simps [simp]:
  "zp_variable (fst (write_local_header p i d)) = zp_variable p"
  "zp_central_offset (fst (write_local_header p i d)) = zp_central_offset p"
  "zp_central_len (fst (write_local_header p i d)) = zp_central_len p"
  "zp_len (fst (write_local_header p i d)) = zp_len p"
  by (simp_all add: write_local_header_def Let_def)

lemma write_local_header_eq:
  assumes "e = (settle_method d (zp_entries p ! i))\<lparr>ze_offset := zp_position p\<rparr>"
  shows "zp_entries (fst (write_local_header p i d)) = (zp_entries p)[i := e]"
    and "zp_position (fst (write_local_header p i d)) = min (zp_position p + local_len e) u64_max"
    and "snd (write_local_header p i d) = local_header e"
  using assms by (simp_all add: write_local_header_def saturating_add_def Let_def)

lemma write_data_descriptor_Ok:
  assumes "write_data_descriptor p i c n = Ok (q, ds)" "ze_size (zp_entries p ! i) = Some sz"
    and "e = (zp_entries p ! i)\<lparr>ze_crc := c, ze_compressed := n\<rparr>"
  shows "q = p\<lparr>zp_entries := (zp_entries p)[i := e], zp_position := zp_position p + n + descriptor_len e\<rparr>"
    and "zp_position p + n + descriptor_len e < 2 ^ 64" "ds = data_descriptor e sz"
    and "ze_method e \<noteq> Deflated \<Longrightarrow> n = sz" "zip64_sizes e \<or> n < U32_SENTINEL"
  using assms unfolding write_data_descriptor_def Let_def
  by (auto simp: bind_eq_Some_conv checked_add_def split: if_splits option.splits)

definition descriptor_ok :: "ZipEntry \<Rightarrow> bool" where
  "descriptor_ok e \<longleftrightarrow>
     (case ze_size e of
        None \<Rightarrow> True
      | Some sz \<Rightarrow> (ze_method e \<noteq> Deflated \<longrightarrow> ze_compressed e = sz)
                    \<and> (zip64_sizes e \<or> ze_compressed e < U32_SENTINEL) \<and> ze_compressed e < 2 ^ 64)"

lemma write_entries_step:
  assumes "write_entries (fd # feeds) i p = Ok (p', bs)" "i < length (zp_entries p)"
  obtains p1 rest e where
    "e = written_entry (zp_entries p ! i) (zp_position p) fd"
    "zp_entries p1 = (zp_entries p)[i := e]"
    "zp_variable p1 = zp_variable p" "zp_central_offset p1 = zp_central_offset p"
    "zp_central_len p1 = zp_central_len p" "zp_len p1 = zp_len p"
    "bs = entry_bytes e fd @ rest" "write_entries feeds (Suc i) p1 = Ok (p', rest)"
    "zp_position p1 = zp_position p + length (entry_bytes e fd) \<and> zp_position p1 < 2 ^ 64
     \<or> zp_position p1 = u64_max"
    "descriptor_ok e"
proof -
  obtain d c data where fd: "fd = (d, c, data)" by (cases fd)
  let ?e = "written_entry (zp_entries p ! i) (zp_position p) fd"
  show ?thesis
  proof (cases "ze_size (zp_entries p ! i)")
    case None
    let ?p1 = "fst (write_local_header p i False)"
    have e: "?e = (settle_method False (zp_entries p ! i))\<lparr>ze_offset := zp_position p\<rparr>"
      using None fd by (simp add: written_entry_def)
    note h = write_local_header_eq [OF e]
    have b: "entry_bytes ?e fd = local_header ?e" using None by (simp add: entry_bytes_def)
    from assms None fd obtain rest where
      r: "write_entries feeds (Suc i) ?p1 = Ok (p', rest)" "bs = entry_bytes ?e fd @ rest"
      unfolding b by (auto simp: split_beta h(3))
    from h(2) have "zp_position ?p1 = zp_position p + length (entry_bytes ?e fd) \<and>
        zp_position ?p1 < 2 ^ 64 \<or> zp_position ?p1 = u64_max"
      unfolding b length_local_header by linarith
    moreover have "descriptor_ok ?e" using None by (simp add: descriptor_ok_def)
    ultimately show ?thesis using that [OF refl h(1) _ _ _ _ r(2,1)] by simp
  next
    case (Some sz)
    let ?p0 = "fst (write_local_header p i d)"
    let ?settled = "(settle_method d (zp_entries p ! i))\<lparr>ze_offset := zp_position p\<rparr>"
    note h = write_local_header_eq [OF refl [of ?settled]]
    have n: "zp_entries ?p0 ! i = ?settled" using assms(2) h(1) by simp
    have e: "?e = (zp_entries ?p0 ! i)\<lparr>ze_crc := c, ze_compressed := length data\<rparr>"
      unfolding n using Some fd by (simp add: written_entry_def)
    have l: "local_header ?e = local_header ?settled" "local_len ?e = local_len ?settled"
      using e n by simp_all
    from assms(1) Some fd obtain p1 ds rest where
      w: "write_data_descriptor ?p0 i c (length data) = Ok (p1, ds)" and
      r: "write_entries feeds (Suc i) p1 = Ok (p', rest)" "bs = local_header ?settled @ data @ ds @ rest"
      by (auto simp: split_beta h(3))
    have sz: "ze_size (zp_entries ?p0 ! i) = Some sz" using n Some by simp
    note d = write_data_descriptor_Ok [OF w sz e]
    have ent: "zp_entries p1 = (zp_entries p)[i := ?e]" using d(1) h(1) by simp
    have b: "entry_bytes ?e fd = local_header ?e @ data @ data_descriptor ?e sz"
      using Some fd by (simp add: entry_bytes_def)
    have len: "length (entry_bytes ?e fd) = local_len ?e + length data + descriptor_len ?e"
      unfolding b using Some by (simp add: length_data_descriptor [where sz = sz])
    have bs: "bs = entry_bytes ?e fd @ rest" unfolding b l(1) using r(2) d(3) by simp
    have "zp_position p1 = zp_position ?p0 + length data + descriptor_len ?e"
      "zp_position p1 < 2 ^ 64" using d(1,2) by simp_all
    with h(2) l(2) len have "zp_position p1 = zp_position p + length (entry_bytes ?e fd) \<and>
        zp_position p1 < 2 ^ 64 \<or> zp_position p1 = u64_max" by linarith
    moreover have "descriptor_ok ?e"
      using sz d(2,4,5) e by (simp add: descriptor_ok_def)
    ultimately show ?thesis using d(1) that [OF refl ent _ _ _ _ bs r(1)] by simp
  qed
qed


lemma entry_bytes_pos: "0 < length (entry_bytes e fd)"
  by (cases "ze_size e") (simp_all add: entry_bytes_def local_len_def zip_lens)

lemma write_entries_saturated:
  "\<lbrakk>write_entries feeds i p = Ok (p', bs); i + length feeds = length (zp_entries p);
    zp_position p = u64_max\<rbrakk> \<Longrightarrow> zp_position p' = u64_max"
proof (induction feeds arbitrary: i p bs)
  case Nil
  then show ?case by simp
next
  case (Cons fd feeds)
  from Cons.prems(2) have i: "i < length (zp_entries p)" by simp
  obtain p1 rest e where s:
    "e = written_entry (zp_entries p ! i) (zp_position p) fd"
    "zp_entries p1 = (zp_entries p)[i := e]"
    "zp_variable p1 = zp_variable p" "zp_central_offset p1 = zp_central_offset p"
    "zp_central_len p1 = zp_central_len p" "zp_len p1 = zp_len p"
    "bs = entry_bytes e fd @ rest" "write_entries feeds (Suc i) p1 = Ok (p', rest)"
    "zp_position p1 = zp_position p + length (entry_bytes e fd) \<and> zp_position p1 < 2 ^ 64
     \<or> zp_position p1 = u64_max"
    "descriptor_ok e"
    by (rule write_entries_step [OF Cons.prems(1) i])
  from s(9) Cons.prems(3) entry_bytes_pos [of e fd] have "zp_position p1 = u64_max" by linarith
  with Cons.IH [OF s(8)] s(2) Cons.prems(2) show ?case by simp
qed

text \<open>Where the bytes of each entry are, once the entry loop has run.\<close>

definition laid_out :: "nat \<Rightarrow> bytes \<Rightarrow> ZipEntry \<Rightarrow> feed \<Rightarrow> bool" where
  "laid_out base bs e fd \<longleftrightarrow>
     base \<le> ze_offset e \<and> ze_offset e - base + length (entry_bytes e fd) \<le> length bs
     \<and> take (length (entry_bytes e fd)) (drop (ze_offset e - base) bs) = entry_bytes e fd"

lemma laid_out_here: "ze_offset e = base \<Longrightarrow> laid_out base (entry_bytes e fd @ rest) e fd"
  by (simp add: laid_out_def)

lemma laid_out_later:
  assumes "laid_out (base + length xs) bs e fd" shows "laid_out base (xs @ bs) e fd"
  using assms by (auto simp: laid_out_def)

lemma laid_out_append:
  assumes "laid_out base bs e fd" shows "laid_out base (bs @ rest) e fd"
  using assms by (auto simp: laid_out_def)

lemma write_entries_keeps:
  "\<lbrakk>write_entries feeds i p = Ok (p', bs); i + length feeds = length (zp_entries p)\<rbrakk> \<Longrightarrow>
   length (zp_entries p') = length (zp_entries p)
   \<and> zp_variable p' = zp_variable p \<and> zp_central_offset p' = zp_central_offset p
   \<and> zp_central_len p' = zp_central_len p \<and> zp_len p' = zp_len p
   \<and> (\<forall>k < i. zp_entries p' ! k = zp_entries p ! k)"
proof (induction feeds arbitrary: i p bs)
  case Nil
  then show ?case by simp
next
  case (Cons fd feeds)
  from Cons.prems(2) have i: "i < length (zp_entries p)" by simp
  obtain p1 rest e where s:
    "e = written_entry (zp_entries p ! i) (zp_position p) fd"
    "zp_entries p1 = (zp_entries p)[i := e]"
    "zp_variable p1 = zp_variable p" "zp_central_offset p1 = zp_central_offset p"
    "zp_central_len p1 = zp_central_len p" "zp_len p1 = zp_len p"
    "bs = entry_bytes e fd @ rest" "write_entries feeds (Suc i) p1 = Ok (p', rest)"
    "zp_position p1 = zp_position p + length (entry_bytes e fd) \<and> zp_position p1 < 2 ^ 64
     \<or> zp_position p1 = u64_max"
    "descriptor_ok e"
    by (rule write_entries_step [OF Cons.prems(1) i])
  from Cons.IH [OF s(8)] Cons.prems(2) s(2-6) show ?case by simp
qed

lemma write_entries_layout:
  "\<lbrakk>write_entries feeds i p = Ok (p', bs); i + length feeds = length (zp_entries p);
    zp_position p' \<noteq> u64_max; k < length feeds\<rbrakk> \<Longrightarrow>
   zp_position p' = zp_position p + length bs
   \<and> laid_out (zp_position p) bs (zp_entries p' ! (i + k)) (feeds ! k)"
proof (induction feeds arbitrary: i p bs k)
  case Nil
  then show ?case by simp
next
  case (Cons fd feeds)
  from Cons.prems(2) have i: "i < length (zp_entries p)" by simp
  obtain p1 rest e where s:
    "e = written_entry (zp_entries p ! i) (zp_position p) fd"
    "zp_entries p1 = (zp_entries p)[i := e]"
    "zp_variable p1 = zp_variable p" "zp_central_offset p1 = zp_central_offset p"
    "zp_central_len p1 = zp_central_len p" "zp_len p1 = zp_len p"
    "bs = entry_bytes e fd @ rest" "write_entries feeds (Suc i) p1 = Ok (p', rest)"
    "zp_position p1 = zp_position p + length (entry_bytes e fd) \<and> zp_position p1 < 2 ^ 64
     \<or> zp_position p1 = u64_max"
    "descriptor_ok e"
    by (rule write_entries_step [OF Cons.prems(1) i])
  have n: "Suc i + length feeds = length (zp_entries p1)" using Cons.prems(2) s(2) by simp
  have "zp_position p1 \<noteq> u64_max" using write_entries_saturated [OF s(8) n] Cons.prems(3) by blast
  with s(9) have pos: "zp_position p1 = zp_position p + length (entry_bytes e fd)" by blast
  note IH = Cons.IH [OF s(8) n Cons.prems(3)]
  have len: "zp_position p' = zp_position p + length bs"
  proof (cases feeds)
    case Nil
    with s(8) have "p' = p1" "rest = []" by simp_all
    with pos s(7) show ?thesis by simp
  next
    case (Cons g gs)
    then have "zp_position p' = zp_position p1 + length rest" using IH [of 0] by simp
    with pos s(7) show ?thesis by simp
  qed
  have "laid_out (zp_position p) bs (zp_entries p' ! (i + k)) ((fd # feeds) ! k)"
  proof (cases k)
    case 0
    have "zp_entries p' ! i = e" using write_entries_keeps [OF s(8) n] s(2) i by simp
    moreover have "ze_offset e = zp_position p" using s(1) by simp
    ultimately show ?thesis using 0 s(7) laid_out_here by simp
  next
    case (Suc j)
    then have "laid_out (zp_position p1) rest (zp_entries p' ! (Suc i + j)) (feeds ! j)"
      using IH [of j] Cons.prems(4) by simp
    with pos s(7) Suc show ?thesis using laid_out_later by simp
  qed
  with len show ?case by simp
qed

lemma finish_entries_Ok:
  assumes "finish_entries p = Ok q"
  obtains "zp_entries q = zp_entries p" "zp_position q = zp_position p"
    "zp_central_offset q = zp_position p"
    "zp_central_len q = sum_list (map central_len (zp_entries p))"
    "zp_len q = zp_position p + zp_central_len q + end_len q" "zp_len q < 2 ^ 64"
    "zp_variable p \<or> zp_len q = zp_len p"
proof -
  from assms obtain clen n where
    c: "total_central_len 0 (zp_entries p) = Some clen" and
    n: "n = zp_position p + clen
          + end_len (p\<lparr>zp_central_offset := zp_position p, zp_central_len := clen\<rparr>)" "n < 2 ^ 64" and
    q: "q = p\<lparr>zp_central_offset := zp_position p, zp_central_len := clen, zp_len := n\<rparr>" and
    v: "zp_variable p \<or> n = zp_len p"
    unfolding finish_entries_def Let_def
    by (auto simp: checked_add_def bind_eq_Some_conv split: if_splits option.splits)
  have e: "end_len q = end_len (p\<lparr>zp_central_offset := zp_position p, zp_central_len := clen\<rparr>)"
    unfolding q by (simp add: end_len_def needs_zip64_end_def)
  from c have "clen = sum_list (map central_len (zp_entries p))"
    by (simp add: total_central_len_Some)
  with n q v e show ?thesis using that by simp
qed

subsection \<open>A fixed plan streams to exactly its length\<close>

definition feed_matches :: "ZipEntry \<Rightarrow> feed \<Rightarrow> bool" where
  "feed_matches e fd \<longleftrightarrow>
     (case ze_size e of None \<Rightarrow> True | Some sz \<Rightarrow> length (snd (snd fd)) = sz)"

lemma plan_entry_Some:
  assumes "plan_entry cal compression offset source = Some e"
  shows "ze_offset e = offset" "ze_size e = src_size source" "str_len (ze_name e) \<le> 65535"
    "ze_compressed e = 0" "ze_method e \<noteq> Deflated"
  using assms
  by (auto simp: plan_entry_def plan_method_def Let_def split: if_splits prod.splits option.splits)

lemma entry_end_Some:
  "entry_end offset e = Some n \<longleftrightarrow>
     n = offset + local_len e + (case ze_size e of None \<Rightarrow> 0 | Some k \<Rightarrow> k) + descriptor_len e
     \<and> n < 2 ^ 64"
  by (cases "ze_size e") (auto simp: entry_end_def bind_eq_Some_conv checked_add_def)

lemma settled_header:
  assumes "i < length (zp_entries p)" "e = zp_entries p ! i" "ze_method e \<noteq> Candidate"
    "ze_offset e = zp_position p" "zp_position p + local_len e < 2 ^ 64"
  shows "write_local_header p i d =
    (p\<lparr>zp_position := zp_position p + local_len e\<rparr>, local_header e)"
proof -
  have e: "(settle_method d e)\<lparr>ze_offset := zp_position p\<rparr> = e"
    using assms(3,4) by (cases e) simp
  have "(zp_entries p)[i := e] = zp_entries p" using assms(1,2) by simp
  with e assms(2,5) show ?thesis
    by (cases p) (simp add: write_local_header_def saturating_add_def Let_def)
qed

lemma write_entries_fixed:
  assumes "plan_entries cal compression offset sources = Some (es, end)"
    "\<forall>e \<in> set es. ze_method e = Stored" "list_all2 feed_matches es feeds"
    "zp_entries p = pre @ es" "zp_position p = offset"
  shows "\<exists>p' bs. write_entries feeds (length pre) p = Ok (p', bs) \<and> zp_position p' = end
           \<and> map central_len (zp_entries p') = map central_len (zp_entries p)
           \<and> length (zp_entries p') = length (zp_entries p)
           \<and> zp_variable p' = zp_variable p \<and> zp_central_offset p' = zp_central_offset p
           \<and> zp_central_len p' = zp_central_len p \<and> zp_len p' = zp_len p"
  using assms
proof (induction sources arbitrary: offset es feeds p pre)
  case Nil
  then show ?case by auto
next
  case (Cons source sources)
  from Cons.prems(1) obtain e nxt es' where
    e: "plan_entry cal compression offset source = Some e" and
    n: "entry_end offset e = Some nxt" and
    r: "plan_entries cal compression nxt sources = Some (es', end)" and es: "es = e # es'"
    by (auto split: option.splits)
  from Cons.prems(3) es obtain fd feeds' where
    f: "feeds = fd # feeds'" "feed_matches e fd" "list_all2 feed_matches es' feeds'"
    by (auto simp: list_all2_Cons1)
  obtain d c data where fd: "fd = (d, c, data)" by (cases fd)
  note pe = plan_entry_Some [OF e]
  have m: "ze_method e = Stored" and st: "\<forall>e \<in> set es'. ze_method e = Stored"
    using Cons.prems(2) es by simp_all
  let ?i = "length pre"
  have i: "?i < length (zp_entries p)" "zp_entries p ! ?i = e" using Cons.prems(4) es by simp_all
  have bound: "zp_position p + local_len e < 2 ^ 64"
    using n Cons.prems(5) by (simp add: entry_end_Some)
  have h: "write_local_header p ?i k = (p\<lparr>zp_position := zp_position p + local_len e\<rparr>, local_header e)"
    for k using settled_header [OF i(1) i(2)[symmetric]] m pe(1) Cons.prems(5) bound by simp
  show ?case
  proof (cases "ze_size e")
    case None
    have "zp_position p + local_len e = nxt"
      using n None Cons.prems(5) by (simp add: entry_end_Some descriptor_len_def)
    moreover have "zp_entries p = (pre @ [e]) @ es'" using Cons.prems(4) es by simp
    ultimately show ?thesis
      using Cons.IH [OF r st f(3), of "p\<lparr>zp_position := nxt\<rparr>" "pre @ [e]"] h None i f(1) fd
      by (auto simp: split_beta)
  next
    case (Some sz)
    let ?e = "e\<lparr>ze_crc := c, ze_compressed := sz\<rparr>"
    let ?p = "p\<lparr>zp_entries := (pre @ [?e]) @ es', zp_position := nxt\<rparr>"
    have len: "length data = sz" using f(2) fd Some by (simp add: feed_matches_def)
    have nx: "nxt = zp_position p + local_len e + sz + descriptor_len e" "nxt < 2 ^ 64"
      using n Some Cons.prems(5) by (simp_all add: entry_end_Some)
    have z: "\<not> (\<not> zip64_sizes e \<and> U32_SENTINEL \<le> sz)" using Some m by (simp add: zip64_sizes_def)
    have w: "write_data_descriptor (p\<lparr>zp_position := zp_position p + local_len e\<rparr>) ?i c sz =
        Ok (?p, data_descriptor ?e sz)"
      using nx z i Some m Cons.prems(4) es
      by (cases p) (auto simp: write_data_descriptor_def Let_def checked_add_def)
    obtain p' bs where IH: "write_entries feeds' (length (pre @ [?e])) ?p = Ok (p', bs)"
      "zp_position p' = end" "map central_len (zp_entries p') = map central_len (zp_entries ?p)"
      "length (zp_entries p') = length (zp_entries ?p)"
      "zp_variable p' = zp_variable ?p \<and> zp_central_offset p' = zp_central_offset ?p
       \<and> zp_central_len p' = zp_central_len ?p \<and> zp_len p' = zp_len ?p"
      using Cons.IH [OF r st f(3), of ?p "pre @ [?e]"] by auto
    have "write_entries feeds ?i p = Ok (p', local_header e @ data @ data_descriptor ?e sz @ bs)"
      using f(1) fd Some i h w len IH(1) by simp
    with IH(2-5) Cons.prems(4) es show ?thesis by auto
  qed
qed

lemma ZipPlan_new_Some:
  assumes "ZipPlan_new cal sources compression = Some p"
  obtains "plan_entries cal compression 0 sources = Some (zp_entries p, zp_central_offset p)"
    "zp_variable p \<longleftrightarrow> (\<exists>e \<in> set (zp_entries p). ze_method e = Candidate)" "zp_position p = 0"
    "total_central_len 0 (zp_entries p) = Some (zp_central_len p)"
    "zp_len p = zp_central_offset p + zp_central_len p + end_len p" "zp_len p < 2 ^ 64"
  using assms unfolding ZipPlan_new_def Let_def
  by (auto simp: bind_eq_Some_conv checked_add_def list_ex_iff end_len_def needs_zip64_end_def
      split: option.splits if_split_asm)

lemma plan_entries_not_deflated:
  "plan_entries cal compression offset sources = Some (es, end) \<Longrightarrow>
   \<forall>e \<in> set es. ze_method e \<noteq> Deflated"
  by (induction sources arbitrary: offset es)
    (auto split: option.splits dest: plan_entry_Some(5))

lemma write_archive_Ok:
  assumes "write_archive feeds p = Ok (q, out)" "length feeds = length (zp_entries p)"
    "zp_position p = 0"
  obtains p1 body where "write_entries feeds 0 p = Ok (p1, body)" "finish_entries p1 = Ok q"
    "out = body @ central_directory q @ write_end q"
    "zp_position p1 = length body" "zp_entries q = zp_entries p1"
    "zp_central_offset q = length body" "zp_central_len q = length (central_directory q)"
    "zp_len q = length out" "zp_variable p1 = zp_variable p" "zp_len p1 = zp_len p"
proof -
  from assms(1) obtain p1 body where
    w: "write_entries feeds 0 p = Ok (p1, body)" and f: "finish_entries p1 = Ok q" and
    o: "out = body @ central_directory q @ write_end q"
    by (auto simp: write_archive_def)
  have n: "0 + length feeds = length (zp_entries p)" using assms(2) by simp
  from f obtain "zp_entries q = zp_entries p1" "zp_position q = zp_position p1"
    "zp_central_offset q = zp_position p1"
    "zp_central_len q = sum_list (map central_len (zp_entries p1))"
    "zp_len q = zp_position p1 + zp_central_len q + end_len q" "zp_len q < 2 ^ 64"
    "zp_variable p1 \<or> zp_len q = zp_len p1"
    by (rule finish_entries_Ok)
  note q = this
  have "22 \<le> end_len q" by (simp add: end_len_def zip_lens)
  with q(5,6) have u: "zp_position p1 \<noteq> u64_max" by linarith
  have "zp_position p1 = length body"
  proof (cases feeds)
    case Nil
    with w assms(3) show ?thesis by simp
  next
    case (Cons fd fds)
    then show ?thesis using write_entries_layout [OF w n u, of 0] assms(3) by simp
  qed
  with that [OF w f o] q o write_entries_keeps [OF w n] show ?thesis
    by (simp add: length_central_directory)
qed

text \<open>Each written entry is its planned one, completed.\<close>

lemma write_entries_written:
  "\<lbrakk>write_entries feeds i p = Ok (p', bs); i + length feeds = length (zp_entries p);
    k < length feeds\<rbrakk> \<Longrightarrow>
   \<exists>pos. zp_entries p' ! (i + k) = written_entry (zp_entries p ! (i + k)) pos (feeds ! k)
     \<and> descriptor_ok (zp_entries p' ! (i + k))"
proof (induction feeds arbitrary: i p bs k)
  case Nil
  then show ?case by simp
next
  case (Cons fd feeds)
  from Cons.prems(2) have i: "i < length (zp_entries p)" by simp
  obtain p1 rest e where s:
    "e = written_entry (zp_entries p ! i) (zp_position p) fd"
    "zp_entries p1 = (zp_entries p)[i := e]"
    "zp_variable p1 = zp_variable p" "zp_central_offset p1 = zp_central_offset p"
    "zp_central_len p1 = zp_central_len p" "zp_len p1 = zp_len p"
    "bs = entry_bytes e fd @ rest" "write_entries feeds (Suc i) p1 = Ok (p', rest)"
    "zp_position p1 = zp_position p + length (entry_bytes e fd) \<and> zp_position p1 < 2 ^ 64
     \<or> zp_position p1 = u64_max"
    "descriptor_ok e"
    by (rule write_entries_step [OF Cons.prems(1) i])
  have n: "Suc i + length feeds = length (zp_entries p1)" using Cons.prems(2) s(2) by simp
  show ?case
  proof (cases k)
    case 0
    have "zp_entries p' ! i = e" using write_entries_keeps [OF s(8) n] s(2) i by simp
    with 0 s(1,10) show ?thesis by auto
  next
    case (Suc j)
    then have "zp_entries p1 ! (Suc i + j) = zp_entries p ! (i + k)" using s(2) by simp
    with Cons.IH [OF s(8) n, of j] Cons.prems(3) Suc show ?thesis by simp
  qed
qed

lemma plan_entries_nth:
  "\<lbrakk>plan_entries cal compression offset sources = Some (es, end); k < length sources\<rbrakk> \<Longrightarrow>
   length es = length sources
   \<and> (\<exists>off n. plan_entry cal compression off (sources ! k) = Some (es ! k) \<and> entry_end off (es ! k) = Some n)"
proof (induction sources arbitrary: offset es k)
  case Nil
  then show ?case by simp
next
  case (Cons source sources)
  then obtain e nxt es' where
    e: "plan_entry cal compression offset source = Some e" "entry_end offset e = Some nxt"
    "plan_entries cal compression nxt sources = Some (es', end)" "es = e # es'"
    by (auto split: option.splits)
  show ?case
  proof (cases k)
    case 0
    have "length es' = length sources"
      using Cons.IH [OF e(3), of 0] e(3) by (cases sources) auto
    with 0 e show ?thesis by auto
  next
    case (Suc j)
    with Cons.IH [OF e(3), of j] Cons.prems(2) e(4) show ?thesis by simp
  qed
qed

subsection \<open>Properties\<close>

text \<open>
  A written archive has the layout its directory claims. Whenever streaming a plan succeeds,
  the number of bytes sent is the length the finished plan records; at the recorded offset of
  every entry stand its local header, its data and its descriptor; and at the recorded
  central directory offset stand the central directory, of the recorded length, and the end
  records.
\<close>

theorem archive_layout_exact:
  assumes "write_archive feeds p = Ok (q, out)" "length feeds = length (zp_entries p)"
    "zp_position p = 0"
  shows "length out = zp_len q
    \<and> drop (zp_central_offset q) out = central_directory q @ write_end q
    \<and> length (central_directory q) = zp_central_len q
    \<and> (\<forall>k < length feeds.
          let e = zp_entries q ! k; data = entry_bytes e (feeds ! k) in
          ze_offset e + length data \<le> zp_central_offset q
          \<and> take (length data) (drop (ze_offset e) out) = data)"
proof -
  obtain p1 body where o: "write_entries feeds 0 p = Ok (p1, body)" "finish_entries p1 = Ok q"
    "out = body @ central_directory q @ write_end q"
    "zp_position p1 = length body" "zp_entries q = zp_entries p1"
    "zp_central_offset q = length body" "zp_central_len q = length (central_directory q)"
    "zp_len q = length out" "zp_variable p1 = zp_variable p" "zp_len p1 = zp_len p"
    by (rule write_archive_Ok [OF assms])
  have n: "0 + length feeds = length (zp_entries p)" using assms(2) by simp
  from o(2) obtain "zp_len q = zp_position p1 + zp_central_len q + end_len q" "zp_len q < 2 ^ 64"
    by (rule finish_entries_Ok)
  moreover have "22 \<le> end_len q" by (simp add: end_len_def zip_lens)
  ultimately have "zp_position p1 \<noteq> u64_max" by linarith
  then have l: "laid_out 0 body (zp_entries q ! k) (feeds ! k)" if "k < length feeds" for k
    using write_entries_layout [OF o(1) n _ that] assms(3) o(5) by simp
  then have "laid_out 0 out (zp_entries q ! k) (feeds ! k)" if "k < length feeds" for k
    unfolding o(3) using that by (intro laid_out_append) simp
  with l show ?thesis using o(3,6-8) by (simp add: laid_out_def Let_def)
qed

definition sample_plan :: ZipPlan where
  "sample_plan =
     \<lparr> zp_entries =
         [\<lparr> ze_name = [100, 47], ze_size = None, ze_method = Stored, ze_dos_time = 0,
            ze_dos_date = 33, ze_mtime = None, ze_offset = 0, ze_crc = 0, ze_compressed = 0 \<rparr>,
          \<lparr> ze_name = [97], ze_size = Some 2, ze_method = Stored, ze_dos_time = 0,
            ze_dos_date = 33, ze_mtime = None, ze_offset = 32, ze_crc = 0, ze_compressed = 0 \<rparr>],
       zp_variable = False, zp_position = 0, zp_central_offset = 81, zp_central_len = 95,
       zp_len = 198 \<rparr>"

definition sample_sources :: "ZipSource list" where
  "sample_sources = [\<lparr>src_name = [100], src_size = None, src_modified = None\<rparr>,
     \<lparr>src_name = [97], src_size = Some 2, src_modified = None\<rparr>]"

definition sample_feeds :: "feed list" where
  "sample_feeds = [(False, reference_crc [], []), (False, reference_crc [1, 2], [1, 2])]"

lemmas plan_eval = sample_plan_def sample_feeds_def local_len_def local_extra_len_def
  central_len_def central_extra_len_def central_zip64_fields_def timestamp_extra_len_def
  descriptor_len_def zip64_sizes_def zip64_offset_def end_len_def needs_zip64_end_def
  zip_lens zip_sentinels settle_method_def checked_add_def saturating_add_def
  str_len_def utf8_def utf8_char_def

lemma sample_write_archive:
  "\<exists>q out. write_archive sample_feeds sample_plan = Ok (q, out)"
  by (simp add: plan_eval write_archive_def write_local_header_def write_data_descriptor_def
      finish_entries_def Let_def)

lemma sample_plan_new: "ZipPlan_new (\<lambda>_. None) sample_sources Auto = Some sample_plan"
  by (simp add: sample_sources_def ZipPlan_new_def plan_entry_def plan_method_def may_deflate_def
      MIN_DEFLATE_BYTES_def dos_timestamp_def unix_mtime_def DOS_MIN_def entry_end_def
      plan_eval Let_def)

theorem archive_layout_exact_witness:
  "\<exists>q out. write_archive sample_feeds sample_plan = Ok (q, out) \<and> length out = zp_len q"
proof -
  obtain q out where w: "write_archive sample_feeds sample_plan = Ok (q, out)"
    using sample_write_archive by blast
  have "length sample_feeds = length (zp_entries sample_plan)" "zp_position sample_plan = 0"
    by (simp_all add: sample_feeds_def sample_plan_def)
  from archive_layout_exact [OF w this] w show ?thesis by blast
qed

text \<open>
  C4: The announced length is exact. When no entry of a fresh plan is a compression candidate,
  streaming files that still have their planned sizes succeeds and sends exactly
  \<open>fixed_len\<close> bytes, the number the response announces as its Content-Length.
\<close>

theorem content_length_exact:
  assumes "ZipPlan_new cal sources compression = Some p" "fixed_len p = Some n"
    "list_all2 feed_matches (zp_entries p) feeds"
  shows "\<exists>q out. write_archive feeds p = Ok (q, out) \<and> length out = n"
proof -
  from assms(1) obtain P:
    "plan_entries cal compression 0 sources = Some (zp_entries p, zp_central_offset p)"
    "zp_variable p \<longleftrightarrow> (\<exists>e \<in> set (zp_entries p). ze_method e = Candidate)" "zp_position p = 0"
    "total_central_len 0 (zp_entries p) = Some (zp_central_len p)"
    "zp_len p = zp_central_offset p + zp_central_len p + end_len p" "zp_len p < 2 ^ 64"
    by (rule ZipPlan_new_Some)
  have v: "\<not> zp_variable p" and n: "n = zp_len p"
    using assms(2) by (simp_all add: fixed_len_def split: if_splits)
  then have "\<forall>e \<in> set (zp_entries p). ze_method e = Stored"
    using P(2) plan_entries_not_deflated [OF P(1)] by (metis Method.exhaust)
  from write_entries_fixed [OF P(1) this assms(3), of p "[]"] P(3) obtain p1 bs where w:
    "write_entries feeds 0 p = Ok (p1, bs)" "zp_position p1 = zp_central_offset p"
    "map central_len (zp_entries p1) = map central_len (zp_entries p)"
    "length (zp_entries p1) = length (zp_entries p)" "zp_variable p1 = zp_variable p"
    "zp_central_offset p1 = zp_central_offset p" "zp_central_len p1 = zp_central_len p"
    "zp_len p1 = zp_len p" by auto
  have c: "total_central_len 0 (zp_entries p1) = Some (zp_central_len p)"
    using P(4) w(3,4) by (auto simp: total_central_len_Some)
  let ?q = "p1\<lparr>zp_central_offset := zp_central_offset p, zp_central_len := zp_central_len p\<rparr>"
  have "end_len ?q = end_len p" using w(4) by (simp add: end_len_def needs_zip64_end_def)
  with c w(2,5-8) P(5,6) v have "finish_entries p1 = Ok (?q\<lparr>zp_len := zp_len p\<rparr>)"
    by (simp add: finish_entries_def checked_add_def Let_def)
  then obtain out where o: "write_archive feeds p = Ok (?q\<lparr>zp_len := zp_len p\<rparr>, out)"
    using w(1) by (simp add: write_archive_def)
  have "length feeds = length (zp_entries p)" using assms(3) list_all2_lengthD by fastforce
  from write_archive_Ok [OF o this P(3)] have "length out = zp_len p" by fastforce
  with o n show ?thesis by blast
qed

theorem content_length_exact_witness:
  "ZipPlan_new (\<lambda>_. None) sample_sources Auto = Some sample_plan \<and>
   (\<exists>q out. write_archive sample_feeds sample_plan = Ok (q, out) \<and> length out = 198)"
proof -
  have "list_all2 feed_matches (zp_entries sample_plan) sample_feeds"
    by (simp add: sample_plan_def sample_feeds_def feed_matches_def)
  moreover have "fixed_len sample_plan = Some 198" by (simp add: fixed_len_def sample_plan_def)
  ultimately show ?thesis using content_length_exact [OF sample_plan_new] sample_plan_new by simp
qed

end
