(* ===== verification/Download.thy ===== *)
theory Download
  imports Errors Paths Headers Sessions Zip Filesystem
begin

text \<open>
  Conditional and ranged file responses of \<open>src/src/browse.rs\<close>: validators, \<open>If-None-Match\<close>,
  \<open>If-Range\<close>, single byte ranges, the inert media types and dispositions of downloads, and
  \<open>stream_file\<close>. The acceptance test of \<open>HeaderValue::from_str\<close> (crate \<open>http\<close>) is the parameter
  \<open>valid_header\<close>; SHA-256 and HMAC-SHA-256 are parameters of the validators.
\<close>

subsection \<open>Numbers in headers\<close>

fun to_string :: "nat \<Rightarrow> str" where
  "to_string n = (if n < 10 then [48 + n] else to_string (n div 10) @ [48 + n mod 10])"

declare to_string.simps [simp del]

lemma dec_value_append: "dec_value acc (s @ [c]) = 10 * dec_value acc s + (c - 48)"
  by (induction s arbitrary: acc) auto

lemma to_string_digits: "list_all is_ascii_digit (to_string n)" "to_string n \<noteq> []"
proof -
  show "list_all is_ascii_digit (to_string n)"
  proof (induction n rule: to_string.induct)
    case (1 n)
    have "is_ascii_digit (48 + k)" if "k < 10" for k using that by (simp add: is_ascii_digit_def)
    then show ?case using 1 by (subst to_string.simps) simp
  qed
  show "to_string n \<noteq> []" by (subst to_string.simps) simp
qed

lemma dec_value_to_string [simp]: "dec_value 0 (to_string n) = n"
proof (induction n rule: to_string.induct)
  case (1 n)
  show ?case using 1 by (subst to_string.simps) (auto simp: dec_value_append)
qed

definition parse_range_number :: "str \<Rightarrow> nat option" where
  "parse_range_number value =
     (if value = [] \<or> \<not> list_all is_ascii_digit (utf8 value) then None else parse_uint 64 value)"

lemma digit_ascii: "list_all is_ascii_digit s \<Longrightarrow> is_ascii s"
  by (auto simp: list_all_iff is_ascii_digit_def is_ascii_def)

lemma parse_range_number_to_string [simp]:
  "n < 2 ^ 64 \<Longrightarrow> parse_range_number (to_string n) = Some n"
  using to_string_digits [of n]
  by (simp add: parse_range_number_def parse_uint_digits utf8_ascii [OF digit_ascii])

lemma parse_range_number_bound: "parse_range_number s = Some n \<Longrightarrow> n < 2 ^ 64"
  by (auto simp: parse_range_number_def dest: parse_uint_bound split: if_splits)

subsection \<open>Ranges\<close>

datatype RangeRequest = Ignore | Unsatisfiable | Satisfiable nat nat

definition parse_range :: "HeaderValue \<Rightarrow> nat \<Rightarrow> RangeRequest" where
  "parse_range value total_len =
     (case Option.bind (to_str value) (strip_prefix (lit ''bytes='')) of
        None \<Rightarrow> Ignore
      | Some spec \<Rightarrow>
          (case (if 44 \<in> set spec then None else split_once 45 spec) of
             None \<Rightarrow> Ignore
           | Some (start, end) \<Rightarrow>
               if start = [] then
                 (case parse_range_number end of
                    None \<Rightarrow> Ignore
                  | Some suffix \<Rightarrow>
                      if suffix = 0 then Unsatisfiable
                      else if total_len = 0 then Ignore
                      else Satisfiable (total_len - min suffix total_len) (total_len - 1))
               else
                 (case parse_range_number start of
                    None \<Rightarrow> Ignore
                  | Some start \<Rightarrow>
                      (case (if end = [] then Some None
                             else case parse_range_number end of
                                    Some e \<Rightarrow> if start \<le> e then Some (Some e) else None
                                  | None \<Rightarrow> None) of
                         None \<Rightarrow> Ignore
                       | Some end \<Rightarrow>
                           if total_len \<le> start then Unsatisfiable
                           else Satisfiable start
                                  (case end of None \<Rightarrow> total_len - 1 | Some e \<Rightarrow> min e (total_len - 1))))))"

definition if_none_match :: "HeaderValue option \<Rightarrow> str \<Rightarrow> bool" where
  "if_none_match value etag =
     (case Option.bind value to_str of
        None \<Rightarrow> False
      | Some v \<Rightarrow>
          (let strong = (\<lambda>t. case strip_prefix (lit ''W/'') t of Some s \<Rightarrow> s | None \<Rightarrow> t) in
           list_ex (\<lambda>candidate. let candidate = trim candidate in
                      candidate = lit ''*'' \<or> strong candidate = strong etag) (split_on 44 v)))"

definition if_range_allows :: "HeaderValue option \<Rightarrow> str \<Rightarrow> bool" where
  "if_range_allows value etag =
     (case value of
        None \<Rightarrow> True
      | Some v \<Rightarrow> strip_prefix (lit ''W/'') etag = None \<and> as_bytes v = utf8 etag)"

subsection \<open>Validators\<close>

definition entry_kind_order :: "EntryKind \<Rightarrow> nat" where
  "entry_kind_order k = (case k of Directory \<Rightarrow> 0 | File \<Rightarrow> 1)"

definition framed :: "bytes \<Rightarrow> bytes" where
  "framed v = be_bytes 8 (length v) @ v"

definition time_mac :: "SystemTime option \<Rightarrow> bytes" where
  "time_mac time =
     (case Option.bind time duration_since_epoch of
        Some d \<Rightarrow> [1] @ be_bytes 8 (as_secs d) @ be_bytes 4 (d mod 1000000000)
      | None \<Rightarrow> [0])"

definition metadata_etag_input ::
  "str \<Rightarrow> VirtualPath \<Rightarrow> nat \<Rightarrow> SystemTime option \<Rightarrow> nat \<Rightarrow> EntryKind \<Rightarrow> bytes" where
  "metadata_etag_input share_id path len modified file_id kind =
     framed (str_bytes share_id) @ framed (str_bytes (path_display path)) @ be_bytes 8 len
     @ be_bytes 8 file_id @ [of_nat (entry_kind_order kind)] @ time_mac modified"

definition metadata_etag ::
  "(bytes \<Rightarrow> bytes) \<Rightarrow> str \<Rightarrow> VirtualPath \<Rightarrow> nat \<Rightarrow> SystemTime option \<Rightarrow> nat \<Rightarrow> EntryKind \<Rightarrow> str" where
  "metadata_etag mac share_id path len modified file_id kind =
     lit ''W/'' @ [34] @ encode_hex (mac (metadata_etag_input share_id path len modified file_id kind)) @ [34]"

definition content_etag :: "(bytes \<Rightarrow> bytes) \<Rightarrow> bytes \<Rightarrow> str" where
  "content_etag sha256 bs = [34] @ encode_hex (sha256 bs) @ [34]"

definition system_time_millis :: "SystemTime option \<Rightarrow> nat option" where
  "system_time_millis time =
     (case Option.bind time duration_since_epoch of
        Some d \<Rightarrow> if d div 1000000 < 2 ^ 64 then Some (d div 1000000) else None
      | None \<Rightarrow> None)"

subsection \<open>Media types and dispositions\<close>

definition essence :: "str \<Rightarrow> str" where
  "essence mime = map to_ascii_lowercase (trim (hd (split_on 59 mime)))"

definition executable_essence :: "str \<Rightarrow> bool" where
  "executable_essence e \<longleftrightarrow>
     list_ex (\<lambda>name. contains_str (lit name) e)
       [''javascript'', ''ecmascript'', ''jscript'', ''livescript'']
     \<or> e = lit ''text/css'' \<or> e = lit ''application/wasm''"

definition download_mime :: "str \<Rightarrow> str" where
  "download_mime mime =
     (if executable_essence (essence mime) then lit ''application/octet-stream'' else mime)"

definition token_char :: "nat \<Rightarrow> bool" where
  "token_char c \<longleftrightarrow> is_ascii_alphanumeric c \<or> c = 46 \<or> c = 45 \<or> c = 95"

definition upper_hex :: "nat \<Rightarrow> nat" where
  "upper_hex n = (if n < 10 then 48 + n else 55 + n)"

fun percent_encode :: "nat list \<Rightarrow> str" where
  "percent_encode [] = []"
| "percent_encode (b # bs) =
     (if token_char b then [b] else [37, upper_hex (b div 16), upper_hex (b mod 16)])
     @ percent_encode bs"

definition disposition_text :: "str \<Rightarrow> str" where
  "disposition_text filename =
     lit ''attachment; filename='' @ [34]
     @ map (\<lambda>c. if token_char c then c else 95) filename @ [34]
     @ lit ''; filename*=UTF-8'' @ [39, 39] @ percent_encode (utf8 filename)"

definition header_value :: "(str \<Rightarrow> bool) \<Rightarrow> str \<Rightarrow> AppError + str" where
  "header_value valid_header v = (if valid_header v then Ok v else Err Internal)"

definition content_disposition :: "(str \<Rightarrow> bool) \<Rightarrow> str \<Rightarrow> AppError + str" where
  "content_disposition valid_header filename = header_value valid_header (disposition_text filename)"

subsection \<open>Responses\<close>

type_synonym response_headers = "string \<rightharpoonup> str"

record Response =
  rs_status :: nat
  rs_headers :: response_headers
  rs_body :: bytes

text \<open>A streamed response, or the JSON error with its extra headers.\<close>

datatype StreamResponse =
    Streamed Response
  | Rejected error_response response_headers

definition add_inert_headers :: "response_headers \<Rightarrow> response_headers" where
  "add_inert_headers h =
     h(''x-content-type-options'' \<mapsto> lit ''nosniff'', ''cache-control'' \<mapsto> lit ''no-store, private'')"

definition add_validator_headers ::
  "(str \<Rightarrow> bool) \<Rightarrow> str \<Rightarrow> response_headers \<Rightarrow> AppError + response_headers" where
  "add_validator_headers valid_header etag h =
     and_then (header_value valid_header etag) (\<lambda>v.
       Ok (h(''etag'' \<mapsto> v, ''accept-ranges'' \<mapsto> lit ''bytes'')))"

definition add_file_headers ::
  "(str \<Rightarrow> bool) \<Rightarrow> str \<Rightarrow> str \<Rightarrow> response_headers \<Rightarrow> AppError + response_headers" where
  "add_file_headers valid_header mime filename h =
     and_then (header_value valid_header mime) (\<lambda>m.
     and_then (content_disposition valid_header filename) (\<lambda>d.
       Ok (add_inert_headers (h(''content-type'' \<mapsto> m, ''content-disposition'' \<mapsto> d,
             ''content-security-policy'' \<mapsto> lit ''default-src 'none'; sandbox'')))))"

definition range_not_satisfiable :: "(str \<Rightarrow> bool) \<Rightarrow> nat \<Rightarrow> AppError + StreamResponse" where
  "range_not_satisfiable valid_header total_len =
     and_then (header_value valid_header (lit ''bytes */'' @ to_string total_len)) (\<lambda>v.
       Ok (Rejected ((into_response InvalidRequest)\<lparr>er_status := 416\<rparr>)
             (add_inert_headers (Map.empty(''content-range'' \<mapsto> v)))))"

definition requested_range :: "HeaderMap \<Rightarrow> str \<Rightarrow> nat \<Rightarrow> RangeRequest" where
  "requested_range headers etag total_len =
     (if if_range_allows (header_get headers ''if-range'') etag
      then (case header_get headers ''range'' of
              Some value \<Rightarrow> parse_range value total_len | None \<Rightarrow> Ignore)
      else Ignore)"

text \<open>
  \<open>stream_file\<close>: \<open>content\<close> is what the open file handle yields from its start, which need not
  have \<open>total_len\<close> bytes any more when the body is read; \<open>seek_ok\<close> is whether seeking in it succeeds.
\<close>

definition stream_file ::
  "(str \<Rightarrow> bool) \<Rightarrow> HeaderMap \<Rightarrow> bool \<Rightarrow> bytes \<Rightarrow> nat \<Rightarrow> str \<Rightarrow>
   (response_headers \<Rightarrow> AppError + response_headers) \<Rightarrow> AppError + StreamResponse" where
  "stream_file valid_header headers seek_ok content total_len etag representation =
     (if if_none_match (header_get headers ''if-none-match'') etag then
        and_then (representation Map.empty) (\<lambda>h.
        and_then (add_validator_headers valid_header etag h) (\<lambda>h.
          Ok (Streamed \<lparr> rs_status = 304, rs_headers = h, rs_body = [] \<rparr>)))
      else
        (let range = requested_range headers etag total_len in
         if range = Unsatisfiable then range_not_satisfiable valid_header total_len
         else if \<not> seek_ok then Err Internal
         else
           (let (status, start, response_len) =
                  (case range of Satisfiable s e \<Rightarrow> (206, s, e - s + 1) | _ \<Rightarrow> (200, 0, total_len))
            in
            and_then (representation Map.empty) (\<lambda>h.
            and_then (add_validator_headers valid_header etag h) (\<lambda>h.
            and_then (header_value valid_header (to_string response_len)) (\<lambda>len.
            and_then (case range of
                        Satisfiable s e \<Rightarrow>
                          and_then (header_value valid_header (lit ''bytes '' @ to_string s @ [45] @ to_string e
                                     @ [47] @ to_string total_len)) (\<lambda>v.
                            Ok (h(''content-length'' \<mapsto> len, ''content-range'' \<mapsto> v)))
                      | _ \<Rightarrow> Ok (h(''content-length'' \<mapsto> len))) (\<lambda>h.
              Ok (Streamed \<lparr> rs_status = status, rs_headers = h,
                             rs_body = take response_len (drop start content) \<rparr>))))))))"


subsection \<open>Bounds of ranges\<close>

lemma parse_range_bounds: "parse_range v total_len = Satisfiable s e \<Longrightarrow> s \<le> e \<and> e < total_len"
  by (auto simp: parse_range_def split: option.splits if_splits)

lemma requested_range_bounds:
  "requested_range headers etag total_len = Satisfiable s e \<Longrightarrow> s \<le> e \<and> e < total_len"
  by (auto simp: requested_range_def dest: parse_range_bounds split: option.splits if_splits)

lemma strip_prefix_append: "strip_prefix p (p @ s) = Some s"
  by (induction p) auto

subsection \<open>Framing\<close>

lemma be_bytes_inj: "be_bytes n x = be_bytes n y \<Longrightarrow> x < 256 ^ n \<Longrightarrow> y < 256 ^ n \<Longrightarrow> x = y"
  by (metis be_nat_be_bytes mod_less)

lemma framed_append_inj:
  assumes "framed a @ x = framed b @ y" "length a < 2 ^ 64" "length b < 2 ^ 64"
  shows "a = b \<and> x = y"
proof -
  have e: "be_bytes 8 (length a) @ (a @ x) = be_bytes 8 (length b) @ (b @ y)"
    using assms(1) by (simp add: framed_def)
  then have h: "be_bytes 8 (length a) = be_bytes 8 (length b)" "a @ x = b @ y"
    by (simp_all add: append_eq_append_conv)
  from be_bytes_inj [OF h(1)] assms(2,3) have "length a = length b" by simp
  with h(2) show ?thesis by (simp add: append_eq_append_conv)
qed

lemma utf8_bytes_lt: "list_all is_char s \<Longrightarrow> \<forall>b \<in> set (utf8 s). b < 256"
  by (induction s) (auto simp: is_char_def utf8_char_def)

lemma str_bytes_inj:
  assumes "str_bytes s = str_bytes t" "list_all is_char s" "list_all is_char t" shows "s = t"
proof -
  have u: "map unat (str_bytes r) = utf8 r" if "list_all is_char r" for r
    using utf8_bytes_lt [OF that] by (auto simp: str_bytes_def unat_of_nat_u8 intro: map_idI)
  have "utf8 s = utf8 t" using assms u by metis
  then show ?thesis using utf8_codec.enc_inj assms(2,3) by blast
qed

lemma time_mac_inj:
  assumes "time_mac a = time_mac b"
    "\<forall>t. a = Some t \<longrightarrow> t < 2 ^ 64 * 1000000000" "\<forall>t. b = Some t \<longrightarrow> t < 2 ^ 64 * 1000000000"
  shows "Option.bind a duration_since_epoch = Option.bind b duration_since_epoch"
proof (cases "Option.bind a duration_since_epoch"; cases "Option.bind b duration_since_epoch")
  fix x y assume xy: "Option.bind a duration_since_epoch = Some x" "Option.bind b duration_since_epoch = Some y"
  then have "x < 2 ^ 64 * 1000000000" "y < 2 ^ 64 * 1000000000"
    using assms(2,3) by (auto simp: bind_eq_Some_conv duration_since_epoch_def nat_less_iff split: if_splits)
  then have lt: "as_secs x < 256 ^ 8" "as_secs y < 256 ^ 8"
    by (simp_all add: as_secs_def less_mult_imp_div_less)
  have m: "x mod 1000000000 < 256 ^ 4" "y mod 1000000000 < 256 ^ 4"
    using mod_less_divisor [of 1000000000 x] mod_less_divisor [of 1000000000 y] by simp_all
  have "be_bytes 8 (as_secs x) = be_bytes 8 (as_secs y)"
    "be_bytes 4 (x mod 1000000000) = be_bytes 4 (y mod 1000000000)"
    using assms(1) xy by (simp_all add: time_mac_def append_eq_append_conv)
  then have "as_secs x = as_secs y" "x mod 1000000000 = y mod 1000000000"
    using be_bytes_inj lt m by blast+
  then have "x = y" unfolding as_secs_def by (metis div_mult_mod_eq)
  with xy show ?thesis by simp
qed (use assms(1) in \<open>auto simp: time_mac_def\<close>)

subsection \<open>Reading a disposition back\<close>

text \<open>RFC 5987 decoding of the extended parameter value, as the receiver does it.\<close>

definition hex_value :: "nat \<Rightarrow> nat" where
  "hex_value c = (if c < 58 then c - 48 else c - 55)"

fun percent_decode :: "str \<Rightarrow> nat list" where
  "percent_decode [] = []"
| "percent_decode (c # s) =
     (if c = 37 then (case s of h # l # r \<Rightarrow> (hex_value h * 16 + hex_value l) # percent_decode r | _ \<Rightarrow> [])
      else c # percent_decode s)"

lemma hex_value_upper: "n < 16 \<Longrightarrow> hex_value (upper_hex n) = n"
  by (auto simp: hex_value_def upper_hex_def)

lemma percent_decode_encode:
  "\<forall>b \<in> set bs. b < 256 \<Longrightarrow> percent_decode (percent_encode bs) = bs"
proof (induction bs)
  case (Cons b bs)
  have "\<not> token_char 37" by (simp add: token_char_def char_class_defs)
  moreover have "b div 16 < 16" using Cons.prems by (simp add: less_mult_imp_div_less)
  moreover have "b div 16 * 16 + b mod 16 = b" by simp
  ultimately show ?case using Cons by (auto simp: hex_value_upper)
qed simp

lemma token_char_printable: "token_char c \<Longrightarrow> 32 \<le> c \<and> c \<le> 126 \<and> c \<noteq> 34 \<and> c \<noteq> 92"
  by (auto simp: token_char_def char_class_defs)

lemma percent_encode_printable:
  "\<forall>b \<in> set bs. b < 256 \<Longrightarrow> c \<in> set (percent_encode bs) \<Longrightarrow> 32 \<le> c \<and> c \<le> 126 \<and> c \<noteq> 34"
proof (induction bs)
  case (Cons b bs)
  have "b div 16 < 16" using Cons.prems(1) by (simp add: less_mult_imp_div_less)
  then have u: "32 \<le> upper_hex (b div 16) \<and> upper_hex (b div 16) \<le> 126 \<and> upper_hex (b div 16) \<noteq> 34"
    "32 \<le> upper_hex (b mod 16) \<and> upper_hex (b mod 16) \<le> 126 \<and> upper_hex (b mod 16) \<noteq> 34"
    using mod_less_divisor [of 16 b] by (auto simp: upper_hex_def)
  with Cons show ?case using token_char_printable by (auto split: if_splits)
qed simp

subsection \<open>Properties\<close>



text \<open>
  Byte ranges parse to what they say. For a file below 2^64 bytes, the closed range
  \<open>bytes=s-e\<close> inside the file, the open range \<open>bytes=s-\<close> and the suffix \<open>bytes=-n\<close> are
  recognised with exactly those bounds (a range end past the file is cut, a suffix longer than the
  file is the whole file), and a range that starts at or past the end is unsatisfiable.
\<close>

theorem parse_range_spec:
  assumes "s < 2 ^ 64" "e < 2 ^ 64" "s \<le> e" "0 < n" "n < 2 ^ 64" "0 < total_len"
    "to_str v1 = Some (lit ''bytes='' @ to_string s @ [45] @ to_string e)"
    "to_str v2 = Some (lit ''bytes='' @ to_string s @ [45])"
    "to_str v3 = Some (lit ''bytes='' @ [45] @ to_string n)"
  shows "parse_range v1 total_len =
      (if s < total_len then Satisfiable s (min e (total_len - 1)) else Unsatisfiable)
    \<and> parse_range v2 total_len =
      (if s < total_len then Satisfiable s (total_len - 1) else Unsatisfiable)
    \<and> parse_range v3 total_len = Satisfiable (total_len - min n total_len) (total_len - 1)"
proof -
  have c: "c \<noteq> 44 \<and> c \<noteq> 45" if "c \<in> set (to_string k)" for c k
    using that to_string_digits(1) [of k] by (auto simp: list_all_iff is_ascii_digit_def)
  have s1: "split_once 45 (to_string s @ 45 # r) = Some (to_string s, r)" for r
    unfolding split_once_Some using c by auto
  have s3: "split_once 45 (45 # r) = Some ([], r)" for r by simp
  have nc: "44 \<notin> set (to_string k)" for k using c by blast
  show ?thesis
    using assms to_string_digits(2) [of s] to_string_digits(2) [of e] nc
    by (simp add: parse_range_def strip_prefix_append s1)
qed

theorem parse_range_spec_witness:
  "parse_range (ascii_value ''bytes=1-2'') 4 = Satisfiable 1 2"
  using parse_range_spec [of 1 2 1 4 "ascii_value ''bytes=1-2''" "ascii_value ''bytes=1-''" "ascii_value ''bytes=-1''"]
  by (simp add: ascii_value_def lit_def to_string.simps)

text \<open>
  Downloads are never served with a type the browser would run or apply: whatever the guessed
  media type, the essence of the served one is no JavaScript variant, stylesheet or
  WebAssembly module.
\<close>

lemma download_never_executable: "\<not> executable_essence (essence (download_mime mime))"
proof -
  have "\<not> executable_essence (essence (lit ''application/octet-stream''))"
    by (simp add: essence_def executable_essence_def lit_def trim_def trim_start_def is_whitespace_def
        char_class_defs)
  then show ?thesis by (simp add: download_mime_def)
qed




text \<open>
  C23: File names cannot break out of the Content-Disposition header. For every name the header
  text is printable ASCII, holds exactly the two quotation marks that delimit the fallback name,
  and its extended parameter percent-decodes to the UTF-8 bytes of the name.
\<close>

theorem disposition_safe:
  assumes "list_all is_char name"
  shows "(\<forall>c \<in> set (disposition_text name). 32 \<le> c \<and> c \<le> 126)
    \<and> count_list (disposition_text name) 34 = 2
    \<and> (\<exists>fallback. disposition_text name = lit ''attachment; filename='' @ [34] @ fallback @ [34]
          @ lit ''; filename*=UTF-8'' @ [39, 39] @ percent_encode (utf8 name))
    \<and> percent_decode (percent_encode (utf8 name)) = utf8 name"
proof -
  let ?f = "map (\<lambda>c. if token_char c then c else 95) name"
  let ?p = "percent_encode (utf8 name)"
  have b: "\<forall>b \<in> set (utf8 name). b < 256" by (rule utf8_bytes_lt [OF assms])
  have f: "32 \<le> c \<and> c \<le> 126 \<and> c \<noteq> 34" if "c \<in> set ?f" for c
    using that token_char_printable by (auto split: if_splits)
  have p: "32 \<le> c \<and> c \<le> 126 \<and> c \<noteq> 34" if "c \<in> set ?p" for c
    using percent_encode_printable [OF b that] .
  have l: "\<forall>c \<in> set (lit ''attachment; filename='') \<union> set (lit ''; filename*=UTF-8''). 32 \<le> c \<and> c \<le> 126"
    by (simp add: lit_def)
  have q: "count_list (lit ''attachment; filename='') 34 = 0" "count_list (lit ''; filename*=UTF-8'') 34 = 0"
    by (simp_all add: lit_def)
  have "count_list ?f 34 = 0" "count_list ?p 34 = 0"
    using f p by (metis count_notin)+
  then have "count_list (disposition_text name) 34 = 2"
    unfolding disposition_text_def using q by simp
  moreover have "\<forall>c \<in> set (disposition_text name). 32 \<le> c \<and> c \<le> 126"
    unfolding disposition_text_def using l f p by (simp add: ball_Un)
  ultimately show ?thesis using percent_decode_encode [OF b] unfolding disposition_text_def by blast
qed

theorem disposition_safe_witness:
  "count_list (disposition_text [97, 34, 0xE9]) 34 = 2"
  using disposition_safe [of "[97, 34, 0xE9]"] by (simp add: is_char_def)

end
