(* ===== verification/Listing.thy ===== *)
theory Listing
  imports Auth Gates FolderSizes Download "HOL-Library.Product_Lexorder"
begin

text \<open>
  Directory listings of \<open>src/src/browse.rs\<close>: page limits, hidden entries, the order of a listing, the
  authenticated page cursors, cached folder sizes in a page, and the handlers \<open>list_directory\<close> and
  \<open>folder_size\<close>. SHA-256, HMAC-SHA-256 and unpadded URL-safe base64 are the fields of
  \<open>cursor_crypto\<close>, an argument of the definitions that use them.
\<close>

subsection \<open>Limits and state\<close>

record BrowseLimits =
  bl_default_page_size :: nat
  bl_max_page_size :: nat
  bl_max_directory_entries :: nat
  bl_max_text_bytes :: nat
  bl_max_download_bytes :: nat
  bl_max_archive_entries :: nat
  bl_stream_chunk_bytes :: nat
  bl_folder_sizes :: bool
  bl_archive_compression :: ArchiveCompression

definition BrowseLimits_default :: BrowseLimits where
  "BrowseLimits_default =
     \<lparr> bl_default_page_size = 100, bl_max_page_size = 200, bl_max_directory_entries = 10000,
       bl_max_text_bytes = 1048576, bl_max_download_bytes = 1073741824, bl_max_archive_entries = 10000,
       bl_stream_chunk_bytes = 65536, bl_folder_sizes = True, bl_archive_compression = Auto \<rparr>"

datatype BrowseStateError = DuplicateShare | InvalidCursorKey | InvalidLimits

record BrowseState =
  bs_shares :: "str \<rightharpoonup> ShareFs"
  bs_limits :: BrowseLimits
  bs_policy :: GlobalPolicy
  bs_cursor_key :: bytes
  bs_event_gate :: SubjectGate
  bs_download_gate :: SubjectGate
  bs_archive_gate :: SubjectGate
  bs_buffered_read_gate :: SubjectGate
  bs_listing_gate :: SubjectGate
  bs_blocking_gate :: SubjectGate
  bs_folder_size_gate :: SubjectGate
  bs_folder_sizes :: FolderSizeCache

definition MAX_EVENT_CONNECTIONS :: nat where "MAX_EVENT_CONNECTIONS = 64"
definition MAX_EVENT_CONNECTIONS_PER_SUBJECT :: nat where "MAX_EVENT_CONNECTIONS_PER_SUBJECT = 4"
definition MAX_CONCURRENT_BUFFERED_READS :: nat where "MAX_CONCURRENT_BUFFERED_READS = 4"
definition MAX_CONCURRENT_BUFFERED_READS_PER_SUBJECT :: nat where "MAX_CONCURRENT_BUFFERED_READS_PER_SUBJECT = 2"
definition MAX_CONCURRENT_LISTINGS :: nat where "MAX_CONCURRENT_LISTINGS = 16"
definition MAX_CONCURRENT_LISTINGS_PER_SUBJECT :: nat where "MAX_CONCURRENT_LISTINGS_PER_SUBJECT = 8"
definition MAX_CONCURRENT_BLOCKING_REQUESTS :: nat where "MAX_CONCURRENT_BLOCKING_REQUESTS = 64"
definition MAX_CONCURRENT_BLOCKING_REQUESTS_PER_SUBJECT :: nat where "MAX_CONCURRENT_BLOCKING_REQUESTS_PER_SUBJECT = 16"
definition MAX_CONCURRENT_DOWNLOADS :: nat where "MAX_CONCURRENT_DOWNLOADS = 64"
definition MAX_CONCURRENT_DOWNLOADS_PER_SUBJECT :: nat where "MAX_CONCURRENT_DOWNLOADS_PER_SUBJECT = 8"
definition MAX_CONCURRENT_ARCHIVES :: nat where "MAX_CONCURRENT_ARCHIVES = 4"
definition MAX_CONCURRENT_ARCHIVES_PER_SUBJECT :: nat where "MAX_CONCURRENT_ARCHIVES_PER_SUBJECT = 2"
definition MAX_CONCURRENT_FOLDER_SIZES :: nat where "MAX_CONCURRENT_FOLDER_SIZES = 8"
definition MAX_CONCURRENT_FOLDER_SIZES_PER_SUBJECT :: nat where "MAX_CONCURRENT_FOLDER_SIZES_PER_SUBJECT = 4"

definition FOLDER_SIZE_BUDGET :: FolderSizeBudget where
  "FOLDER_SIZE_BUDGET = \<lparr> fb_max_entries = 200000, fb_max_duration = 2 * 1000000000 \<rparr>"

definition with_gates :: "(str \<rightharpoonup> ShareFs) \<Rightarrow> BrowseLimits \<Rightarrow> GlobalPolicy \<Rightarrow> bytes \<Rightarrow> BrowseState" where
  "with_gates shares limits policy cursor_key =
     \<lparr> bs_shares = shares, bs_limits = limits, bs_policy = policy, bs_cursor_key = cursor_key,
       bs_event_gate = SubjectGate_new MAX_EVENT_CONNECTIONS MAX_EVENT_CONNECTIONS_PER_SUBJECT,
       bs_download_gate = SubjectGate_new MAX_CONCURRENT_DOWNLOADS MAX_CONCURRENT_DOWNLOADS_PER_SUBJECT,
       bs_archive_gate = SubjectGate_new MAX_CONCURRENT_ARCHIVES MAX_CONCURRENT_ARCHIVES_PER_SUBJECT,
       bs_buffered_read_gate = SubjectGate_new MAX_CONCURRENT_BUFFERED_READS MAX_CONCURRENT_BUFFERED_READS_PER_SUBJECT,
       bs_listing_gate = SubjectGate_new MAX_CONCURRENT_LISTINGS MAX_CONCURRENT_LISTINGS_PER_SUBJECT,
       bs_blocking_gate = SubjectGate_new MAX_CONCURRENT_BLOCKING_REQUESTS MAX_CONCURRENT_BLOCKING_REQUESTS_PER_SUBJECT,
       bs_folder_size_gate = SubjectGate_new MAX_CONCURRENT_FOLDER_SIZES MAX_CONCURRENT_FOLDER_SIZES_PER_SUBJECT,
       bs_folder_sizes = FolderSizeCache_new FOLDER_SIZE_TTL MAX_CACHED_FOLDER_SIZES \<rparr>"

fun insert_shares :: "ShareFs list \<Rightarrow> (str \<rightharpoonup> ShareFs) \<Rightarrow> BrowseStateError + (str \<rightharpoonup> ShareFs)" where
  "insert_shares [] by_id = Ok by_id"
| "insert_shares (share # shares) by_id =
     (if by_id (sf_id share) \<noteq> None then Err DuplicateShare
      else insert_shares shares (by_id(sf_id share \<mapsto> share)))"

definition BrowseState_new ::
  "ShareFs list \<Rightarrow> BrowseLimits \<Rightarrow> GlobalPolicy \<Rightarrow> bytes \<Rightarrow> BrowseStateError + BrowseState" where
  "BrowseState_new shares limits policy cursor_key =
     (if list_all (\<lambda>b. b = 0) cursor_key then Err InvalidCursorKey
      else if bl_default_page_size limits = 0 \<or> bl_max_page_size limits = 0
         \<or> bl_max_page_size limits < bl_default_page_size limits
         \<or> bl_max_directory_entries limits < bl_max_page_size limits
         \<or> bl_max_text_bytes limits = 0 \<or> bl_max_download_bytes limits = 0
         \<or> bl_max_archive_entries limits = 0 \<or> bl_stream_chunk_bytes limits = 0
      then Err InvalidLimits
      else and_then (insert_shares shares Map.empty) (\<lambda>by_id.
             Ok (with_gates by_id limits policy cursor_key)))"

definition authorized_owned ::
  "BrowseState \<Rightarrow> AuthenticatedIdentity \<Rightarrow> str \<Rightarrow> AppError + (ShareFs \<times> AccessLevel)" where
  "authorized_owned b identity raw_share_id =
     (case ShareId_new raw_share_id of
        Inl _ \<Rightarrow> Err NotFound
      | Inr share_id \<Rightarrow> authorize_owned (bs_shares b) (bs_policy b) identity share_id)"

definition parse_query_path :: "unicode \<Rightarrow> str option \<Rightarrow> AppError + VirtualPath" where
  "parse_query_path u raw =
     (case raw of
        None \<Rightarrow> Ok VirtualPath_root
      | Some path \<Rightarrow>
          if path = [] then Ok VirtualPath_root
          else map_err non_disclosing_fs_error (VirtualPath_parse u path))"

subsection \<open>Cursors\<close>

record cursor_crypto =
  cc_encode :: "bytes \<Rightarrow> str"
  cc_decode :: "str \<Rightarrow> bytes option"
  cc_hmac :: "bytes \<Rightarrow> bytes \<Rightarrow> bytes"
  cc_sha256 :: "bytes \<Rightarrow> bytes"

definition CURSOR_VERSION :: u8 where "CURSOR_VERSION = 1"
definition CURSOR_BYTES :: nat where "CURSOR_BYTES = 1 + 8 + 32 + 32"

definition listing_fingerprint :: "cursor_crypto \<Rightarrow> DirectoryEntry list \<Rightarrow> bytes" where
  "listing_fingerprint c es =
     cc_sha256 c (be_bytes 8 (length es)
       @ concat (map (\<lambda>e. [of_nat (entry_kind_order (dy_kind e))]
                          @ be_bytes 8 (length (str_bytes (dy_name e))) @ str_bytes (dy_name e)
                          @ be_bytes 8 (dy_file_id e)) es))"

text \<open>What a cursor is bound to.\<close>

record cursor_context =
  cx_subject :: str
  cx_share :: str
  cx_path :: VirtualPath
  cx_access :: AccessLevel

definition access_byte :: "AccessLevel \<Rightarrow> u8" where
  "access_byte a = (case a of ReadOnly \<Rightarrow> 0 | ReadWrite \<Rightarrow> 1)"

definition update_cursor_mac :: "cursor_context \<Rightarrow> nat \<Rightarrow> bytes \<Rightarrow> bytes" where
  "update_cursor_mac x offset fingerprint =
     framed (str_bytes (cx_subject x)) @ framed (str_bytes (cx_share x))
     @ framed (str_bytes (path_display (cx_path x))) @ [access_byte (cx_access x)]
     @ be_bytes 8 offset @ fingerprint"

definition cursor_tag :: "cursor_crypto \<Rightarrow> bytes \<Rightarrow> cursor_context \<Rightarrow> nat \<Rightarrow> bytes \<Rightarrow> bytes" where
  "cursor_tag c key x offset fingerprint = cc_hmac c key (update_cursor_mac x offset fingerprint)"

definition encode_cursor :: "cursor_crypto \<Rightarrow> bytes \<Rightarrow> cursor_context \<Rightarrow> nat \<Rightarrow> bytes \<Rightarrow> str" where
  "encode_cursor c key x offset fingerprint =
     cc_encode c ([CURSOR_VERSION] @ be_bytes 8 offset @ fingerprint @ cursor_tag c key x offset fingerprint)"

definition decode_cursor :: "cursor_crypto \<Rightarrow> bytes \<Rightarrow> cursor_context \<Rightarrow> bytes \<Rightarrow> str \<Rightarrow> AppError + nat" where
  "decode_cursor c key x current_fingerprint encoded =
     (if 128 < str_len encoded then Err Conflict
      else
        (case cc_decode c encoded of
           None \<Rightarrow> Err Conflict
         | Some bs \<Rightarrow>
             if length bs \<noteq> CURSOR_BYTES \<or> hd bs \<noteq> CURSOR_VERSION then Err Conflict
             else
               (let offset = be_nat (take 8 (drop 1 bs)); fingerprint = take 32 (drop 9 bs) in
                if fingerprint \<noteq> current_fingerprint then Err Conflict
                else if cc_hmac c key (update_cursor_mac x offset fingerprint) \<noteq> drop 41 bs then Err Conflict
                else Ok offset)))"

subsection \<open>Pages\<close>

record EntryResponse =
  er_name :: str
  er_kind :: string
  er_size :: "nat option"
  er_modified_at_ms :: "nat option"
  er_folder_size :: "FolderSize option"

definition kind_name :: "EntryKind \<Rightarrow> string" where
  "kind_name k = (case k of Directory \<Rightarrow> ''directory'' | File \<Rightarrow> ''file'')"

definition entry_response :: "DirectoryEntry \<Rightarrow> EntryResponse" where
  "entry_response e =
     \<lparr> er_name = dy_name e, er_kind = kind_name (dy_kind e),
       er_size = (if dy_kind e = File then Some (dy_size e) else None),
       er_modified_at_ms = system_time_millis (dy_modified e), er_folder_size = None \<rparr>"

record DirectoryQuery =
  dq_path :: "str option"
  dq_limit :: "nat option"
  dq_cursor :: "str option"
  dq_show_hidden :: "bool option"

record DirectoryPage =
  dp_share_id :: str
  dp_path :: str
  dp_entries :: "EntryResponse list"
  dp_next_cursor :: "str option"

definition visible_entries :: "bool option \<Rightarrow> DirectoryEntry list \<Rightarrow> DirectoryEntry list" where
  "visible_entries show_hidden es =
     (if show_hidden = Some False then filter (\<lambda>e. \<not> (\<exists>s. dy_name e = 46 # s)) es else es)"

definition sort_listing :: "DirectoryEntry list \<Rightarrow> DirectoryEntry list" where
  "sort_listing es = sort_key (\<lambda>e. (entry_kind_order (dy_kind e), name_key e)) es"

text \<open>The page of a sorted listing that a cursor selects: its bounds and the cursor after it.\<close>

definition page_bounds ::
  "cursor_crypto \<Rightarrow> bytes \<Rightarrow> cursor_context \<Rightarrow> nat \<Rightarrow> str option \<Rightarrow> DirectoryEntry list
   \<Rightarrow> AppError + (nat \<times> nat \<times> str option)" where
  "page_bounds c key x limit cursor es =
     (let fingerprint = listing_fingerprint c es in
      and_then (case cursor of
                  Some cursor \<Rightarrow> decode_cursor c key x fingerprint cursor
                | None \<Rightarrow> Ok 0) (\<lambda>offset.
        if length es < offset then Err Conflict
        else
          (let end = min (saturating_add 64 offset limit) (length es) in
           Ok (offset, end,
               if end < length es then Some (encode_cursor c key x end fingerprint) else None))))"

text \<open>The entries of a page, with the folder sizes the cache holds; reading it drops expired sizes.\<close>

fun page_entries ::
  "str \<Rightarrow> VirtualPath \<Rightarrow> bool \<Rightarrow> nat \<Rightarrow> DirectoryEntry list \<Rightarrow> FolderSizeCache \<Rightarrow> EntryResponse list \<times> FolderSizeCache" where
  "page_entries share_id path folder_sizes now [] cache = ([], cache)"
| "page_entries share_id path folder_sizes now (e # es) cache =
     (let (sz, cache) = (if dy_kind e = Directory \<and> folder_sizes
                         then get_at share_id (path_join path (dy_name e)) now cache else (None, cache));
          (rs, cache) = page_entries share_id path folder_sizes now es cache
      in ((entry_response e)\<lparr>er_folder_size := sz\<rparr> # rs, cache))"

subsection \<open>Handlers\<close>

text \<open>
  What a request finds outside the state: the operating system, the root directory of each share
  as it is during the request, the clock, and whether the blocking worker returns.
\<close>

record browse_env =
  be_unicode :: unicode
  be_os :: os
  be_root :: "str \<Rightarrow> Dir"
  be_now :: nat
  be_clock :: "nat \<Rightarrow> nat"
  be_worker :: bool

definition run_blocking :: "browse_env \<Rightarrow> 'a \<Rightarrow> AppError + 'a" where
  "run_blocking env work = (if be_worker env then Ok work else Err Internal)"

definition acquire_listing :: "AuthenticatedIdentity \<Rightarrow> BrowseState \<Rightarrow> (AppError + unit) \<times> BrowseState" where
  "acquire_listing identity b =
     (let (admitted, g) = try_acquire (id_subject identity) (bs_listing_gate b) in
      (if admitted then Ok () else Err Busy, b\<lparr>bs_listing_gate := g\<rparr>))"

definition drop_listing :: "AuthenticatedIdentity \<Rightarrow> BrowseState \<Rightarrow> BrowseState" where
  "drop_listing identity b = b\<lparr>bs_listing_gate := drop_lease (id_subject identity) (bs_listing_gate b)\<rparr>"

definition check_limit :: "BrowseLimits \<Rightarrow> nat option \<Rightarrow> AppError + nat" where
  "check_limit limits requested =
     (let limit = (case requested of Some l \<Rightarrow> l | None \<Rightarrow> bl_default_page_size limits) in
      if limit = 0 \<or> bl_max_page_size limits < limit then Err InvalidRequest else Ok limit)"

definition list_share :: "browse_env \<Rightarrow> str \<Rightarrow> VirtualPath \<Rightarrow> nat \<Rightarrow> FsErrorCode + DirectoryEntry list" where
  "list_share env share_id path max_entries =
     and_then (open_directory (be_os env) (be_root env share_id) path) (\<lambda>directory.
       list_bounded (be_unicode env) directory max_entries)"

definition list_directory ::
  "cursor_crypto \<Rightarrow> browse_env \<Rightarrow> AuthenticatedIdentity \<Rightarrow> str \<Rightarrow> DirectoryQuery \<Rightarrow> BrowseState
   \<Rightarrow> (AppError + DirectoryPage) \<times> BrowseState" where
  "list_directory c env identity raw_share_id query b =
     (case and_then (authorized_owned b identity raw_share_id) (\<lambda>(share, access).
           and_then (parse_query_path (be_unicode env) (dq_path query)) (\<lambda>path.
           and_then (check_limit (bs_limits b) (dq_limit query)) (\<lambda>limit.
             Ok (sf_id share, access, path, limit)))) of
        Inl e \<Rightarrow> (Err e, b)
      | Inr (share_id, access, path, limit) \<Rightarrow>
          (case acquire_listing identity b of
             (Inl e, b) \<Rightarrow> (Err e, b)
           | (Inr _, b) \<Rightarrow>
               let b = drop_listing identity b in
               (case and_then (run_blocking env (list_share env share_id path (bl_max_directory_entries (bs_limits b))))
                       (map_err non_disclosing_fs_error) of
                  Inl e \<Rightarrow> (Err e, b)
                | Inr es \<Rightarrow>
                    let es = sort_listing (visible_entries (dq_show_hidden query) es);
                        x = \<lparr> cx_subject = id_subject identity, cx_share = share_id, cx_path = path,
                              cx_access = access \<rparr>
                    in (case page_bounds c (bs_cursor_key b) x limit (dq_cursor query) es of
                          Inl e \<Rightarrow> (Err e, b)
                        | Inr (offset, end, next_cursor) \<Rightarrow>
                            let (rs, cache) = page_entries share_id path (bl_folder_sizes (bs_limits b)) (be_now env)
                                  (take (end - offset) (drop offset es)) (bs_folder_sizes b)
                            in (Ok \<lparr> dp_share_id = share_id, dp_path = path_display path, dp_entries = rs,
                                     dp_next_cursor = next_cursor \<rparr>,
                                b\<lparr>bs_folder_sizes := cache\<rparr>)))))"

definition folder_size_route ::
  "browse_env \<Rightarrow> AuthenticatedIdentity \<Rightarrow> str \<Rightarrow> str option \<Rightarrow> BrowseState
   \<Rightarrow> (AppError + (str \<times> str \<times> FolderSize)) \<times> BrowseState" where
  "folder_size_route env identity raw_share_id raw_path b =
     (if \<not> bl_folder_sizes (bs_limits b) then (Err FeatureDisabled, b)
      else
        (case and_then (authorized_owned b identity raw_share_id) (\<lambda>(share, _).
              and_then (parse_query_path (be_unicode env) raw_path) (\<lambda>path. Ok (sf_id share, path))) of
           Inl e \<Rightarrow> (Err e, b)
         | Inr (share_id, path) \<Rightarrow>
             (case get_at share_id path (be_now env) (bs_folder_sizes b) of
                (Some sz, cache) \<Rightarrow> (Ok (share_id, path_display path, sz), b\<lparr>bs_folder_sizes := cache\<rparr>)
              | (None, cache) \<Rightarrow>
                  let b = b\<lparr>bs_folder_sizes := cache\<rparr>;
                      (admitted, g) = try_acquire (id_subject identity) (bs_folder_size_gate b);
                      b = b\<lparr>bs_folder_size_gate := g\<rparr>
                  in if \<not> admitted then (Err Busy, b)
                     else
                       let started = fc_generation (bs_folder_sizes b);
                           b = b\<lparr>bs_folder_size_gate := drop_lease (id_subject identity) (bs_folder_size_gate b)\<rparr>
                       in (case and_then (run_blocking env (folder_size (be_unicode env) (be_os env) (be_clock env)
                                    (be_root env share_id) path FOLDER_SIZE_BUDGET))
                                  (map_err non_disclosing_fs_error) of
                             Inl e \<Rightarrow> (Err e, b)
                           | Inr sz \<Rightarrow>
                               (Ok (share_id, path_display path, sz),
                                b\<lparr>bs_folder_sizes := insert_at share_id path sz started (be_now env) (bs_folder_sizes b)\<rparr>)))))"

subsection \<open>Cursors round-trip and are bound to their context\<close>

text \<open>What the code relies on of base64, HMAC-SHA-256 and SHA-256.\<close>

definition crypto_laws :: "cursor_crypto \<Rightarrow> bool" where
  "crypto_laws c \<longleftrightarrow>
     (\<forall>bs. cc_decode c (cc_encode c bs) = Some bs)
     \<and> (\<forall>bs. length bs = 73 \<longrightarrow> str_len (cc_encode c bs) \<le> 128)
     \<and> (\<forall>k m. length (cc_hmac c k m) = 32) \<and> (\<forall>m. length (cc_sha256 c m) = 32)"

lemma decode_encode_cursor:
  assumes "crypto_laws c" "offset < 2 ^ 64" "length fp = 32"
  shows "decode_cursor c key y cur (encode_cursor c key x offset fp) =
    (if cur = fp \<and> cursor_tag c key y offset fp = cursor_tag c key x offset fp then Ok offset else Err Conflict)"
proof -
  let ?bs = "[CURSOR_VERSION] @ be_bytes 8 offset @ fp @ cursor_tag c key x offset fp"
  have tag: "length (cursor_tag c key x offset fp) = 32" using assms(1) by (simp add: crypto_laws_def cursor_tag_def)
  have "length ?bs = 73" using assms(3) tag by simp
  then have enc: "str_len (cc_encode c ?bs) \<le> 128" "cc_decode c (cc_encode c ?bs) = Some ?bs"
    using assms(1) unfolding crypto_laws_def by blast+
  have parts: "be_nat (take 8 (drop 1 ?bs)) = offset" "take 32 (drop 9 ?bs) = fp" "drop 41 ?bs = cursor_tag c key x offset fp"
    using assms(2,3) by (simp_all add: be_nat_be_bytes)
  show ?thesis
    using enc parts \<open>length ?bs = 73\<close>
    by (auto simp: decode_cursor_def encode_cursor_def CURSOR_BYTES_def Let_def cursor_tag_def)
qed

text \<open>Two contexts with the same authenticated message are the same.\<close>

definition context_ok :: "unicode \<Rightarrow> cursor_context \<Rightarrow> bool" where
  "context_ok u x \<longleftrightarrow> list_all is_char (cx_subject x) \<and> list_all is_char (cx_share x)
     \<and> (\<forall>n \<in> set (cx_path x). list_all is_char n \<and> EntryName_new u n = Ok n)
     \<and> length (str_bytes (cx_subject x)) < 2 ^ 64 \<and> length (str_bytes (cx_share x)) < 2 ^ 64
     \<and> length (str_bytes (path_display (cx_path x))) < 2 ^ 64"

lemma path_display_chars: "\<forall>n \<in> set p. list_all is_char n \<Longrightarrow> list_all is_char (path_display p)"
  by (cases p) (auto simp: path_display_def display_from_Suc list_all_iff is_char_def)

lemma update_cursor_mac_inj:
  assumes "update_cursor_mac x o1 f1 = update_cursor_mac y o2 f2" "context_ok u x" "context_ok u y"
    and "o1 < 2 ^ 64" "o2 < 2 ^ 64"
  shows "x = y \<and> o1 = o2 \<and> f1 = f2"
proof -
  let ?r1 = "[access_byte (cx_access x)] @ be_bytes 8 o1 @ f1"
  let ?r2 = "[access_byte (cx_access y)] @ be_bytes 8 o2 @ f2"
  have a: "str_bytes (cx_subject x) = str_bytes (cx_subject y) \<and>
      framed (str_bytes (cx_share x)) @ framed (str_bytes (path_display (cx_path x))) @ ?r1 =
      framed (str_bytes (cx_share y)) @ framed (str_bytes (path_display (cx_path y))) @ ?r2"
    using assms(1-3) by (intro framed_append_inj) (auto simp: update_cursor_mac_def context_ok_def)
  then have b: "str_bytes (cx_share x) = str_bytes (cx_share y) \<and>
      framed (str_bytes (path_display (cx_path x))) @ ?r1 = framed (str_bytes (path_display (cx_path y))) @ ?r2"
    using assms(2,3) by (intro framed_append_inj) (auto simp: context_ok_def)
  then have d: "str_bytes (path_display (cx_path x)) = str_bytes (path_display (cx_path y)) \<and> ?r1 = ?r2"
    using assms(2,3) by (intro framed_append_inj) (auto simp: context_ok_def)
  then have e: "access_byte (cx_access x) = access_byte (cx_access y)" "be_bytes 8 o1 = be_bytes 8 o2" "f1 = f2"
    by (auto simp: append_eq_append_conv)
  have "o1 = o2" by (rule be_bytes_inj [OF e(2)]) (use assms(4,5) in simp_all)
  moreover have "cx_access x = cx_access y" using e(1) by (auto simp: access_byte_def split: AccessLevel.splits)
  moreover have "cx_subject x = cx_subject y" "cx_share x = cx_share y"
    using a b assms(2,3) str_bytes_inj by (auto simp: context_ok_def)
  moreover have "path_display (cx_path x) = path_display (cx_path y)"
    using d assms(2,3) path_display_chars by (intro str_bytes_inj) (auto simp: context_ok_def)
  then have "cx_path x = cx_path y" using assms(2,3) by (intro path_display_inj [of _ _ u]) (auto simp: context_ok_def)
  ultimately show ?thesis using e(3) by simp
qed

text \<open>
  C25: A cursor is accepted exactly for the listing it was issued for. Presented to the same user, share,
  folder and access level while the listing's structure is unchanged it decodes to its offset; presented
  with any other fingerprint, or in any other context, it is a conflict, unless HMAC gives two different
  messages the same tag.
\<close>

theorem cursor_bound_to_context:
  assumes "crypto_laws c" "offset < 2 ^ 64" "length fp = 32" "context_ok u x" "context_ok u y"
    and no_collision: "cursor_tag c key y offset fp = cursor_tag c key x offset fp
       \<longrightarrow> update_cursor_mac y offset fp = update_cursor_mac x offset fp"
  shows "decode_cursor c key y current (encode_cursor c key x offset fp) =
    (if y = x \<and> current = fp then Ok offset else Err Conflict)"
  using decode_encode_cursor [OF assms(1-3), of key y current x] no_collision
    update_cursor_mac_inj [OF _ assms(5,4,2,2)] by auto

subsection \<open>Following cursors\<close>

text \<open>
  A client that follows cursors: it asks for a page, and for the next one as long as it gets a
  cursor. \<open>clock k\<close> is the time of the request made with \<open>k\<close> units of fuel left.
\<close>

fun browse_all ::
  "nat \<Rightarrow> (nat \<Rightarrow> nat) \<Rightarrow> cursor_crypto \<Rightarrow> browse_env \<Rightarrow> AuthenticatedIdentity \<Rightarrow> str \<Rightarrow> DirectoryQuery \<Rightarrow> BrowseState
   \<Rightarrow> (AppError + EntryResponse list) option" where
  "browse_all 0 clock c env identity share_id query b = None"
| "browse_all (Suc fuel) clock c env identity share_id query b =
     (case list_directory c (env\<lparr>be_now := clock fuel\<rparr>) identity share_id query b of
        (Inl e, _) \<Rightarrow> Some (Err e)
      | (Inr page, b) \<Rightarrow>
          (case dp_next_cursor page of
             None \<Rightarrow> Some (Ok (dp_entries page))
           | Some cursor \<Rightarrow>
               map_option (\<lambda>r. and_then r (\<lambda>rest. Ok (dp_entries page @ rest)))
                 (browse_all fuel clock c env identity share_id (query\<lparr>dq_cursor := Some cursor\<rparr>) b)))"

definition admits :: "SubjectGate \<Rightarrow> str \<Rightarrow> bool" where
  "admits g subject \<longleftrightarrow> sg_process g \<noteq> 0 \<and> active g subject < sg_per_subject g"

lemma admits_after:
  assumes "admits g s" shows "\<exists>g1. try_acquire s g = (True, g1) \<and> admits (drop_lease s g1) s"
  using assms
  by (auto simp: admits_def try_acquire_def take_permit_def admit_subject_def drop_lease_def return_permit_def
      release_subject_def active_def Let_def split: option.splits)

text \<open>
  The situation in which a listing can be browsed: the request is authorised and well formed, the
  listing gate admits the user, the worker returns and the folder lists as \<open>es\<close>.
\<close>

definition browsable ::
  "browse_env \<Rightarrow> AuthenticatedIdentity \<Rightarrow> str \<Rightarrow> DirectoryQuery \<Rightarrow> BrowseState \<Rightarrow> ShareFs \<Rightarrow> AccessLevel \<Rightarrow> VirtualPath
   \<Rightarrow> nat \<Rightarrow> DirectoryEntry list \<Rightarrow> bool" where
  "browsable env identity raw query b share access path limit es \<longleftrightarrow>
     authorized_owned b identity raw = Ok (share, access)
     \<and> parse_query_path (be_unicode env) (dq_path query) = Ok path
     \<and> check_limit (bs_limits b) (dq_limit query) = Ok limit
     \<and> admits (bs_listing_gate b) (id_subject identity)
     \<and> be_worker env
     \<and> list_share env (sf_id share) path (bl_max_directory_entries (bs_limits b)) = Ok es"

definition bare :: "EntryResponse \<Rightarrow> EntryResponse" where
  "bare r = r\<lparr>er_folder_size := None\<rparr>"

lemma page_entries_bare:
  "map bare (fst (page_entries share_id path sizes now es cache)) = map entry_response es"
  by (induction es arbitrary: cache) (auto simp: split_def Let_def bare_def entry_response_def)

lemma authorized_owned_update [simp]:
  "authorized_owned (b\<lparr>bs_listing_gate := g\<rparr>) = authorized_owned b"
  "authorized_owned (b\<lparr>bs_folder_sizes := cache\<rparr>) = authorized_owned b"
  by (intro ext; simp add: authorized_owned_def cong: sum.case_cong)+

lemma list_directory_page:
  assumes "browsable env identity raw query b share access path limit es"
    and "page_bounds c (bs_cursor_key b)
           \<lparr> cx_subject = id_subject identity, cx_share = sf_id share, cx_path = path, cx_access = access \<rparr>
           limit (dq_cursor query) (sort_listing (visible_entries (dq_show_hidden query) es)) = Ok (off, stop, nxt)"
  shows "\<exists>page b'. list_directory c (env\<lparr>be_now := t\<rparr>) identity raw query b = (Ok page, b')
    \<and> map bare (dp_entries page) = map entry_response
         (take (stop - off) (drop off (sort_listing (visible_entries (dq_show_hidden query) es))))
    \<and> dp_next_cursor page = nxt \<and> bs_cursor_key b' = bs_cursor_key b
    \<and> (\<forall>k. browsable env identity raw (query\<lparr>dq_cursor := k\<rparr>) b' share access path limit es)"
proof -
  obtain g1 where g: "try_acquire (id_subject identity) (bs_listing_gate b) = (True, g1)"
    "admits (drop_lease (id_subject identity) g1) (id_subject identity)"
    using admits_after assms(1) by (auto simp: browsable_def)
  let ?es = "sort_listing (visible_entries (dq_show_hidden query) es)"
  let ?pg = "page_entries (sf_id share) path (bl_folder_sizes (bs_limits b)) t (take (stop - off) (drop off ?es))
    (bs_folder_sizes b)"
  let ?b = "b\<lparr>bs_listing_gate := drop_lease (id_subject identity) g1, bs_folder_sizes := snd ?pg\<rparr>"
  have "list_share (env\<lparr>be_now := t\<rparr>) = list_share env" by (intro ext) (simp add: list_share_def)
  then have "list_directory c (env\<lparr>be_now := t\<rparr>) identity raw query b =
      (Ok \<lparr> dp_share_id = sf_id share, dp_path = path_display path, dp_entries = fst ?pg, dp_next_cursor = nxt \<rparr>, ?b)"
    using assms g(1)
    by (simp add: list_directory_def browsable_def acquire_listing_def drop_listing_def run_blocking_def
        Let_def split_def)
  moreover have "browsable env identity raw (query\<lparr>dq_cursor := k\<rparr>) ?b share access path limit es"
    for k using assms(1) g(2) by (simp add: browsable_def)
  ultimately show ?thesis by (simp add: page_entries_bare)
qed

lemma browse_rest:
  assumes "crypto_laws c" "length (sort_listing (visible_entries (dq_show_hidden query) es)) < 2 ^ 64"
    and "browsable env identity raw query b share access path limit es"
    and "x = \<lparr> cx_subject = id_subject identity, cx_share = sf_id share, cx_path = path, cx_access = access \<rparr>"
    and "ordered = sort_listing (visible_entries (dq_show_hidden query) es)"
    and "off \<le> length ordered" "0 < limit"
    and "case dq_cursor query of None \<Rightarrow> off = 0
         | Some k \<Rightarrow> k = encode_cursor c (bs_cursor_key b) x off (listing_fingerprint c ordered)"
    and "length ordered - off < fuel"
  shows "\<exists>rs. browse_all fuel clock c env identity raw query b = Some (Ok rs)
    \<and> map bare rs = map entry_response (drop off ordered)"
  using assms
proof (induction fuel arbitrary: query b off)
  case 0
  then show ?case by simp
next
  case (Suc fuel)
  let ?fp = "listing_fingerprint c ordered"
  define stop where "stop = min (saturating_add 64 off limit) (length ordered)"
  define nxt where "nxt = (if stop < length ordered then Some (encode_cursor c (bs_cursor_key b) x stop ?fp) else None)"
  have fp: "length ?fp = 32" using Suc.prems(1) by (simp add: crypto_laws_def listing_fingerprint_def)
  have small: "length ordered < 2 ^ 64" using Suc.prems(2,5) by simp
  have "decode_cursor c (bs_cursor_key b) x ?fp k = Ok off" if "dq_cursor query = Some k" for k
    using Suc.prems(8) that decode_encode_cursor [OF Suc.prems(1) _ fp, of off] Suc.prems(6) small by simp
  then have pb: "page_bounds c (bs_cursor_key b) x limit (dq_cursor query) ordered = Ok (off, stop, nxt)"
    using Suc.prems(6,8)
    by (cases "dq_cursor query") (simp_all add: page_bounds_def Let_def stop_def nxt_def not_less)
  obtain page b' where page: "list_directory c (env\<lparr>be_now := clock fuel\<rparr>) identity raw query b = (Ok page, b')"
    "map bare (dp_entries page) = map entry_response (take (stop - off) (drop off ordered))"
    "dp_next_cursor page = nxt" "bs_cursor_key b' = bs_cursor_key b"
    "\<And>k. browsable env identity raw (query\<lparr>dq_cursor := k\<rparr>) b' share access path limit es"
    using list_directory_page [OF Suc.prems(3), of c off stop nxt "clock fuel"] pb Suc.prems(4,5) by auto
  have stop: "stop = min (off + limit) (length ordered)" using small by (simp add: stop_def saturating_add_def)
  show ?case
  proof (cases "stop < length ordered")
    case False
    then have "take (stop - off) (drop off ordered) = drop off ordered" using stop by simp
    then show ?thesis using page False by (simp add: nxt_def)
  next
    case True
    let ?k = "encode_cursor c (bs_cursor_key b) x stop ?fp"
    have "\<exists>rs. browse_all fuel clock c env identity raw (query\<lparr>dq_cursor := Some ?k\<rparr>) b' = Some (Ok rs)
        \<and> map bare rs = map entry_response (drop stop ordered)"
      by (rule Suc.IH [OF Suc.prems(1) _ page(5) Suc.prems(4)])
        (use Suc.prems True stop page(4) in auto)
    then obtain rs where rs: "browse_all fuel clock c env identity raw (query\<lparr>dq_cursor := Some ?k\<rparr>) b' = Some (Ok rs)"
      "map bare rs = map entry_response (drop stop ordered)" by blast
    have "drop off ordered = take (stop - off) (drop off ordered) @ drop stop ordered"
      using stop Suc.prems(6) by (metis append_take_drop_id drop_drop le_add_diff_inverse2 min.bounded_iff le_add1)
    then have "map entry_response (drop off ordered) =
        map entry_response (take (stop - off) (drop off ordered)) @ map entry_response (drop stop ordered)"
      by (metis map_append)
    then show ?thesis using page rs True by (simp add: nxt_def)
  qed
qed

text \<open>
  C24: Browsing terminates and is complete. While a folder does not change, a client that starts
  without a cursor and follows the cursors it gets, with any accepted page size and at any times,
  makes at most one request more than the folder has entries and ends up with every visible entry exactly
  once, folders first and in the order of their names.
\<close>

theorem browsing_complete:
  assumes "crypto_laws c" "length es < 2 ^ 64" "0 < limit"
    and "browsable env identity raw query b share access path limit es"
    and "dq_cursor query = None" "length es < fuel"
  shows "\<exists>rs. browse_all fuel clock c env identity raw query b = Some (Ok rs)
    \<and> map bare rs = map entry_response
        (sort_key (\<lambda>e. (entry_kind_order (dy_kind e), utf8 (dy_name e)))
          (if dq_show_hidden query = Some False then filter (\<lambda>e. \<not> (\<exists>s. dy_name e = 46 # s)) es else es))"
proof -
  have l: "length (sort_listing (visible_entries (dq_show_hidden query) es)) \<le> length es"
    by (simp add: sort_listing_def visible_entries_def)
  from browse_rest [OF assms(1) _ assms(4) refl refl, of 0 fuel clock] l assms
  show ?thesis by (simp add: sort_listing_def visible_entries_def name_key_def)
qed

subsection \<open>Witnesses\<close>

text \<open>A stand-in for the cryptographic functions that satisfies the laws.\<close>

fun pack :: "bytes \<Rightarrow> str" where
  "pack (a # b # bs) = (256 * unat a + unat b) # pack bs"
| "pack [a] = [65536 + unat a]"
| "pack [] = []"

fun unpack :: "str \<Rightarrow> bytes" where
  "unpack [] = []"
| "unpack (n # ns) = (if 65536 \<le> n then [of_nat (n - 65536)] else of_nat (n div 256) # of_nat (n mod 256) # unpack ns)"

definition pad32 :: "bytes \<Rightarrow> bytes" where "pad32 bs = take 32 (bs @ replicate 32 0)"

definition sample_cursor_crypto :: cursor_crypto where
  "sample_cursor_crypto =
     \<lparr> cc_encode = pack, cc_decode = Some \<circ> unpack, cc_hmac = (\<lambda>key m. pad32 m), cc_sha256 = pad32 \<rparr>"

lemma unpack_pack: "unpack (pack bs) = bs"
proof (induction bs rule: pack.induct)
  case (1 a b bs)
  have "256 * unat a + unat b < 65536" using unat_u8 [of a] unat_u8 [of b] by linarith
  moreover have "(256 * unat a + unat b) div 256 = unat a" "(256 * unat a + unat b) mod 256 = unat b"
    using unat_u8 [of b] by simp_all
  ultimately show ?case using 1 by simp
qed auto

lemma str_len_pack: "str_len (pack bs) \<le> 3 * (length bs div 2) + 4 * (length bs mod 2)"
proof (induction bs rule: pack.induct)
  case (1 a b bs)
  have "256 * unat a + unat b < 65536" using unat_u8 [of a] unat_u8 [of b] by linarith
  then show ?case using 1 by (simp add: str_len_def utf8_def utf8_char_def)
next
  case (2 a)
  have "unat a < 256" using unat_u8 [of a] by simp
  then show ?case by (simp add: str_len_def utf8_def utf8_char_def)
qed (simp add: str_len_def utf8_def)

lemma sample_crypto_laws: "crypto_laws sample_cursor_crypto"
proof -
  have "str_len (pack bs) \<le> 128" if "length bs = 73" for bs using str_len_pack [of bs] that by simp
  moreover have "length (pad32 m) = 32" for m by (simp add: pad32_def)
  ultimately show ?thesis by (simp add: crypto_laws_def sample_cursor_crypto_def unpack_pack)
qed

definition sample_context :: "nat \<Rightarrow> cursor_context" where
  "sample_context s = \<lparr> cx_subject = [s], cx_share = [100], cx_path = [], cx_access = ReadOnly \<rparr>"

theorem cursor_bound_to_context_witness:
  "decode_cursor sample_cursor_crypto [7] (sample_context 98) (replicate 32 5)
     (encode_cursor sample_cursor_crypto [7] (sample_context 97) 3 (replicate 32 5)) = Err Conflict"
proof -
  have ok: "context_ok ascii_unicode (sample_context s)" if "s < 128" for s
    using that by (simp add: context_ok_def sample_context_def is_char_def str_bytes_def utf8_char_def
        path_display_def utf8_def)
  have "cursor_tag sample_cursor_crypto [7] (sample_context s) 3 (replicate 32 5) ! 8 = of_nat s" if "s < 128" for s
    using that by (simp add: cursor_tag_def sample_cursor_crypto_def pad32_def update_cursor_mac_def sample_context_def
        framed_def str_bytes_def utf8_char_def utf8_def nth_append)
  from this [of 97] this [of 98]
  have "cursor_tag sample_cursor_crypto [7] (sample_context 98) 3 (replicate 32 5)
      \<noteq> cursor_tag sample_cursor_crypto [7] (sample_context 97) 3 (replicate 32 5)" by auto
  then show ?thesis
    using cursor_bound_to_context [OF sample_crypto_laws _ _ ok ok, of 3 "replicate 32 5" 97 98 "[7]" "replicate 32 5"]
    by (simp add: sample_context_def)
qed

definition sample_browse :: BrowseState where
  "sample_browse = with_gates [[100] \<mapsto> \<lparr> sf_id = [100], sf_staging = False \<rparr>]
     BrowseLimits_default \<lparr> gp_read_only = True \<rparr> [7]"

definition sample_browse_env :: browse_env where
  "sample_browse_env = \<lparr> be_unicode = ascii_unicode, be_os = sample_os, be_root = (\<lambda>_. sample_folder), be_now = 0,
     be_clock = (\<lambda>_. 0), be_worker = True \<rparr>"

definition sample_identity :: AuthenticatedIdentity where
  "sample_identity = \<lparr> id_subject = [97], id_grants = [\<lparr> sg_share_id = [100], sg_access = ReadWrite \<rparr>] \<rparr>"

definition sample_query :: DirectoryQuery where
  "sample_query = \<lparr> dq_path = None, dq_limit = Some 1, dq_cursor = None, dq_show_hidden = Some False \<rparr>"

definition listed :: "nat \<Rightarrow> EntryKind \<Rightarrow> nat \<Rightarrow> DirectoryEntry" where
  "listed name kind len = \<lparr> dy_name = [name], dy_kind = kind, dy_size = len, dy_modified = Some 0, dy_file_id = 7 \<rparr>"

lemma sample_list: "list_bounded ascii_unicode sample_folder 3 = Ok [listed 97 Directory 0, listed 98 File 3]"
  by code_simp

lemma scan_bounded_more:
  "scan_bounded u m k rs = Ok es \<Longrightarrow> m \<le> m' \<Longrightarrow> k \<le> m \<Longrightarrow> scan_bounded u m' k rs = Ok es"
  by (induction u m k rs arbitrary: es rule: scan_bounded.induct) (auto split: if_splits)

theorem browsing_complete_witness:
  "\<exists>rs. browse_all 3 (\<lambda>_. 0) sample_cursor_crypto sample_browse_env sample_identity [100] sample_query sample_browse = Some (Ok rs)
    \<and> map er_name rs = [[97], [98]]"
proof -
  let ?es = "[listed 97 Directory 0, listed 98 File 3]"
  have "list_bounded ascii_unicode sample_folder 10000 = Ok ?es"
    using sample_list scan_bounded_more [of _ 3 0 _ _ 10000] by (auto simp: list_bounded_def)
  moreover have "ShareId_new [100] = Ok [100]" by code_simp
  ultimately have brow: "browsable sample_browse_env sample_identity [100] sample_query sample_browse
      \<lparr> sf_id = [100], sf_staging = False \<rparr> ReadOnly [] 1 ?es"
    by (simp add: browsable_def sample_browse_env_def sample_identity_def sample_query_def sample_browse_def
        authorized_owned_def authorize_owned_def authorize_def grant_for_def with_gates_def parse_query_path_def
        VirtualPath_root_def check_limit_def BrowseLimits_default_def admits_def SubjectGate_new_def active_def
        MAX_CONCURRENT_LISTINGS_def MAX_CONCURRENT_LISTINGS_PER_SUBJECT_def list_share_def open_directory_def)
  have "\<exists>rs. browse_all 3 (\<lambda>_. 0) sample_cursor_crypto sample_browse_env sample_identity [100] sample_query
      sample_browse = Some (Ok rs) \<and> map bare rs = map entry_response
        (sort_key (\<lambda>e. (entry_kind_order (dy_kind e), utf8 (dy_name e)))
          (if dq_show_hidden sample_query = Some False then filter (\<lambda>e. \<not> (\<exists>s. dy_name e = 46 # s)) ?es else ?es))"
    by (rule browsing_complete [OF sample_crypto_laws _ _ brow]) (simp_all add: sample_query_def)
  then obtain rs where rs: "browse_all 3 (\<lambda>_. 0) sample_cursor_crypto sample_browse_env sample_identity [100] sample_query
      sample_browse = Some (Ok rs)" "map bare rs = map entry_response
        (sort_key (\<lambda>e. (entry_kind_order (dy_kind e), utf8 (dy_name e)))
          (if dq_show_hidden sample_query = Some False then filter (\<lambda>e. \<not> (\<exists>s. dy_name e = 46 # s)) ?es else ?es))"
    by blast
  have "map er_name rs = map er_name (map bare rs)" by (simp add: bare_def)
  also have "\<dots> = [[97], [98]]"
    unfolding rs(2) by (simp add: listed_def sample_query_def entry_kind_order_def entry_response_def)
  finally have n: "map er_name rs = [[97], [98]]" .
  show ?thesis by (rule exI [of _ rs], rule conjI) (rule rs(1), rule n)
qed

end
