(* ===== verification/ZipReader.thy ===== *)
theory ZipReader
  imports Zip "HOL-Library.Monad_Syntax"
begin

unbundle bit_operations_syntax

text \<open>
  The independent archive reader of \<open>src/src/zip.rs\<close> (module \<open>verify\<close>), which extracts an archive
  from its end record through the central directory to the local headers, and the round trip
  of the writer through it. A failed assertion or an index out of range, a panic in the source,
  is \<open>None\<close>. The inflater (crate \<open>flate2\<close>) is a parameter.
\<close>

subsection \<open>Reading fields\<close>

definition read_le :: "nat \<Rightarrow> bytes \<Rightarrow> nat \<Rightarrow> nat option" where
  "read_le n bs at = (if at + n \<le> length bs then Some (le_nat (take n (drop at bs))) else None)"

definition u16_at :: "bytes \<Rightarrow> nat \<Rightarrow> nat option" where "u16_at = read_le 2"
definition u32_at :: "bytes \<Rightarrow> nat \<Rightarrow> nat option" where "u32_at = read_le 4"
definition u64_at :: "bytes \<Rightarrow> nat \<Rightarrow> nat option" where "u64_at = read_le 8"

definition assert_that :: "bool \<Rightarrow> unit option" where
  "assert_that b = (if b then Some () else None)"

record CentralRecord =
  cr_version_needed :: nat
  cr_flags :: nat
  cr_method :: nat
  cr_crc :: nat
  cr_size :: nat
  cr_compressed :: nat
  cr_offset :: nat
  cr_name :: str
  cr_next :: nat

text \<open>The three sizes a ZIP64 extra field may replace, and whether one was seen.\<close>

type_synonym zip64_state = "nat \<times> nat \<times> nat \<times> bool"

definition zip64_field :: "bytes \<Rightarrow> nat \<Rightarrow> nat \<Rightarrow> (nat \<times> nat) option" where
  "zip64_field bytes field value =
     (if value = U32_SENTINEL then do { v \<leftarrow> u64_at bytes field; Some (v, field + 8) }
      else Some (value, field))"

function read_extras ::
  "bytes \<Rightarrow> nat \<Rightarrow> nat \<Rightarrow> zip64_state \<Rightarrow> (nat \<times> zip64_state) option" where
  "read_extras bytes extra extra_end (sz, compressed, offset, zip64) =
     (if extra < extra_end then do {
        ident \<leftarrow> u16_at bytes extra;
        len \<leftarrow> u16_at bytes (extra + 2);
        st \<leftarrow> (if ident = ZIP64_EXTRA_ID then do {
            (sz, field) \<leftarrow> zip64_field bytes (extra + 4) sz;
            (compressed, field) \<leftarrow> zip64_field bytes field compressed;
            (offset, field) \<leftarrow> zip64_field bytes field offset;
            _ \<leftarrow> assert_that (field = extra + 4 + len);
            Some (sz, compressed, offset, True)
          } else Some (sz, compressed, offset, zip64));
        read_extras bytes (extra + (4 + len)) extra_end st
      } else Some (extra, sz, compressed, offset, zip64))"
  by pat_completeness auto
termination
  by (relation "measure (\<lambda>(_, extra, extra_end, _). extra_end - extra)") auto

definition read_central :: "bytes \<Rightarrow> nat \<Rightarrow> CentralRecord option" where
  "read_central bytes at = do {
     signature \<leftarrow> u32_at bytes at;
     _ \<leftarrow> assert_that (signature = CENTRAL_HEADER_SIGNATURE);
     version_needed \<leftarrow> u16_at bytes (at + 6);
     creator \<leftarrow> u16_at bytes (at + 4);
     _ \<leftarrow> assert_that (creator = (CREATOR_UNIX OR version_needed));
     flags \<leftarrow> u16_at bytes (at + 8);
     _ \<leftarrow> assert_that ((flags AND FLAG_UTF8) \<noteq> 0);
     method \<leftarrow> u16_at bytes (at + 10);
     _ \<leftarrow> assert_that (method = METHOD_STORED \<or> method = METHOD_DEFLATED);
     crc \<leftarrow> u32_at bytes (at + 16);
     compressed \<leftarrow> u32_at bytes (at + 20);
     sz \<leftarrow> u32_at bytes (at + 24);
     name_len \<leftarrow> u16_at bytes (at + 28);
     extra_len \<leftarrow> u16_at bytes (at + 30);
     offset \<leftarrow> u32_at bytes (at + 42);
     raw_name \<leftarrow> slice bytes (at + 46) (at + 46 + name_len);
     name \<leftarrow> from_utf8 raw_name;
     (extra, sz, compressed, offset, zip64) \<leftarrow>
       read_extras bytes (at + 46 + name_len) (at + 46 + name_len + extra_len)
         (sz, compressed, offset, False);
     _ \<leftarrow> assert_that (extra = at + 46 + name_len + extra_len);
     _ \<leftarrow> assert_that (method = METHOD_STORED \<longrightarrow> compressed = sz);
     _ \<leftarrow> assert_that (version_needed = (if zip64 then VERSION_ZIP64 else VERSION_DEFAULT));
     _ \<leftarrow> assert_that (flags =
            (if name \<noteq> [] \<and> last name = 47 then FLAG_UTF8 else FLAG_UTF8 OR FLAG_DATA_DESCRIPTOR));
     Some \<lparr> cr_version_needed = version_needed, cr_flags = flags, cr_method = method, cr_crc = crc,
            cr_size = sz, cr_compressed = compressed, cr_offset = offset, cr_name = name,
            cr_next = at + 46 + name_len + extra_len \<rparr>
   }"

record ReadEntry =
  re_name :: str
  re_method :: nat
  re_data :: "bytes option"

text \<open>The bytes of a file entry, checked against its CRC and its data descriptor.\<close>

definition read_data ::
  "(bytes \<Rightarrow> nat \<Rightarrow> bytes option) \<Rightarrow> bytes \<Rightarrow> CentralRecord \<Rightarrow> nat \<Rightarrow> bool \<Rightarrow> bytes option" where
  "read_data inflate bytes r data_start zip64_local = do {
     raw \<leftarrow> slice bytes data_start (data_start + cr_compressed r);
     data \<leftarrow> (if cr_method r = METHOD_DEFLATED then inflate raw (cr_size r) else Some raw);
     _ \<leftarrow> assert_that (unat (reference_crc data) = cr_crc r);
     signature \<leftarrow> u32_at bytes (data_start + cr_compressed r);
     _ \<leftarrow> assert_that (signature = DATA_DESCRIPTOR_SIGNATURE);
     crc \<leftarrow> u32_at bytes (data_start + cr_compressed r + 4);
     _ \<leftarrow> assert_that (crc = cr_crc r);
     compressed \<leftarrow> (if zip64_local then u64_at else u32_at) bytes (data_start + cr_compressed r + 8);
     _ \<leftarrow> assert_that (compressed = cr_compressed r);
     sz \<leftarrow> (if zip64_local then u64_at bytes (data_start + cr_compressed r + 16)
            else u32_at bytes (data_start + cr_compressed r + 12));
     _ \<leftarrow> assert_that (sz = cr_size r);
     Some data
   }"

definition read_local ::
  "(bytes \<Rightarrow> nat \<Rightarrow> bytes option) \<Rightarrow> bytes \<Rightarrow> CentralRecord \<Rightarrow> ReadEntry option" where
  "read_local inflate bytes r = (let local = cr_offset r in do {
     signature \<leftarrow> u32_at bytes local;
     _ \<leftarrow> assert_that (signature = LOCAL_HEADER_SIGNATURE);
     flags \<leftarrow> u16_at bytes (local + 6);
     _ \<leftarrow> assert_that (flags = cr_flags r);
     method \<leftarrow> u16_at bytes (local + 8);
     _ \<leftarrow> assert_that (method = cr_method r);
     local_name_len \<leftarrow> u16_at bytes (local + 26);
     local_extra_len \<leftarrow> u16_at bytes (local + 28);
     name \<leftarrow> slice bytes (local + 30) (local + 30 + local_name_len);
     _ \<leftarrow> assert_that (name = str_bytes (cr_name r));
     size_field \<leftarrow> u32_at bytes (local + 18);
     let data_start = local + 30 + local_name_len + local_extra_len;
     let zip64_local = (20 \<le> local_extra_len \<and> size_field = 0xFFFFFFFF);
     version \<leftarrow> u16_at bytes (local + 4);
     _ \<leftarrow> assert_that (version = cr_version_needed r);
     _ \<leftarrow> assert_that (\<not> zip64_local \<or> cr_version_needed r = VERSION_ZIP64);
     data \<leftarrow> (if cr_name r \<noteq> [] \<and> last (cr_name r) = 47 then do {
         _ \<leftarrow> assert_that ((cr_flags r AND FLAG_DATA_DESCRIPTOR) = 0);
         _ \<leftarrow> assert_that (cr_method r = METHOD_STORED);
         _ \<leftarrow> assert_that (cr_size r = 0);
         Some None
       } else do {
         _ \<leftarrow> assert_that ((cr_flags r AND FLAG_DATA_DESCRIPTOR) \<noteq> 0);
         data \<leftarrow> read_data inflate bytes r data_start zip64_local;
         Some (Some data)
       });
     Some \<lparr> re_name = cr_name r, re_method = cr_method r, re_data = data \<rparr>
   })"

fun read_entries ::
  "(bytes \<Rightarrow> nat \<Rightarrow> bytes option) \<Rightarrow> bytes \<Rightarrow> nat \<Rightarrow> nat \<Rightarrow> (nat \<times> ReadEntry list) option" where
  "read_entries inflate bytes 0 at = Some (at, [])"
| "read_entries inflate bytes (Suc count) at = do {
     r \<leftarrow> read_central bytes at;
     e \<leftarrow> read_local inflate bytes r;
     (at, es) \<leftarrow> read_entries inflate bytes count (cr_next r);
     Some (at, e # es)
   }"

text \<open>Count, length and offset of the central directory, from the end records.\<close>

definition read_end :: "bytes \<Rightarrow> (nat \<times> nat \<times> nat) option" where
  "read_end bytes = do {
     _ \<leftarrow> assert_that (END_LEN \<le> length bytes);
     let end = length bytes - END_LEN;
     signature \<leftarrow> u32_at bytes end;
     _ \<leftarrow> assert_that (signature = END_SIGNATURE);
     comment \<leftarrow> u16_at bytes (end + 20);
     _ \<leftarrow> assert_that (comment = 0);
     count \<leftarrow> u16_at bytes (end + 10);
     clen \<leftarrow> u32_at bytes (end + 12);
     coffset \<leftarrow> u32_at bytes (end + 16);
     if count = U16_SENTINEL \<or> clen = U32_SENTINEL \<or> coffset = U32_SENTINEL then do {
       _ \<leftarrow> assert_that (ZIP64_LOCATOR_LEN \<le> end);
       let locator = end - ZIP64_LOCATOR_LEN;
       signature \<leftarrow> u32_at bytes locator;
       _ \<leftarrow> assert_that (signature = ZIP64_LOCATOR_SIGNATURE);
       zip64_end \<leftarrow> u64_at bytes (locator + 8);
       _ \<leftarrow> assert_that (ZIP64_END_LEN \<le> locator \<and> zip64_end = locator - ZIP64_END_LEN);
       signature \<leftarrow> u32_at bytes zip64_end;
       _ \<leftarrow> assert_that (signature = ZIP64_END_SIGNATURE);
       count \<leftarrow> u64_at bytes (zip64_end + 32);
       clen \<leftarrow> u64_at bytes (zip64_end + 40);
       coffset \<leftarrow> u64_at bytes (zip64_end + 48);
       Some (count, clen, coffset)
     } else Some (count, clen, coffset)
   }"

definition read_archive ::
  "(bytes \<Rightarrow> nat \<Rightarrow> bytes option) \<Rightarrow> bytes \<Rightarrow> ReadEntry list option" where
  "read_archive inflate bytes = do {
     (count, clen, coffset) \<leftarrow> read_end bytes;
     (at, entries) \<leftarrow> read_entries inflate bytes count coffset;
     _ \<leftarrow> assert_that (at = coffset + clen);
     Some entries
   }"

subsection \<open>Fields of concatenated records\<close>

lemma assert_that_Some [simp]: "assert_that b = Some u \<longleftrightarrow> b"
  by (simp add: assert_that_def)

lemma assert_that_bind [simp]: "Option.bind (assert_that b) f = (if b then f () else None)"
  by (simp add: assert_that_def)

lemma read_le_drop: "at \<le> length bs \<Longrightarrow> read_le n bs (at + k) = read_le n (drop at bs) k"
  by (auto simp: read_le_def add.commute)

lemma read_le_here [simp]: "read_le n (le_bytes n v @ bs) 0 = Some (v mod 256 ^ n)"
  by (simp add: read_le_def le_nat_le_bytes)

lemma read_le_here_end [simp]: "read_le n (le_bytes n v) 0 = Some (v mod 256 ^ n)"
  using read_le_here [of n v "[]"] by simp

lemma read_le_skip [simp]: "length as \<le> k \<Longrightarrow> read_le n (as @ bs) k = read_le n bs (k - length as)"
  by (auto simp: read_le_def)

lemma slice_drop: "at \<le> length bs \<Longrightarrow> slice bs (at + a) (at + b) = slice (drop at bs) a b"
  by (auto simp: slice_def add.commute)

lemma slice_skip [simp]:
  "length as \<le> a \<Longrightarrow> a \<le> b \<Longrightarrow> slice (as @ bs) a b = slice bs (a - length as) (b - length as)"
  by (auto simp: slice_def)

lemma slice_here [simp]: "n = length as \<Longrightarrow> slice (as @ bs) 0 n = Some as"
  by (simp add: slice_def)

subsection \<open>The central directory\<close>

declare read_extras.simps [simp del]

lemmas zip_ids = LOCAL_HEADER_SIGNATURE_def DATA_DESCRIPTOR_SIGNATURE_def
  CENTRAL_HEADER_SIGNATURE_def ZIP64_END_SIGNATURE_def ZIP64_LOCATOR_SIGNATURE_def
  END_SIGNATURE_def FLAG_DATA_DESCRIPTOR_def FLAG_UTF8_def METHOD_STORED_def METHOD_DEFLATED_def
  VERSION_DEFAULT_def VERSION_ZIP64_def CREATOR_UNIX_def EXTENDED_TIMESTAMP_ID_def
  ZIP64_EXTRA_ID_def

lemmas field_at_defs = u16_at_def u32_at_def u64_at_def

text \<open>A field read relative to the start of a record.\<close>

lemma read_le_rel:
  assumes "drop at bytes = record" "at \<le> length bytes"
  shows "read_le n bytes at = read_le n record 0" "read_le n bytes (at + k) = read_le n record k"
  using assms read_le_drop [of at bytes n 0] read_le_drop [of at bytes n k] by simp_all

lemma drop_further: "drop at bs = as @ cs \<Longrightarrow> drop (at + length as) bs = cs"
  by (metis add.commute append_eq_conv_conj drop_drop)

lemma at_further:
  "drop at bs = as @ cs \<Longrightarrow> at \<le> length bs \<Longrightarrow> at + length as \<le> length bs"
  by (metis le_add1 length_append length_drop le_diff_conv2 add.commute)

lemma read_extras_timestamp:
  assumes "drop extra bytes = put_timestamp_extra mt @ rest" "extra \<le> length bytes"
    "extra + length (put_timestamp_extra mt) \<le> extra_end"
  shows "read_extras bytes extra extra_end st =
    read_extras bytes (extra + length (put_timestamp_extra mt)) extra_end st"
proof (cases mt)
  case None
  then show ?thesis by (simp add: put_timestamp_extra_def)
next
  case (Some t)
  obtain a b c z where st: "st = (a, b, c, z)" by (cases st)
  note r = read_le_rel [OF assms(1,2)]
  show ?thesis using assms(3) Some unfolding st
    by (subst read_extras.simps)
      (simp add: r field_at_defs put_timestamp_extra_def zip_ids del: add_2_eq_Suc')
qed

definition zip64_extra :: "ZipEntry \<Rightarrow> nat \<Rightarrow> bytes" where
  "zip64_extra e sz =
     (if central_zip64_fields e \<noteq> 0
      then le_bytes 2 ZIP64_EXTRA_ID @ le_bytes 2 (8 * central_zip64_fields e)
           @ (if zip64_sizes e then le_bytes 8 sz @ le_bytes 8 (ze_compressed e) else [])
           @ (if zip64_offset e then le_bytes 8 (ze_offset e) else [])
      else [])"

lemma length_zip64_extra:
  "length (zip64_extra e sz) =
     (if central_zip64_fields e = 0 then 0 else 4 + 8 * central_zip64_fields e)"
  by (simp add: zip64_extra_def central_zip64_fields_def)

text \<open>The three classic fields with their sentinels, and what the extra field makes of them.\<close>

lemma read_extras_zip64:
  assumes "drop extra bytes = zip64_extra e sz @ rest" "extra \<le> length bytes"
    "extra_end = extra + length (zip64_extra e sz)"
    "sz < 2 ^ 64" "ze_compressed e < 2 ^ 64" "ze_offset e < 2 ^ 64"
    "\<not> zip64_sizes e \<Longrightarrow> sz < U32_SENTINEL \<and> ze_compressed e < U32_SENTINEL"
  shows "read_extras bytes extra extra_end
       (if zip64_sizes e then 0xFFFFFFFF else sz,
        if zip64_sizes e then 0xFFFFFFFF else ze_compressed e,
        if zip64_offset e then 0xFFFFFFFF else ze_offset e, False) =
     Some (extra_end, sz, ze_compressed e, ze_offset e, zip64_sizes e \<or> zip64_offset e)"
proof -
  note r = read_le_rel [OF assms(1,2)]
  have stop: "read_extras bytes extra_end extra_end st = Some (extra_end, st)" for st
    by (cases st) (simp add: read_extras.simps)
  show ?thesis
  proof (cases "central_zip64_fields e = 0")
    case True
    then show ?thesis using assms(3) stop
      by (simp add: zip64_extra_def central_zip64_fields_def split: if_splits)
  next
    case False
    have len: "extra_end = extra + (4 + 8 * central_zip64_fields e)"
      using False assms(3) by (simp add: length_zip64_extra)
    show ?thesis
      using False assms(4-7) stop unfolding len
      by (subst read_extras.simps, cases "zip64_sizes e"; cases "zip64_offset e")
        (simp_all add: r field_at_defs zip64_extra_def central_zip64_fields_def zip64_field_def
          zip_ids zip_sentinels zip64_offset_def add.assoc del: add_2_eq_Suc')
  qed
qed

text \<open>What holds of every entry once it has been written.\<close>

definition stored_size :: "ZipEntry \<Rightarrow> nat" where
  "stored_size e = (case ze_size e of None \<Rightarrow> 0 | Some sz \<Rightarrow> sz)"

definition entry_ok :: "ZipEntry \<Rightarrow> bool" where
  "entry_ok e \<longleftrightarrow>
     ze_method e \<noteq> Candidate \<and> list_all is_char (ze_name e) \<and> str_len (ze_name e) \<le> 65535
     \<and> ze_name e \<noteq> [] \<and> (ze_size e = None \<longleftrightarrow> last (ze_name e) = 47)
     \<and> (ze_size e = None \<longrightarrow> ze_method e = Stored)
     \<and> (ze_method e = Stored \<longrightarrow> ze_compressed e = stored_size e)
     \<and> (zip64_sizes e \<or> ze_compressed e < U32_SENTINEL)
     \<and> ze_offset e < 2 ^ 64 \<and> stored_size e < 2 ^ 64 \<and> ze_compressed e < 2 ^ 64"

definition central_record :: "ZipEntry \<Rightarrow> nat \<Rightarrow> CentralRecord" where
  "central_record e next =
     \<lparr> cr_version_needed = ze_version e, cr_flags = ze_flags e, cr_method = method_code e,
       cr_crc = unat (ze_crc e), cr_size = stored_size e, cr_compressed = ze_compressed e,
       cr_offset = ze_offset e, cr_name = ze_name e, cr_next = next \<rparr>"

lemma zip64_sizes_size: "\<not> zip64_sizes e \<Longrightarrow> stored_size e < U32_SENTINEL"
  by (cases "ze_method e"; cases "ze_size e")
    (auto simp: zip64_sizes_def stored_size_def deflated_may_overflow_def saturating_add_def
      zip_sentinels)

lemma ze_version_cases: "ze_version e = 45 \<or> ze_version e = 20"
  by (simp add: ze_version_def zip_ids)

lemma ze_flags_cases: "ze_flags e = (if ze_size e = None then 2048 else 2056)"
  by (simp add: ze_flags_def zip_ids)

lemma method_code_cases: "method_code e = 0 \<or> method_code e = 8"
  by (simp add: method_code_def zip_ids)

lemma central_extra_len_le: "central_extra_len e \<le> 37"
  by (simp add: central_extra_len_def central_zip64_fields_def timestamp_extra_len_def zip_lens Let_def)

lemma local_extra_len_le: "local_extra_len e \<le> 29"
  by (simp add: local_extra_len_def timestamp_extra_len_def zip_lens)

lemma unat_u32: "unat (c :: u32) < 4294967296"
  using unsigned_less [of c, where 'a = nat] by simp

definition central_fixed :: "ZipEntry \<Rightarrow> bytes" where
  "central_fixed e =
      le_bytes 4 CENTRAL_HEADER_SIGNATURE @ le_bytes 2 (CREATOR_UNIX OR ze_version e)
      @ le_bytes 2 (ze_version e) @ le_bytes 2 (ze_flags e) @ le_bytes 2 (method_code e)
      @ le_bytes 2 (ze_dos_time e) @ le_bytes 2 (ze_dos_date e) @ le_bytes 4 (unat (ze_crc e))
      @ le_bytes 4 (if zip64_sizes e then 0xFFFFFFFF else ze_compressed e)
      @ le_bytes 4 (if zip64_sizes e then 0xFFFFFFFF else stored_size e)
      @ le_bytes 2 (str_len (ze_name e)) @ le_bytes 2 (central_extra_len e)
      @ le_bytes 2 0 @ le_bytes 2 0 @ le_bytes 2 0
      @ le_bytes 4 (if ze_size e \<noteq> None then FILE_ATTRIBUTES else DIRECTORY_ATTRIBUTES)
      @ le_bytes 4 (if zip64_offset e then 0xFFFFFFFF else ze_offset e)"

lemma central_header_split:
  "central_header e = central_fixed e @ str_bytes (ze_name e)
     @ put_timestamp_extra (ze_mtime e) @ zip64_extra e (stored_size e)"
  by (simp add: central_header_def central_fixed_def zip64_extra_def stored_size_def Let_def)

lemma length_central_fixed [simp]: "length (central_fixed e) = 46"
  by (simp add: central_fixed_def)

lemma read_central_header:
  assumes "drop at bytes = central_header e @ rest" "at \<le> length bytes" "entry_ok e"
  shows "read_central bytes at = Some (central_record e (at + central_len e))"
proof -
  let ?n = "str_len (ze_name e)" and ?x = "central_extra_len e"
  have fixed: "drop at bytes = central_fixed e @ str_bytes (ze_name e) @ put_timestamp_extra (ze_mtime e)
      @ zip64_extra e (stored_size e) @ rest"
    using assms(1) by (simp add: central_header_split)
  note r = read_le_rel [OF fixed assms(2)]
  note d1 = drop_further [OF fixed] at_further [OF fixed assms(2)]
  note d2 = drop_further [OF d1(1)] at_further [OF d1]
  note d3 = drop_further [OF d2(1)] at_further [OF d2]
  have ok: "list_all is_char (ze_name e)" "?n \<le> 65535" "ze_offset e < 2 ^ 64"
    "stored_size e < 2 ^ 64" "ze_compressed e < 2 ^ 64"
    "\<not> zip64_sizes e \<Longrightarrow> stored_size e < U32_SENTINEL \<and> ze_compressed e < U32_SENTINEL"
    using assms(3) zip64_sizes_size [of e] by (auto simp: entry_ok_def)
  have x: "?x = length (put_timestamp_extra (ze_mtime e)) + length (zip64_extra e (stored_size e))"
    by (simp add: central_extra_len_def length_put_timestamp_extra length_zip64_extra Let_def)
  have nm: "slice bytes (at + 46) (at + 46 + ?n) = Some (str_bytes (ze_name e))"
    using slice_drop [OF d1(2), of 0 ?n] d1(1) by simp
  let ?st = "(if zip64_sizes e then 0xFFFFFFFF else stored_size e,
        if zip64_sizes e then 0xFFFFFFFF else ze_compressed e,
        if zip64_offset e then 0xFFFFFFFF else ze_offset e, False)"
  have "read_extras bytes (at + 46 + ?n) (at + 46 + ?n + ?x) ?st =
      read_extras bytes (at + 46 + ?n + length (put_timestamp_extra (ze_mtime e))) (at + 46 + ?n + ?x) ?st"
    using read_extras_timestamp [OF d2] x by simp
  also have "\<dots> = Some (at + 46 + ?n + ?x, stored_size e, ze_compressed e, ze_offset e,
      zip64_sizes e \<or> zip64_offset e)"
    using read_extras_zip64 [OF d3 _ ok(4,5,3,6)] x by (simp add: add.assoc)
  finally have ex: "read_extras bytes (at + 46 + ?n) (at + 46 + ?n + ?x) ?st = \<dots>" .
  have f: "read_le 4 bytes at = Some CENTRAL_HEADER_SIGNATURE"
    "read_le 2 bytes (at + 4) = Some (CREATOR_UNIX OR ze_version e)"
    "read_le 2 bytes (at + 6) = Some (ze_version e)"
    "read_le 2 bytes (at + 8) = Some (ze_flags e)"
    "read_le 2 bytes (at + 10) = Some (method_code e)"
    "read_le 4 bytes (at + 16) = Some (unat (ze_crc e))"
    "read_le 2 bytes (at + 28) = Some ?n" "read_le 2 bytes (at + 30) = Some ?x"
    using ok(2) ze_version_cases [of e] method_code_cases [of e] central_extra_len_le [of e]
      unat_u32 [of "ze_crc e"]
    by (auto simp: r central_fixed_def zip_ids ze_flags_cases)
  have g: "read_le 4 bytes (at + 20) = Some (if zip64_sizes e then 0xFFFFFFFF else ze_compressed e)"
    "read_le 4 bytes (at + 24) = Some (if zip64_sizes e then 0xFFFFFFFF else stored_size e)"
    "read_le 4 bytes (at + 42) = Some (if zip64_offset e then 0xFFFFFFFF else ze_offset e)"
    using ok(6) by (auto simp: r central_fixed_def zip_sentinels zip64_offset_def)
  show ?thesis
    using assms(3) method_code_cases [of e]
    unfolding read_central_def field_at_defs f g bind.bind_lunit nm from_utf8_str_bytes [OF ok(1)] ex
    by (cases "ze_method e")
      (auto simp: central_record_def central_len_def zip_lens zip_ids ze_flags_cases
        ze_version_def entry_ok_def method_code_def)
qed

subsection \<open>Local headers and data\<close>

definition entry_content ::
  "(bytes \<Rightarrow> nat \<Rightarrow> bytes option) \<Rightarrow> ZipEntry \<Rightarrow> bytes \<Rightarrow> bytes \<Rightarrow> bool" where
  "entry_content inflate e raw content \<longleftrightarrow>
     (if ze_method e = Deflated then inflate raw (stored_size e) = Some content else raw = content)
     \<and> ze_crc e = reference_crc content \<and> ze_compressed e = length raw"

lemma read_data_ok:
  assumes "drop start bytes = raw @ data_descriptor e sz @ rest" "start \<le> length bytes"
    "entry_ok e" "ze_size e = Some sz" "entry_content inflate e raw content"
  shows "read_data inflate bytes (central_record e next) start (zip64_sizes e) = Some content"
proof -
  note d = drop_further [OF assms(1)] at_further [OF assms(1,2)]
  note r = read_le_rel [OF d]
  have c: "ze_compressed e = length raw" "unat (reference_crc content) = unat (ze_crc e)"
    "if ze_method e = Deflated then inflate raw sz = Some content else raw = content"
    using assms(4,5) by (auto simp: entry_content_def stored_size_def)
  have s: "slice bytes start (start + length raw) = Some raw"
    using slice_drop [OF assms(2), of 0 "length raw"] assms(1) by simp
  have b: "sz < 2 ^ 64" "length raw < 2 ^ 64"
    "\<not> zip64_sizes e \<Longrightarrow> sz < U32_SENTINEL \<and> length raw < U32_SENTINEL"
    using assms(3,4) c(1) zip64_sizes_size [of e] by (auto simp: entry_ok_def stored_size_def)
  have f: "read_le 4 bytes (start + length raw) = Some DATA_DESCRIPTOR_SIGNATURE"
    "read_le 4 bytes (start + length raw + 4) = Some (unat (ze_crc e))"
    "(if zip64_sizes e then read_le 8 else read_le 4) bytes (start + length raw + 8) =
       Some (length raw)"
    "(if zip64_sizes e then read_le 8 bytes (start + length raw + 16)
      else read_le 4 bytes (start + length raw + 12)) = Some sz"
    using b unat_u32 [of "ze_crc e"]
    by (auto simp: r data_descriptor_def zip_ids zip_sentinels c(1))
  show ?thesis
    using c(2,3) assms(4) f s unfolding read_data_def field_at_defs
    by (cases "zip64_sizes e"; cases "ze_method e = Deflated")
      (simp_all add: central_record_def c(1) stored_size_def method_code_def zip_ids)
qed

definition local_fixed :: "ZipEntry \<Rightarrow> bytes" where
  "local_fixed e =
     (let size_field = (if zip64_sizes e then 0xFFFFFFFF else 0) in
      le_bytes 4 LOCAL_HEADER_SIGNATURE @ le_bytes 2 (ze_version e) @ le_bytes 2 (ze_flags e)
      @ le_bytes 2 (method_code e) @ le_bytes 2 (ze_dos_time e) @ le_bytes 2 (ze_dos_date e)
      @ le_bytes 4 0 @ le_bytes 4 size_field @ le_bytes 4 size_field
      @ le_bytes 2 (str_len (ze_name e)) @ le_bytes 2 (local_extra_len e))"

definition local_extra :: "ZipEntry \<Rightarrow> bytes" where
  "local_extra e = put_timestamp_extra (ze_mtime e)
      @ (if zip64_sizes e
         then le_bytes 2 ZIP64_EXTRA_ID @ le_bytes 2 16 @ le_bytes 8 0 @ le_bytes 8 0 else [])"

lemma local_header_split:
  "local_header e = local_fixed e @ str_bytes (ze_name e) @ local_extra e"
  "length (local_fixed e) = 30" "length (local_extra e) = local_extra_len e"
  by (simp_all add: local_header_def local_fixed_def local_extra_def Let_def
      length_put_timestamp_extra local_extra_len_def)

lemma read_local_ok:
  assumes "drop (ze_offset e) bytes = entry_bytes e fd @ rest" "ze_offset e \<le> length bytes"
    "entry_ok e" "ze_size e \<noteq> None \<Longrightarrow> entry_content inflate e (snd (snd fd)) content"
  shows "read_local inflate bytes (central_record e next) =
     Some \<lparr> re_name = ze_name e, re_method = method_code e,
            re_data = (if ze_size e = None then None else Some content) \<rparr>"
proof -
  define tl where "tl = (case ze_size e of None \<Rightarrow> rest
    | Some sz \<Rightarrow> snd (snd fd) @ data_descriptor e sz @ rest)"
  have l: "drop (ze_offset e) bytes = local_fixed e @ str_bytes (ze_name e) @ local_extra e @ tl"
    using assms(1) by (simp add: entry_bytes_def tl_def local_header_split split: option.splits)
  note r = read_le_rel [OF l assms(2)]
  note d1 = drop_further [OF l] at_further [OF l assms(2)]
  note d2 = drop_further [OF d1(1)] at_further [OF d1]
  note d3 = drop_further [OF d2(1)] at_further [OF d2]
  let ?n = "str_len (ze_name e)" and ?x = "local_extra_len e" and ?l = "ze_offset e"
  have ok: "?n \<le> 65535" using assms(3) by (simp add: entry_ok_def)
  have nm: "slice bytes (?l + 30) (?l + 30 + ?n) = Some (str_bytes (ze_name e))"
    using slice_drop [OF d1(2), of 0 ?n] d1(1) by (simp add: local_header_split(2))
  have f: "read_le 4 bytes ?l = Some LOCAL_HEADER_SIGNATURE"
    "read_le 2 bytes (?l + 4) = Some (ze_version e)" "read_le 2 bytes (?l + 6) = Some (ze_flags e)"
    "read_le 2 bytes (?l + 8) = Some (method_code e)"
    "read_le 4 bytes (?l + 18) = Some (if zip64_sizes e then 0xFFFFFFFF else 0)"
    "read_le 2 bytes (?l + 26) = Some ?n" "read_le 2 bytes (?l + 28) = Some ?x"
    using ok ze_version_cases [of e] method_code_cases [of e] local_extra_len_le [of e]
    by (auto simp: r local_fixed_def zip_ids ze_flags_cases Let_def)
  have z: "(20 \<le> ?x \<and> (if zip64_sizes e then 0xFFFFFFFF else (0 :: nat)) = 0xFFFFFFFF) = zip64_sizes e"
    by (simp add: local_extra_len_def)
  have dt: "read_data inflate bytes (central_record e next) (?l + 30 + ?n + ?x) (zip64_sizes e)
      = Some content" if "ze_size e = Some sz" for sz
    using read_data_ok [OF _ _ assms(3) that assms(4), where start = "?l + 30 + ?n + ?x"] that d3
    by (simp add: local_header_split(2,3) tl_def)
  show ?thesis
  proof (cases "ze_size e")
    case None
    then show ?thesis using assms(3) unfolding read_local_def field_at_defs Let_def
      by (simp add: central_record_def f nm zip_ids ze_flags_cases entry_ok_def method_code_def
          stored_size_def ze_version_def zip64_sizes_def)
  next
    case (Some sz)
    have "last (ze_name e) \<noteq> 47" using assms(3) Some by (simp add: entry_ok_def)
    then show ?thesis unfolding read_local_def field_at_defs Let_def
      using dt [OF Some] Some unfolding z
      by (simp add: f nm central_record_def z zip_ids ze_flags_cases ze_version_def)
  qed
qed

subsection \<open>The end records\<close>

lemma read_end_ok:
  assumes "bytes = pre @ write_end p" "zp_central_offset p + zp_central_len p = length pre"
    "length pre < 2 ^ 64" "length (zp_entries p) < 2 ^ 64"
  shows "read_end bytes = Some (length (zp_entries p), zp_central_len p, zp_central_offset p)"
proof -
  define classic where "classic =
      le_bytes 4 END_SIGNATURE @ le_bytes 2 0 @ le_bytes 2 0
      @ le_bytes 2 (min (length (zp_entries p)) U16_SENTINEL)
      @ le_bytes 2 (min (length (zp_entries p)) U16_SENTINEL)
      @ le_bytes 4 (min (zp_central_len p) U32_SENTINEL)
      @ le_bytes 4 (min (zp_central_offset p) U32_SENTINEL) @ le_bytes 2 0"
  define zip64 where "zip64 =
     (if needs_zip64_end p then
         le_bytes 4 ZIP64_END_SIGNATURE @ le_bytes 8 (ZIP64_END_LEN - 12)
         @ le_bytes 2 (CREATOR_UNIX OR VERSION_ZIP64) @ le_bytes 2 VERSION_ZIP64
         @ le_bytes 4 0 @ le_bytes 4 0 @ le_bytes 8 (length (zp_entries p))
         @ le_bytes 8 (length (zp_entries p))
         @ le_bytes 8 (zp_central_len p) @ le_bytes 8 (zp_central_offset p)
         @ le_bytes 4 ZIP64_LOCATOR_SIGNATURE @ le_bytes 4 0
         @ le_bytes 8 (zp_central_offset p + zp_central_len p) @ le_bytes 4 1
      else [])"
  have w: "bytes = pre @ zip64 @ classic" and lc: "length classic = 22"
    and lz: "length zip64 = (if needs_zip64_end p then 76 else 0)"
    using assms(1) by (simp_all add: write_end_def classic_def zip64_def Let_def)
  let ?stop = "length pre + length zip64"
  have e: "drop ?stop bytes = classic" "?stop \<le> length bytes" and le: "length bytes = ?stop + 22"
    using w lc by simp_all
  note r = read_le_rel [OF e]
  have f: "read_le 4 bytes ?stop = Some END_SIGNATURE" "read_le 2 bytes (?stop + 20) = Some 0"
    "read_le 2 bytes (?stop + 10) = Some (min (length (zp_entries p)) U16_SENTINEL)"
    "read_le 4 bytes (?stop + 12) = Some (min (zp_central_len p) U32_SENTINEL)"
    "read_le 4 bytes (?stop + 16) = Some (min (zp_central_offset p) U32_SENTINEL)"
    by (auto simp: r classic_def zip_ids zip_sentinels)
  have need: "(min (length (zp_entries p)) U16_SENTINEL = U16_SENTINEL
      \<or> min (zp_central_len p) U32_SENTINEL = U32_SENTINEL
      \<or> min (zp_central_offset p) U32_SENTINEL = U32_SENTINEL) \<longleftrightarrow> needs_zip64_end p"
    by (auto simp: needs_zip64_end_def min_def)
  have ls: "length bytes - END_LEN = ?stop" "END_LEN \<le> length bytes" using le by (simp_all add: zip_lens)
  show ?thesis
  proof (cases "needs_zip64_end p")
    case False
    then show ?thesis unfolding read_end_def field_at_defs Let_def ls(1)
      using ls(2) by (simp add: f need) (auto simp: needs_zip64_end_def)
  next
    case True
    have b: "zp_central_len p < 2 ^ 64" "zp_central_offset p < 2 ^ 64" using assms(2,3) by linarith+
    have s: "drop (length pre) bytes = zip64 @ classic" "length pre \<le> length bytes" using w by simp_all
    note q = read_le_rel [OF s]
    have loc: "?stop - ZIP64_LOCATOR_LEN = length pre + 56" "ZIP64_LOCATOR_LEN \<le> ?stop"
      "length pre + 56 - ZIP64_END_LEN = length pre" "ZIP64_END_LEN \<le> length pre + 56"
      using True lz by (simp_all add: zip_lens)
    have g: "read_le 4 bytes (length pre + 56) = Some ZIP64_LOCATOR_SIGNATURE"
      "read_le 8 bytes (length pre + 56 + 8) = Some (length pre)"
      "read_le 4 bytes (length pre) = Some ZIP64_END_SIGNATURE"
      "read_le 8 bytes (length pre + 32) = Some (length (zp_entries p))"
      "read_le 8 bytes (length pre + 40) = Some (zp_central_len p)"
      "read_le 8 bytes (length pre + 48) = Some (zp_central_offset p)"
      using True b assms(2-4) by (auto simp: q add.assoc zip64_def zip_ids)
    show ?thesis unfolding read_end_def field_at_defs Let_def ls(1) loc
      using ls(2) loc True need by (simp only: f g loc bind.bind_lunit assert_that_bind if_True simp_thms)
  qed
qed

subsection \<open>The whole archive\<close>

lemma read_entries_ok:
  assumes "drop at bytes = concat (map central_header es) @ rest" "at \<le> length bytes"
    "list_all2 (\<lambda>e v. entry_ok e \<and> (\<forall>n. read_local inflate bytes (central_record e n) = Some v)) es vs"
  shows "read_entries inflate bytes (length es) at = Some (at + sum_list (map central_len es), vs)"
  using assms
proof (induction es arbitrary: at vs)
  case Nil
  then show ?case by simp
next
  case (Cons e es)
  then obtain v vs' where v: "vs = v # vs'" "entry_ok e"
    "\<And>n. read_local inflate bytes (central_record e n) = Some v"
    "list_all2 (\<lambda>e v. entry_ok e \<and> (\<forall>n. read_local inflate bytes (central_record e n) = Some v)) es vs'"
    by (auto simp: list_all2_Cons1)
  have d: "drop at bytes = central_header e @ concat (map central_header es) @ rest"
    using Cons.prems(1) by simp
  have "read_central bytes at = Some (central_record e (at + central_len e))"
    using read_central_header [OF d Cons.prems(2) v(2)] .
  moreover have "read_entries inflate bytes (length es) (at + central_len e) =
      Some (at + central_len e + sum_list (map central_len es), vs')"
    using Cons.IH [OF _ _ v(4)] drop_further [OF d] at_further [OF d Cons.prems(2)] by simp
  ultimately show ?case using v(1,3) by (simp add: central_record_def add.assoc)
qed

text \<open>
  What the encoder of a planned entry feeds: the CRC of the content and, for a candidate it chose
  to deflate, a stream that inflates to the content; the content itself otherwise.
\<close>

definition encodes :: "(bytes \<Rightarrow> nat \<Rightarrow> bytes option) \<Rightarrow> ZipEntry \<Rightarrow> feed \<Rightarrow> bytes \<Rightarrow> bool" where
  "encodes inflate e fd content =
     (case fd of (deflate, crc, raw) \<Rightarrow>
        crc = reference_crc content
        \<and> (if deflate \<and> ze_method e = Candidate then inflate raw (stored_size e) = Some content
           else raw = content))"

definition view :: "ZipEntry \<Rightarrow> bytes \<Rightarrow> ReadEntry" where
  "view e content = \<lparr> re_name = ze_name e, re_method = method_code e,
     re_data = (if ze_size e = None then None else Some content) \<rparr>"

lemma written_entry_fields:
  "ze_name (written_entry e pos fd) = ze_name e" "ze_size (written_entry e pos fd) = ze_size e"
  "ze_method (written_entry e pos fd) \<noteq> Candidate"
  by (simp_all add: written_entry_def split: prod.split)

lemma plan_entry_name:
  assumes "plan_entry cal compression off source = Some e" "list_all is_char (src_name source)"
  shows "list_all is_char (ze_name e)" "str_len (ze_name e) \<le> 65535" "ze_name e \<noteq> []"
    "ze_size e = None \<longleftrightarrow> last (ze_name e) = 47" "ze_size e = src_size source"
    "ze_name e = (if src_size source = None then src_name source @ [47] else src_name source)"
    "ze_size e = None \<Longrightarrow> ze_method e = Stored" "ze_compressed e = 0" "ze_method e \<noteq> Deflated"
  using assms
  by (auto simp: plan_entry_def plan_method_def Let_def is_char_def
      split: if_splits prod.splits option.splits)

lemma written_entry_ok:
  assumes "plan_entry cal compression off source = Some e0" "entry_end off e0 = Some n"
    "list_all is_char (src_name source)" "descriptor_ok (written_entry e0 pos fd)" "pos < 2 ^ 64"
  shows "entry_ok (written_entry e0 pos fd)"
proof -
  note p = plan_entry_name [OF assms(1,3)]
  obtain d c raw where fd: "fd = (d, c, raw)" by (cases fd)
  have sz: "stored_size e0 < 2 ^ 64"
    using assms(2) by (cases "ze_size e0") (simp_all add: entry_end_Some stored_size_def)
  show ?thesis
  proof (cases "ze_size e0")
    case None
    then show ?thesis using p assms(5)
      by (simp add: entry_ok_def written_entry_def fd settle_method_def stored_size_def
          zip64_sizes_def zip_sentinels)
  next
    case (Some s)
    then show ?thesis using p assms(4,5) sz written_entry_fields [of e0 pos fd]
      by (auto simp: entry_ok_def descriptor_ok_def stored_size_def)
  qed
qed

lemma written_entry_content:
  assumes "encodes inflate e0 fd content" "ze_size e0 \<noteq> None" "ze_method e0 \<noteq> Deflated"
  shows "entry_content inflate (written_entry e0 pos fd) (snd (snd fd)) content"
  using assms by (auto simp: encodes_def entry_content_def written_entry_def settle_method_def
      stored_size_def split: prod.splits if_splits)

lemma central_directory_concat:
  "central_directory q = concat (map central_header (zp_entries q))"
proof -
  have "map (write_central_header q) [0..<length (zp_entries q)] = map central_header (zp_entries q)"
    by (rule nth_equalityI) (simp_all add: write_central_header_def)
  then show ?thesis by (simp add: central_directory_def)
qed

lemma length_le_sum_central: "length es \<le> sum_list (map central_len es)"
  by (induction es) (simp_all add: central_len_def zip_lens)

lemma laid_out_drop:
  "laid_out 0 bs e fd \<Longrightarrow> drop (ze_offset e) bs = entry_bytes e fd
     @ drop (ze_offset e + length (entry_bytes e fd)) bs"
  unfolding laid_out_def by (metis append_take_drop_id drop_drop add.commute diff_zero)

text \<open>Every entry of a written archive reads back from its local header.\<close>

lemma written_entry_reads:
  assumes "ZipPlan_new cal sources compression = Some p" "length feeds = length sources"
    "k < length sources" "list_all is_char (src_name (sources ! k))"
    "encodes inflate (zp_entries p ! k) (feeds ! k) content"
    "write_archive feeds p = Ok (q, out)"
  shows "entry_ok (zp_entries q ! k)
    \<and> (\<forall>n. read_local inflate out (central_record (zp_entries q ! k) n) =
          Some (view (zp_entries q ! k) content))
    \<and> re_name (view (zp_entries q ! k) content) =
        (if src_size (sources ! k) = None then src_name (sources ! k) @ [47] else src_name (sources ! k))
    \<and> (ze_size (zp_entries q ! k) = None \<longleftrightarrow> src_size (sources ! k) = None)"
proof -
  from assms(1) obtain
    pl: "plan_entries cal compression 0 sources = Some (zp_entries p, zp_central_offset p)" and
    p0: "zp_position p = 0" by (rule ZipPlan_new_Some)
  from plan_entries_nth [OF pl assms(3)] obtain off n where
    len: "length (zp_entries p) = length sources" and
    e0: "plan_entry cal compression off (sources ! k) = Some (zp_entries p ! k)"
        "entry_end off (zp_entries p ! k) = Some n" by blast
  have lf: "length feeds = length (zp_entries p)" "0 + length feeds = length (zp_entries p)"
    "k < length feeds" using len assms(2,3) by simp_all
  obtain p1 body where o: "write_entries feeds 0 p = Ok (p1, body)" "finish_entries p1 = Ok q"
    "out = body @ central_directory q @ write_end q"
    "zp_position p1 = length body" "zp_entries q = zp_entries p1"
    "zp_central_offset q = length body" "zp_central_len q = length (central_directory q)"
    "zp_len q = length out" "zp_variable p1 = zp_variable p" "zp_len p1 = zp_len p"
    by (rule write_archive_Ok [OF assms(6) lf(1) p0])
  from o(2) have lq: "zp_len q < 2 ^ 64" by (rule finish_entries_Ok)
  let ?e = "zp_entries q ! k"
  obtain pos where w: "?e = written_entry (zp_entries p ! k) pos (feeds ! k)" "descriptor_ok ?e"
    using write_entries_written [OF o(1) lf(2,3)] o(5) by auto
  have "22 \<le> end_len q" by (simp add: end_len_def zip_lens)
  with o(3,4,8) lq have "zp_position p1 \<noteq> u64_max" by simp
  with write_entries_layout [OF o(1) lf(2) _ lf(3)] p0 o(5)
  have lay: "laid_out 0 body ?e (feeds ! k)" by simp
  then have lay': "laid_out 0 out ?e (feeds ! k)" unfolding o(3) by (rule laid_out_append)
  have "pos < 2 ^ 64" using lay o(3,8) lq w(1) by (simp add: laid_out_def)
  then have ok: "entry_ok ?e" using written_entry_ok [OF e0 assms(4)] w by metis
  note nm = plan_entry_name [OF e0(1) assms(4)]
  have ct: "ze_size ?e \<noteq> None \<Longrightarrow> entry_content inflate ?e (snd (snd (feeds ! k))) content"
    unfolding w(1) using written_entry_content [OF assms(5)] nm(9) by simp
  have "ze_offset ?e \<le> length out" using lay' by (simp add: laid_out_def)
  from read_local_ok [OF laid_out_drop [OF lay'] this ok ct]
  have "\<forall>m. read_local inflate out (central_record ?e m) = Some (view ?e content)"
    by (simp add: view_def)
  moreover have "ze_name ?e = ze_name (zp_entries p ! k)" "ze_size ?e = src_size (sources ! k)"
    using w(1) nm(5) by (simp_all add: written_entry_fields)
  ultimately show ?thesis using ok nm(6) by (simp add: view_def)
qed

subsection \<open>Properties\<close>

lemma archive_reads_back:
  assumes plan: "ZipPlan_new cal sources compression = Some p"
    and names: "\<forall>s \<in> set sources. list_all is_char (src_name s)"
    and lens: "length feeds = length sources" "length contents = length sources"
    and fed: "\<forall>k < length sources. encodes inflate (zp_entries p ! k) (feeds ! k) (contents ! k)"
    and out: "write_archive feeds p = Ok (q, out)"
  shows "\<exists>es. read_archive inflate out = Some es
    \<and> map (\<lambda>e. (re_name e, re_data e)) es =
       map2 (\<lambda>s c. if src_size s = None then (src_name s @ [47], None) else (src_name s, Some c))
         sources contents"
proof -
  from plan obtain
    pl: "plan_entries cal compression 0 sources = Some (zp_entries p, zp_central_offset p)" and
    p0: "zp_position p = 0" by (rule ZipPlan_new_Some)
  have len: "length (zp_entries p) = length sources"
    using plan_entries_nth [OF pl, of 0] pl by (cases sources) auto
  have lf: "length feeds = length (zp_entries p)" "0 + length feeds = length (zp_entries p)"
    using len lens by simp_all
  obtain p1 body where o: "write_entries feeds 0 p = Ok (p1, body)" "finish_entries p1 = Ok q"
    "out = body @ central_directory q @ write_end q"
    "zp_position p1 = length body" "zp_entries q = zp_entries p1"
    "zp_central_offset q = length body" "zp_central_len q = length (central_directory q)"
    "zp_len q = length out" "zp_variable p1 = zp_variable p" "zp_len p1 = zp_len p"
    by (rule write_archive_Ok [OF out lf(1) p0])
  from o(2) have lq: "zp_len q < 2 ^ 64" by (rule finish_entries_Ok)
  have nq: "length (zp_entries q) = length sources"
    using write_entries_keeps [OF o(1) lf(2)] o(5) len by simp
  have "length (zp_entries q) \<le> length (central_directory q)"
    using length_le_sum_central by (simp add: length_central_directory)
  then have re: "read_end out = Some (length (zp_entries q), zp_central_len q, zp_central_offset q)"
    using o(3,6-8) lq by (intro read_end_ok [where pre = "body @ central_directory q"]) simp_all
  note rd = written_entry_reads [OF plan lens(1) _ names [rule_format, OF nth_mem]
      fed [rule_format] out]
  let ?vs = "map2 view (zp_entries q) contents"
  have "list_all2 (\<lambda>e v. entry_ok e \<and> (\<forall>n. read_local inflate out (central_record e n) = Some v))
      (zp_entries q) ?vs"
    using rd nq lens(2) by (simp add: list_all2_conv_all_nth)
  then have "read_entries inflate out (length (zp_entries q)) (length body) =
      Some (length body + sum_list (map central_len (zp_entries q)), ?vs)"
    by (intro read_entries_ok [where rest = "write_end q"])
      (simp_all add: o(3) central_directory_concat)
  then have "read_archive inflate out = Some ?vs"
    by (simp add: read_archive_def re o(6,7) length_central_directory)
  moreover have "map (\<lambda>e. (re_name e, re_data e)) ?vs =
      map2 (\<lambda>s c. if src_size s = None then (src_name s @ [47], None) else (src_name s, Some c))
        sources contents"
    using rd nq lens(2) by (intro nth_equalityI) (auto simp: view_def)
  ultimately show ?thesis by blast
qed

text \<open>
  Archives round-trip. Whenever streaming the plan of some sources succeeds, the repository's
  independent reader, which asserts the agreement of the end records, the central directory,
  the local headers, the data descriptors, the ZIP64 fields, the CRCs and the sizes, accepts
  the bytes and returns every source in order with its name and its content, whichever of
  them were deflated.
\<close>

theorem archive_roundtrip:
  assumes plan: "ZipPlan_new cal sources compression = Some p"
    and names: "\<forall>s \<in> set sources. list_all is_char (src_name s)"
    and lens: "length feeds = length sources" "length contents = length sources"
    and fed: "\<forall>k < length sources. encodes inflate (zp_entries p ! k) (feeds ! k) (contents ! k)"
    and out: "write_archive feeds p = Ok (q, out)"
  shows "\<exists>es. read_archive inflate out = Some es
    \<and> map (\<lambda>e. (re_name e, re_data e)) es =
       map2 (\<lambda>s c. if src_size s = None then (src_name s @ [47], None) else (src_name s, Some c))
         sources contents"
  by (rule archive_reads_back [OF assms])

theorem archive_roundtrip_witness:
  "\<exists>q out es. write_archive sample_feeds sample_plan = Ok (q, out)
     \<and> read_archive (\<lambda>_ _. None) out = Some es
     \<and> map (\<lambda>e. (re_name e, re_data e)) es = [([100, 47], None), ([97], Some [1, 2])]"
proof -
  obtain q out where w: "write_archive sample_feeds sample_plan = Ok (q, out)"
    using sample_write_archive by blast
  have "\<forall>s \<in> set sample_sources. list_all is_char (src_name s)"
    by (simp add: sample_sources_def is_char_def)
  moreover have "length sample_feeds = length sample_sources"
    "length [[], [1, 2 :: u8]] = length sample_sources"
    by (simp_all add: sample_feeds_def sample_sources_def)
  moreover have "\<forall>k < length sample_sources. encodes (\<lambda>_ _. None)
      (zp_entries sample_plan ! k) (sample_feeds ! k) ([[], [1, 2]] ! k)"
    by (auto simp: sample_sources_def sample_plan_def sample_feeds_def encodes_def less_Suc_eq)
  ultimately obtain es where "read_archive (\<lambda>_ _. None) out = Some es"
    "map (\<lambda>e. (re_name e, re_data e)) es =
       map2 (\<lambda>s c. if src_size s = None then (src_name s @ [47], None) else (src_name s, Some c))
         sample_sources [[], [1, 2]]"
    using archive_roundtrip [OF sample_plan_new _ _ _ _ w] by blast
  with w show ?thesis by (auto simp: sample_sources_def)
qed

end
