(* ===== verification/ArchiveRoutes.thy ===== *)
theory ArchiveRoutes
  imports Listing ZipReader
begin

text \<open>
  Archive requests of \<open>src/src/browse.rs\<close>: parsing the repeated \<open>path\<close> parameters, and the layout of a
  folder or selection archive (\<open>archive_layout\<close>, \<open>folder_layout\<close>), whose sources are the input of the
  ZIP plan. Form decoding (crate \<open>url\<close>) is a parameter.
\<close>

subsection \<open>Requests\<close>

definition MAX_ARCHIVE_NAME_BYTES :: nat where "MAX_ARCHIVE_NAME_BYTES = 4 * 1024 * 1024"
definition MAX_ARCHIVE_PATHS :: nat where "MAX_ARCHIVE_PATHS = 1000"
definition MAX_ARCHIVE_QUERY_BYTES :: nat where "MAX_ARCHIVE_QUERY_BYTES = 256 * 1024"

datatype ArchiveRequest =
    Root
  | Single VirtualPath
  | Selection VirtualPath "str list"

fun collect_paths :: "(str \<times> str) list \<Rightarrow> str list \<Rightarrow> AppError + str list" where
  "collect_paths [] vs = Ok vs"
| "collect_paths ((key, value) # kvs) vs =
     (if key \<noteq> lit ''path'' then collect_paths kvs vs
      else if length vs = MAX_ARCHIVE_PATHS then Err TooLarge
      else collect_paths kvs (vs @ [value]))"

definition select_path ::
  "unicode \<Rightarrow> str \<Rightarrow> VirtualPath option \<times> str list \<Rightarrow> AppError + (VirtualPath option \<times> str list)" where
  "select_path u value s =
     (let (parent, names) = s in
      and_then (map_err non_disclosing_fs_error (VirtualPath_parse u value)) (\<lambda>path.
      and_then (ok_or InvalidRequest (split_parent path)) (\<lambda>(path_parent, name).
        case parent of
          Some p \<Rightarrow> if p \<noteq> path_parent then Err InvalidRequest else Ok (parent, names @ [name])
        | None \<Rightarrow> Ok (Some path_parent, names @ [name]))))"

definition parse_archive_query :: "unicode \<Rightarrow> (str \<Rightarrow> (str \<times> str) list) \<Rightarrow> str option \<Rightarrow> AppError + ArchiveRequest" where
  "parse_archive_query u parse_form raw =
     (let raw = (case raw of Some r \<Rightarrow> r | None \<Rightarrow> []) in
      if MAX_ARCHIVE_QUERY_BYTES < str_len raw then Err TooLarge
      else and_then (collect_paths (parse_form raw) []) (\<lambda>vs.
        case vs of
          [] \<Rightarrow> Ok Root
        | [only] \<Rightarrow>
            if only = [] then Ok Root
            else map_err non_disclosing_fs_error (and_then (VirtualPath_parse u only) (\<lambda>p. Ok (Single p)))
        | _ \<Rightarrow>
            and_then (fold_res (select_path u) vs (None, [])) (\<lambda>(parent, names).
              if windows_equal (sort_key utf8 names) then Err InvalidRequest
              else and_then (ok_or InvalidRequest parent) (\<lambda>p. Ok (Selection p names)))))"

subsection \<open>Layouts\<close>

record ArchiveLayout =
  ar_sources :: "ZipSource list"
  ar_base :: VirtualPath
  ar_prefix_len :: nat
  ar_filename :: str

definition open_regular_file :: "os \<Rightarrow> Dir \<Rightarrow> VirtualPath \<Rightarrow> FsErrorCode + Metadata" where
  "open_regular_file os root path =
     and_then (split_file path) (\<lambda>(parents, name).
     and_then (open_directory os root parents) (\<lambda>parent.
     and_then (map_err map_io (os_open_with os parent name)) (\<lambda>metadata.
     and_then (map_err map_io metadata) (\<lambda>m.
     and_then (validate_regular_handle m) (\<lambda>_.
       Ok m)))))"

definition share_metadata :: "os \<Rightarrow> Dir \<Rightarrow> VirtualPath \<Rightarrow> FsErrorCode + EntryMetadata" where
  "share_metadata os root path =
     (case open_regular_file os root path of
        Inr m \<Rightarrow> Ok (entry_metadata m File)
      | Inl e \<Rightarrow>
          if e = UnsupportedEntry then
            and_then (split_file path) (\<lambda>(parents, name).
            and_then (open_directory os root parents) (\<lambda>parent.
            and_then (map_err map_io (os_open_dir os parent name)) (\<lambda>directory.
            and_then (map_err map_io (os_dir_metadata os directory)) (\<lambda>m.
            and_then (classify_metadata m) (\<lambda>kind.
              if kind \<noteq> Directory then Err UnsupportedEntry else Ok (entry_metadata m kind))))))
          else Err e)"

definition item_source :: "str \<Rightarrow> ArchiveItem \<Rightarrow> ZipSource" where
  "item_source before i =
     \<lparr> src_name = before @ ai_relative i, src_size = (if ai_kind i = File then Some (ai_size i) else None),
       src_modified = ai_modified i \<rparr>"

definition folder_layout ::
  "unicode \<Rightarrow> os \<Rightarrow> str \<Rightarrow> Dir \<Rightarrow> VirtualPath \<Rightarrow> ArchiveLimits \<Rightarrow> FsErrorCode + ArchiveLayout" where
  "folder_layout u os share_id root folder limits =
     and_then (archive_items u os root folder limits) (\<lambda>tree.
       let root_name = (case file_name folder of Some n \<Rightarrow> n | None \<Rightarrow> share_id) in
       Ok \<lparr> ar_sources = \<lparr> src_name = root_name, src_size = None, src_modified = at_modified tree \<rparr>
                         # map (item_source (root_name @ [47])) (at_items tree),
            ar_base = folder, ar_prefix_len = str_len root_name + 1, ar_filename = root_name @ lit ''.zip'' \<rparr>)"

definition selection_layout ::
  "unicode \<Rightarrow> os \<Rightarrow> str \<Rightarrow> Dir \<Rightarrow> VirtualPath \<Rightarrow> str list \<Rightarrow> ArchiveLimits \<Rightarrow> FsErrorCode + ArchiveLayout" where
  "selection_layout u os share_id root parent names limits =
     and_then (archive_selection u os root parent names limits) (\<lambda>items.
       let filename = (case names of
                         [only] \<Rightarrow> only
                       | _ \<Rightarrow> (case file_name parent of Some n \<Rightarrow> n | None \<Rightarrow> share_id))
       in Ok \<lparr> ar_sources = map (item_source []) items, ar_base = parent, ar_prefix_len = 0,
               ar_filename = filename @ lit ''.zip'' \<rparr>)"

definition archive_layout ::
  "unicode \<Rightarrow> os \<Rightarrow> str \<Rightarrow> Dir \<Rightarrow> ArchiveRequest \<Rightarrow> ArchiveLimits \<Rightarrow> FsErrorCode + ArchiveLayout" where
  "archive_layout u os share_id root request limits =
     (case request of
        Root \<Rightarrow> folder_layout u os share_id root VirtualPath_root limits
      | Single path \<Rightarrow>
          and_then (share_metadata os root path) (\<lambda>m.
            case split_parent path of
              Some (parent, name) \<Rightarrow>
                if em_kind m \<noteq> Directory then selection_layout u os share_id root parent [name] limits
                else folder_layout u os share_id root path limits
            | None \<Rightarrow> folder_layout u os share_id root path limits)
      | Selection parent names \<Rightarrow> selection_layout u os share_id root parent names limits)"

subsection \<open>Selections\<close>

lemma windows_equal_sorted:
  "sorted (map f xs) \<Longrightarrow> inj_on f (set xs) \<Longrightarrow> \<not> windows_equal xs \<longleftrightarrow> distinct xs"
proof (induction xs rule: windows_equal.induct)
  case (1 x y xs)
  have "x \<noteq> y \<Longrightarrow> x \<notin> set (y # xs)"
  proof
    assume xy: "x \<noteq> y" "x \<in> set (y # xs)"
    then have "f y \<le> f x" "f x \<le> f y" using 1(2) by auto
    then have "f x = f y" by simp
    with 1(3) xy show False by (simp add: inj_on_def)
  qed
  then show ?case using 1 by auto
qed auto

lemma collect_paths_Ok:
  "collect_paths kvs vs = Ok ws \<Longrightarrow> length vs \<le> MAX_ARCHIVE_PATHS \<Longrightarrow>
   length ws \<le> MAX_ARCHIVE_PATHS \<and> set ws \<subseteq> set vs \<union> snd ` set kvs"
  by (induction kvs vs rule: collect_paths.induct) (fastforce split: if_splits)+

lemma select_path_Ok:
  "select_path u v (parent, names) = Ok r \<longleftrightarrow>
   (\<exists>p n. VirtualPath_parse u v = Ok (path_join p n) \<and> (parent = None \<or> parent = Some p) \<and> r = (Some p, names @ [n]))"
  by (cases parent) (auto simp: select_path_def split_parent_Some)

lemma split_on_subset: "p \<in> set (split_on c s) \<Longrightarrow> set p \<subseteq> set s"
proof (induction s arbitrary: p)
  case (Cons x s)
  then show ?case by (cases "split_on c s") (fastforce split: if_splits)+
qed simp

lemma selection_query:
  assumes "parse_archive_query u parse_form raw = Ok (Selection parent names)"
  obtains vs where "collect_paths (parse_form (case raw of Some r \<Rightarrow> r | None \<Rightarrow> [])) [] = Ok vs" "2 \<le> length vs"
    "fold_res (select_path u) vs (None, []) = Ok (Some parent, names)" "\<not> windows_equal (sort_key utf8 names)"
proof -
  let ?raw = "case raw of Some r \<Rightarrow> r | None \<Rightarrow> []"
  from assms obtain vs where vs: "collect_paths (parse_form ?raw) [] = Ok vs"
    by (cases "collect_paths (parse_form ?raw) []") (auto simp: parse_archive_query_def Let_def split: if_splits)
  show ?thesis
  proof (cases "\<exists>a b cs. vs = a # b # cs")
    case True
    then obtain a b cs where l: "vs = a # b # cs" by blast
    with assms vs show ?thesis using that [OF vs]
      by (auto simp: parse_archive_query_def Let_def simp del: fold_res.simps split: if_splits)
  next
    case False
    then have "vs = [] \<or> (\<exists>a. vs = [a])" by (metis list.exhaust)
    with assms vs show ?thesis by (auto simp: parse_archive_query_def Let_def split: if_splits)
  qed
qed

lemma select_paths:
  assumes "fold_res (select_path u) vs (parent, names) = Ok (parent', names')"
  shows "\<exists>ns. names' = names @ ns \<and> (vs \<noteq> [] \<longrightarrow> parent' \<noteq> None) \<and> (\<forall>p. parent = Some p \<longrightarrow> parent' = Some p)
    \<and> (\<forall>p. parent' = Some p \<longrightarrow> list_all2 (\<lambda>v n. VirtualPath_parse u v = Ok (path_join p n)) vs ns)"
  using assms
proof (induction vs arbitrary: parent names)
  case Nil
  then show ?case by simp
next
  case (Cons v vs)
  from Cons.prems obtain p n where v: "VirtualPath_parse u v = Ok (path_join p n)" "parent = None \<or> parent = Some p"
    and rest: "fold_res (select_path u) vs (Some p, names @ [n]) = Ok (parent', names')"
    by (auto simp: select_path_Ok)
  from Cons.IH [OF rest] obtain ns where ns: "names' = names @ n # ns" "parent' = Some p"
    "list_all2 (\<lambda>v n. VirtualPath_parse u v = Ok (path_join p n)) vs ns" by auto
  then show ?case using v by (intro exI [of _ "n # ns"]) auto
qed

text \<open>
  An accepted selection names between 2 and 1000 distinct entries of one folder that lies above
  the depth limit: each name is a plain entry name and joined to that folder it is the path the
  client sent, in the client's order.
\<close>

theorem archive_selection_sound:
  assumes "parse_archive_query u parse_form raw = Ok (Selection parent names)"
    and "\<forall>r. \<forall>kv \<in> set (parse_form r). list_all is_char (snd kv)"
  shows "2 \<le> length names \<and> length names \<le> MAX_ARCHIVE_PATHS \<and> distinct names
    \<and> depth parent < MAX_PATH_DEPTH \<and> (\<forall>n \<in> set names. plain_component n)
    \<and> (\<exists>vs. set vs \<subseteq> snd ` set (parse_form (case raw of Some r \<Rightarrow> r | None \<Rightarrow> []))
         \<and> list_all2 (\<lambda>v n. VirtualPath_parse u v = Ok (path_join parent n)) vs names)"
proof -
  let ?raw = "case raw of Some r \<Rightarrow> r | None \<Rightarrow> []"
  obtain vs where vs: "collect_paths (parse_form ?raw) [] = Ok vs" "2 \<le> length vs"
    "fold_res (select_path u) vs (None, []) = Ok (Some parent, names)" "\<not> windows_equal (sort_key utf8 names)"
    by (rule selection_query [OF assms(1)])
  have paths: "list_all2 (\<lambda>v n. VirtualPath_parse u v = Ok (path_join parent n)) vs names"
    using select_paths [OF vs(3)] by auto
  have sub: "length vs \<le> MAX_ARCHIVE_PATHS" "set vs \<subseteq> snd ` set (parse_form ?raw)"
    using collect_paths_Ok [OF vs(1)] by auto
  have each: "\<exists>v \<in> set vs. VirtualPath_parse u v = Ok (path_join parent n)" if "n \<in> set names" for n
    using paths that by (auto simp: list_all2_conv_all_nth in_set_conv_nth Bex_def)
  have ok: "plain_component n \<and> depth parent < MAX_PATH_DEPTH \<and> list_all is_char n" if "n \<in> set names" for n
  proof -
    from each [OF that] obtain v where v: "v \<in> set vs" "VirtualPath_parse u v = Ok (path_join parent n)" by blast
    then have "split_on 47 v = path_join parent n" "count_list v 47 < MAX_PATH_DEPTH" "EntryName_new u n = Ok n"
      by (auto simp: VirtualPath_parse_def parse_with_depth_Ok path_join_def)
    moreover from this(1) have "length (parent @ [n]) = count_list v 47 + 1" "n \<in> set (split_on 47 v)"
      using length_split_on [of 47 v] by (auto simp: path_join_def)
    moreover have "list_all is_char v" using sub(2) v(1) assms(2) by auto
    ultimately show ?thesis using EntryName_new_plain split_on_subset [of n 47 v]
      by (auto simp: depth_def list_all_iff)
  qed
  have "distinct (sort_key utf8 names)"
  proof (rule iffD1 [OF windows_equal_sorted [of utf8]])
    show "inj_on utf8 (set (sort_key utf8 names))" using ok utf8_codec.enc_inj by (auto simp: inj_on_def)
  qed (use vs(4) in simp_all)
  moreover have "length names = length vs" using paths by (simp add: list_all2_lengthD)
  moreover have "names \<noteq> []" using \<open>length names = length vs\<close> vs(2) by auto
  then have "depth parent < MAX_PATH_DEPTH" using ok by (meson list.set_sel(1))
  ultimately show ?thesis using ok vs(2) sub paths by auto
qed

definition sample_form :: "str \<Rightarrow> (str \<times> str) list" where
  "sample_form raw = [(lit ''path'', lit ''x/a''), (lit ''other'', []), (lit ''path'', lit ''x/b'')]"

theorem archive_selection_sound_witness:
  "parse_archive_query ascii_unicode sample_form None = Ok (Selection [[120]] [[97], [98]])
   \<and> 2 \<le> length [[97], [98 :: nat]] \<and> depth [[120]] < MAX_PATH_DEPTH"
proof -
  have p: "VirtualPath_parse ascii_unicode (lit ''x/a'') = Ok [[120], [97]]"
    "VirtualPath_parse ascii_unicode (lit ''x/b'') = Ok [[120], [98]]" by code_simp+
  have q: "parse_archive_query ascii_unicode sample_form None = Ok (Selection [[120]] [[97], [98]])"
  proof -
    have "lit ''path'' \<noteq> lit ''other''" by (simp add: lit_def)
    then show ?thesis
      by (simp add: parse_archive_query_def sample_form_def MAX_ARCHIVE_PATHS_def select_path_def p split_parent_def
          Let_def utf8_char_def)
  qed
  have "\<forall>r. \<forall>kv \<in> set (sample_form r). list_all is_char (snd kv)"
    by (simp add: sample_form_def lit_def is_char_def)
  from archive_selection_sound [OF q this] q show ?thesis by simp
qed

subsection \<open>Folder archives\<close>

text \<open>
  The names of a folder archive: the folder itself first, then everything beneath it under the
  folder's name.
\<close>

lemma folder_layout_Ok:
  assumes "folder_layout u os share_id root folder limits = Ok layout"
  obtains tree root_name where "archive_items u os root folder limits = Ok tree"
    "root_name = (case file_name folder of Some n \<Rightarrow> n | None \<Rightarrow> share_id)"
    "ar_sources layout = \<lparr> src_name = root_name, src_size = None, src_modified = at_modified tree \<rparr>
       # map (item_source (root_name @ [47])) (at_items tree)"
  using assms by (auto simp: folder_layout_def Let_def)

definition inside :: "str \<Rightarrow> str \<Rightarrow> bool" where
  "inside folder name \<longleftrightarrow> (\<exists>q. name = path_display (folder # q) \<and> (\<forall>n \<in> set q. plain_component n))"

lemma folder_layout_names:
  assumes "folder_layout u os share_id root folder limits = Ok layout"
    and "al_max_bytes limits < 2 ^ 64 - 1" "al_max_name_bytes limits < 2 ^ 64 - 1"
    and "open_directory os root folder = Ok d" "names_distinct d"
    and root_name: "root_name = (case file_name folder of Some n \<Rightarrow> n | None \<Rightarrow> share_id)" "list_all is_char root_name"
  shows "distinct (map src_name (ar_sources layout))"
    "\<forall>s \<in> set (ar_sources layout). inside root_name (src_name s) \<and> list_all is_char (src_name s)"
proof -
  obtain tree where t: "archive_items u os root folder limits = Ok tree"
    "ar_sources layout = \<lparr> src_name = root_name, src_size = None, src_modified = at_modified tree \<rparr>
       # map (item_source (root_name @ [47])) (at_items tree)"
    using folder_layout_Ok [OF assms(1)] root_name(1) by metis
  note n = archive_items_named [OF t(1) assms(2-5)]
  have names: "map src_name (ar_sources layout) = root_name # map (\<lambda>i. root_name @ [47] @ ai_relative i) (at_items tree)"
    by (simp add: t(2) item_source_def)
  have "inj_on (\<lambda>i. root_name @ [47] @ ai_relative i) (set (at_items tree))" "distinct (at_items tree)"
    using n by (auto simp: distinct_map inj_on_def)
  then show "distinct (map src_name (ar_sources layout))"
    unfolding names by (auto simp: distinct_map)
  show "\<forall>s \<in> set (ar_sources layout). inside root_name (src_name s) \<and> list_all is_char (src_name s)"
  proof
    fix s assume "s \<in> set (ar_sources layout)"
    then consider "src_name s = root_name" | i where "i \<in> set (at_items tree)" "src_name s = root_name @ [47] @ ai_relative i"
      by (auto simp: t(2) item_source_def)
    then show "inside root_name (src_name s) \<and> list_all is_char (src_name s)"
    proof cases
      case 1
      then show ?thesis using root_name(2) by (auto simp: inside_def path_display_def intro!: exI [of _ "[]"])
    next
      case (2 i)
      obtain q where q: "ai_relative i = path_display q" "q \<noteq> []" "\<forall>n \<in> set q. stored_name u n \<and> plain_component n"
        using n 2(1) by blast
      have "src_name s = path_display (root_name # q)" using 2(2) q(1,2) by (cases q) (simp_all add: path_display_join join_on_Cons)
      moreover have "list_all is_char (path_display q)"
        using q(3) by (intro path_display_chars) (simp add: stored_name_def)
      then have "list_all is_char (src_name s)" using root_name(2) by (simp add: 2(2) q(1) is_char_def)
      ultimately show ?thesis using q(3) by (auto simp: inside_def)
    qed
  qed
qed

end
