(* ===== verification/Syscalls.thy ===== *)
theory Syscalls
  imports Walks
begin

text \<open>
  The file system below the mutating operations of \<open>src/src/filesystem.rs\<close> and
  \<open>src/src/filesystem/trash.rs\<close>, as the calls of \<open>cap_std\<close> and \<open>rustix\<close> the code makes see it.

  A file system maps directory inodes to their entries, names being raw bytes. An open handle is an
  inode number. Before every call other processes may change the file system in any way
  (\<open>sys_interfere\<close>), and every call may fail without effect (\<open>sys_fault\<close>); when a call cannot be
  carried out the error is the system's choice (\<open>sys_errno\<close>). If all calls from some number on fail,
  the file system stays as it is at that call, so a crash is a run of faults. The inodes whose
  names the program itself removes are logged in \<open>w_unlinked\<close>.

  Programs are actions on the world that return a result; weakest preconditions and a rule for calls
  under interference carry the proofs of the operations.
\<close>

subsection \<open>File systems\<close>

record fs =
  fs_entries :: "nat \<Rightarrow> (nat list \<times> nat) list"
  fs_stat :: "nat \<Rightarrow> Metadata"
  fs_data :: "nat \<Rightarrow> bytes"
  fs_dev :: "nat \<Rightarrow> nat"
  fs_next :: nat

definition lookup :: "fs \<Rightarrow> nat \<Rightarrow> nat list \<Rightarrow> nat option" where
  "lookup f d name = map_of (fs_entries f d) name"

definition link :: "nat \<Rightarrow> nat list \<Rightarrow> nat \<Rightarrow> fs \<Rightarrow> fs" where
  "link d name i f = f\<lparr>fs_entries := (fs_entries f)(d := put_key name i (fs_entries f d))\<rparr>"

definition unlink :: "nat \<Rightarrow> nat list \<Rightarrow> fs \<Rightarrow> fs" where
  "unlink d name f = f\<lparr>fs_entries := (fs_entries f)(d := remove_key name (fs_entries f d))\<rparr>"

definition drop_link :: "nat \<Rightarrow> fs \<Rightarrow> fs" where
  "drop_link i f = f\<lparr>fs_stat := (fs_stat f)(i := (fs_stat f i)\<lparr>md_nlink := md_nlink (fs_stat f i) - 1\<rparr>)\<rparr>"

lemma lookup_link [simp]:
  "lookup (link d name i f) d' name' = (if d' = d \<and> name' = name then Some i else lookup f d' name')"
  by (simp add: lookup_def link_def map_of_put_key)

lemma lookup_unlink [simp]:
  "lookup (unlink d name f) d' name' = (if d' = d \<and> name' = name then None else lookup f d' name')"
  by (simp add: lookup_def unlink_def map_of_remove_key)

lemma lookup_drop_link [simp]: "lookup (drop_link i f) = lookup f"
  by (simp add: lookup_def drop_link_def fun_eq_iff)

subsection \<open>Calls\<close>

text \<open>A call that can be carried out yields a value, the new file system and the inodes unlinked.\<close>

type_synonym 'a step = "fs \<Rightarrow> ('a \<times> fs \<times> nat list) option"

definition observe :: "(fs \<Rightarrow> 'a option) \<Rightarrow> 'a step" where
  "observe g f = map_option (\<lambda>x. (x, f, [])) (g f)"

definition dir_of :: "fs \<Rightarrow> nat \<Rightarrow> nat list \<Rightarrow> nat option" where
  "dir_of f d name =
     (case lookup f d name of
        Some i \<Rightarrow> if md_is_dir (fs_stat f i) then Some i else None
      | None \<Rightarrow> None)"

definition stat_of :: "fs \<Rightarrow> nat \<Rightarrow> Metadata" where
  "stat_of f i = (fs_stat f i)\<lparr>md_ino := i\<rparr>"

datatype RenameFlags = NOREPLACE | EXCHANGE | REPLACE

definition rename_step :: "RenameFlags \<Rightarrow> nat \<Rightarrow> nat list \<Rightarrow> nat \<Rightarrow> nat list \<Rightarrow> unit step" where
  "rename_step flags d name d' name' f =
     (if fs_dev f d \<noteq> fs_dev f d' then None
      else
        (case (lookup f d name, lookup f d' name', flags) of
           (Some i, None, NOREPLACE) \<Rightarrow> Some ((), link d' name' i (unlink d name f), [])
         | (Some i, Some j, EXCHANGE) \<Rightarrow> Some ((), link d name j (link d' name' i f), [])
         | (Some i, None, REPLACE) \<Rightarrow> Some ((), link d' name' i (unlink d name f), [])
         | (Some i, Some j, REPLACE) \<Rightarrow>
             if i = j then Some ((), f, [])
             else if md_is_dir (fs_stat f i) \<or> md_is_dir (fs_stat f j) then None
             else Some ((), drop_link j (link d' name' i (unlink d name f)), [j])
         | _ \<Rightarrow> None))"

definition remove_file_step :: "nat \<Rightarrow> nat list \<Rightarrow> unit step" where
  "remove_file_step d name f =
     (case lookup f d name of
        Some i \<Rightarrow> if md_is_dir (fs_stat f i) then None else Some ((), drop_link i (unlink d name f), [i])
      | None \<Rightarrow> None)"

definition remove_dir_step :: "nat \<Rightarrow> nat list \<Rightarrow> unit step" where
  "remove_dir_step d name f =
     (case lookup f d name of
        Some i \<Rightarrow>
          if md_is_dir (fs_stat f i) \<and> fs_entries f i = [] then Some ((), drop_link i (unlink d name f), [i])
          else None
      | None \<Rightarrow> None)"

definition fresh_metadata :: "bool \<Rightarrow> SystemTime option \<Rightarrow> Metadata" where
  "fresh_metadata is_dir now =
     \<lparr> md_is_file = \<not> is_dir, md_is_dir = is_dir, md_len = 0, md_modified = now, md_accessed = now,
       md_created = now, md_ino = 0, md_nlink = 1 \<rparr>"

definition create_step :: "bool \<Rightarrow> SystemTime option \<Rightarrow> nat \<Rightarrow> nat list \<Rightarrow> nat step" where
  "create_step is_dir now d name f =
     (case lookup f d name of
        Some _ \<Rightarrow> None
      | None \<Rightarrow>
          let i = fs_next f in
          Some (i, link d name i
                     (f\<lparr>fs_next := Suc i, fs_stat := (fs_stat f)(i := fresh_metadata is_dir now),
                        fs_entries := (fs_entries f)(i := []), fs_data := (fs_data f)(i := []),
                        fs_dev := (fs_dev f)(i := fs_dev f d)\<rparr>), []))"

definition write_step :: "SystemTime option \<Rightarrow> nat \<Rightarrow> bytes \<Rightarrow> unit step" where
  "write_step now i contents f =
     Some ((), f\<lparr>fs_data := (fs_data f)(i := contents),
                 fs_stat := (fs_stat f)(i := (fs_stat f i)\<lparr>md_len := length contents, md_modified := now\<rparr>)\<rparr>, [])"

subsection \<open>The world and its actions\<close>

record sys =
  sys_interfere :: "nat \<Rightarrow> fs \<Rightarrow> fs"
  sys_fault :: "nat \<Rightarrow> io_error option"
  sys_errno :: "nat \<Rightarrow> io_error"
  sys_random :: "nat \<Rightarrow> u128 option"
  sys_now :: "nat \<Rightarrow> SystemTime option"
  sys_walk :: "nat \<Rightarrow> nat \<Rightarrow> Dir"

record world =
  w_fs :: fs
  w_calls :: nat
  w_unlinked :: "nat list"

type_synonym ('e, 'a) action = "world \<Rightarrow> ('e + 'a) \<times> world"

definition interfered :: "sys \<Rightarrow> world \<Rightarrow> world" where
  "interfered sys w = w\<lparr>w_fs := sys_interfere sys (w_calls w) (w_fs w), w_calls := Suc (w_calls w)\<rparr>"

definition call :: "sys \<Rightarrow> 'a step \<Rightarrow> (io_error, 'a) action" where
  "call sys step w =
     (let n = w_calls w; w = interfered sys w in
      case sys_fault sys n of
        Some e \<Rightarrow> (Err e, w)
      | None \<Rightarrow>
          (case step (w_fs w) of
             None \<Rightarrow> (Err (sys_errno sys n), w)
           | Some (x, f, gone) \<Rightarrow> (Ok x, w\<lparr>w_fs := f, w_unlinked := w_unlinked w @ gone\<rparr>)))"

definition ret :: "'a \<Rightarrow> ('e, 'a) action" where "ret x w = (Ok x, w)"
definition fail :: "'e \<Rightarrow> ('e, 'a) action" where "fail e w = (Err e, w)"
definition lift :: "'e + 'a \<Rightarrow> ('e, 'a) action" where "lift r w = (r, w)"

definition seq :: "('e, 'a) action \<Rightarrow> ('a \<Rightarrow> ('e, 'b) action) \<Rightarrow> ('e, 'b) action" where
  "seq m k w = (case m w of (Inl e, w) \<Rightarrow> (Inl e, w) | (Inr x, w) \<Rightarrow> k x w)"

definition attempt :: "('e, 'a) action \<Rightarrow> ('f, 'e + 'a) action" where
  "attempt m w = (let (r, w) = m w in (Ok r, w))"

definition error_as :: "('e \<Rightarrow> 'f) \<Rightarrow> ('e, 'a) action \<Rightarrow> ('f, 'a) action" where
  "error_as g m w = (let (r, w) = m w in (map_err g r, w))"

abbreviation io :: "(io_error, 'a) action \<Rightarrow> (FsErrorCode, 'a) action" where
  "io m \<equiv> error_as map_io m"

fun seq_each :: "('a \<Rightarrow> 's \<Rightarrow> ('e, 's) action) \<Rightarrow> 'a list \<Rightarrow> 's \<Rightarrow> ('e, 's) action" where
  "seq_each f [] s = ret s"
| "seq_each f (x # xs) s = seq (f x s) (seq_each f xs)"

text \<open>The number of the next call, for what the system answers to it.\<close>

definition next_call :: "('e, nat) action" where "next_call w = (Ok (w_calls w), w)"

subsection \<open>Weakest preconditions\<close>

named_theorems wp_simps \<open>weakest preconditions of the combinators\<close>

definition wp :: "('e, 'a) action \<Rightarrow> ('e + 'a \<Rightarrow> world \<Rightarrow> bool) \<Rightarrow> world \<Rightarrow> bool" where
  "wp m Q w = (case m w of (r, w') \<Rightarrow> Q r w')"

lemma wp_ret [wp_simps]: "wp (ret x) Q w = Q (Ok x) w" by (simp add: wp_def ret_def)
lemma wp_fail [wp_simps]: "wp (fail e) Q w = Q (Err e) w" by (simp add: wp_def fail_def)
lemma wp_lift [wp_simps]: "wp (lift r) Q w = Q r w" by (simp add: wp_def lift_def)
lemma wp_next_call [wp_simps]: "wp next_call Q w = Q (Ok (w_calls w)) w" by (simp add: wp_def next_call_def)

lemma wp_seq [wp_simps]:
  "wp (seq m k) Q w = wp m (\<lambda>r w. case r of Inl e \<Rightarrow> Q (Inl e) w | Inr x \<Rightarrow> wp (k x) Q w) w"
  by (auto simp: wp_def seq_def split: prod.splits sum.splits)

lemma wp_attempt [wp_simps]: "wp (attempt m) Q w = wp m (\<lambda>r. Q (Ok r)) w"
  by (simp add: wp_def attempt_def split: prod.splits)

lemma wp_error_as [wp_simps]: "wp (error_as g m) Q w = wp m (\<lambda>r. Q (map_err g r)) w"
  by (simp add: wp_def error_as_def split: prod.splits)

lemma wp_seq_attempt: "wp (seq (attempt m) k) Q w = wp m (\<lambda>r. wp (k r) Q) w"
  by (simp add: wp_simps)

lemma wp_conseq: "wp m Q w \<Longrightarrow> (\<And>r w. Q r w \<Longrightarrow> R r w) \<Longrightarrow> wp m R w"
  by (auto simp: wp_def split: prod.splits)

lemma wp_result: "wp m Q w \<Longrightarrow> m w = (r, w') \<Longrightarrow> Q r w'"
  by (simp add: wp_def)

text \<open>A predicate that no interference before a call can falsify.\<close>

definition stable :: "sys \<Rightarrow> (world \<Rightarrow> bool) \<Rightarrow> bool" where
  "stable sys P \<longleftrightarrow> (\<forall>w. P w \<longrightarrow> P (interfered sys w))"

lemma stable_conj: "stable sys P \<Longrightarrow> stable sys Q \<Longrightarrow> stable sys (\<lambda>w. P w \<and> Q w)"
  by (simp add: stable_def)

definition unlinked_are :: "nat list \<Rightarrow> world \<Rightarrow> bool" where
  "unlinked_are us w \<longleftrightarrow> w_unlinked w = us"

lemma stable_unlinked: "stable sys (unlinked_are us)"
  by (simp add: stable_def interfered_def unlinked_are_def)

lemma wp_call:
  assumes "stable sys P" "P w"
    and "\<And>e w. P w \<Longrightarrow> Q (Inl e) w"
    and "\<And>x f gone w. P w \<Longrightarrow> step (w_fs w) = Some (x, f, gone) \<Longrightarrow>
           Q (Inr x) (w\<lparr>w_fs := f, w_unlinked := w_unlinked w @ gone\<rparr>)"
  shows "wp (call sys step) Q w"
proof -
  have "P (interfered sys w)" using assms(1,2) by (simp add: stable_def)
  then show ?thesis using assms(3,4) by (auto simp: wp_def call_def Let_def split: option.splits)
qed

text \<open>Observing calls change nothing; only what they return needs an argument.\<close>

lemma wp_observe:
  assumes "stable sys P" "P w"
    and "\<And>e w. P w \<Longrightarrow> Q (Inl e) w"
    and "\<And>x w. P w \<Longrightarrow> g (w_fs w) = Some x \<Longrightarrow> Q (Inr x) w"
  shows "wp (call sys (observe g)) Q w"
  by (rule wp_call [OF assms(1,2)]) (auto simp: observe_def assms(3,4))

text \<open>Actions that keep a predicate, and actions that keep every stable predicate.\<close>

definition keeping :: "(world \<Rightarrow> bool) \<Rightarrow> ('e, 'a) action \<Rightarrow> bool" where
  "keeping P m \<longleftrightarrow> (\<forall>w. P w \<longrightarrow> wp m (\<lambda>_. P) w)"

named_theorems keeping_intros \<open>actions that keep a predicate\<close>

lemma keeping_ret [keeping_intros]: "keeping P (ret x)" by (simp add: keeping_def wp_simps)
lemma keeping_fail [keeping_intros]: "keeping P (fail x)" by (simp add: keeping_def wp_simps)
lemma keeping_lift [keeping_intros]: "keeping P (lift x)" by (simp add: keeping_def wp_simps)
lemma keeping_next_call [keeping_intros]: "keeping P next_call" by (simp add: keeping_def wp_simps)

lemma keeping_seq [keeping_intros]:
  assumes "keeping P m" "\<And>x. keeping P (k x)"
  shows "keeping P (seq m k)"
  unfolding keeping_def wp_simps
proof (intro allI impI)
  fix w assume "P w"
  with assms(1) have "wp m (\<lambda>_. P) w" by (simp add: keeping_def)
  then show "wp m (\<lambda>r w. case r of Inl e \<Rightarrow> P w | Inr x \<Rightarrow> wp (k x) (\<lambda>_. P) w) w"
    by (rule wp_conseq) (use assms(2) in \<open>auto simp: keeping_def split: sum.splits\<close>)
qed

lemma keeping_attempt [keeping_intros]: "keeping P m \<Longrightarrow> keeping P (attempt m)"
  by (simp add: keeping_def wp_simps)

lemma keeping_error_as [keeping_intros]: "keeping P m \<Longrightarrow> keeping P (error_as g m)"
  by (simp add: keeping_def wp_simps)

lemma keeping_if [keeping_intros]:
  "(b \<Longrightarrow> keeping P m) \<Longrightarrow> (\<not> b \<Longrightarrow> keeping P n) \<Longrightarrow> keeping P (if b then m else n)"
  by simp

lemma keeping_sum [keeping_intros]:
  "(\<And>e. keeping P (m e)) \<Longrightarrow> (\<And>x. keeping P (n x)) \<Longrightarrow> keeping P (case r of Inl e \<Rightarrow> m e | Inr x \<Rightarrow> n x)"
  by (cases r) auto

lemma keeping_option [keeping_intros]:
  "keeping P m \<Longrightarrow> (\<And>x. keeping P (n x)) \<Longrightarrow> keeping P (case r of None \<Rightarrow> m | Some x \<Rightarrow> n x)"
  by (cases r) auto

lemma keeping_prod [keeping_intros]:
  "(\<And>x y. keeping P (m x y)) \<Longrightarrow> keeping P (case r of (x, y) \<Rightarrow> m x y)"
  by (cases r) auto

lemma keeping_each [keeping_intros]:
  "(\<And>x s. x \<in> set xs \<Longrightarrow> keeping P (f x s)) \<Longrightarrow> keeping P (seq_each f xs s)"
  by (induction xs arbitrary: s) (auto intro: keeping_intros)

lemma keeping_call:
  assumes "stable sys P"
    and "\<And>x f gone w. P w \<Longrightarrow> step (w_fs w) = Some (x, f, gone) \<Longrightarrow> P (w\<lparr>w_fs := f, w_unlinked := w_unlinked w @ gone\<rparr>)"
  shows "keeping P (call sys step)"
  unfolding keeping_def by (auto intro: wp_call [OF assms(1)] assms(2))

definition observing :: "sys \<Rightarrow> ('e, 'a) action \<Rightarrow> bool" where
  "observing sys m \<longleftrightarrow> (\<forall>P. stable sys P \<longrightarrow> keeping P m)"

named_theorems observing_intros \<open>actions that change nothing themselves\<close>

lemma observing_keeping: "observing sys m \<Longrightarrow> stable sys P \<Longrightarrow> keeping P m"
  by (simp add: observing_def)

lemma observing_observe [observing_intros]: "observing sys (call sys (observe g))"
  by (auto simp: observing_def observe_def intro: keeping_call)

lemma observing_combinators [observing_intros]:
  "observing sys (ret x)" "observing sys (fail e)" "observing sys (lift r)" "observing sys next_call"
  "observing sys m \<Longrightarrow> (\<And>x. observing sys (k x)) \<Longrightarrow> observing sys (seq m k)"
  "observing sys n \<Longrightarrow> observing sys (attempt n)" "observing sys n \<Longrightarrow> observing sys (error_as g n)"
  "(\<And>x s. observing sys (f x s)) \<Longrightarrow> observing sys (seq_each f xs s)"
  by (auto simp: observing_def intro: keeping_intros)

lemma observing_cases [observing_intros]:
  "observing sys a \<Longrightarrow> observing sys b \<Longrightarrow> observing sys (if c then a else b)"
  "(\<And>e. observing sys (m1 e)) \<Longrightarrow> (\<And>x. observing sys (m2 x)) \<Longrightarrow> observing sys (case r of Inl e \<Rightarrow> m1 e | Inr x \<Rightarrow> m2 x)"
  "observing sys a \<Longrightarrow> (\<And>x. observing sys (m3 x)) \<Longrightarrow> observing sys (case q of None \<Rightarrow> a | Some x \<Rightarrow> m3 x)"
  "(\<And>x y. observing sys (m4 x y)) \<Longrightarrow> observing sys (case p of (x, y) \<Rightarrow> m4 x y)"
  by (auto simp: observing_def intro: keeping_intros split: sum.splits option.splits prod.splits)

lemma observingD: "observing sys m \<Longrightarrow> stable sys P \<Longrightarrow> P w \<Longrightarrow> wp m (\<lambda>_. P) w"
  by (simp add: observing_def keeping_def)

lemma wp_observing:
  assumes "observing sys m" "stable sys P" "P w" "\<And>r w. P w \<Longrightarrow> Q r w"
  shows "wp m Q w"
  using observingD [OF assms(1-3)] assms(4) by (auto intro: wp_conseq)

text \<open>Sequencing after an observing call whose answer matters, with the error passed on or caught.\<close>

lemma wp_seq_observe:
  assumes "stable sys P" "P w" "\<And>e w. P w \<Longrightarrow> Q (Inl e) w"
    and "\<And>x w. P w \<Longrightarrow> g (w_fs w) = Some x \<Longrightarrow> wp (k x) Q w"
  shows "wp (seq (error_as h (call sys (observe g))) k) Q w"
  unfolding wp_simps by (rule wp_observe [OF assms(1,2)]) (simp_all add: assms(3,4))

lemma wp_attempt_observe:
  assumes "stable sys P" "P w" "\<And>e w. P w \<Longrightarrow> wp (k (Inl e)) Q w"
    and "\<And>x w. P w \<Longrightarrow> g (w_fs w) = Some x \<Longrightarrow> wp (k (Inr x)) Q w"
  shows "wp (seq (attempt (call sys (observe g))) k) Q w"
  unfolding wp_simps by (rule wp_observe [OF assms(1,2)]) (simp_all add: assms(3,4))

lemma wp_seq_lift:
  assumes "\<And>e. r = Inl e \<Longrightarrow> Q (Inl e) w" "\<And>x. r = Inr x \<Longrightarrow> wp (k x) Q w"
  shows "wp (seq (lift r) k) Q w"
  using assms by (cases r) (auto simp: wp_simps)

end
