(* ===== verification/Publish.thy ===== *)
theory Publish
  imports Syscalls Auth
begin

text \<open>
  The mutating operations of \<open>src/src/filesystem.rs\<close>: staging and publishing a file
  (\<open>PendingWrite\<close>), creating directories, moving and deleting entries, and the recovery of the
  private staging directory at startup, each as the sequence of system calls it makes.

  The theorems hold for arbitrary interference by other processes and arbitrary faults, and so for
  crashes. Only the private staging directory is assumed to be left alone, and, for the operations
  that undo a publication, the file they have just published while they check it.
\<close>

subsection \<open>Handles\<close>

definition INTERNAL_STAGING_DIRECTORY :: str where "INTERNAL_STAGING_DIRECTORY = lit ''staging''"
definition INTERNAL_DELETE_PREFIX :: str where "INTERNAL_DELETE_PREFIX = lit ''.index-del-''"
definition INTERNAL_REPLACE_PREFIX :: str where "INTERNAL_REPLACE_PREFIX = lit ''.index-rep-''"
definition TREE_PREFIX :: str where "TREE_PREFIX = lit ''.index-arc-''"

record AuthorizedShare =
  sh_access :: AccessLevel
  sh_root :: nat
  sh_staging :: "nat option"
  sh_trash :: "nat option"

definition open_dir_nofollow :: "sys \<Rightarrow> nat \<Rightarrow> nat list \<Rightarrow> (io_error, nat) action" where
  "open_dir_nofollow sys d name = call sys (observe (\<lambda>f. dir_of f d name))"

definition open_with :: "sys \<Rightarrow> nat \<Rightarrow> nat list \<Rightarrow> (io_error, nat) action" where
  "open_with sys d name = call sys (observe (\<lambda>f. lookup f d name))"

definition handle_metadata :: "sys \<Rightarrow> nat \<Rightarrow> (io_error, Metadata) action" where
  "handle_metadata sys i = call sys (observe (\<lambda>f. Some (stat_of f i)))"

definition handle_device :: "sys \<Rightarrow> nat \<Rightarrow> (io_error, nat) action" where
  "handle_device sys i = call sys (observe (\<lambda>f. Some (fs_dev f i)))"

definition plain_call :: "sys \<Rightarrow> (io_error, unit) action" where
  "plain_call sys = call sys (observe (\<lambda>f. Some ()))"

definition rename_with :: "sys \<Rightarrow> RenameFlags \<Rightarrow> nat \<Rightarrow> nat list \<Rightarrow> nat \<Rightarrow> nat list \<Rightarrow> (io_error, unit) action" where
  "rename_with sys flags d name d' name' = call sys (rename_step flags d name d' name')"

definition remove_file :: "sys \<Rightarrow> nat \<Rightarrow> nat list \<Rightarrow> (io_error, unit) action" where
  "remove_file sys d name = call sys (remove_file_step d name)"

definition remove_dir :: "sys \<Rightarrow> nat \<Rightarrow> nat list \<Rightarrow> (io_error, unit) action" where
  "remove_dir sys d name = call sys (remove_dir_step d name)"

definition create_new :: "sys \<Rightarrow> bool \<Rightarrow> nat \<Rightarrow> nat list \<Rightarrow> (io_error, nat) action" where
  "create_new sys is_dir d name =
     seq next_call (\<lambda>n. call sys (create_step is_dir (sys_now sys n) d name))"

definition write_all :: "sys \<Rightarrow> nat \<Rightarrow> bytes \<Rightarrow> (io_error, unit) action" where
  "write_all sys i contents =
     seq next_call (\<lambda>n. call sys (write_step (sys_now sys n) i contents))"

definition sync_directory :: "sys \<Rightarrow> nat \<Rightarrow> (FsErrorCode, unit) action" where
  "sync_directory sys d =
     seq (io (plain_call sys)) (\<lambda>_.
     seq (attempt (plain_call sys)) (\<lambda>r.
       case r of
         Inl e \<Rightarrow> if io_kind e = InvalidInput then ret () else fail (map_io e)
       | Inr _ \<Rightarrow> ret ()))"

definition sync_after_commit :: "sys \<Rightarrow> nat \<Rightarrow> ('e, unit) action" where
  "sync_after_commit sys d = seq (attempt (sync_directory sys d)) (\<lambda>_. ret ())"

definition random_internal_name :: "sys \<Rightarrow> str \<Rightarrow> (FsErrorCode, str) action" where
  "random_internal_name sys pre =
     seq next_call (\<lambda>n.
     seq (error_as (\<lambda>_. Unavailable) (call sys (observe (\<lambda>_. sys_random sys n)))) (\<lambda>r.
       ret (pre @ encode_hex (be_bytes 16 (unat r)))))"

definition random_temporary_name :: "sys \<Rightarrow> (FsErrorCode, str) action" where
  "random_temporary_name sys = random_internal_name sys INTERNAL_TEMP_PREFIX"

subsection \<open>Looking at entries\<close>

definition open_components :: "sys \<Rightarrow> nat \<Rightarrow> str list \<Rightarrow> (FsErrorCode, nat) action" where
  "open_components sys root components =
     seq_each (\<lambda>component current. io (open_dir_nofollow sys current (utf8 component))) components root"

definition open_parent :: "sys \<Rightarrow> nat \<Rightarrow> VirtualPath \<Rightarrow> (FsErrorCode, nat \<times> str) action" where
  "open_parent sys root path =
     seq (lift (split_file path)) (\<lambda>(parents, name).
     seq (open_components sys root parents) (\<lambda>d. ret (d, name)))"

definition validate_handle :: "sys \<Rightarrow> nat \<Rightarrow> (FsErrorCode, unit) action" where
  "validate_handle sys i = seq (io (handle_metadata sys i)) (\<lambda>m. lift (validate_regular_handle m))"

definition raw_file_metadata :: "sys \<Rightarrow> nat \<Rightarrow> (FsErrorCode, EntryMetadata) action" where
  "raw_file_metadata sys i =
     seq (io (handle_metadata sys i)) (\<lambda>m.
     seq (lift (classify_metadata m)) (\<lambda>kind.
       if kind = File then ret (entry_metadata m kind) else fail UnsupportedEntry))"

definition directory_metadata :: "sys \<Rightarrow> nat \<Rightarrow> nat list \<Rightarrow> (FsErrorCode, EntryMetadata) action" where
  "directory_metadata sys parent name =
     seq (io (open_dir_nofollow sys parent name)) (\<lambda>d.
     seq (io (handle_metadata sys d)) (\<lambda>m.
     seq (lift (classify_metadata m)) (\<lambda>kind.
       if kind = Directory then ret (entry_metadata m kind) else fail UnsupportedEntry)))"

definition metadata_in_parent_raw :: "sys \<Rightarrow> nat \<Rightarrow> nat list \<Rightarrow> (FsErrorCode, EntryMetadata) action" where
  "metadata_in_parent_raw sys parent name =
     seq (attempt (open_with sys parent name)) (\<lambda>opened.
       case opened of
         Inr i \<Rightarrow>
           seq (io (handle_metadata sys i)) (\<lambda>m.
           seq (lift (classify_metadata m)) (\<lambda>kind.
           seq (lift (assert_no_external_alias m kind)) (\<lambda>_.
             ret (entry_metadata m kind))))
       | Inl e \<Rightarrow>
           if raw_os_error e \<in> {Some 6, Some 19, Some 21, Some 40} then directory_metadata sys parent name
           else fail (map_io e))"

definition open_regular :: "sys \<Rightarrow> nat \<Rightarrow> VirtualPath \<Rightarrow> (FsErrorCode, nat) action" where
  "open_regular sys root path =
     seq (open_parent sys root path) (\<lambda>(parent, name).
     seq (io (open_with sys parent (utf8 name))) (\<lambda>i.
     seq (validate_handle sys i) (\<lambda>_. ret i)))"

definition entry_metadata_of :: "sys \<Rightarrow> nat \<Rightarrow> VirtualPath \<Rightarrow> (FsErrorCode, EntryMetadata) action" where
  "entry_metadata_of sys root path =
     seq (attempt (open_regular sys root path)) (\<lambda>opened.
       case opened of
         Inr i \<Rightarrow> seq (io (handle_metadata sys i)) (\<lambda>m. ret (entry_metadata m File))
       | Inl e \<Rightarrow>
           if e = UnsupportedEntry then
             seq (open_parent sys root path) (\<lambda>(parent, name). directory_metadata sys parent (utf8 name))
           else fail e)"

definition require_write :: "AuthorizedShare \<Rightarrow> (FsErrorCode, unit) action" where
  "require_write share = (if sh_access share = ReadWrite then ret () else fail AccessDenied)"

definition ensure_same_device :: "sys \<Rightarrow> nat \<Rightarrow> nat \<Rightarrow> (FsErrorCode, unit) action" where
  "ensure_same_device sys staging destination =
     seq (io (handle_device sys staging)) (\<lambda>a.
     seq (io (handle_device sys destination)) (\<lambda>b.
       if a = b then ret () else fail CrossDevice))"

definition ok_matching :: "FsErrorCode + EntryMetadata \<Rightarrow> EntryMetadata \<Rightarrow> bool" where
  "ok_matching r expected = (case r of Inr m \<Rightarrow> matches_validator m expected | Inl _ \<Rightarrow> False)"

subsection \<open>Staging and publishing a file\<close>

record PendingWrite =
  pw_staging :: nat
  pw_destination_parent :: nat
  pw_temporary_name :: str
  pw_destination_name :: str
  pw_file :: nat
  pw_published :: bool

fun stage_attempts :: "sys \<Rightarrow> nat \<Rightarrow> nat \<Rightarrow> str \<Rightarrow> nat \<Rightarrow> (FsErrorCode, PendingWrite) action" where
  "stage_attempts sys staging parent name 0 = fail Unavailable"
| "stage_attempts sys staging parent name (Suc attempts) =
     seq (random_temporary_name sys) (\<lambda>temporary_name.
     seq (attempt (create_new sys False staging (utf8 temporary_name))) (\<lambda>opened.
       case opened of
         Inr file \<Rightarrow>
           seq (validate_handle sys file) (\<lambda>_.
             ret \<lparr> pw_staging = staging, pw_destination_parent = parent, pw_temporary_name = temporary_name,
                   pw_destination_name = name, pw_file = file, pw_published = False \<rparr>)
       | Inl e \<Rightarrow>
           if io_kind e = AlreadyExists then stage_attempts sys staging parent name attempts
           else fail (map_io e)))"

definition begin_write :: "sys \<Rightarrow> AuthorizedShare \<Rightarrow> VirtualPath \<Rightarrow> (FsErrorCode, PendingWrite) action" where
  "begin_write sys share path =
     seq (require_write share) (\<lambda>_.
     seq (open_parent sys (sh_root share) path) (\<lambda>(parent, name).
     seq (lift (ok_or AccessDenied (sh_staging share))) (\<lambda>staging.
     seq (io (plain_call sys)) (\<lambda>_.
     seq (ensure_same_device sys staging parent) (\<lambda>_.
       stage_attempts sys staging parent name 16)))))"

text \<open>
  The publishing methods consume the pending write, whose \<open>Drop\<close> runs on every return with the
  fields as they are then. Their bodies therefore hand the pending write back with the result or
  the error.
\<close>

definition holding :: "PendingWrite \<Rightarrow> (FsErrorCode, 'a) action \<Rightarrow> (FsErrorCode \<times> PendingWrite, 'a) action" where
  "holding p m = error_as (\<lambda>e. (e, p)) m"

definition drop_pending :: "sys \<Rightarrow> PendingWrite \<Rightarrow> ('e, unit) action" where
  "drop_pending sys p =
     (if pw_published p then ret ()
      else seq (attempt (remove_file sys (pw_staging p) (utf8 (pw_temporary_name p)))) (\<lambda>_. ret ()))"

definition dropping ::
  "sys \<Rightarrow> (FsErrorCode \<times> PendingWrite, 'a \<times> PendingWrite) action \<Rightarrow> (FsErrorCode, 'a) action" where
  "dropping sys m =
     seq (attempt m) (\<lambda>r.
       case r of
         Inl (e, p) \<Rightarrow> seq (drop_pending sys p) (\<lambda>_. fail e)
       | Inr (x, p) \<Rightarrow> seq (drop_pending sys p) (\<lambda>_. ret x))"

definition publish_new :: "sys \<Rightarrow> PendingWrite \<Rightarrow> (FsErrorCode, unit) action" where
  "publish_new sys p =
     dropping sys (
       seq (holding p (validate_handle sys (pw_file p))) (\<lambda>_.
       seq (holding p (raw_file_metadata sys (pw_file p))) (\<lambda>expected.
       seq (holding p (io (plain_call sys))) (\<lambda>_.
       seq (holding p (io (rename_with sys NOREPLACE (pw_staging p) (utf8 (pw_temporary_name p))
                             (pw_destination_parent p) (utf8 (pw_destination_name p))))) (\<lambda>_.
       seq (attempt (metadata_in_parent_raw sys (pw_destination_parent p) (utf8 (pw_destination_name p)))) (\<lambda>current.
         if \<not> ok_matching current expected then
           seq (attempt (remove_file sys (pw_destination_parent p) (utf8 (pw_destination_name p)))) (\<lambda>_.
             fail (FsConflict, p))
         else
           let p = p\<lparr>pw_published := True\<rparr> in
           seq (sync_after_commit sys (pw_staging p)) (\<lambda>_.
           seq (sync_after_commit sys (pw_destination_parent p)) (\<lambda>_.
             ret ((), p)))))))))"

definition rollback_exchange :: "sys \<Rightarrow> PendingWrite \<Rightarrow> (FsErrorCode, unit) action" where
  "rollback_exchange sys p =
     io (rename_with sys EXCHANGE (pw_staging p) (utf8 (pw_temporary_name p))
           (pw_destination_parent p) (utf8 (pw_destination_name p)))"

text \<open>After a failed exchange: undo it, or disarm the drop guard when that fails too.\<close>

definition undo_exchange :: "sys \<Rightarrow> PendingWrite \<Rightarrow> FsErrorCode \<Rightarrow> (FsErrorCode \<times> PendingWrite, 'a) action" where
  "undo_exchange sys p e =
     seq (attempt (rollback_exchange sys p)) (\<lambda>r.
       case r of
         Inl _ \<Rightarrow> fail (Unavailable, p\<lparr>pw_published := True\<rparr>)
       | Inr _ \<Rightarrow> fail (e, p))"

text \<open>
  The part of a replacement after and from the exchange on, with the staged file under its retained
  name.
\<close>

definition settle_exchange ::
  "sys \<Rightarrow> PendingWrite \<Rightarrow> EntryMetadata \<Rightarrow> bool \<Rightarrow> (FsErrorCode \<times> PendingWrite, EntryMetadata \<times> PendingWrite) action" where
  "settle_exchange sys p replacement valid_exchange =
     (if \<not> valid_exchange then undo_exchange sys p FsConflict
      else
        seq (attempt (remove_file sys (pw_staging p) (utf8 (pw_temporary_name p)))) (\<lambda>removed.
          case removed of
            Inl e \<Rightarrow> undo_exchange sys p (map_io e)
          | Inr _ \<Rightarrow>
              seq (sync_after_commit sys (pw_staging p)) (\<lambda>_.
              seq (sync_after_commit sys (pw_destination_parent p)) (\<lambda>_.
                ret (replacement, p\<lparr>pw_published := True\<rparr>)))))"

definition exchange_is_valid ::
  "sys \<Rightarrow> PendingWrite \<Rightarrow> EntryMetadata \<Rightarrow> EntryMetadata \<Rightarrow> (FsErrorCode \<times> PendingWrite, bool) action" where
  "exchange_is_valid sys p expected replacement =
     seq (attempt (metadata_in_parent_raw sys (pw_destination_parent p) (utf8 (pw_destination_name p)))) (\<lambda>published.
       if \<not> ok_matching published replacement then ret False
       else
         seq (attempt (metadata_in_parent_raw sys (pw_staging p) (utf8 (pw_temporary_name p)))) (\<lambda>previous.
           ret (ok_matching previous expected)))"

definition exchange_staged ::
  "sys \<Rightarrow> PendingWrite \<Rightarrow> EntryMetadata \<Rightarrow> EntryMetadata \<Rightarrow> (FsErrorCode \<times> PendingWrite, EntryMetadata \<times> PendingWrite) action" where
  "exchange_staged sys p expected replacement =
     seq (holding p (io (rename_with sys EXCHANGE (pw_staging p) (utf8 (pw_temporary_name p))
                           (pw_destination_parent p) (utf8 (pw_destination_name p))))) (\<lambda>_.
     seq (exchange_is_valid sys p expected replacement) (settle_exchange sys p replacement))"

definition publish_replacement :: "sys \<Rightarrow> PendingWrite \<Rightarrow> EntryMetadata \<Rightarrow> (FsErrorCode, EntryMetadata) action" where
  "publish_replacement sys p expected =
     dropping sys (
       seq (holding p (validate_handle sys (pw_file p))) (\<lambda>_.
       seq (holding p (raw_file_metadata sys (pw_file p))) (\<lambda>replacement.
       seq (holding p (io (plain_call sys))) (\<lambda>_.
       seq (holding p (metadata_in_parent_raw sys (pw_destination_parent p) (utf8 (pw_destination_name p)))) (\<lambda>current.
         if \<not> matches_validator current expected \<or> em_kind current \<noteq> File then fail (FsConflict, p)
         else
           seq (holding p (random_internal_name sys INTERNAL_REPLACE_PREFIX)) (\<lambda>retained_name.
           seq (holding p (io (rename_with sys NOREPLACE (pw_staging p) (utf8 (pw_temporary_name p))
                                 (pw_staging p) (utf8 retained_name)))) (\<lambda>_.
             exchange_staged sys (p\<lparr>pw_temporary_name := retained_name\<rparr>) expected replacement)))))))"

definition create_file :: "sys \<Rightarrow> AuthorizedShare \<Rightarrow> VirtualPath \<Rightarrow> bytes \<Rightarrow> (FsErrorCode, unit) action" where
  "create_file sys share path contents =
     seq (begin_write sys share path) (\<lambda>pending.
     seq (attempt (seq (io (plain_call sys)) (\<lambda>_. io (write_all sys (pw_file pending) contents)))) (\<lambda>written.
       case written of
         Inl e \<Rightarrow> seq (drop_pending sys pending) (\<lambda>_. fail e)
       | Inr _ \<Rightarrow> publish_new sys pending))"

subsection \<open>Directories, moves and deletes\<close>

definition create_directory :: "sys \<Rightarrow> AuthorizedShare \<Rightarrow> VirtualPath \<Rightarrow> (FsErrorCode, unit) action" where
  "create_directory sys share path =
     seq (require_write share) (\<lambda>_.
     seq (open_parent sys (sh_root share) path) (\<lambda>(parent, name).
     seq (io (create_new sys True parent (utf8 name))) (\<lambda>_.
     seq (io (open_dir_nofollow sys parent (utf8 name))) (\<lambda>_.
       sync_after_commit sys parent))))"

definition check_subtree :: "sys \<Rightarrow> nat \<Rightarrow> nat \<Rightarrow> (FsErrorCode, unit) action" where
  "check_subtree sys directory allowance =
     seq next_call (\<lambda>n.
     seq (io (plain_call sys)) (\<lambda>_.
     seq (lift (ensure_subtree_within (sys_walk sys n directory) allowance 0)) (\<lambda>_. ret ())))"

definition move_entry ::
  "sys \<Rightarrow> AuthorizedShare \<Rightarrow> VirtualPath \<Rightarrow> VirtualPath \<Rightarrow> EntryMetadata \<Rightarrow> (FsErrorCode, unit) action" where
  "move_entry sys share source destination expected =
     seq (require_write share) (\<lambda>_.
     if source = destination then fail FsConflict
     else
       seq (entry_metadata_of sys (sh_root share) source) (\<lambda>current.
       if \<not> matches_validator current expected then fail FsConflict
       else if em_kind current = Directory \<and> path_starts_with destination source then fail InvalidPath
       else
         seq (if em_kind current = Directory \<and> depth source < depth destination
              then seq (open_components sys (sh_root share) source) (\<lambda>directory.
                     check_subtree sys directory (MAX_PATH_DEPTH - depth destination))
              else ret ()) (\<lambda>_.
         seq (open_parent sys (sh_root share) source) (\<lambda>(source_parent, source_name).
         seq (open_parent sys (sh_root share) destination) (\<lambda>(destination_parent, destination_name).
         seq (io (rename_with sys NOREPLACE source_parent (utf8 source_name)
                    destination_parent (utf8 destination_name))) (\<lambda>_.
         seq (attempt (metadata_in_parent_raw sys destination_parent (utf8 destination_name))) (\<lambda>validation.
           if ok_matching validation expected then
             seq (sync_after_commit sys source_parent) (\<lambda>_.
               sync_after_commit sys destination_parent)
           else
             seq (attempt (rename_with sys NOREPLACE destination_parent (utf8 destination_name)
                             source_parent (utf8 source_name))) (\<lambda>rollback.
               case rollback of
                 Inl _ \<Rightarrow> fail Unavailable
               | Inr _ \<Rightarrow> (case validation of Inl e \<Rightarrow> fail e | Inr _ \<Rightarrow> fail FsConflict)))))))))"

definition undo_delete :: "sys \<Rightarrow> nat \<Rightarrow> str \<Rightarrow> nat \<Rightarrow> str \<Rightarrow> FsErrorCode \<Rightarrow> (FsErrorCode, unit) action" where
  "undo_delete sys staging staged_name parent name e =
     seq (attempt (rename_with sys NOREPLACE staging (utf8 staged_name) parent (utf8 name))) (\<lambda>r.
       case r of Inl _ \<Rightarrow> fail Unavailable | Inr _ \<Rightarrow> fail e)"

definition delete_entry :: "sys \<Rightarrow> AuthorizedShare \<Rightarrow> VirtualPath \<Rightarrow> EntryMetadata \<Rightarrow> (FsErrorCode, unit) action" where
  "delete_entry sys share path expected =
     seq (require_write share) (\<lambda>_.
     seq (entry_metadata_of sys (sh_root share) path) (\<lambda>current.
     if \<not> matches_validator current expected then fail FsConflict
     else
       seq (open_parent sys (sh_root share) path) (\<lambda>(parent, name).
       seq (lift (ok_or AccessDenied (sh_staging share))) (\<lambda>staging.
       seq (ensure_same_device sys staging parent) (\<lambda>_.
       seq (random_internal_name sys INTERNAL_DELETE_PREFIX) (\<lambda>staged_name.
       seq (io (rename_with sys NOREPLACE parent (utf8 name) staging (utf8 staged_name))) (\<lambda>_.
       seq (attempt (metadata_in_parent_raw sys staging (utf8 staged_name))) (\<lambda>staged.
         if \<not> ok_matching staged expected then undo_delete sys staging staged_name parent name FsConflict
         else
           seq (attempt (case em_kind expected of
                           File \<Rightarrow> remove_file sys staging (utf8 staged_name)
                         | Directory \<Rightarrow> remove_dir sys staging (utf8 staged_name))) (\<lambda>removal.
             case removal of
               Inl e \<Rightarrow> undo_delete sys staging staged_name parent name (map_io e)
             | Inr _ \<Rightarrow>
                 seq (sync_after_commit sys staging) (\<lambda>_. sync_after_commit sys parent))))))))))"

subsection \<open>Recovery of the staging directory\<close>

definition read_names :: "sys \<Rightarrow> nat \<Rightarrow> (io_error, nat list list) action" where
  "read_names sys d = call sys (observe (\<lambda>f. Some (keys (fs_entries f d))))"

definition file_type :: "sys \<Rightarrow> nat \<Rightarrow> nat list \<Rightarrow> (io_error, Metadata) action" where
  "file_type sys d name = call sys (observe (\<lambda>f. map_option (stat_of f) (lookup f d name)))"

text \<open>
  Removing a tree at depth \<open>MAX_PATH_DEPTH - below\<close>. The loop state is the running count and
  whether the loop has not returned early with \<open>Ok(false)\<close>.
\<close>

fun remove_tree :: "sys \<Rightarrow> nat \<Rightarrow> nat \<Rightarrow> nat \<Rightarrow> nat \<Rightarrow> (FsErrorCode, nat \<times> bool) action" where
  "remove_tree sys 0 limit d removed =
     seq (io (read_names sys d)) (\<lambda>names.
     seq (seq_each (\<lambda>name (removed, going).
            if \<not> going then ret (removed, going)
            else if limit \<le> removed then ret (removed, False)
            else fail TooDeep) names (removed, True)) (\<lambda>(removed, going).
       if going then seq (sync_after_commit sys d) (\<lambda>_. ret (removed, True)) else ret (removed, False)))"
| "remove_tree sys (Suc below) limit d removed =
     seq (io (read_names sys d)) (\<lambda>names.
     seq (seq_each (\<lambda>name (removed, going).
            if \<not> going then ret (removed, going)
            else if limit \<le> removed then ret (removed, False)
            else
              seq (io (plain_call sys)) (\<lambda>_.
              seq (io (file_type sys d name)) (\<lambda>kind.
                if md_is_dir kind then
                  seq (io (open_dir_nofollow sys d name)) (\<lambda>child.
                  seq (remove_tree sys below limit child removed) (\<lambda>(removed, emptied).
                    if \<not> emptied \<or> limit \<le> removed then ret (removed, False)
                    else seq (io (remove_dir sys d name)) (\<lambda>_. ret (removed + 1, True))))
                else seq (io (remove_file sys d name)) (\<lambda>_. ret (removed + 1, True)))))
            names (removed, True)) (\<lambda>(removed, going).
       if going then seq (sync_after_commit sys d) (\<lambda>_. ret (removed, True)) else ret (removed, False)))"

definition clean_tree :: "sys \<Rightarrow> nat \<Rightarrow> nat list \<Rightarrow> nat \<Rightarrow> nat \<Rightarrow> (FsErrorCode, nat \<times> bool) action" where
  "clean_tree sys staging name removed limit =
     seq (io (open_dir_nofollow sys staging name)) (\<lambda>root.
     seq (remove_tree sys MAX_PATH_DEPTH limit root removed) (\<lambda>(removed, emptied).
       if emptied then seq (io (remove_dir sys staging name)) (\<lambda>_. ret (removed, True)) else ret (removed, False)))"

definition is_tree_name :: "str \<Rightarrow> bool" where
  "is_tree_name name =
     (case strip_prefix TREE_PREFIX name of
        None \<Rightarrow> False
      | Some suffix \<Rightarrow> str_len suffix = 32 \<and> list_all is_ascii_hexdigit (utf8 suffix))"

definition retained_name :: "str \<Rightarrow> bool" where
  "retained_name name \<longleftrightarrow>
     strip_prefix INTERNAL_DELETE_PREFIX name \<noteq> None \<or> strip_prefix INTERNAL_REPLACE_PREFIX name \<noteq> None"

definition classify_staged ::
  "sys \<Rightarrow> nat \<Rightarrow> nat \<Rightarrow> nat list \<Rightarrow> nat \<times> nat list list \<times> nat list list
   \<Rightarrow> (FsErrorCode, nat \<times> nat list list \<times> nat list list) action" where
  "classify_staged sys staging max_entries name s =
     (let (visited, recoverable, trees) = s; visited = visited + 1 in
      if max_entries < visited then fail FsTooLarge
      else
        seq (io (plain_call sys)) (\<lambda>_.
          case utf8_decode name of
            None \<Rightarrow> ret (visited, recoverable, trees)
          | Some n \<Rightarrow>
              if retained_name n then ret (visited, recoverable, trees)
              else
                seq (io (file_type sys staging name)) (\<lambda>kind.
                  if is_tree_name n \<and> md_is_dir kind then ret (visited, recoverable, trees @ [name])
                  else if \<not> is_internal_temp_name n \<or> \<not> md_is_file kind then ret (visited, recoverable, trees)
                  else ret (visited, recoverable @ [name], trees))))"

definition recover_staging_directory :: "sys \<Rightarrow> nat \<Rightarrow> nat \<Rightarrow> (FsErrorCode, nat) action" where
  "recover_staging_directory sys staging max_entries =
     seq (io (read_names sys staging)) (\<lambda>names.
     seq (seq_each (classify_staged sys staging max_entries) names (0, [], [])) (\<lambda>(visited, recoverable, trees).
     seq (seq_each (\<lambda>name visited.
            seq (clean_tree sys staging name visited max_entries) (\<lambda>(visited, cleaned).
              if \<not> cleaned then fail FsTooLarge else ret visited)) trees visited) (\<lambda>_.
     seq (seq_each (\<lambda>name _. io (remove_file sys staging name)) recoverable ()) (\<lambda>_.
     seq (if recoverable \<noteq> [] then sync_directory sys staging else ret ()) (\<lambda>_.
       ret (length recoverable + length trees))))))"

definition recover_staging_files :: "sys \<Rightarrow> AuthorizedShare \<Rightarrow> nat \<Rightarrow> (FsErrorCode, nat) action" where
  "recover_staging_files sys share max_entries =
     (case sh_staging share of None \<Rightarrow> ret 0 | Some staging \<Rightarrow> recover_staging_directory sys staging max_entries)"

subsection \<open>Calls that only look\<close>

lemma observing_calls [observing_intros]:
  "observing sys (open_dir_nofollow sys d name)" "observing sys (open_with sys d name)"
  "observing sys (handle_metadata sys i)" "observing sys (handle_device sys i)" "observing sys (plain_call sys)"
  "observing sys (read_names sys d)" "observing sys (file_type sys d name)"
  by (simp_all add: open_dir_nofollow_def open_with_def handle_metadata_def handle_device_def plain_call_def
      read_names_def file_type_def observing_observe)

lemma observing_sync [observing_intros]:
  "observing sys (sync_directory sys d)" "observing sys (sync_after_commit sys d)"
  by (auto simp: sync_directory_def sync_after_commit_def intro!: observing_intros)

lemma observing_names [observing_intros]:
  "observing sys (random_internal_name sys pre)" "observing sys (random_temporary_name sys)"
  by (auto simp: random_internal_name_def random_temporary_name_def intro!: observing_intros)

lemma observing_paths [observing_intros]:
  "observing sys (open_components sys root components)" "observing sys (open_parent sys root path)"
  by (auto simp: open_components_def open_parent_def intro!: observing_intros)

lemma observing_metadata [observing_intros]:
  "observing sys (validate_handle sys i)" "observing sys (raw_file_metadata sys i)"
  "observing sys (directory_metadata sys d name)" "observing sys (metadata_in_parent_raw sys d name)"
  by (auto simp: validate_handle_def raw_file_metadata_def directory_metadata_def metadata_in_parent_raw_def
      intro!: observing_intros)

lemma observing_entries [observing_intros]:
  "observing sys (open_regular sys root path)" "observing sys (entry_metadata_of sys root path)"
  "observing sys (require_write share)" "observing sys (ensure_same_device sys a b)"
  "observing sys (check_subtree sys d allowance)"
  by (auto simp: open_regular_def entry_metadata_of_def require_write_def ensure_same_device_def check_subtree_def
      intro!: observing_intros)

lemma observing_holding [observing_intros]: "observing sys m \<Longrightarrow> observing sys (holding p m)"
  by (simp add: holding_def observing_intros)

text \<open>What the rest of a sequence must do after an action that only looks.\<close>

lemma wp_after:
  assumes "observing sys m" "stable sys P" "P w"
    and "\<And>e w. P w \<Longrightarrow> Q (Inl e) w" "\<And>x w. P w \<Longrightarrow> wp (k x) Q w"
  shows "wp (seq m k) Q w"
  unfolding wp_seq by (rule wp_observing [OF assms(1-3)]) (auto split: sum.splits intro: assms(4,5))

lemma wp_seq_holding:
  "wp (seq (holding p m) k) Q w = wp m (\<lambda>r w. case r of Inl e \<Rightarrow> Q (Inl (e, p)) w | Inr x \<Rightarrow> wp (k x) Q w) w"
proof -
  have "(case map_err (\<lambda>e. (e, p)) r of Inl e \<Rightarrow> Q (Inl e) w | Inr x \<Rightarrow> wp (k x) Q w) =
      (case r of Inl e \<Rightarrow> Q (Inl (e, p)) w | Inr x \<Rightarrow> wp (k x) Q w)" for r w
    by (cases r) simp_all
  then show ?thesis by (simp add: wp_seq holding_def wp_error_as)
qed

lemma wp_after_holding:
  assumes "observing sys m" "stable sys P" "P w"
    and "\<And>e w. P w \<Longrightarrow> Q (Inl (e, p)) w" "\<And>x w. P w \<Longrightarrow> wp (k x) Q w"
  shows "wp (seq (holding p m) k) Q w"
  unfolding wp_seq_holding
  by (rule wp_observing [OF assms(1-3)]) (auto split: sum.splits intro: assms(4,5))

lemma wp_sync:
  assumes "stable sys P" "P w" "\<And>w. P w \<Longrightarrow> wp (k ()) Q w"
  shows "wp (seq (sync_after_commit sys d) k) Q w"
  unfolding sync_after_commit_def wp_seq wp_attempt wp_ret
  by (simp add: wp_ret) (rule wp_observing [OF _ assms], simp add: observing_intros)

subsection \<open>Private directories\<close>

definition private_dir :: "sys \<Rightarrow> nat \<Rightarrow> bool" where
  "private_dir sys d \<longleftrightarrow> (\<forall>n f. fs_entries (sys_interfere sys n f) d = fs_entries f d)"

definition undisturbed :: "sys \<Rightarrow> nat \<Rightarrow> nat list \<Rightarrow> nat \<Rightarrow> bool" where
  "undisturbed sys d name i \<longleftrightarrow>
     (\<forall>n f. lookup f d name = Some i \<longrightarrow> lookup (sys_interfere sys n f) d name = Some i)"

definition entries_are :: "nat \<Rightarrow> (nat list \<rightharpoonup> nat) \<Rightarrow> nat list \<Rightarrow> world \<Rightarrow> bool" where
  "entries_are d es us w \<longleftrightarrow> lookup (w_fs w) d = es \<and> w_unlinked w = us"

lemma stable_entries: "private_dir sys d \<Longrightarrow> stable sys (entries_are d es us)"
  by (auto simp: stable_def private_dir_def entries_are_def interfered_def lookup_def fun_eq_iff)

lemma stable_lookup: "undisturbed sys d name i \<Longrightarrow> stable sys (\<lambda>w. lookup (w_fs w) d name = Some i)"
  by (auto simp: stable_def undisturbed_def interfered_def)

text \<open>Metadata read through a name that stays put is that of the inode behind it.\<close>

lemma metadata_identifies:
  assumes st: "stable sys P" and P: "P w" and at: "\<And>w. P w \<Longrightarrow> lookup (w_fs w) d name = Some i"
    and err: "\<And>e w. P w \<Longrightarrow> Q (Inl e) w" and ok: "\<And>m w. P w \<Longrightarrow> em_file_id m = i \<Longrightarrow> Q (Inr m) w"
  shows "wp (metadata_in_parent_raw sys d name) Q w"
proof -
  have final: "wp (seq (io (handle_metadata sys i)) k) Q w" if "P w" "\<And>m w. P w \<Longrightarrow> md_ino m = i \<Longrightarrow> wp (k m) Q w" for w k
    unfolding handle_metadata_def by (rule wp_seq_observe [OF st \<open>P w\<close>]) (auto simp: stat_of_def err intro!: that(2))
  have dir: "wp (directory_metadata sys d name) Q w" if "P w" for w
    unfolding directory_metadata_def open_dir_nofollow_def
    by (rule wp_seq_observe [OF st that])
      (auto simp: at dir_of_def wp_ret wp_fail entry_metadata_def metadata_identity_def
        split: if_splits intro!: final wp_seq_lift ok err)
  show ?thesis
    unfolding metadata_in_parent_raw_def open_with_def
    by (rule wp_attempt_observe [OF st P])
      (auto simp: wp_ret wp_fail at entry_metadata_def metadata_identity_def dir
        split: if_splits intro!: final wp_seq_lift ok err)
qed

subsection \<open>Replacing a file\<close>

text \<open>
  The states of a replacement. Before the exchange the staged file is under its staging name; after
  it the staging name holds the previous version and the destination the staged file.
\<close>

definition exchanged :: "PendingWrite \<Rightarrow> (nat list \<rightharpoonup> nat) \<Rightarrow> nat list \<Rightarrow> world \<Rightarrow> bool" where
  "exchanged p es us w \<longleftrightarrow>
     entries_are (pw_staging p) es us w
     \<and> lookup (w_fs w) (pw_destination_parent p) (utf8 (pw_destination_name p)) = Some (pw_file p)"

definition safe_destination :: "sys \<Rightarrow> PendingWrite \<Rightarrow> bool" where
  "safe_destination sys p \<longleftrightarrow>
     private_dir sys (pw_staging p) \<and> pw_destination_parent p \<noteq> pw_staging p
     \<and> undisturbed sys (pw_destination_parent p) (utf8 (pw_destination_name p)) (pw_file p)"

lemma stable_exchanged: "safe_destination sys p \<Longrightarrow> stable sys (exchanged p es us)"
  unfolding exchanged_def safe_destination_def by (intro stable_conj stable_entries stable_lookup) auto

lemma entries_link: "entries_are d es us (w\<lparr>w_fs := link d name i f, w_unlinked := us'\<rparr>)
   \<longleftrightarrow> es = (lookup f d)(name \<mapsto> i) \<and> us' = us"
  by (auto simp: entries_are_def fun_eq_iff)

lemma remove_file_private:
  assumes "private_dir sys d" "entries_are d es us w" "es name = Some i"
    and "\<And>e w. entries_are d es us w \<Longrightarrow> Q (Inl e) w"
    and "\<And>w. entries_are d (es(name := None)) (us @ [i]) w \<Longrightarrow> Q (Inr ()) w"
  shows "wp (remove_file sys d name) Q w"
  unfolding remove_file_def
  by (rule wp_call [OF stable_entries [OF assms(1)] assms(2)])
    (auto simp: remove_file_step_def entries_are_def fun_eq_iff assms(3) intro!: assms(4,5) split: option.splits if_splits)

lemma drop_pending_wp:
  assumes "private_dir sys (pw_staging p)" "entries_are (pw_staging p) es us w"
    and "\<not> pw_published p \<Longrightarrow> es (utf8 (pw_temporary_name p)) = Some i"
    and "\<And>w. entries_are (pw_staging p) es us w \<Longrightarrow> wp k Q w"
    and "\<And>w. \<not> pw_published p \<Longrightarrow>
           entries_are (pw_staging p) (es(utf8 (pw_temporary_name p) := None)) (us @ [i]) w \<Longrightarrow> wp k Q w"
  shows "wp (seq (drop_pending sys p) (\<lambda>_. k)) Q w"
proof (cases "pw_published p")
  case True
  then show ?thesis using assms(2,4) by (simp add: drop_pending_def wp_simps)
next
  case False
  show ?thesis
    unfolding drop_pending_def wp_simps if_not_P [OF False]
    by (rule remove_file_private [OF assms(1,2) assms(3) [OF False]]) (auto intro: assms(4,5) simp: False)
qed

lemma exchange_wp:
  assumes safe: "safe_destination sys p" and at: "entries_are (pw_staging p) es us w" "es (utf8 (pw_temporary_name p)) = Some (pw_file p)"
    and err: "\<And>e w. entries_are (pw_staging p) es us w \<Longrightarrow> Q (Inl e) w"
    and ok: "\<And>i w. exchanged p (es(utf8 (pw_temporary_name p) \<mapsto> i)) us w \<Longrightarrow> Q (Inr ()) w"
  shows "wp (rename_with sys EXCHANGE (pw_staging p) (utf8 (pw_temporary_name p))
      (pw_destination_parent p) (utf8 (pw_destination_name p))) Q w"
proof -
  have "private_dir sys (pw_staging p)" using safe by (simp add: safe_destination_def)
  then show ?thesis
    unfolding rename_with_def
    by (intro wp_call [OF stable_entries at(1)])
      (use safe at(2) in \<open>auto simp: rename_step_def safe_destination_def entries_are_def exchanged_def fun_eq_iff
         intro!: err ok split: option.splits if_splits\<close>)
qed

lemma undo_exchange_wp:
  assumes safe: "safe_destination sys p" and at: "exchanged p es us w" "es (utf8 (pw_temporary_name p)) = Some i"
    and kept: "\<And>w. entries_are (pw_staging p) es us w \<Longrightarrow> Q (Inl (Unavailable, p\<lparr>pw_published := True\<rparr>)) w"
    and undone: "\<And>w. entries_are (pw_staging p) (es(utf8 (pw_temporary_name p) \<mapsto> pw_file p)) us w \<Longrightarrow> Q (Inl (e, p)) w"
  shows "wp (undo_exchange sys p e) Q w"
  unfolding undo_exchange_def rollback_exchange_def wp_simps rename_with_def
  by (rule wp_call [OF stable_exchanged [OF safe] at(1)])
    (use safe at(2) in \<open>auto simp: rename_step_def safe_destination_def entries_are_def exchanged_def fun_eq_iff wp_simps
       intro!: kept undone split: option.splits if_splits\<close>)

lemma remove_exchanged_wp:
  assumes safe: "safe_destination sys p" and at: "exchanged p es us w" "es (utf8 (pw_temporary_name p)) = Some i"
    and "\<And>e w. exchanged p es us w \<Longrightarrow> Q (Inl e) w"
    and "\<And>w. exchanged p (es(utf8 (pw_temporary_name p) := None)) (us @ [i]) w \<Longrightarrow> Q (Inr ()) w"
  shows "wp (remove_file sys (pw_staging p) (utf8 (pw_temporary_name p))) Q w"
  unfolding remove_file_def
  by (rule wp_call [OF stable_exchanged [OF safe] at(1)])
    (use safe at(2) in \<open>auto simp: remove_file_step_def safe_destination_def entries_are_def exchanged_def fun_eq_iff
       intro!: assms(4,5) split: option.splits if_splits\<close>)

definition replaced :: "PendingWrite \<Rightarrow> (nat list \<rightharpoonup> nat) \<Rightarrow> nat list \<Rightarrow> EntryMetadata \<Rightarrow> PendingWrite \<Rightarrow> world \<Rightarrow> bool" where
  "replaced p es us expected p' w \<longleftrightarrow>
     p' = p\<lparr>pw_published := True\<rparr>
     \<and> exchanged p (es(utf8 (pw_temporary_name p) := None)) (us @ [em_file_id expected]) w"

definition not_replaced :: "PendingWrite \<Rightarrow> (nat list \<rightharpoonup> nat) \<Rightarrow> nat list \<Rightarrow> PendingWrite \<Rightarrow> world \<Rightarrow> bool" where
  "not_replaced p es us p' w \<longleftrightarrow>
     (p' = p \<and> entries_are (pw_staging p) es us w)
     \<or> (p' = p\<lparr>pw_published := True\<rparr> \<and> (\<exists>i. entries_are (pw_staging p) (es(utf8 (pw_temporary_name p) \<mapsto> i)) us w))"

lemma exchange_is_valid_wp:
  assumes safe: "safe_destination sys p" and at: "exchanged p es us w" "es (utf8 (pw_temporary_name p)) = Some i"
    and rest: "\<And>valid w. exchanged p es us w \<Longrightarrow> (valid \<Longrightarrow> em_file_id expected = i) \<Longrightarrow> Q (Inr valid) w"
  shows "wp (exchange_is_valid sys p expected replacement) Q w"
proof -
  note st = stable_exchanged [OF safe, of es us]
  have lookup: "lookup (w_fs w) (pw_staging p) (utf8 (pw_temporary_name p)) = Some i" if "exchanged p es us w" for w
    using that at(2) by (simp add: exchanged_def entries_are_def)
  have "wp (metadata_in_parent_raw sys (pw_staging p) (utf8 (pw_temporary_name p)))
      (\<lambda>r. Q (Inr (ok_matching r expected))) w" if "exchanged p es us w" for w
    by (rule metadata_identifies [OF st that lookup])
      (auto simp: ok_matching_def matches_validator_def intro: rest)
  then show ?thesis
    unfolding exchange_is_valid_def wp_seq wp_attempt
    by (intro wp_observing [OF _ st at(1)]) (auto simp: wp_simps observing_intros rest)
qed

lemma exchange_staged_wp:
  assumes safe: "safe_destination sys p"
    and at: "entries_are (pw_staging p) es us w" "es (utf8 (pw_temporary_name p)) = Some (pw_file p)"
  shows "wp (exchange_staged sys p expected replacement)
    (\<lambda>r w. case r of Inr (m, p') \<Rightarrow> replaced p es us expected p' w | Inl (e, p') \<Rightarrow> not_replaced p es us p' w) w"
    (is "wp _ ?Q w")
proof -
  let ?tmp = "utf8 (pw_temporary_name p)"
  have undo: "wp (undo_exchange sys p e) ?Q w" if "exchanged p (es(?tmp \<mapsto> i)) us w" for i e w
    by (rule undo_exchange_wp [OF safe that]) (use at(2) in \<open>auto simp: not_replaced_def map_upd_triv\<close>)
  have settle: "wp (settle_exchange sys p replacement valid) ?Q w"
    if x: "exchanged p (es(?tmp \<mapsto> i)) us w" and v: "valid \<Longrightarrow> em_file_id expected = i" for valid i w
  proof (cases valid)
    case True
    show ?thesis
      by (simp only: settle_exchange_def True not_True_eq_False if_False wp_seq_attempt,
          rule remove_exchanged_wp [OF safe x])
        (use v [OF True] in \<open>auto simp: undo wp_ret replaced_def intro!: wp_sync [OF stable_exchanged [OF safe]]\<close>)
  qed (simp add: settle_exchange_def undo [OF x])
  show ?thesis
    unfolding exchange_staged_def wp_seq holding_def wp_error_as
    by (rule exchange_wp [OF safe at]) (auto simp: not_replaced_def intro!: exchange_is_valid_wp [OF safe] settle)
qed

lemma encode_hex_is_char: "list_all is_char (encode_hex bs)"
  using encode_hex_ascii [of bs] by (auto simp: is_ascii_def is_char_def list_all_iff)

lemma random_name_wp:
  assumes "stable sys P" "P w" "\<And>e w. P w \<Longrightarrow> Q (Inl e) w"
    and "\<And>bs w. P w \<Longrightarrow> length bs = 16 \<Longrightarrow> Q (Inr (pre @ encode_hex bs)) w"
  shows "wp (random_internal_name sys pre) Q w"
  unfolding random_internal_name_def wp_seq [of next_call] wp_next_call sum.case
  by (rule wp_seq_observe [OF assms(1,2)]) (auto simp: wp_ret intro: assms(3,4))

lemma rename_within_private:
  assumes "private_dir sys d" "entries_are d es us w" "es name = Some i"
    and "\<And>e w. entries_are d es us w \<Longrightarrow> Q (Inl e) w"
    and "\<And>w. es name' = None \<Longrightarrow> entries_are d (es(name := None, name' \<mapsto> i)) us w \<Longrightarrow> Q (Inr ()) w"
  shows "wp (rename_with sys NOREPLACE d name d name') Q w"
  unfolding rename_with_def
  by (rule wp_call [OF stable_entries [OF assms(1)] assms(2)])
    (auto simp: rename_step_def entries_are_def fun_eq_iff assms(3) intro!: assms(4,5) split: option.splits if_splits)

text \<open>
  The staging entries after publishing the file named \<open>t\<close> there: that name may be gone, and other names change
  only if they are retained ones.
\<close>

definition staging_settled :: "nat list \<Rightarrow> (nat list \<rightharpoonup> nat) \<Rightarrow> (nat list \<rightharpoonup> nat) \<Rightarrow> bool" where
  "staging_settled t es es' \<longleftrightarrow>
     (\<forall>n. es' n = es n \<or> n = t \<and> es' n = None \<or> (\<exists>s. retained_name s \<and> list_all is_char s \<and> n = utf8 s))"

lemma staging_settled_intros:
  "staging_settled t es es" "staging_settled t es es' \<Longrightarrow> staging_settled t es (es'(t := None))"
  "staging_settled t es es' \<Longrightarrow> list_all is_char s \<Longrightarrow> staging_settled t es (es'(utf8 (INTERNAL_REPLACE_PREFIX @ s) := x))"
proof -
  show "staging_settled t es (es'(utf8 (INTERNAL_REPLACE_PREFIX @ s) := x))"
    if "staging_settled t es es'" "list_all is_char s"
  proof -
    have "retained_name (INTERNAL_REPLACE_PREFIX @ s) \<and> list_all is_char (INTERNAL_REPLACE_PREFIX @ s)"
      using that(2) by (auto simp: retained_name_def INTERNAL_REPLACE_PREFIX_def lit_def is_char_def)
    with that(1) show ?thesis unfolding staging_settled_def fun_upd_apply by metis
  qed
qed (auto simp: staging_settled_def)

lemma dropping_wp:
  "wp (dropping sys m) Q w =
     wp m (\<lambda>r w. case r of Inl (e, p) \<Rightarrow> wp (seq (drop_pending sys p) (\<lambda>_. fail e)) Q w
                          | Inr (x, p) \<Rightarrow> wp (seq (drop_pending sys p) (\<lambda>_. ret x)) Q w) w"
  unfolding dropping_def wp_seq_attempt
  by (rule arg_cong2 [where f = "\<lambda>R. wp m R"]) (auto split: sum.splits prod.splits intro!: ext)

lemma publish_replacement_wp:
  assumes safe: "safe_destination sys p" and new: "\<not> pw_published p"
    and at: "entries_are (pw_staging p) es us w" "es (utf8 (pw_temporary_name p)) = Some (pw_file p)"
  shows "wp (publish_replacement sys p expected) (\<lambda>r w. \<exists>es'. staging_settled (utf8 (pw_temporary_name p)) es es' \<and>
    (case r of
       Inr m \<Rightarrow> exchanged p es' (us @ [em_file_id expected]) w
     | Inl e \<Rightarrow> entries_are (pw_staging p) es' us w \<or> entries_are (pw_staging p) es' (us @ [pw_file p]) w)) w"
    (is "wp _ ?Q w")
proof -
  have priv: "private_dir sys (pw_staging p)" using safe by (simp add: safe_destination_def)
  note st = stable_entries [OF priv, of es us]
  let ?R = "\<lambda>r w. case r of Inl (e, p) \<Rightarrow> wp (seq (drop_pending sys p) (\<lambda>_. fail e)) ?Q w
                          | Inr (x, p) \<Rightarrow> wp (seq (drop_pending sys p) (\<lambda>_. ret x)) ?Q w"
  have drop: "?R (Inl (e, p)) w" if "entries_are (pw_staging p) es us w" for e w
    unfolding sum.case prod.case
    by (rule drop_pending_wp [OF priv that, where i = "pw_file p"])
      (use at(2) in \<open>auto simp: wp_fail intro: staging_settled_intros\<close>)
  have swap: "wp (exchange_staged sys (p\<lparr>pw_temporary_name := INTERNAL_REPLACE_PREFIX @ s\<rparr>) expected replacement) ?R w"
    if e: "entries_are (pw_staging p)
       (es(utf8 (pw_temporary_name p) := None, utf8 (INTERNAL_REPLACE_PREFIX @ s) \<mapsto> pw_file p)) us w"
      and s: "list_all is_char s" for s w replacement
  proof -
    define name where "name = utf8 (INTERNAL_REPLACE_PREFIX @ s)"
    define q where "q = p\<lparr>pw_temporary_name := INTERNAL_REPLACE_PREFIX @ s\<rparr>"
    let ?es = "es(utf8 (pw_temporary_name p) := None, name \<mapsto> pw_file p)"
    have q: "safe_destination sys q" "utf8 (pw_temporary_name q) = name" "pw_staging q = pw_staging p" "pw_file q = pw_file p"
      "\<not> pw_published q" "\<And>es us. exchanged q es us = exchanged p es us"
      using safe new by (auto simp: q_def name_def safe_destination_def exchanged_def fun_eq_iff)
    have settled: "staging_settled (utf8 (pw_temporary_name p)) es ?es"
      "staging_settled (utf8 (pw_temporary_name p)) es (?es(name := None))"
      "staging_settled (utf8 (pw_temporary_name p)) es (?es(name \<mapsto> i))" for i
      unfolding name_def by (intro staging_settled_intros s)+
    have "?R r w" if r: "case r of Inr (m, p') \<Rightarrow> replaced q ?es us expected p' w
        | Inl (e, p') \<Rightarrow> not_replaced q ?es us p' w" for r w
    proof (cases r)
      case (Inr mp)
      with r settled(2) show ?thesis
        by (cases mp) (auto simp: replaced_def drop_pending_def wp_simps q(2,6) simp del: fun_upd_apply)
    next
      case (Inl ep)
      then obtain e p' where ep: "r = Inl (e, p')" by (cases ep) auto
      from r consider "p' = q" "entries_are (pw_staging q) ?es us w"
        | i where "p' = q\<lparr>pw_published := True\<rparr>" "entries_are (pw_staging p) (?es(name \<mapsto> i)) us w"
        unfolding ep not_replaced_def q(2,3) by auto
      then show ?thesis
      proof cases
        case 1
        show ?thesis
          unfolding ep sum.case prod.case 1(1)
          by (rule drop_pending_wp [OF _ 1(2), where i = "pw_file p"])
            (use priv settled(1,2) in \<open>auto simp: wp_fail q(2,3) fun_upd_same simp del: fun_upd_apply\<close>)
      next
        case 2
        with settled(3) show ?thesis by (auto simp: ep drop_pending_def wp_simps simp del: fun_upd_apply)
      qed
    qed
    then show ?thesis
      unfolding q_def [symmetric]
      by (intro wp_conseq [OF exchange_staged_wp [OF q(1), of ?es us]]) (use e in \<open>auto simp: q name_def\<close>)
  qed
  define R where "R = ?R"
  note swap = swap [folded R_def]
  have drop: "R (Inl (e, p)) w" if "entries_are (pw_staging p) es us w" for e w
    using drop [OF that] by (simp add: R_def)
  have stage: "wp (seq (holding p (random_internal_name sys INTERNAL_REPLACE_PREFIX)) (\<lambda>name.
      seq (holding p (io (rename_with sys NOREPLACE (pw_staging p) (utf8 (pw_temporary_name p)) (pw_staging p) (utf8 name))))
        (\<lambda>_. exchange_staged sys (p\<lparr>pw_temporary_name := name\<rparr>) expected replacement))) R w"
    if e: "entries_are (pw_staging p) es us w" for w replacement
    unfolding wp_seq_holding wp_error_as
    by (rule random_name_wp [OF st e])
      (auto simp: drop swap encode_hex_is_char simp del: utf8_append intro!: rename_within_private [OF priv, where es = es and us = us and i = "pw_file p"] at(2))
  show ?thesis
    unfolding publish_replacement_def dropping_wp R_def [symmetric]
    by (intro wp_after_holding [OF _ st] at(1) observing_intros)
      (auto simp: wp_fail stage drop)
qed

subsection \<open>Publishing a new file\<close>

lemma drop_absent_wp:
  assumes "private_dir sys (pw_staging p)" "entries_are (pw_staging p) es us w" "es (utf8 (pw_temporary_name p)) = None"
    and "\<And>w. entries_are (pw_staging p) es us w \<Longrightarrow> wp k Q w"
  shows "wp (seq (drop_pending sys p) (\<lambda>_. k)) Q w"
proof -
  have "wp (remove_file sys (pw_staging p) (utf8 (pw_temporary_name p))) (\<lambda>_ w. wp k Q w) w"
    unfolding remove_file_def
    by (rule wp_call [OF stable_entries [OF assms(1)] assms(2)])
      (auto simp: remove_file_step_def entries_are_def assms(3) intro: assms(4))
  then show ?thesis using assms(2,4) by (simp add: drop_pending_def wp_simps)
qed

lemma publish_new_wp:
  assumes safe: "safe_destination sys p" and new: "\<not> pw_published p"
    and at: "entries_are (pw_staging p) es us w" "es (utf8 (pw_temporary_name p)) = Some (pw_file p)"
  shows "wp (publish_new sys p) (\<lambda>r w.
    (case r of
       Inr _ \<Rightarrow> exchanged p (es(utf8 (pw_temporary_name p) := None)) us w
     | Inl e \<Rightarrow> \<exists>es'. staging_settled (utf8 (pw_temporary_name p)) es es' \<and>
         (entries_are (pw_staging p) es' us w \<or> entries_are (pw_staging p) es' (us @ [pw_file p]) w))) w"
    (is "wp _ ?Q w")
proof -
  have priv: "private_dir sys (pw_staging p)" using safe by (simp add: safe_destination_def)
  note st = stable_entries [OF priv, of es us]
  define rest where "rest = es(utf8 (pw_temporary_name p) := None)"
  have rest: "rest (utf8 (pw_temporary_name p)) = None" "staging_settled (utf8 (pw_temporary_name p)) es rest"
    by (simp_all add: rest_def staging_settled_intros)
  let ?d = "pw_destination_parent p" and ?name = "utf8 (pw_destination_name p)"
  define R where "R = (\<lambda>r w. case r of Inl (e, p) \<Rightarrow> wp (seq (drop_pending sys p) (\<lambda>_. fail e)) ?Q w
                          | Inr (x, p) \<Rightarrow> wp (seq (drop_pending sys p) (\<lambda>_. ret x)) ?Q w)"
  have drop: "R (Inl (e, p)) w" if "entries_are (pw_staging p) es us w" for e w
    unfolding R_def sum.case prod.case
    by (rule drop_pending_wp [OF priv that, where i = "pw_file p"])
      (use at(2) in \<open>auto simp: wp_fail intro: staging_settled_intros\<close>)
  have lost: "R (Inl (e, p)) w" if "entries_are (pw_staging p) rest us w \<or> entries_are (pw_staging p) rest (us @ [pw_file p]) w" for e w
    using that unfolding R_def sum.case prod.case
    by (auto simp: wp_fail rest intro!: drop_absent_wp [OF priv] exI [of _ rest])
  have undo: "wp (seq (attempt (remove_file sys ?d ?name)) (\<lambda>_. fail (FsConflict, p))) R w" if "exchanged p rest us w" for w
    unfolding wp_seq_attempt remove_file_def
    by (rule wp_call [OF stable_exchanged [OF safe] that])
      (use safe in \<open>auto simp: remove_file_step_def safe_destination_def exchanged_def entries_are_def wp_fail fun_eq_iff
        split: option.splits if_splits intro!: lost\<close>)
  have committed: "wp (seq (sync_after_commit sys a) (\<lambda>_. seq (sync_after_commit sys b) (\<lambda>_. ret ((), p\<lparr>pw_published := True\<rparr>)))) R w"
    if "exchanged p rest us w" for a b w
    by (intro wp_sync [OF stable_exchanged [OF safe, of rest us]] that)
      (simp_all add: wp_simps R_def drop_pending_def rest_def [symmetric])
  have check: "wp (seq (attempt (metadata_in_parent_raw sys ?d ?name)) (\<lambda>current.
      if \<not> ok_matching current expected then seq (attempt (remove_file sys ?d ?name)) (\<lambda>_. fail (FsConflict, p))
      else let p = p\<lparr>pw_published := True\<rparr> in
        seq (sync_after_commit sys (pw_staging p)) (\<lambda>_. seq (sync_after_commit sys (pw_destination_parent p)) (\<lambda>_.
          ret ((), p))))) R w" if "exchanged p rest us w" for w expected
    unfolding wp_seq_attempt
    by (rule wp_observing [OF _ stable_exchanged [OF safe] that]) (auto simp: observing_intros undo committed Let_def)
  have rename: "wp (seq (holding p (io (rename_with sys NOREPLACE (pw_staging p) (utf8 (pw_temporary_name p)) ?d ?name))) (\<lambda>_. k)) R w"
    if "entries_are (pw_staging p) es us w" "\<And>w. exchanged p rest us w \<Longrightarrow> wp k R w" for k w
    unfolding wp_seq_holding wp_error_as rename_with_def
    by (rule wp_call [OF st that(1)])
      (use safe at(2) in \<open>auto simp: rename_step_def safe_destination_def exchanged_def entries_are_def fun_eq_iff rest_def
        split: option.splits if_splits intro!: drop that(2)\<close>)
  show ?thesis
    unfolding publish_new_def dropping_wp R_def [symmetric]
    by (rule wp_after_holding [OF _ st at(1)], simp add: observing_intros, erule drop,
        rule wp_after_holding [OF _ st], simp add: observing_intros, assumption, erule drop,
        rule wp_after_holding [OF _ st], simp add: observing_intros, assumption, erule drop,
        erule rename, erule check)
qed

subsection \<open>Moving and deleting\<close>

text \<open>Renaming without replacement never unlinks anything.\<close>

lemma rename_spares [keeping_intros]:
  "flags \<noteq> REPLACE \<Longrightarrow> keeping (unlinked_are us) (rename_with sys flags d name d' name')"
  unfolding rename_with_def
  by (rule keeping_call [OF stable_unlinked]) (auto simp: rename_step_def unlinked_are_def split: if_splits option.splits RenameFlags.splits)

lemma observing_spares: "observing sys m \<Longrightarrow> keeping (unlinked_are us) m"
  by (rule observing_keeping [OF _ stable_unlinked])

lemmas observing_ops = observing_calls observing_sync observing_names observing_paths observing_metadata observing_entries

lemmas sparing_ops [keeping_intros] = observing_ops [THEN observing_spares]

lemma move_entry_spares: "keeping (unlinked_are us) (move_entry sys share source destination expected)"
  unfolding move_entry_def by (intro keeping_intros) simp_all

lemma undo_delete_spares [keeping_intros]: "keeping (unlinked_are us) (undo_delete sys staging staged_name parent name e)"
  unfolding undo_delete_def by (intro keeping_intros) simp_all

lemma undo_delete_fails: "wp (undo_delete sys staging staged_name parent name e) (\<lambda>r w. case r of Inl _ \<Rightarrow> P w | Inr _ \<Rightarrow> False) w
   \<longleftrightarrow> wp (undo_delete sys staging staged_name parent name e) (\<lambda>_. P) w"
  unfolding undo_delete_def wp_seq_attempt
  by (rule arg_cong2 [where f = "wp (rename_with sys NOREPLACE staging (utf8 staged_name) parent (utf8 name))"])
    (auto simp: wp_simps split: sum.splits intro!: ext)

lemma remove_private:
  assumes "private_dir sys d" "entries_are d es us w" "es name = Some i" "step = remove_file_step d name \<or> step = remove_dir_step d name"
    and "\<And>e w. entries_are d es us w \<Longrightarrow> Q (Inl e) w" "\<And>w. unlinked_are (us @ [i]) w \<Longrightarrow> Q (Inr ()) w"
  shows "wp (call sys step) Q w"
  by (rule wp_call [OF stable_entries [OF assms(1)] assms(2)])
    (use assms(3,4) in \<open>auto simp: remove_file_step_def remove_dir_step_def entries_are_def unlinked_are_def
      intro!: assms(5,6) split: option.splits if_splits\<close>)

text \<open>
  The outcome of a delete: success unlinks exactly the entry the client named, failure nothing.
\<close>

definition delete_outcome :: "nat list \<Rightarrow> EntryMetadata \<Rightarrow> FsErrorCode + unit \<Rightarrow> world \<Rightarrow> bool" where
  "delete_outcome us expected r w \<longleftrightarrow>
     unlinked_are (case r of Inr _ \<Rightarrow> us @ [em_file_id expected] | Inl _ \<Rightarrow> us) w"

lemma undo_delete_outcome:
  "entries_are d es us w \<Longrightarrow> wp (undo_delete sys staging staged_name parent name e) (delete_outcome us expected) w"
proof -
  assume "entries_are d es us w"
  then have "wp (undo_delete sys staging staged_name parent name e) (\<lambda>_. unlinked_are us) w"
    using undo_delete_spares by (simp add: keeping_def entries_are_def unlinked_are_def)
  then show ?thesis
    unfolding undo_delete_fails [symmetric]
    by (rule wp_conseq) (auto simp: delete_outcome_def split: sum.splits)
qed

lemma stage_for_delete:
  assumes "private_dir sys d" "entries_are d es us w"
    and "\<And>e w. entries_are d es us w \<Longrightarrow> Q (Inl e) w"
    and "\<And>es i w. entries_are d es us w \<Longrightarrow> es name' = Some i \<Longrightarrow> Q (Inr ()) w"
  shows "wp (rename_with sys NOREPLACE parent name d name') Q w"
  unfolding rename_with_def
  by (rule wp_call [OF stable_entries [OF assms(1)] assms(2)])
    (auto simp: rename_step_def entries_are_def assms(3) intro!: assms(4) split: option.splits if_splits)

lemma delete_entry_wp:
  assumes priv: "\<And>d. sh_staging share = Some d \<Longrightarrow> private_dir sys d" and us: "unlinked_are us w"
  shows "wp (delete_entry sys share path expected) (delete_outcome us expected) w" (is "wp _ ?Q w")
proof -
  have fails: "?Q (Inl e) w" if "unlinked_are us w" for e w using that by (simp add: delete_outcome_def)
  have sync: "wp (seq (sync_after_commit sys a) (\<lambda>_. sync_after_commit sys b)) ?Q w"
    if "unlinked_are (us @ [em_file_id expected]) w" for a b w
  proof -
    have "wp (sync_after_commit sys b) ?Q w" if "unlinked_are (us @ [em_file_id expected]) w" for w
      unfolding sync_after_commit_def wp_seq_attempt wp_ret
      by (rule wp_observing [where sys = sys, OF _ stable_unlinked that]) (auto simp: observing_intros delete_outcome_def)
    then show ?thesis by (intro wp_sync [where sys = sys, OF stable_unlinked that])
  qed
  have remove: "wp (seq (attempt (case em_kind expected of File \<Rightarrow> remove_file sys d staged | Directory \<Rightarrow> remove_dir sys d staged))
      (\<lambda>removal. case removal of Inl e \<Rightarrow> undo_delete sys d n parent name (map_io e)
         | Inr _ \<Rightarrow> seq (sync_after_commit sys d) (\<lambda>_. sync_after_commit sys parent))) ?Q w"
    if "private_dir sys d" "entries_are d es us w" "es staged = Some (em_file_id expected)" for d staged n parent name es w
    unfolding wp_seq_attempt remove_file_def remove_dir_def
    by (cases "em_kind expected")
      (auto intro!: remove_private [OF that] undo_delete_outcome sync)
  have staged: "wp (seq (attempt (metadata_in_parent_raw sys d (utf8 n))) (\<lambda>staged.
      if \<not> ok_matching staged expected then undo_delete sys d n parent name FsConflict
      else seq (attempt (case em_kind expected of File \<Rightarrow> remove_file sys d (utf8 n) | Directory \<Rightarrow> remove_dir sys d (utf8 n)))
        (\<lambda>removal. case removal of Inl e \<Rightarrow> undo_delete sys d n parent name (map_io e)
           | Inr _ \<Rightarrow> seq (sync_after_commit sys d) (\<lambda>_. sync_after_commit sys parent)))) ?Q w"
    if "private_dir sys d" "entries_are d es us w" "es (utf8 n) = Some i" for d n parent name es i w
  proof -
    have "lookup (w_fs w) d (utf8 n) = Some i" if "entries_are d es us w" for w
      using that \<open>es (utf8 n) = Some i\<close> by (simp add: entries_are_def)
    then show ?thesis
      unfolding wp_seq_attempt [of "metadata_in_parent_raw a b c" for a b c]
      by (rule metadata_identifies [OF stable_entries [OF that(1)] that(2)])
        (use that(3) in \<open>auto simp: ok_matching_def matches_validator_def
          intro!: undo_delete_outcome remove [OF that(1), where es = es]\<close>)
  qed
  have stage: "wp (seq (io (rename_with sys NOREPLACE parent (utf8 name) d (utf8 n))) (\<lambda>_. k)) ?Q w"
    if "private_dir sys d" "unlinked_are us w" "\<And>es i w. entries_are d es us w \<Longrightarrow> es (utf8 n) = Some i \<Longrightarrow> wp k ?Q w"
    for d n parent name k w
    unfolding wp_seq wp_error_as
    by (rule stage_for_delete [OF that(1), where es = "lookup (w_fs w) d" and us = us])
      (use that(2,3) in \<open>auto simp: entries_are_def unlinked_are_def fails\<close>)
  note obs = wp_after [where sys = sys, OF _ stable_unlinked]
  show ?thesis
    unfolding delete_entry_def
    by (rule obs [OF _ us], simp add: observing_intros, erule fails,
        rule obs, simp add: observing_intros, assumption, erule fails, clarsimp simp: wp_fail fails,
        rule obs, simp add: observing_intros, assumption, erule fails, clarsimp, rule wp_seq_lift, simp add: fails,
        rule obs, simp add: observing_intros, assumption, erule fails,
        rule obs, simp add: observing_intros, assumption, erule fails,
        rule stage, simp add: priv, assumption, rule staged, simp add: priv, assumption+)
qed

subsection \<open>Recovery\<close>

text \<open>
  Names that recovery may remove: the temporary names of staged files and the names of unfinished
  archive trees. Directories form a hierarchy, so a tree below staging never contains staging.
\<close>

definition recoverable_name :: "nat list \<Rightarrow> bool" where
  "recoverable_name n =
     (case utf8_decode n of
        None \<Rightarrow> False
      | Some s \<Rightarrow> \<not> retained_name s \<and> (is_internal_temp_name s \<or> is_tree_name s))"

definition hierarchy :: "(nat \<Rightarrow> nat) \<Rightarrow> fs \<Rightarrow> bool" where
  "hierarchy rank f \<longleftrightarrow> (\<forall>d name i. lookup f d name = Some i \<longrightarrow> md_is_dir (fs_stat f i) \<longrightarrow> rank i < rank d)"

definition spared :: "(nat \<Rightarrow> nat) \<Rightarrow> nat \<Rightarrow> (nat list \<rightharpoonup> nat) \<Rightarrow> world \<Rightarrow> bool" where
  "spared rank staging es w \<longleftrightarrow>
     hierarchy rank (w_fs w) \<and> (\<forall>n. \<not> recoverable_name n \<longrightarrow> lookup (w_fs w) staging n = es n)"

definition keeps_hierarchy :: "sys \<Rightarrow> (nat \<Rightarrow> nat) \<Rightarrow> bool" where
  "keeps_hierarchy sys rank \<longleftrightarrow> (\<forall>n f. hierarchy rank f \<longrightarrow> hierarchy rank (sys_interfere sys n f))"

lemma stable_spared: "private_dir sys d \<Longrightarrow> keeps_hierarchy sys rank \<Longrightarrow> stable sys (spared rank d es)"
  by (auto simp: stable_def spared_def private_dir_def keeps_hierarchy_def interfered_def lookup_def)

lemma hierarchy_unlink: "hierarchy rank f \<Longrightarrow> hierarchy rank (drop_link i (unlink d name f))"
  by (auto simp: hierarchy_def unlink_def lookup_def drop_link_def map_of_remove_key split: if_splits)

lemma wp_each:
  assumes "I s w" "\<And>s w. I s w \<Longrightarrow> Q (Inr s) w"
    and "\<And>x s w. x \<in> set xs \<Longrightarrow> I s w \<Longrightarrow> wp (f x s) (\<lambda>r w. case r of Inl e \<Rightarrow> Q (Inl e) w | Inr s \<Rightarrow> I s w) w"
  shows "wp (seq_each f xs s) Q w"
  using assms(1,3)
proof (induction xs arbitrary: s w)
  case Nil
  then show ?case using assms(2) by (simp add: wp_ret)
next
  case (Cons x xs)
  have "wp (f x s) (\<lambda>r w. case r of Inl e \<Rightarrow> Q (Inl e) w | Inr s \<Rightarrow> I s w) w"
    by (rule Cons.prems(2)) (use Cons.prems(1) in simp_all)
  then show ?case
    unfolding seq_each.simps wp_seq
    by (rule wp_conseq) (use Cons.IH Cons.prems(2) in \<open>auto split: sum.splits\<close>)
qed

lemma remove_keeps:
  assumes "stable sys (spared rank staging es)" "d \<noteq> staging \<or> recoverable_name name"
    and "step = remove_file_step d name \<or> step = remove_dir_step d name"
  shows "keeping (spared rank staging es) (call sys step)"
  by (rule keeping_call [OF assms(1)])
    (use assms(2,3) in \<open>auto simp: remove_file_step_def remove_dir_step_def spared_def hierarchy_unlink
      split: option.splits if_splits\<close>)

lemma remove_ops_keep:
  assumes "stable sys (spared rank staging es)" "d \<noteq> staging \<or> recoverable_name name"
  shows "keeping (spared rank staging es) (remove_file sys d name)" "keeping (spared rank staging es) (remove_dir sys d name)"
  unfolding remove_file_def remove_dir_def by (auto intro: remove_keeps [OF assms])

lemma enter_keeps:
  assumes st: "stable sys (spared rank staging es)"
    and k: "\<And>child. rank child < rank d \<Longrightarrow> keeping (spared rank staging es) (k child)"
  shows "keeping (spared rank staging es) (seq (io (open_dir_nofollow sys d name)) k)"
  unfolding keeping_def open_dir_nofollow_def
proof (intro allI impI)
  fix w assume "spared rank staging es w"
  then show "wp (seq (io (call sys (observe (\<lambda>f. dir_of f d name)))) k) (\<lambda>_. spared rank staging es) w"
    by (rule wp_seq_observe [OF st])
      (use k in \<open>auto simp: keeping_def spared_def hierarchy_def dir_of_def split: option.splits if_splits\<close>)
qed

lemma remove_tree_keeps:
  assumes st: "stable sys (spared rank staging es)"
  shows "rank d < rank staging \<Longrightarrow> keeping (spared rank staging es) (remove_tree sys below limit d removed)"
proof (induction below arbitrary: d removed)
  case 0
  show ?case
    unfolding remove_tree.simps
    by (intro keeping_intros observing_ops [THEN observing_keeping, OF st])
next
  case (Suc below)
  then have "d \<noteq> staging" "\<And>child removed. rank child < rank d \<Longrightarrow>
      keeping (spared rank staging es) (remove_tree sys below limit child removed)" by auto
  then show ?case
    unfolding remove_tree.simps
    by (intro enter_keeps [OF st] keeping_intros observing_ops [THEN observing_keeping, OF st] remove_ops_keep [OF st]) auto
qed

lemma clean_tree_keeps:
  assumes st: "stable sys (spared rank staging es)" and "recoverable_name name"
  shows "keeping (spared rank staging es) (clean_tree sys staging name removed limit)"
  unfolding clean_tree_def
  by (intro enter_keeps [OF st] keeping_intros remove_tree_keeps [OF st] remove_ops_keep [OF st])
    (use assms(2) in auto)

lemma classify_staged_wp:
  assumes st: "stable sys (spared rank staging es)" and "spared rank staging es w"
    and "list_all recoverable_name recoverable" "list_all recoverable_name trees"
  shows "wp (classify_staged sys staging max_entries name (visited, recoverable, trees))
    (\<lambda>r w. spared rank staging es w
       \<and> (\<forall>v rs ts. r = Inr (v, rs, ts) \<longrightarrow> list_all recoverable_name rs \<and> list_all recoverable_name ts)) w"
    (is "wp _ ?Q w")
proof -
  have "wp (case utf8_decode name of
            None \<Rightarrow> ret (v, recoverable, trees)
          | Some n \<Rightarrow>
              if retained_name n then ret (v, recoverable, trees)
              else
                seq (io (file_type sys staging name)) (\<lambda>kind.
                  if is_tree_name n \<and> md_is_dir kind then ret (v, recoverable, trees @ [name])
                  else if \<not> is_internal_temp_name n \<or> \<not> md_is_file kind then ret (v, recoverable, trees)
                  else ret (v, recoverable @ [name], trees))) ?Q w" if "spared rank staging es w" for w v
    using that assms(3,4)
    by (auto simp: wp_ret recoverable_name_def split: option.splits intro!: wp_after [where sys = sys, OF _ st] observing_intros)
  then show ?thesis
    using assms(2) by (auto simp: classify_staged_def Let_def wp_fail intro!: wp_after [where sys = sys, OF _ st] observing_intros)
qed

lemma recover_staging_spares:
  assumes st: "stable sys (spared rank staging es)" and w: "spared rank staging es w"
  shows "wp (recover_staging_directory sys staging max_entries) (\<lambda>_. spared rank staging es) w" (is "wp _ ?Q w")
proof -
  have rest: "wp (seq (seq_each (\<lambda>name visited. seq (clean_tree sys staging name visited max_entries)
          (\<lambda>(visited, cleaned). if \<not> cleaned then fail FsTooLarge else ret visited)) trees visited) (\<lambda>_.
       seq (seq_each (\<lambda>name _. io (remove_file sys staging name)) recoverable ()) (\<lambda>_.
       seq (if recoverable \<noteq> [] then sync_directory sys staging else ret ()) (\<lambda>_.
         ret (length recoverable + length trees))))) ?Q w"
    if "spared rank staging es w" "list_all recoverable_name recoverable" "list_all recoverable_name trees"
    for w visited recoverable trees
  proof -
    have "keeping (spared rank staging es) (seq (seq_each (\<lambda>name visited. seq (clean_tree sys staging name visited max_entries)
          (\<lambda>(visited, cleaned). if \<not> cleaned then fail FsTooLarge else ret visited)) trees visited) (\<lambda>_.
       seq (seq_each (\<lambda>name _. io (remove_file sys staging name)) recoverable ()) (\<lambda>_.
       seq (if recoverable \<noteq> [] then sync_directory sys staging else ret ()) (\<lambda>_.
         ret (length recoverable + length trees)))))"
      by (intro keeping_intros clean_tree_keeps [OF st] remove_ops_keep [OF st] observing_ops [THEN observing_keeping, OF st])
        (use that(2,3) in \<open>auto simp: list_all_iff\<close>)
    with that(1) show ?thesis by (simp add: keeping_def)
  qed
  have classify: "wp (seq (seq_each (classify_staged sys staging max_entries) names (0, [], [])) k) ?Q w"
    if "spared rank staging es w" "\<And>v rs ts w. spared rank staging es w \<Longrightarrow> list_all recoverable_name rs \<Longrightarrow>
      list_all recoverable_name ts \<Longrightarrow> wp (k (v, rs, ts)) ?Q w" for names w k
    unfolding wp_seq
    by (rule wp_each [where I = "\<lambda>(v, rs, ts) w. spared rank staging es w \<and> list_all recoverable_name rs \<and> list_all recoverable_name ts"])
      (use that in \<open>auto intro!: wp_conseq [OF classify_staged_wp [OF st]] split: sum.splits\<close>)
  show ?thesis
    unfolding recover_staging_directory_def
    by (rule wp_after [where sys = sys, OF _ st w]) (auto intro!: observing_intros classify rest)
qed

subsection \<open>No version is lost\<close>

lemma retained_not_recoverable:
  "retained_name s \<Longrightarrow> list_all is_char s \<Longrightarrow> \<not> recoverable_name (utf8 s)"
  by (simp add: recoverable_name_def utf8_decode_utf8)

text \<open>
  C2: Replacing a file never loses a version of it. Whatever other processes do to the share before
  the exchange, whichever calls fail, and wherever the process stops, a replacement unlinks the
  version the client named only when it succeeds, and then the destination holds the new file; when it
  fails it unlinks at most its own staged file. What it leaves in staging survives the recovery
  of the next start.
\<close>

theorem replacement_keeps_versions:
  assumes safe: "safe_destination sys p" and new: "\<not> pw_published p"
    and staged: "lookup (w_fs w) (pw_staging p) (utf8 (pw_temporary_name p)) = Some (pw_file p)"
    and run: "publish_replacement sys p expected w = (r, w1)"
    and restart: "private_dir sys' (pw_staging p)" "keeps_hierarchy sys' rank" "hierarchy rank (w_fs w1)"
    and recover: "recover_staging_directory sys' (pw_staging p) max_entries w1 = (r', w2)"
  shows "(case r of
       Inr _ \<Rightarrow> w_unlinked w1 = w_unlinked w @ [em_file_id expected]
         \<and> lookup (w_fs w1) (pw_destination_parent p) (utf8 (pw_destination_name p)) = Some (pw_file p)
     | Inl _ \<Rightarrow> w_unlinked w1 \<in> {w_unlinked w, w_unlinked w @ [pw_file p]})
   \<and> (\<forall>n i. lookup (w_fs w1) (pw_staging p) n = Some i \<longrightarrow> lookup (w_fs w) (pw_staging p) n \<noteq> Some i \<longrightarrow>
        lookup (w_fs w2) (pw_staging p) n = Some i)"
proof -
  define es where "es = lookup (w_fs w) (pw_staging p)"
  have "entries_are (pw_staging p) es (w_unlinked w) w" "es (utf8 (pw_temporary_name p)) = Some (pw_file p)"
    using staged by (simp_all add: entries_are_def es_def)
  from wp_result [OF publish_replacement_wp [OF safe new this] run] obtain es' where
    settled: "staging_settled (utf8 (pw_temporary_name p)) es es'" and post: "case r of Inr m \<Rightarrow> exchanged p es' (w_unlinked w @ [em_file_id expected]) w1
      | Inl e \<Rightarrow> entries_are (pw_staging p) es' (w_unlinked w) w1 \<or> entries_are (pw_staging p) es' (w_unlinked w @ [pw_file p]) w1"
    by auto
  then have es': "lookup (w_fs w1) (pw_staging p) = es'" by (auto simp: exchanged_def entries_are_def split: sum.splits)
  have "spared rank (pw_staging p) es' w1" using es' restart(3) by (simp add: spared_def)
  from wp_result [OF recover_staging_spares [OF stable_spared [OF restart(1,2)] this] recover]
  have kept: "\<not> recoverable_name n \<Longrightarrow> lookup (w_fs w2) (pw_staging p) n = es' n" for n by (simp add: spared_def)
  have "lookup (w_fs w2) (pw_staging p) n = Some i" if "es' n = Some i" "es n \<noteq> Some i" for n i
  proof -
    from settled that obtain s where "retained_name s" "list_all is_char s" "n = utf8 s"
      unfolding staging_settled_def by (metis option.distinct(1))
    with kept retained_not_recoverable that(1) show ?thesis by simp
  qed
  with post show ?thesis by (auto simp: es' es_def exchanged_def entries_are_def split: sum.splits)
qed

text \<open>
  C3: Deleting and moving never lose an entry. Under arbitrary interference outside private staging and
  arbitrary faults, a successful delete unlinks exactly the entry whose validator the client sent, a failed delete and
  every move unlink nothing.
\<close>

theorem delete_and_move_exact:
  assumes "\<And>d. sh_staging share = Some d \<Longrightarrow> private_dir sys d"
    and "delete_entry sys share path expected w = (r, w1)"
    and "move_entry sys share source destination expected' v = (q, v1)"
  shows "w_unlinked w1 = (case r of Inr _ \<Rightarrow> w_unlinked w @ [em_file_id expected] | Inl _ \<Rightarrow> w_unlinked w)
    \<and> w_unlinked v1 = w_unlinked v"
proof
  have "wp (delete_entry sys share path expected) (delete_outcome (w_unlinked w) expected) w"
    by (rule delete_entry_wp [OF assms(1)]) (auto simp: unlinked_are_def)
  from wp_result [OF this assms(2)] show "w_unlinked w1 = (case r of Inr _ \<Rightarrow> w_unlinked w @ [em_file_id expected] | Inl _ \<Rightarrow> w_unlinked w)"
    by (simp add: delete_outcome_def unlinked_are_def)
  have "wp (move_entry sys share source destination expected') (\<lambda>_. unlinked_are (w_unlinked v)) v"
    using move_entry_spares by (simp add: keeping_def unlinked_are_def)
  from wp_result [OF this assms(3)] show "w_unlinked v1 = w_unlinked v" by (simp add: unlinked_are_def)
qed

subsection \<open>A sample share\<close>

text \<open>
  Directory 1 with a file \<open>a\<close> (inode 3), and private staging directory 2 with a staged file (inode 4).
\<close>

definition temporary :: str where "temporary = INTERNAL_TEMP_PREFIX @ replicate 32 48"

definition staged_fs :: fs where
  "staged_fs = \<lparr> fs_entries = (\<lambda>d. if d = 1 then [([97], 3)] else if d = 2 then [(temporary, 4)] else []),
     fs_stat = (\<lambda>i. (sample_metadata True 1 1)\<lparr>md_ino := i\<rparr>), fs_data = (\<lambda>_. []), fs_dev = (\<lambda>_. 0), fs_next = 5 \<rparr>"

definition quiet_sys :: sys where
  "quiet_sys = \<lparr> sys_interfere = (\<lambda>_ f. f), sys_fault = (\<lambda>_. None), sys_errno = (\<lambda>_. no_entry),
     sys_random = (\<lambda>_. Some 0), sys_now = (\<lambda>_. None), sys_walk = (\<lambda>_ _. Dir (Inr [])) \<rparr>"

definition staged_write :: PendingWrite where
  "staged_write = \<lparr> pw_staging = 2, pw_destination_parent = 1, pw_temporary_name = temporary,
     pw_destination_name = [97], pw_file = 4, pw_published = False \<rparr>"

definition current_a :: EntryMetadata where
  "current_a = entry_metadata ((sample_metadata True 1 1)\<lparr>md_ino := 3\<rparr>) File"

definition staged_world :: world where "staged_world = \<lparr> w_fs = staged_fs, w_calls = 0, w_unlinked = [] \<rparr>"

text \<open>The name the replacement draws when the random bytes are zero.\<close>

definition kept_name :: str where "kept_name = INTERNAL_REPLACE_PREFIX @ replicate 32 48"

lemma sample_names [simp]:
  "INTERNAL_REPLACE_PREFIX @ encode_hex (be_bytes 16 0) = kept_name"
  "utf8 temporary = temporary" "utf8 kept_name = kept_name" "utf8_char 97 = [97]"
  "temporary \<noteq> kept_name" "kept_name \<noteq> temporary"
  by code_simp+

lemmas run_simps = seq_def attempt_def error_as_def ret_def fail_def lift_def next_call_def call_def interfered_def
  observe_def holding_def dropping_def drop_pending_def handle_metadata_def open_with_def plain_call_def
  rename_with_def remove_file_def sync_after_commit_def sync_directory_def random_internal_name_def
  validate_handle_def raw_file_metadata_def metadata_in_parent_raw_def
  publish_replacement_def exchange_staged_def exchange_is_valid_def settle_exchange_def undo_exchange_def rollback_exchange_def
  rename_step_def remove_file_step_def link_def unlink_def drop_link_def put_key_def remove_key_def lookup_def stat_of_def

lemmas sample_simps = staged_write_def quiet_sys_def staged_world_def staged_fs_def sample_metadata_def current_a_def
  classify_metadata_def validate_regular_handle_def assert_no_external_alias_def entry_metadata_def
  metadata_identity_def matches_validator_def ok_matching_def

lemma staged_run:
  "\<exists>m w1. publish_replacement quiet_sys staged_write current_a staged_world = (Ok m, w1)
     \<and> w_unlinked w1 = [3] \<and> (\<forall>i. \<not> md_is_dir (fs_stat (w_fs w1) i))"
  by (simp add: run_simps sample_simps del: utf8_append)

lemma quiet_private: "private_dir quiet_sys d" "keeps_hierarchy quiet_sys rank" "safe_destination quiet_sys staged_write"
  by (simp_all add: private_dir_def keeps_hierarchy_def safe_destination_def undisturbed_def quiet_sys_def staged_write_def)

theorem replacement_keeps_versions_witness:
  "\<exists>m w1. publish_replacement quiet_sys staged_write current_a staged_world = (Ok m, w1)
     \<and> w_unlinked w1 = [3] \<and> lookup (w_fs w1) 1 [97] = Some 4"
proof -
  obtain m w1 where w1: "publish_replacement quiet_sys staged_write current_a staged_world = (Ok m, w1)"
    "w_unlinked w1 = [3]" "\<forall>i. \<not> md_is_dir (fs_stat (w_fs w1) i)" using staged_run by blast
  obtain r w2 where rec: "recover_staging_directory quiet_sys (pw_staging staged_write) 10 w1 = (r, w2)" by fastforce
  have h: "hierarchy id (w_fs w1)" using w1(3) by (simp add: hierarchy_def)
  have at: "\<not> pw_published staged_write"
    "lookup (w_fs staged_world) (pw_staging staged_write) (utf8 (pw_temporary_name staged_write)) = Some (pw_file staged_write)"
    by (simp_all add: staged_world_def staged_fs_def staged_write_def lookup_def)
  have "lookup (w_fs w1) (pw_destination_parent staged_write) (utf8 (pw_destination_name staged_write)) = Some (pw_file staged_write)"
    using replacement_keeps_versions [OF quiet_private(3) at w1(1) quiet_private(1,2) h rec] by simp
  with w1 show ?thesis by (simp add: staged_write_def)
qed

definition sample_share :: AuthorizedShare where
  "sample_share = \<lparr> sh_access = ReadWrite, sh_root = 1, sh_staging = Some 2, sh_trash = None \<rparr>"

lemmas entry_run_simps = delete_entry_def move_entry_def require_write_def entry_metadata_of_def open_regular_def
  open_parent_def open_components_def ensure_same_device_def handle_device_def remove_dir_def split_file_def sample_share_def
  undo_delete_def

definition deleted_name :: str where "deleted_name = INTERNAL_DELETE_PREFIX @ replicate 32 48"

lemma sample_deleted_name [simp]:
  "INTERNAL_DELETE_PREFIX @ encode_hex (be_bytes 16 0) = deleted_name" "utf8 deleted_name = deleted_name"
  "temporary \<noteq> deleted_name" "deleted_name \<noteq> temporary" "utf8_char 98 = [98]"
  by code_simp+

theorem delete_and_move_exact_witness:
  "\<exists>w1 v1. delete_entry quiet_sys sample_share [[97]] current_a staged_world = (Ok (), w1)
     \<and> move_entry quiet_sys sample_share [[97]] [[98]] current_a staged_world = (Ok (), v1)
     \<and> w_unlinked w1 = [3] \<and> w_unlinked v1 = [] \<and> lookup (w_fs v1) 1 [98] = Some 3"
proof -
  have "\<exists>w1. delete_entry quiet_sys sample_share [[97]] current_a staged_world = (Ok (), w1)"
    by (simp add: entry_run_simps run_simps sample_simps del: utf8_append)
  then obtain w1 where w1: "delete_entry quiet_sys sample_share [[97]] current_a staged_world = (Ok (), w1)" by blast
  have "\<exists>v1. move_entry quiet_sys sample_share [[97]] [[98]] current_a staged_world = (Ok (), v1) \<and> lookup (w_fs v1) 1 [98] = Some 3"
    by (simp add: entry_run_simps run_simps sample_simps del: utf8_append)
  then obtain v1 where v1: "move_entry quiet_sys sample_share [[97]] [[98]] current_a staged_world = (Ok (), v1)"
    "lookup (w_fs v1) 1 [98] = Some 3" by blast
  have "w_unlinked w1 = w_unlinked staged_world @ [em_file_id current_a] \<and> w_unlinked v1 = w_unlinked staged_world"
    using delete_and_move_exact [OF quiet_private(1) w1 v1(1)] by simp
  with w1 v1 show ?thesis by (simp add: staged_world_def current_a_def entry_metadata_def metadata_identity_def)
qed

definition racing_sys :: sys where
  "racing_sys = quiet_sys\<lparr>sys_interfere := \<lambda>n f. if n = 8 then link 1 [97] 9 f else f\<rparr>"

lemma racing_interfere:
  "sys_interfere racing_sys n f = (if n = 8 then link 1 [97] 9 f else f)" "sys_fault racing_sys n = None"
  "sys_errno racing_sys n = no_entry" "sys_random racing_sys n = Some 0"
  by (simp_all add: racing_sys_def quiet_sys_def)


end
