(* ===== verification/Media.thy ===== *)
theory Media
  imports Errors Paths
begin

text \<open>
  Content classification of \<open>preview.rs\<close>: what a file is, decided from the first 64 KiB of its bytes.
  The theory models the UTF-8 text rules, the image, PDF, audio and video signatures, the animation
  checks and the language of a text file. It shows that a classified type is one of a fixed list of
  inert media types, that clean text is never taken for a PDF by a late marker, that image brands are
  never served as video, and that the text head cut for a large file ends on a character boundary.
\<close>

unbundle bit_operations_syntax

subsection \<open>Errors and kinds\<close>

datatype PreviewError =
    PreviewAccessDenied | PreviewInvalidPath | PreviewNotFound | PreviewTooLarge | InvalidUtf8 | BinaryFile
  | PreviewUnsupported | PreviewUnavailable | InvalidLimit | InvalidThumbnailSize | ThumbnailTooLarge

datatype PreviewKind =
    KAudio | KCode | KHtmlSource | KImage | KMarkdownSource | KPdf | KRaw | KSvg | KText | KVideo

definition SIGNATURE_HEADER_BYTES :: nat where "SIGNATURE_HEADER_BYTES = 64 * 1024"
definition PDF_SIGNATURE_WINDOW :: nat where "PDF_SIGNATURE_WINDOW = 1024"
definition MAX_IMAGE_PIXELS :: nat where "MAX_IMAGE_PIXELS = 100000000"
definition HEAD_MAX_BYTES :: nat where "HEAD_MAX_BYTES = 64 * 1024"
definition HEAD_MAX_LINES :: nat where "HEAD_MAX_LINES = 1000"
definition GIF_ANIMATION_SCAN_BYTES :: nat where "GIF_ANIMATION_SCAN_BYTES = 8 * 1024 * 1024"

subsection \<open>Byte slices\<close>

text \<open>
  A byte string literal, \<open>starts_with\<close>, \<open>windows(n).any(\<dots>)\<close>, and the slice \<open>bytes[a..b]\<close> where the
  code has checked the bounds.
\<close>

definition byte_lit :: "string \<Rightarrow> bytes" where
  "byte_lit s = map (\<lambda>c. of_nat (of_char c)) s"

definition starts_with :: "bytes \<Rightarrow> bytes \<Rightarrow> bool" where
  "starts_with p bs \<longleftrightarrow> take (length p) bs = p"

fun has_window :: "bytes \<Rightarrow> bytes \<Rightarrow> bool" where
  "has_window needle [] = False"
| "has_window needle (b # bs) = (starts_with needle (b # bs) \<or> has_window needle bs)"

definition sub :: "bytes \<Rightarrow> nat \<Rightarrow> nat \<Rightarrow> bytes" where
  "sub bs a b = take (b - a) (drop a bs)"

definition rposition_len :: "(u8 \<Rightarrow> bool) \<Rightarrow> bytes \<Rightarrow> nat" where
  "rposition_len P bs = length (dropWhile (Not \<circ> P) (rev bs))"

subsection \<open>Text\<close>

text \<open>
  \<open>Utf8Error::valid_up_to\<close> is the length of the longest prefix of whole characters;
  \<open>error_len\<close> is \<open>None\<close> exactly when what follows is a character cut short.
\<close>

definition char_len :: "nat list \<Rightarrow> nat option" where
  "char_len bs = List.find (\<lambda>n. n \<le> length bs \<and> utf8_decode (take n bs) \<noteq> None) [1, 2, 3, 4]"

function valid_up_to :: "nat list \<Rightarrow> nat" where
  "valid_up_to bs = (case char_len bs of None \<Rightarrow> 0 | Some n \<Rightarrow> n + valid_up_to (drop n bs))"
  by pat_completeness auto
termination
  by (relation "measure length") (auto simp: char_len_def find_Some_iff nth_Cons split: nat.splits if_splits)

declare valid_up_to.simps [simp del]

definition is_second :: "nat \<Rightarrow> nat \<Rightarrow> bool" where
  "is_second b c \<longleftrightarrow> (if b = 0xE0 then 0xA0 \<le> c \<and> c < 0xC0
     else if b = 0xED then 0x80 \<le> c \<and> c < 0xA0
     else if b = 0xF0 then 0x90 \<le> c \<and> c < 0xC0
     else if b = 0xF4 then 0x80 \<le> c \<and> c < 0x90
     else is_cont c)"

definition cut_char :: "nat list \<Rightarrow> bool" where
  "cut_char bs = (case bs of
       [b] \<Rightarrow> 0xC2 \<le> b \<and> b \<le> 0xF4
     | [b, c] \<Rightarrow> 0xE0 \<le> b \<and> b \<le> 0xF4 \<and> is_second b c
     | [b, c, d] \<Rightarrow> 0xF0 \<le> b \<and> b \<le> 0xF4 \<and> is_second b c \<and> is_cont d
     | _ \<Rightarrow> False)"

definition contains_binary_control :: "str \<Rightarrow> bool" where
  "contains_binary_control s =
     list_ex (\<lambda>c. (is_control c \<and> c \<notin> {10, 13, 9}) \<or> c = 0xFFFE \<or> c = 0xFFFF) s"

definition header_reached_end :: "bytes \<Rightarrow> bool" where
  "header_reached_end header \<longleftrightarrow> length header < SIGNATURE_HEADER_BYTES"

definition check_text_prefix :: "bytes \<Rightarrow> bool \<Rightarrow> PreviewError + str" where
  "check_text_prefix header at_end =
     and_then (case from_utf8 header of
         Some text \<Rightarrow> Ok text
       | None \<Rightarrow>
           (let n = valid_up_to (map unat header) in
            if \<not> at_end \<and> cut_char (map unat (drop n header))
            then ok_or InvalidUtf8 (from_utf8 (take n header))
            else Err InvalidUtf8)) (\<lambda>text.
       if contains_binary_control text then Err BinaryFile else Ok text)"

definition is_text_prefix :: "bytes \<Rightarrow> bool \<Rightarrow> bool" where
  "is_text_prefix header at_end = (case check_text_prefix header at_end of Inr _ \<Rightarrow> True | Inl _ \<Rightarrow> False)"

text \<open>The index of the \<open>n\<close>-th line feed, counting from 0.\<close>

fun nth_feed :: "nat \<Rightarrow> bytes \<Rightarrow> nat option" where
  "nth_feed n [] = None"
| "nth_feed n (b # bs) =
     (if b = 10 then (case n of 0 \<Rightarrow> Some 0 | Suc m \<Rightarrow> map_option Suc (nth_feed m bs))
      else map_option Suc (nth_feed n bs))"

definition text_head_len :: "bytes \<Rightarrow> nat" where
  "text_head_len window =
     (case nth_feed (HEAD_MAX_LINES - 1) window of
        Some index \<Rightarrow> index + 1
      | None \<Rightarrow>
          let n = rposition_len (\<lambda>b. b = 10) window in
          if n \<noteq> 0 then n
          else (case from_utf8 window of Some _ \<Rightarrow> length window | None \<Rightarrow> valid_up_to (map unat window)))"

definition line_count :: "str \<Rightarrow> nat" where
  "line_count text =
     (let feeds = count_list (utf8 text) 10 in
      if text = [] \<or> last text = 10 then feeds else feeds + 1)"

subsection \<open>Images\<close>

record ImageInfo =
  im_mime_type :: string
  im_width :: "nat option"
  im_height :: "nat option"

abbreviation image_info :: "string \<Rightarrow> nat option \<Rightarrow> nat option \<Rightarrow> ImageInfo" where
  "image_info m w h \<equiv> \<lparr> im_mime_type = m, im_width = w, im_height = h \<rparr>"

definition sof_marker :: "u8 \<Rightarrow> bool" where
  "sof_marker m \<longleftrightarrow> (0xC0 \<le> m \<and> m \<le> 0xC3) \<or> (0xC5 \<le> m \<and> m \<le> 0xC7) \<or> (0xC9 \<le> m \<and> m \<le> 0xCB)
     \<or> (0xCD \<le> m \<and> m \<le> 0xCF)"

text \<open>
  The scan for a frame header: the dimensions, or nothing when the scan ends. Offsets of a slice stay
  far below the width of \<open>usize\<close>, so the saturating addition is an addition.
\<close>

function jpeg_scan :: "bytes \<Rightarrow> nat \<Rightarrow> (nat \<times> nat) option" where
  "jpeg_scan bytes offset =
     (if \<not> offset + 9 < length bytes then None
      else if bytes ! offset \<noteq> 0xFF then jpeg_scan bytes (offset + 1)
      else
        let marker = bytes ! (offset + 1) in
        if sof_marker marker then
          Some (be_nat [bytes ! (offset + 7), bytes ! (offset + 8)], be_nat [bytes ! (offset + 5), bytes ! (offset + 6)])
        else if marker = 0xD9 \<or> marker = 0xDA then None
        else
          let len = be_nat [bytes ! (offset + 2), bytes ! (offset + 3)] in
          if len < 2 then None else jpeg_scan bytes (offset + (len + 2)))"
  by pat_completeness auto
termination by (relation "measure (\<lambda>(bytes, offset). length bytes - offset)") auto

declare jpeg_scan.simps [simp del]

definition AVIF_BRANDS :: "bytes list" where
  "AVIF_BRANDS = map byte_lit [''avif'', ''avis'']"
definition HEIC_BRANDS :: "bytes list" where
  "HEIC_BRANDS = map byte_lit [''heic'', ''heix'', ''heim'', ''heis'', ''hevc'', ''hevx'']"
definition HEIF_BRANDS :: "bytes list" where
  "HEIF_BRANDS = map byte_lit [''mif1'', ''mif2'', ''msf1'', ''miaf'']"

fun chunks4 :: "bytes \<Rightarrow> bytes list" where
  "chunks4 (a # b # c # d # bs) = [a, b, c, d] # chunks4 bs"
| "chunks4 _ = []"

definition ftyp_brands :: "bytes \<Rightarrow> bytes list option" where
  "ftyp_brands header =
     (if length header < 16 \<or> sub header 4 8 \<noteq> byte_lit ''ftyp'' then None
      else
        let size = be_nat (sub header 0 4) in
        if size < 16 \<or> size mod 4 \<noteq> 0 \<or> length header < size then None
        else Some (sub header 8 12 # chunks4 (sub header 16 size)))"

definition classify_heif :: "bytes \<Rightarrow> string option" where
  "classify_heif bytes =
     (if length bytes < 12 \<or> sub bytes 4 8 \<noteq> byte_lit ''ftyp'' then None
      else if starts_with (byte_lit ''avif'') (sub bytes 8 12) then Some ''image/avif''
      else Option.bind (ftyp_brands bytes) (\<lambda>brands.
        let names = (\<lambda>bs. list_ex (\<lambda>b. b \<in> set bs) brands) in
        if names AVIF_BRANDS then Some ''image/avif''
        else if names HEIC_BRANDS then Some ''image/heic''
        else if names HEIF_BRANDS then Some ''image/heif''
        else None))"

definition PNG_MAGIC :: bytes where "PNG_MAGIC = [0x89, 0x50, 0x4E, 0x47, 0x0D, 0x0A, 0x1A, 0x0A]"

definition classify_image :: "bytes \<Rightarrow> ImageInfo option" where
  "classify_image bytes =
     (if starts_with PNG_MAGIC bytes \<and> 24 \<le> length bytes then
        (let width = be_nat (sub bytes 16 20); height = be_nat (sub bytes 20 24) in
         if width = 0 \<or> height = 0 then None
         else Some (image_info ''image/png'' (Some width) (Some height)))
      else if (starts_with (byte_lit ''GIF87a'') bytes \<or> starts_with (byte_lit ''GIF89a'') bytes) \<and> 10 \<le> length bytes then
        Some (image_info ''image/gif'' (Some (le_nat (sub bytes 6 8))) (Some (le_nat (sub bytes 8 10))))
      else if starts_with [0xFF, 0xD8, 0xFF] bytes then
        Some (case jpeg_scan bytes 2 of
                Some (width, height) \<Rightarrow> image_info ''image/jpeg'' (Some width) (Some height)
              | None \<Rightarrow> image_info ''image/jpeg'' None None)
      else if 12 \<le> length bytes \<and> starts_with (byte_lit ''RIFF'') bytes \<and> sub bytes 8 12 = byte_lit ''WEBP'' then
        Some (if 30 \<le> length bytes \<and> sub bytes 12 16 = byte_lit ''VP8X''
              then image_info ''image/webp''
                     (Some (1 + le_nat [bytes ! 24, bytes ! 25, bytes ! 26, 0]))
                     (Some (1 + le_nat [bytes ! 27, bytes ! 28, bytes ! 29, 0]))
              else image_info ''image/webp'' None None)
      else map_option (\<lambda>m. image_info m None None) (classify_heif bytes))"

definition validate_image_dimensions :: "ImageInfo \<Rightarrow> PreviewError + unit" where
  "validate_image_dimensions img =
     (case (im_width img, im_height img) of
        (Some width, Some height) \<Rightarrow>
          (let pixels = min (2 ^ 64 - 1) (width * height) in
           if width = 0 \<or> height = 0 \<or> MAX_IMAGE_PIXELS < pixels then Err PreviewUnsupported else Ok ())
      | _ \<Rightarrow> Ok ())"

definition validated_image :: "bytes \<Rightarrow> PreviewError + ImageInfo" where
  "validated_image bytes =
     and_then (ok_or PreviewUnsupported (classify_image bytes)) (\<lambda>img.
     and_then (validate_image_dimensions img) (\<lambda>_. Ok img))"

subsection \<open>Animations\<close>

text \<open>The chunks of a WebP header. The offsets are those of a slice plus a 32-bit length.\<close>

function webp_chunks :: "bytes \<Rightarrow> nat \<Rightarrow> bool" where
  "webp_chunks header offset =
     (case slice header offset (offset + 8) of
        None \<Rightarrow> False
      | Some chunk \<Rightarrow>
          if take 4 chunk = byte_lit ''ANIM'' \<or> take 4 chunk = byte_lit ''ANMF'' then True
          else
            let len = le_nat [chunk ! 4, chunk ! 5, chunk ! 6, chunk ! 7] in
            (case Option.bind (Option.bind (checked_add64 offset 8) (\<lambda>e. checked_add64 e len)) (\<lambda>e. checked_add64 e (len mod 2)) of
               Some next_offset \<Rightarrow> webp_chunks header next_offset
             | None \<Rightarrow> False))"
  by pat_completeness auto
termination
  by (relation "measure (\<lambda>(header, offset). length header - offset)")
    (auto simp: slice_def bind_eq_Some_conv split: if_splits)

declare webp_chunks.simps [simp del]

definition webp_is_animated :: "bytes \<Rightarrow> bool" where
  "webp_is_animated header =
     ((21 \<le> length header \<and> sub header 12 16 = byte_lit ''VP8X'' \<and> header ! 20 AND 0x02 \<noteq> 0)
      \<or> webp_chunks header 12)"

text \<open>
  The GIF walk reads from a reader: \<open>reader\<close> is what the file delivers before its end or its first
  read error, which the code treats alike. Every helper returns the rest, or nothing when the reader
  ends first.
\<close>

definition gif_skip :: "nat \<Rightarrow> bytes \<Rightarrow> bytes option" where
  "gif_skip n reader = (if n \<le> length reader then Some (drop n reader) else None)"

definition gif_read_exact :: "nat \<Rightarrow> bytes \<Rightarrow> (bytes \<times> bytes) option" where
  "gif_read_exact n reader = (if n \<le> length reader then Some (take n reader, drop n reader) else None)"

function skip_sub_blocks :: "bytes \<Rightarrow> bytes option" where
  "skip_sub_blocks reader =
     (case reader of
        [] \<Rightarrow> None
      | b # reader \<Rightarrow>
          if b = 0 then Some reader
          else (case gif_skip (unat b) reader of None \<Rightarrow> None | Some reader \<Rightarrow> skip_sub_blocks reader))"
  by pat_completeness auto
termination by (relation "measure length") (auto simp: gif_skip_def split: if_splits)

declare skip_sub_blocks.simps [simp del]

definition color_table :: "u8 \<Rightarrow> nat" where
  "color_table packed = (if packed AND 0x80 = 0 then 0 else 3 * 2 ^ (unat (packed AND 0x07) + 1))"

definition gif_block :: "u8 \<Rightarrow> bytes \<Rightarrow> bytes option" where
  "gif_block introducer reader =
     (if introducer = 0x2C then
        Option.bind (gif_read_exact 9 reader) (\<lambda>(descriptor, reader).
        Option.bind (gif_skip (color_table (descriptor ! 8)) reader) (\<lambda>reader.
        Option.bind (gif_skip 1 reader) (\<lambda>reader. skip_sub_blocks reader)))
      else if introducer = 0x21 then Option.bind (gif_skip 1 reader) (\<lambda>reader. skip_sub_blocks reader)
      else None)"

lemma skip_sub_blocks_shorter: "skip_sub_blocks reader = Some r \<Longrightarrow> length r < length reader"
proof (induction reader rule: skip_sub_blocks.induct)
  case (1 reader)
  then show ?case
    by (subst (asm) (2) skip_sub_blocks.simps)
      (fastforce simp: gif_skip_def split: list.splits if_splits)
qed

lemma gif_block_shorter: "gif_block i reader = Some r \<Longrightarrow> length r < length reader"
  by (fastforce simp: gif_block_def gif_skip_def gif_read_exact_def bind_eq_Some_conv
      dest: skip_sub_blocks_shorter split: if_splits)

function gif_blocks :: "nat \<Rightarrow> nat \<Rightarrow> bytes \<Rightarrow> nat" where
  "gif_blocks stop_at images reader =
     (if \<not> images < stop_at then images
      else (case reader of
        [] \<Rightarrow> images
      | introducer # reader \<Rightarrow>
          let images = (if introducer = 0x2C then images + 1 else images) in
          if introducer = 0x2C \<and> stop_at \<le> images then images
          else (case gif_block introducer reader of
                  None \<Rightarrow> images
                | Some reader \<Rightarrow> gif_blocks stop_at images reader)))"
  by pat_completeness auto
termination
  by (relation "measure (\<lambda>(s, i, reader). length reader)") (auto dest: gif_block_shorter)

declare gif_blocks.simps [simp del]

definition gif_image_count :: "bytes \<Rightarrow> nat \<Rightarrow> nat" where
  "gif_image_count reader stop_at =
     (case gif_read_exact 13 (take GIF_ANIMATION_SCAN_BYTES reader) of
        None \<Rightarrow> 0
      | Some (screen, reader) \<Rightarrow>
          if \<not> (starts_with (byte_lit ''GIF87a'') screen \<or> starts_with (byte_lit ''GIF89a'') screen) then 0
          else (case gif_skip (color_table (screen ! 10)) reader of
                  None \<Rightarrow> 0
                | Some reader \<Rightarrow> gif_blocks stop_at 0 reader))"

definition gif_is_animated :: "bytes \<Rightarrow> bool" where
  "gif_is_animated reader \<longleftrightarrow> 2 \<le> gif_image_count reader 2"

subsection \<open>Documents, audio and video\<close>

datatype StreamedMedia = SImage ImageInfo | SPdf | SAudio string | SVideo string

fun media_kind :: "StreamedMedia \<Rightarrow> PreviewKind" where
  "media_kind (SImage _) = KImage"
| "media_kind SPdf = KPdf"
| "media_kind (SAudio _) = KAudio"
| "media_kind (SVideo _) = KVideo"

fun mime_type :: "StreamedMedia \<Rightarrow> string" where
  "mime_type (SImage img) = im_mime_type img"
| "mime_type SPdf = ''application/pdf''"
| "mime_type (SAudio m) = m"
| "mime_type (SVideo m) = m"

fun opens_in_tab :: "StreamedMedia \<Rightarrow> bool" where
  "opens_in_tab (SImage _) = True"
| "opens_in_tab SPdf = True"
| "opens_in_tab _ = False"

definition PDF_MAGIC :: bytes where "PDF_MAGIC = byte_lit ''%PDF-''"

definition is_pdf :: "bytes \<Rightarrow> bool" where
  "is_pdf header \<longleftrightarrow> starts_with PDF_MAGIC header
     \<or> (has_window PDF_MAGIC (take PDF_SIGNATURE_WINDOW header)
        \<and> \<not> is_text_prefix header (header_reached_end header))"

definition MP4_VIDEO_BRANDS :: "bytes list" where
  "MP4_VIDEO_BRANDS = map byte_lit [''isom'', ''iso2'', ''iso4'', ''iso5'', ''iso6'', ''mp41'', ''mp42'',
     ''avc1'', ''dash'', ''M4V '', ''MSNV'']"
definition MP4_AUDIO_BRANDS :: "bytes list" where
  "MP4_AUDIO_BRANDS = map byte_lit [''M4A '', ''M4B '']"
definition IMAGE_BRANDS :: "bytes list" where
  "IMAGE_BRANDS = map byte_lit [''avif'', ''avis'', ''mif1'', ''mif2'', ''msf1'', ''miaf'', ''heic'', ''heix'',
     ''heim'', ''heis'', ''hevc'', ''hevx'']"

definition classify_iso_bmff :: "bytes \<Rightarrow> StreamedMedia option" where
  "classify_iso_bmff header =
     Option.bind (ftyp_brands header) (\<lambda>brands.
       if list_ex (\<lambda>b. b \<in> set IMAGE_BRANDS) brands then None
       else (case brands of
           [] \<Rightarrow> None
         | major # _ \<Rightarrow>
             if major \<in> set MP4_AUDIO_BRANDS then Some (SAudio ''audio/mp4'')
             else if major \<in> set MP4_VIDEO_BRANDS then Some (SVideo ''video/mp4'')
             else None))"

definition is_matroska :: "bytes \<Rightarrow> bool" where
  "is_matroska header \<longleftrightarrow> starts_with [0x1A, 0x45, 0xDF, 0xA3] header
     \<and> (let ebml = sub header 4 (min (length header) 64) in
        has_window ([0x42, 0x82, 0x84] @ byte_lit ''webm'') ebml
        \<or> has_window ([0x42, 0x82, 0x88] @ byte_lit ''matroska'') ebml)"

definition classify_ogg :: "bytes \<Rightarrow> StreamedMedia option" where
  "classify_ogg header =
     (if length header < 27 \<or> \<not> starts_with (byte_lit ''OggS'') header \<or> header ! 4 \<noteq> 0 then None
      else Option.bind (slice header (27 + unat (header ! 26)) (length header)) (\<lambda>packet.
        if starts_with (0x80 # byte_lit ''theora'') packet then Some (SVideo ''video/ogg'')
        else Some (SAudio ''audio/ogg'')))"

definition is_flac :: "bytes \<Rightarrow> bool" where
  "is_flac header \<longleftrightarrow> 8 \<le> length header \<and> starts_with (byte_lit ''fLaC'') header
     \<and> header ! 4 AND 0x7F = 0 \<and> sub header 5 8 = [0, 0, 34]"

definition V1_KBPS :: "nat list" where
  "V1_KBPS = [0, 32, 40, 48, 56, 64, 80, 96, 112, 128, 160, 192, 224, 256, 320]"
definition V2_KBPS :: "nat list" where
  "V2_KBPS = [0, 8, 16, 24, 32, 40, 48, 56, 64, 80, 96, 112, 128, 144, 160]"

definition mpeg_layer3_frame_len :: "bytes \<Rightarrow> nat option" where
  "mpeg_layer3_frame_len header =
     (if length header < 4 \<or> header ! 0 \<noteq> 0xFF \<or> header ! 1 AND 0xE0 \<noteq> 0xE0 then None
      else
        let version = drop_bit 3 (header ! 1) AND 3;
            layer = drop_bit 1 (header ! 1) AND 3;
            bitrate_index = unat (drop_bit 4 (header ! 2));
            rate_index = unat (drop_bit 2 (header ! 2) AND 3)
        in
        if version = 1 \<or> layer \<noteq> 1 \<or> bitrate_index = 0 \<or> bitrate_index = 15 \<or> rate_index = 3 then None
        else
          let padding = unat (drop_bit 1 (header ! 2) AND 1);
              (kbps, rates, coefficient) =
                (if version = 3 then (V1_KBPS ! bitrate_index, [44100, 48000, 32000], 144)
                 else if version = 2 then (V2_KBPS ! bitrate_index, [22050, 24000, 16000], 72)
                 else (V2_KBPS ! bitrate_index, [11025, 12000, 8000], 72));
              len = coefficient * kbps * 1000 div (rates ! rate_index) + padding
          in if 4 \<le> len then Some len else None)"

definition is_mp3 :: "bytes \<Rightarrow> bool" where
  "is_mp3 header =
     (if 10 \<le> length header \<and> starts_with (byte_lit ''ID3'') header then
        2 \<le> header ! 3 \<and> header ! 3 \<le> 4 \<and> header ! 4 \<noteq> 0xFF
        \<and> list_all (\<lambda>b. b AND 0x80 = 0) (sub header 6 10)
      else (case mpeg_layer3_frame_len header of
          None \<Rightarrow> False
        | Some first \<Rightarrow> Option.bind (slice header first (length header)) mpeg_layer3_frame_len \<noteq> None))"

definition classify_audio_video :: "bytes \<Rightarrow> StreamedMedia option" where
  "classify_audio_video header =
     (case classify_iso_bmff header of
        Some media \<Rightarrow> Some media
      | None \<Rightarrow>
          if is_matroska header then Some (SVideo ''video/webm'')
          else (case classify_ogg header of
            Some media \<Rightarrow> Some media
          | None \<Rightarrow>
              if 12 \<le> length header \<and> starts_with (byte_lit ''RIFF'') header \<and> sub header 8 12 = byte_lit ''WAVE''
              then Some (SAudio ''audio/wav'')
              else if is_flac header then Some (SAudio ''audio/flac'')
              else if is_mp3 header then Some (SAudio ''audio/mpeg'')
              else None))"

definition classify_streamed :: "bytes \<Rightarrow> PreviewError + StreamedMedia option" where
  "classify_streamed header =
     (case classify_image header of
        Some img \<Rightarrow> and_then (validate_image_dimensions img) (\<lambda>_. Ok (Some (SImage img)))
      | None \<Rightarrow> if is_pdf header then Ok (Some SPdf) else Ok (classify_audio_video header))"

definition COMPRESSED_MAGIC :: "bytes list" where
  "COMPRESSED_MAGIC =
     [[0x50, 0x4B, 3, 4], [0x50, 0x4B, 5, 6], [0x1F, 0x8B], [0xFD, 0x37, 0x7A, 0x58, 0x5A, 0],
      [0x28, 0xB5, 0x2F, 0xFD], [0x37, 0x7A, 0xBC, 0xAF, 0x27, 0x1C], byte_lit ''Rar!'' @ [0x1A, 0x07],
      byte_lit ''wOFF'', byte_lit ''wOF2'', [4, 0x22, 0x4D, 0x18]]"

definition has_compressed_signature :: "bytes \<Rightarrow> bool" where
  "has_compressed_signature header =
     ((10 \<le> length header \<and> starts_with (byte_lit ''BZh'') header \<and> is_ascii_digit (unat (header ! 3))
         \<and> sub header 4 10 = [0x31, 0x41, 0x59, 0x26, 0x53, 0x59])
      \<or> list_ex (\<lambda>m. starts_with m header) COMPRESSED_MAGIC
      \<or> classify_image header \<noteq> None
      \<or> is_pdf header
      \<or> (case classify_audio_video header of Some media \<Rightarrow> media \<noteq> SAudio ''audio/wav'' | None \<Rightarrow> False))"

subsection \<open>Kinds of text files\<close>

definition code_language :: "str \<Rightarrow> string option" where
  "code_language extension =
     map_of (concat (map (\<lambda>(es, l). map (\<lambda>e. (lit e, l)) es)
       [([''bash'', ''sh'', ''zsh''], ''shell''),
        ([''c'', ''h''], ''c''),
        ([''cc'', ''cpp'', ''cxx'', ''hpp''], ''cpp''),
        ([''css''], ''css''),
        ([''go''], ''go''),
        ([''java''], ''java''),
        ([''js'', ''mjs'', ''cjs''], ''javascript''),
        ([''json''], ''json''),
        ([''jsx''], ''jsx''),
        ([''kt'', ''kts''], ''kotlin''),
        ([''lua''], ''lua''),
        ([''php''], ''php''),
        ([''py''], ''python''),
        ([''rb''], ''ruby''),
        ([''rs''], ''rust''),
        ([''sql''], ''sql''),
        ([''swift''], ''swift''),
        ([''toml''], ''toml''),
        ([''ts'', ''mts'', ''cts''], ''typescript''),
        ([''tsx''], ''tsx''),
        ([''xml'', ''svg''], ''xml''),
        ([''yaml'', ''yml''], ''yaml'')])) extension"

definition classify_path :: "VirtualPath \<Rightarrow> PreviewKind \<times> string option" where
  "classify_path path =
     (case map_option (map to_ascii_lowercase) (map_option snd (Option.bind (file_name path) (rsplit_once 46))) of
        None \<Rightarrow> (KText, None)
      | Some extension \<Rightarrow>
          if extension \<in> set (map lit [''html'', ''htm'', ''xhtml'']) then (KHtmlSource, Some ''html'')
          else if extension \<in> set (map lit [''md'', ''markdown'', ''mdown'', ''mkdn'']) then
            (KMarkdownSource, Some ''markdown'')
          else (case code_language extension of
                  Some language \<Rightarrow> (KCode, Some language)
                | None \<Rightarrow> (KText, None)))"

subsection \<open>Character boundaries\<close>

declare utf8_decode.simps(2) [simp del]

lemma utf8_char_prefix_free:
  assumes "is_char c" "is_char d" "utf8_char c = utf8_char d @ y"
  shows "c = d \<and> y = []"
proof -
  have "map_option ((#) d) (utf8_decode y) = utf8_decode (utf8_char c)"
    using utf8_decode_char [OF assms(2), of y] assms(3) by metis
  also have "\<dots> = Some [c]" using utf8_decode_char [OF assms(1), of "[]"] by simp
  finally have "d = c \<and> utf8_decode y = Some []" by (rule map_option_eq_Some [THEN iffD1, THEN exE]) auto
  then show ?thesis using utf8_decode_sound [of y "[]"] by simp
qed

lemma utf8_char_not_Nil: "utf8_char c \<noteq> []" using length_utf8_char(1) [of c] by fastforce

lemma char_len_Some:
  "char_len bs = Some n \<longleftrightarrow> (\<exists>c r. is_char c \<and> bs = utf8_char c @ r \<and> n = length (utf8_char c))"
  (is "?l \<longleftrightarrow> ?r")
proof
  have dec: "utf8_decode (take m bs) \<noteq> None \<and> 1 \<le> m \<and> m \<le> length bs
      \<Longrightarrow> \<exists>c r. is_char c \<and> take m bs = utf8_char c @ utf8 r" for m
  proof -
    assume m: "utf8_decode (take m bs) \<noteq> None \<and> 1 \<le> m \<and> m \<le> length bs"
    then obtain s where "list_all is_char s" "utf8 s = take m bs" using utf8_decode_sound by blast
    with m show "\<exists>c r. is_char c \<and> take m bs = utf8_char c @ utf8 r" by (cases s) (auto dest: sym)
  qed
  have cand: "n \<in> set [1, 2, 3, 4] \<Longrightarrow> 1 \<le> n" for n :: nat by auto
  have four: "length (utf8_char c) \<in> set [1, 2, 3, 4]" for c using length_utf8_char [of c] by auto
  {
    assume ?l
    then have n: "n \<in> set [1, 2, 3, 4]" "n \<le> length bs" "utf8_decode (take n bs) \<noteq> None"
      and least: "m \<in> set [1, 2, 3, 4] \<Longrightarrow> m < n \<Longrightarrow> m \<le> length bs \<Longrightarrow> utf8_decode (take m bs) = None" for m
      by (auto simp: char_len_def split: if_splits)
    from dec [of n] n cand obtain c r where c: "is_char c" "take n bs = utf8_char c @ utf8 r" by blast
    have "length (utf8_char c) \<le> n" using c(2) n(2) by (metis length_append length_take min.absorb2 le_add1)
    moreover have "take (length (utf8_char c)) bs = utf8_char c"
      using c(2) calculation by (metis append_eq_conv_conj min.absorb1 take_take)
    moreover have "utf8_decode (utf8_char c) \<noteq> None" using utf8_decode_char [OF c(1), of "[]"] by simp
    ultimately have "n = length (utf8_char c)"
      using least [OF four [of c]] n(2) by (metis le_neq_implies_less le_trans)
    then show ?r using c(1) \<open>take (length (utf8_char c)) bs = utf8_char c\<close> append_take_drop_id by metis
  next
    assume ?r
    then obtain c r where c: "is_char c" "bs = utf8_char c @ r" "n = length (utf8_char c)" by blast
    have "n \<in> set [1, 2, 3, 4]" using four c by simp
    moreover have "n \<le> length bs" "utf8_decode (take n bs) \<noteq> None"
      using c utf8_decode_char [OF c(1), of "[]"] by auto
    moreover have "utf8_decode (take m bs) = None" if "1 \<le> m" "m < n" for m
    proof (rule ccontr)
      assume "utf8_decode (take m bs) \<noteq> None"
      with dec [of m] that c obtain d s where d: "is_char d" "take m bs = utf8_char d @ utf8 s"
        by fastforce
      have "take m bs = take m (utf8_char c)" using c(2,3) that by simp
      then have "utf8_char c = utf8_char d @ (utf8 s @ drop m (utf8_char c))"
        using d(2) by (metis append.assoc append_take_drop_id)
      from utf8_char_prefix_free [OF c(1) d(1) this] that c(3) show False by simp
    qed
    ultimately show ?l unfolding char_len_def by auto
  }
qed

lemma char_len_append: "is_char c \<Longrightarrow> char_len (utf8_char c @ r) = Some (length (utf8_char c))"
  by (auto simp: char_len_Some)

lemma valid_up_to_append:
  "list_all is_char s \<Longrightarrow> valid_up_to (utf8 s @ r) = length (utf8 s) + valid_up_to r"
proof (induction s)
  case (Cons c s)
  have "char_len (utf8 (c # s) @ r) = Some (length (utf8_char c))"
    using Cons.prems by (simp add: char_len_append)
  then show ?case using Cons by (subst valid_up_to.simps) simp
qed simp

lemma valid_up_to_split:
  "\<exists>s r. list_all is_char s \<and> bs = utf8 s @ r \<and> valid_up_to bs = length (utf8 s) \<and> char_len r = None"
proof (induction bs rule: valid_up_to.induct)
  case (1 bs)
  show ?case
  proof (cases "char_len bs")
    case None
    then show ?thesis by - (rule exI [where x = "[]"], rule exI [where x = bs], simp add: valid_up_to.simps [of bs])
  next
    case (Some n)
    then obtain c r where c: "is_char c" "bs = utf8_char c @ r" "n = length (utf8_char c)"
      by (auto simp: char_len_Some)
    from 1 [OF Some] c obtain s r' where "list_all is_char s" "r = utf8 s @ r'" "valid_up_to r = length (utf8 s)"
      "char_len r' = None" by auto
    then show ?thesis
      using c Some by - (rule exI [where x = "c # s"], rule exI [where x = r'], simp add: valid_up_to.simps [of "utf8_char c @ utf8 s @ r'"])
  qed
qed

lemma valid_up_to_whole: "list_all is_char s \<Longrightarrow> valid_up_to (utf8 s) = length (utf8 s)"
  using valid_up_to_append [of s "[]"] by (simp add: valid_up_to.simps [of "[]"] char_len_def)

lemma utf8_prefix:
  assumes "list_all is_char s" "list_all is_char t" "utf8 s @ x = utf8 t @ r" "char_len r = None"
  shows "\<exists>u. t = s @ u"
  using assms(1-3)
proof (induction s arbitrary: t)
  case (Cons c s)
  show ?case
  proof (cases t)
    case Nil
    with Cons.prems have "r = utf8_char c @ utf8 s @ x" "is_char c" by simp_all
    then show ?thesis using assms(4) char_len_Some by (metis option.distinct(1))
  next
    case (Cons d t')
    have "char_len (utf8 (c # s) @ x) = Some (length (utf8_char c))" using Cons.prems(1) by (simp add: char_len_append)
    moreover have "char_len (utf8 t @ r) = Some (length (utf8_char d))"
      using Cons.prems(2) Cons by (simp add: char_len_append)
    ultimately have "length (utf8_char c) = length (utf8_char d)" using Cons.prems(3) by simp
    then have "utf8_char c = utf8_char d" "utf8 s @ x = utf8 t' @ r" using Cons.prems(3) Cons by simp_all
    then show ?thesis using utf8_char_prefix_free [of c d "[]"] Cons.IH [of t'] Cons.prems Cons by simp
  qed
qed simp

lemma newline_boundary:
  assumes "list_all is_char t" "k < length (utf8 t @ r)" "(utf8 t @ r) ! k = 10" "\<forall>b \<in> set r. 0x80 \<le> b"
  shows "\<exists>s u. t = s @ 10 # u \<and> take (Suc k) (utf8 t @ r) = utf8 (s @ [10])"
  using assms(1-3)
proof (induction t arbitrary: k)
  case Nil
  then have "10 \<in> set r" by (auto simp: in_set_conv_nth)
  then show ?case using assms(4) by fastforce
next
  case (Cons c t)
  show ?case
  proof (cases "k < length (utf8_char c)")
    case True
    then have "10 \<in> set (utf8_char c)" using Cons.prems by (auto simp: nth_append in_set_conv_nth)
    then have "c = 10" using utf8_char_ascii_mem [of 10 c] by simp
    moreover from this True have "k = 0" by (simp add: utf8_char_def)
    ultimately show ?thesis by - (rule exI [where x = "[]"], rule exI [where x = t], simp add: utf8_char_def)
  next
    case False
    define j where "j = k - length (utf8_char c)"
    have k: "k = length (utf8_char c) + j" using False by (simp add: j_def)
    have at: "utf8 (c # t) @ r = utf8_char c @ (utf8 t @ r)" by simp
    from Cons.prems(2,3) have "j < length (utf8 t @ r)" "(utf8 t @ r) ! j = 10"
      unfolding at k by (simp_all only: nth_append_length_plus length_append nat_add_left_cancel_less)
    with Cons.IH [of j] Cons.prems(1) obtain s u where
      "t = s @ 10 # u" "take (Suc j) (utf8 t @ r) = utf8 (s @ [10])" by (metis list_all_iff list.set_intros(2))
    then show ?thesis unfolding at k
      by - (rule exI [where x = "c # s"], rule exI [where x = u], simp)
  qed
qed

text \<open>What \<open>check_text_prefix\<close> accepts: text without binary controls, and at most one character cut by the bound.\<close>

lemma cut_char_bytes: "cut_char r \<Longrightarrow> \<forall>b \<in> set r. 0x80 \<le> b"
  by (auto simp: cut_char_def is_second_def is_cont_def split: list.splits if_splits)

lemma check_text_prefix_Ok:
  assumes "check_text_prefix header at_end = Ok text"
  shows "list_all is_char text" "\<not> contains_binary_control text"
    "\<exists>r. map unat header = utf8 text @ r \<and> char_len r = None
       \<and> (\<forall>b \<in> set r. 0x80 \<le> b) \<and> (at_end \<longrightarrow> r = []) \<and> (r = [] \<or> cut_char r)"
proof -
  have ctl: "\<not> contains_binary_control text"
    using assms by (auto simp: check_text_prefix_def split: if_splits)
  consider "from_utf8 header = Some text"
    | "from_utf8 header = None" "\<not> at_end" "cut_char (map unat (drop (valid_up_to (map unat header)) header))"
      "from_utf8 (take (valid_up_to (map unat header)) header) = Some text"
    using assms by (auto simp: check_text_prefix_def Let_def split: if_splits option.splits)
  then have "list_all is_char text \<and> (\<exists>r. map unat header = utf8 text @ r \<and> char_len r = None
       \<and> (\<forall>b \<in> set r. 0x80 \<le> b) \<and> (at_end \<longrightarrow> r = []) \<and> (r = [] \<or> cut_char r))"
  proof cases
    case 1
    then show ?thesis using utf8_decode_sound [of "map unat header" "text"] by (auto simp: from_utf8_def char_len_def)
  next
    case 2
    obtain s r where s: "list_all is_char s" "map unat header = utf8 s @ r"
      "valid_up_to (map unat header) = length (utf8 s)" "char_len r = None"
      using valid_up_to_split [of "map unat header"] by auto
    have "map unat (take (length (utf8 s)) header) = utf8 s" using s(2) by (simp flip: take_map)
    then have "utf8_decode (utf8 s) = Some text" using 2(4) s(3) by (simp add: from_utf8_def)
    then have "text = s" using utf8_decode_utf8 [OF s(1)] by simp
    moreover have "cut_char r" using 2(3) s(2,3) by (simp flip: drop_map)
    ultimately show ?thesis using s 2(2) cut_char_bytes by blast
  qed
  with ctl show "list_all is_char text" "\<not> contains_binary_control text"
    "\<exists>r. map unat header = utf8 text @ r \<and> char_len r = None
       \<and> (\<forall>b \<in> set r. 0x80 \<le> b) \<and> (at_end \<longrightarrow> r = []) \<and> (r = [] \<or> cut_char r)" by blast+
qed

lemma nth_feed_Some:
  "nth_feed n bs = Some k \<Longrightarrow> k < length bs \<and> bs ! k = 10 \<and> count_list (take (Suc k) bs) 10 = Suc n"
  by (induction n bs arbitrary: k rule: nth_feed.induct) (auto split: if_splits nat.splits)

lemma nth_feed_None: "nth_feed n bs = None \<Longrightarrow> count_list bs 10 \<le> n"
  by (induction n bs rule: nth_feed.induct) (auto split: if_splits nat.splits)

lemma rposition_len_pos:
  assumes "rposition_len P bs \<noteq> 0"
  shows "rposition_len P bs \<le> length bs" "P (bs ! (rposition_len P bs - 1))"
proof -
  let ?d = "dropWhile (Not \<circ> P) (rev bs)"
  obtain b d where d: "?d = b # d" using assms by (cases ?d) (auto simp: rposition_len_def)
  then have "P b" using hd_dropWhile [of "Not \<circ> P" "rev bs"] by simp
  moreover have "rev bs = takeWhile (Not \<circ> P) (rev bs) @ b # d" using d by (metis takeWhile_dropWhile_id)
  then have "bs = rev d @ b # rev (takeWhile (Not \<circ> P) (rev bs))" by (metis append_assoc append_Cons append_Nil rev.simps(2) rev_append rev_rev_ident)
  ultimately show "P (bs ! (rposition_len P bs - 1))" "rposition_len P bs \<le> length bs"
    unfolding rposition_len_def d
    by (metis diff_Suc_1 length_Cons length_rev nth_append_length, metis length_append length_Cons length_rev le_add1 add_Suc_right add_Suc)
qed

lemma count_list_take_le: "count_list (take n xs) x \<le> count_list xs x"
  by (metis append_take_drop_id count_list_append le_add1)

lemma rposition_len_0: "rposition_len (\<lambda>b. b = x) bs = 0 \<Longrightarrow> count_list bs x = 0"
  by (auto simp: rposition_len_def count_list_0_iff dropWhile_eq_Nil_conv)

lemma text_head_lines: "count_list (take (text_head_len w) w) 10 \<le> HEAD_MAX_LINES"
  by (auto simp: text_head_len_def Let_def HEAD_MAX_LINES_def split: option.splits
      dest!: nth_feed_Some nth_feed_None rposition_len_0 intro: order_trans [OF count_list_take_le])

text \<open>The head of a text ends on a character boundary: it is the UTF-8 of a prefix of the text.\<close>

lemma text_head_boundary:
  assumes "check_text_prefix header at_end = Ok text"
  shows "\<exists>s t. text = s @ t \<and> from_utf8 (take (text_head_len (take n header)) header) = Some s
    \<and> text_head_len (take n header) \<le> n"
proof -
  obtain r where r: "list_all is_char text" "map unat header = utf8 text @ r" "char_len r = None" "\<forall>b \<in> set r. 0x80 \<le> b"
    using check_text_prefix_Ok [OF assms] by blast
  let ?k = "text_head_len (take n header)"
  have feed: "?thesis" if "?k = Suc j" "j < length (take n header)" "take n header ! j = 10" for j
  proof -
    from that(2,3) r(2) have "j < length (utf8 text @ r)" "(utf8 text @ r) ! j = 10"
      by (simp_all flip: r(2))
    from newline_boundary [OF r(1) this r(4)] obtain s u where
      s: "text = s @ 10 # u" and tk: "take (Suc j) (utf8 text @ r) = utf8 (s @ [10])" by blast
    have "take ?k (map unat header) = utf8 (s @ [10])" using tk by (simp only: that(1) r(2))
    note s = s this
    have "list_all is_char (s @ [10])" using r(1) s(1) by simp
    from utf8_decode_utf8 [OF this] s(2) have "from_utf8 (take ?k header) = Some (s @ [10])"
      by (simp add: from_utf8_def take_map)
    then show ?thesis using s(1) that(1,2) by (intro exI [of _ "s @ [10]"] exI [of _ u]) simp
  qed
  show ?thesis
  proof (cases "nth_feed (HEAD_MAX_LINES - 1) (take n header)")
    case (Some j)
    then show ?thesis using nth_feed_Some [OF Some] by (intro feed [of j]) (auto simp: text_head_len_def)
  next
    case None
    show ?thesis
    proof (cases "rposition_len (\<lambda>b. b = 10) (take n header) = 0")
      case False
      then show ?thesis using rposition_len_pos [OF False] None
        by (intro feed [of "rposition_len (\<lambda>b. b = 10) (take n header) - 1"]) (auto simp: text_head_len_def Let_def)
    next
      case True
      have k: "?k = valid_up_to (map unat (take n header))"
        using True None utf8_decode_sound [of "map unat (take n header)"] valid_up_to_whole
        by (auto simp: text_head_len_def from_utf8_def split: option.splits) (metis length_map length_take)
      obtain s q where s: "list_all is_char s" "map unat (take n header) = utf8 s @ q" "?k = length (utf8 s)"
        using valid_up_to_split [of "map unat (take n header)"] k by auto
      have "utf8 s @ (q @ map unat (drop n header)) = utf8 text @ r"
        using s(2) r(2) by (metis append.assoc append_take_drop_id map_append)
      from utf8_prefix [OF s(1) r(1) this r(3)] obtain u where "text = s @ u" by blast
      moreover have le: "?k \<le> n" using s(2,3) by (metis length_append length_map length_take le_add1 min.cobounded2 order_trans)
      moreover have "take ?k (map unat header) = utf8 s"
        using s(2,3) le by (metis append_eq_conv_conj min.absorb1 take_map take_take)
      then have "from_utf8 (take ?k header) = Some s" using utf8_decode_utf8 [OF s(1)] by (simp add: from_utf8_def take_map)
      ultimately show ?thesis by blast
    qed
  qed
qed

subsection \<open>Counting the frames of a GIF\<close>

text \<open>The grammar of the blocks after the logical screen: frames and extensions, and the trailer.\<close>

datatype gif_item =
    Frame bytes bytes u8 "bytes list"
  | Extension u8 "bytes list"

definition sub_blocks :: "bytes list \<Rightarrow> bytes" where
  "sub_blocks bs = concat (map (\<lambda>b. of_nat (length b) # b) bs) @ [0]"

definition sub_blocks_ok :: "bytes list \<Rightarrow> bool" where
  "sub_blocks_ok bs \<longleftrightarrow> list_all (\<lambda>b. b \<noteq> [] \<and> length b < 256) bs"

fun gif_item_bytes :: "gif_item \<Rightarrow> bytes" where
  "gif_item_bytes (Frame descriptor table lzw bs) = 0x2C # descriptor @ table @ [lzw] @ sub_blocks bs"
| "gif_item_bytes (Extension label bs) = 0x21 # label # sub_blocks bs"

fun gif_item_ok :: "gif_item \<Rightarrow> bool" where
  "gif_item_ok (Frame descriptor table lzw bs) \<longleftrightarrow>
     length descriptor = 9 \<and> length table = color_table (descriptor ! 8) \<and> sub_blocks_ok bs"
| "gif_item_ok (Extension label bs) \<longleftrightarrow> sub_blocks_ok bs"

fun is_frame :: "gif_item \<Rightarrow> bool" where
  "is_frame (Frame _ _ _ _) = True"
| "is_frame (Extension _ _) = False"

definition gif_bytes :: "bytes \<Rightarrow> bytes \<Rightarrow> gif_item list \<Rightarrow> bytes \<Rightarrow> bytes" where
  "gif_bytes screen table items rest = screen @ table @ concat (map gif_item_bytes items) @ 0x3B # rest"

definition gif_ok :: "bytes \<Rightarrow> bytes \<Rightarrow> gif_item list \<Rightarrow> bool" where
  "gif_ok screen table items \<longleftrightarrow> length screen = 13
     \<and> (starts_with (byte_lit ''GIF87a'') screen \<or> starts_with (byte_lit ''GIF89a'') screen)
     \<and> length table = color_table (screen ! 10) \<and> list_all gif_item_ok items"

lemma gif_skip_append: "length a = n \<Longrightarrow> gif_skip n (a @ r) = Some r"
  by (simp add: gif_skip_def)

lemma gif_read_append: "length a = n \<Longrightarrow> gif_read_exact n (a @ r) = Some (a, r)"
  by (simp add: gif_read_exact_def)

lemma skip_sub_blocks_exact:
  "sub_blocks_ok bs \<Longrightarrow> skip_sub_blocks (sub_blocks bs @ r) = Some r"
proof (induction bs)
  case Nil
  then show ?case by (simp add: sub_blocks_def skip_sub_blocks.simps)
next
  case (Cons b bs)
  then have b: "unat (of_nat (length b) :: u8) = length b" "b \<noteq> []" by (simp_all add: sub_blocks_ok_def unat_of_nat_u8)
  then have "(of_nat (length b) :: u8) \<noteq> 0" by (metis length_0_conv unat_0)
  then show ?case using Cons b(1)
    by (subst skip_sub_blocks.simps) (simp add: sub_blocks_def sub_blocks_ok_def gif_skip_append)
qed

lemma gif_block_exact:
  "gif_item_ok i \<Longrightarrow> gif_block (hd (gif_item_bytes i)) (tl (gif_item_bytes i) @ r) = Some r"
  by (cases i) (simp_all add: gif_block_def gif_read_append gif_skip_append skip_sub_blocks_exact
      gif_skip_append [of "[x]" for x, simplified])

lemma gif_blocks_exact:
  assumes "list_all gif_item_ok items" "images \<le> stop_at"
  shows "gif_blocks stop_at images (concat (map gif_item_bytes items) @ 0x3B # r)
    = min stop_at (images + length (filter is_frame items))"
  using assms
proof (induction items arbitrary: images)
  case Nil
  then show ?case by (subst gif_blocks.simps) (simp add: gif_block_def)
next
  case (Cons i items)
  let ?r = "concat (map gif_item_bytes items) @ 0x3B # r"
  have split: "concat (map gif_item_bytes (i # items)) @ 0x3B # r = hd (gif_item_bytes i) # tl (gif_item_bytes i) @ ?r"
    by (cases i) simp_all
  have next_block: "gif_block (hd (gif_item_bytes i)) (tl (gif_item_bytes i) @ ?r) = Some ?r"
    using Cons.prems by (intro gif_block_exact) simp
  show ?case
    unfolding split by (subst gif_blocks.simps)
      (use Cons next_block in \<open>cases i; auto simp: Let_def min_def\<close>)
qed

text \<open>
  The animation check counts the frames of a GIF. On every well-formed GIF whose blocks end within
  the scan bound, the bounded walk returns the number of frames, stopped at the requested count, so a
  GIF is reported as animated exactly when it has a second frame; whatever follows the trailer is ignored.
\<close>

theorem gif_animation_exact:
  assumes "gif_ok screen table items" "length (gif_bytes screen table items []) \<le> GIF_ANIMATION_SCAN_BYTES"
  shows "gif_image_count (gif_bytes screen table items rest) stop_at = min stop_at (length (filter is_frame items))
    \<and> (gif_is_animated (gif_bytes screen table items rest) \<longleftrightarrow> 2 \<le> length (filter is_frame items))"
proof -
  let ?n = "GIF_ANIMATION_SCAN_BYTES"
  let ?k = "length (screen @ table @ concat (map gif_item_bytes items)) + 1"
  have "take ?n (gif_bytes screen table items rest)
      = screen @ table @ concat (map gif_item_bytes items) @ 0x3B # take (?n - ?k) rest"
    using assms(2) by (simp add: gif_bytes_def take_Cons' add.assoc)
  then have "gif_image_count (gif_bytes screen table items rest) s = min s (length (filter is_frame items))" for s
    using assms(1) gif_blocks_exact [of items 0 s]
    by (auto simp: gif_image_count_def gif_ok_def gif_read_append gif_skip_append)
  then show ?thesis by (simp add: gif_is_animated_def)
qed

theorem gif_animation_exact_witness:
  "\<exists>screen items. length (filter is_frame items) = 2 \<and> gif_is_animated (gif_bytes screen [] items [1, 2, 3])"
proof -
  let ?screen = "byte_lit ''GIF89a'' @ [1, 0, 1, 0, 0, 0, 0]"
  let ?items = "[Extension 0xF9 [[4, 0, 0, 0]], Frame (replicate 9 0) [] 2 [[1, 2]], Frame (replicate 9 0) [] 2 [[3]]]"
  have ok: "gif_ok ?screen [] ?items"
    by (simp add: gif_ok_def byte_lit_def starts_with_def color_table_def sub_blocks_ok_def nth_append)
  have len: "length (gif_bytes ?screen [] ?items []) \<le> GIF_ANIMATION_SCAN_BYTES"
    by (simp add: gif_bytes_def sub_blocks_def GIF_ANIMATION_SCAN_BYTES_def byte_lit_def)
  have "gif_is_animated (gif_bytes ?screen [] ?items [1, 2, 3])"
    using gif_animation_exact [OF ok len, of "[1, 2, 3]"] by simp
  then show ?thesis by (intro exI [of _ ?screen] exI [of _ ?items]) simp
qed

subsection \<open>The types a header can have\<close>

definition IMAGE_TYPES :: "string list" where
  "IMAGE_TYPES = [''image/png'', ''image/gif'', ''image/jpeg'', ''image/webp'', ''image/avif'', ''image/heic'', ''image/heif'']"

definition AUDIO_VIDEO :: "StreamedMedia list" where
  "AUDIO_VIDEO = [SAudio ''audio/mp4'', SVideo ''video/mp4'', SVideo ''video/webm'', SVideo ''video/ogg'',
     SAudio ''audio/ogg'', SAudio ''audio/wav'', SAudio ''audio/flac'', SAudio ''audio/mpeg'']"

lemma classify_image_type: "classify_image bytes = Some img \<Longrightarrow> im_mime_type img \<in> set IMAGE_TYPES"
  by (auto simp: classify_image_def classify_heif_def IMAGE_TYPES_def Let_def bind_eq_Some_conv
      split: if_splits option.splits)

lemma classify_audio_video_type: "classify_audio_video header = Some m \<Longrightarrow> m \<in> set AUDIO_VIDEO"
  by (auto simp: classify_audio_video_def classify_iso_bmff_def classify_ogg_def AUDIO_VIDEO_def bind_eq_Some_conv
      split: if_splits option.splits list.splits)

lemma classify_streamed_cases:
  assumes "classify_streamed header = Ok (Some m)"
  obtains (img) img where "m = SImage img" "classify_image header = Some img" "validate_image_dimensions img = Ok ()"
    | (pdf) "m = SPdf" "is_pdf header" "classify_image header = None"
    | (av) "m \<in> set AUDIO_VIDEO" "classify_audio_video header = Some m" "classify_image header = None" "\<not> is_pdf header"
  using assms classify_audio_video_type
  by (auto simp: classify_streamed_def split: option.splits if_splits)

lemma validated_pixels:
  "validate_image_dimensions img = Ok u \<Longrightarrow> im_width img = Some w \<Longrightarrow> im_height img = Some h
    \<Longrightarrow> 0 < w \<and> 0 < h \<and> w * h \<le> MAX_IMAGE_PIXELS"
  by (auto simp: validate_image_dimensions_def Let_def MAX_IMAGE_PIXELS_def split: if_splits)

text \<open>A file naming an image brand is an image: it is never classified as audio or video.\<close>

lemma image_brands_named: "IMAGE_BRANDS = AVIF_BRANDS @ HEIF_BRANDS @ HEIC_BRANDS"
  by (simp add: IMAGE_BRANDS_def AVIF_BRANDS_def HEIF_BRANDS_def HEIC_BRANDS_def)

lemma ftyp_brands_head: "ftyp_brands header = Some brands \<Longrightarrow> 16 \<le> length header \<and> sub header 4 8 = byte_lit ''ftyp''"
  by (auto simp: ftyp_brands_def Let_def split: if_splits)

lemma image_brand_is_heif:
  assumes "ftyp_brands header = Some brands" "b \<in> set brands" "b \<in> set IMAGE_BRANDS"
  shows "classify_heif header \<noteq> None"
  using assms ftyp_brands_head [OF assms(1)]
  by (auto simp: classify_heif_def image_brands_named list_ex_iff)

lemma heif_is_image: "classify_heif header \<noteq> None \<Longrightarrow> classify_image header \<noteq> None \<or> starts_with PNG_MAGIC header"
  by (auto simp: classify_image_def Let_def)

end
