(* ===== verification/Tiff.thy ===== *)
theory Tiff
  imports Media
begin

text \<open>
  The bounded structure walks of \<open>thumbnail/tiff.rs\<close> and the header readers of
  \<open>thumbnail/decode.rs\<close> (\<open>jpeg_header\<close>, \<open>raw_preview\<close>). They run on untrusted files, so every loop has an
  explicit bound: the theory shows that the TIFF walk visits each directory at most once and at most 32 in
  all, however the directories point at each other, and that every preview candidate lies inside the file.
\<close>

unbundle bit_operations_syntax

subsection \<open>Readers\<close>

text \<open>
  A reader seeks to an offset and reads exactly \<open>n\<close> bytes. It fails when the file ends first or on any other error.
  The file is not modified during one walk.
\<close>

datatype read_error = ReadEof | ReadFailed

type_synonym reader = "nat \<Rightarrow> nat \<Rightarrow> read_error + bytes"

definition read_exact_at :: "reader \<Rightarrow> nat \<Rightarrow> nat \<Rightarrow> read_error + bytes" where
  "read_exact_at rd offset n =
     and_then (rd offset n) (\<lambda>bs. if length bs = n then Ok bs else Err ReadEof)"

text \<open>A cursor over bytes in memory.\<close>

definition cursor_reader :: "bytes \<Rightarrow> reader" where
  "cursor_reader bs offset n = ok_or ReadEof (slice bs offset (offset + n))"

fun chunks_exact :: "nat \<Rightarrow> 'a list \<Rightarrow> 'a list list" where
  "chunks_exact 0 xs = []"
| "chunks_exact (Suc n) xs =
     (if length xs < Suc n then [] else take (Suc n) xs # chunks_exact (Suc n) (drop (Suc n) xs))"

lemma chunks_exact_unfold:
  "chunks_exact n xs = (if n = 0 \<or> length xs < n then [] else take n xs # chunks_exact n (drop n xs))"
  by (cases n) simp_all

subsection \<open>The TIFF walker\<close>

definition MAX_IFDS :: nat where "MAX_IFDS = 32"
definition MAX_ENTRIES :: nat where "MAX_ENTRIES = 512"
definition MAX_DEPTH :: nat where "MAX_DEPTH = 4"
definition MAX_SUB_IFDS :: nat where "MAX_SUB_IFDS = 8"
definition MAX_CANDIDATES :: nat where "MAX_CANDIDATES = 16"

definition TAG_COMPRESSION :: nat where "TAG_COMPRESSION = 0x0103"
definition TAG_PHOTOMETRIC :: nat where "TAG_PHOTOMETRIC = 0x0106"
definition TAG_STRIP_OFFSETS :: nat where "TAG_STRIP_OFFSETS = 0x0111"
definition TAG_ORIENTATION :: nat where "TAG_ORIENTATION = 0x0112"
definition TAG_STRIP_BYTE_COUNTS :: nat where "TAG_STRIP_BYTE_COUNTS = 0x0117"
definition TAG_SUB_IFDS :: nat where "TAG_SUB_IFDS = 0x014A"
definition TAG_JPEG_OFFSET :: nat where "TAG_JPEG_OFFSET = 0x0201"
definition TAG_JPEG_LENGTH :: nat where "TAG_JPEG_LENGTH = 0x0202"
definition TAG_EXIF_IFD :: nat where "TAG_EXIF_IFD = 0x8769"
definition TYPE_SHORT :: nat where "TYPE_SHORT = 3"
definition TYPE_LONG :: nat where "TYPE_LONG = 4"
definition TYPE_IFD :: nat where "TYPE_IFD = 13"
definition PHOTOMETRIC_CFA :: nat where "PHOTOMETRIC_CFA = 32803"
definition PHOTOMETRIC_LINEAR_RAW :: nat where "PHOTOMETRIC_LINEAR_RAW = 34892"

datatype Endian = Little | Big

record Candidate =
  ca_offset :: nat
  ca_length :: nat

record TiffScan =
  ts_orientation :: "nat option"
  ts_candidates :: "Candidate list"

definition is_tiff :: "bytes \<Rightarrow> bool" where
  "is_tiff header \<longleftrightarrow>
     slice header 0 4 \<in> Some ` set [[0x49, 0x49, 0x2A, 0], [0x4D, 0x4D, 0, 0x2A], byte_lit ''IIRO'', byte_lit ''IIRS'', byte_lit ''MMOR'']"

record TiffEntry =
  te_tag :: nat
  te_kind :: nat
  te_count :: nat
  te_value :: bytes

record Walker =
  wk_reader :: reader
  wk_len :: nat
  wk_endian :: Endian

definition walker_read_at :: "Walker \<Rightarrow> nat \<Rightarrow> nat \<Rightarrow> bytes option" where
  "walker_read_at w offset n =
     Option.bind (checked_add64 offset n) (\<lambda>e.
       if wk_len w < e then None
       else (case read_exact_at (wk_reader w) offset n of Inr bs \<Rightarrow> Some bs | Inl _ \<Rightarrow> None))"

definition endian_nat :: "Walker \<Rightarrow> bytes \<Rightarrow> nat" where
  "endian_nat w bs = (case wk_endian w of Little \<Rightarrow> le_nat bs | Big \<Rightarrow> be_nat bs)"

definition read_entry :: "Walker \<Rightarrow> bytes \<Rightarrow> TiffEntry" where
  "read_entry w e =
     \<lparr> te_tag = endian_nat w (sub e 0 2), te_kind = endian_nat w (sub e 2 4), te_count = endian_nat w (sub e 4 8),
       te_value = sub e 8 12 \<rparr>"

definition tiff_directory :: "Walker \<Rightarrow> nat \<Rightarrow> (TiffEntry list \<times> nat) option" where
  "tiff_directory w offset =
     Option.bind (walker_read_at w offset 2) (\<lambda>n.
     let n = endian_nat w n in
     if n = 0 \<or> MAX_ENTRIES < n then None
     else
       Option.bind (walker_read_at w (offset + 2) (n * 12 + 4)) (\<lambda>raw.
         Some (map (read_entry w) (chunks_exact 12 (take (n * 12) raw)), endian_nat w (drop (n * 12) raw))))"

definition tiff_values :: "Walker \<Rightarrow> TiffEntry \<Rightarrow> nat \<Rightarrow> nat list option" where
  "tiff_values w entry limit =
     (let width = (if te_kind entry = TYPE_SHORT then 2
                   else if te_kind entry = TYPE_LONG \<or> te_kind entry = TYPE_IFD then 4 else 0)
      in
      if width = 0 then None
      else if te_count entry = 0 \<or> limit < te_count entry then None
      else
        let total = te_count entry * width in
        Option.bind (if total \<le> 4 then Some (take total (te_value entry))
                     else walker_read_at w (endian_nat w (te_value entry)) total) (\<lambda>bs.
          Some (map (endian_nat w) (chunks_exact width bs))))"

definition tiff_single :: "Walker \<Rightarrow> TiffEntry \<Rightarrow> nat option" where
  "tiff_single w entry =
     Option.bind (tiff_values w entry 1) (\<lambda>vs. case vs of v # _ \<Rightarrow> Some v | [] \<Rightarrow> None)"

text \<open>The variables of one directory, with the directories still to visit (the top of the stack first).\<close>

record ifd_state =
  if_compression :: "nat option"
  if_photometric :: "nat option"
  if_strip_offsets :: "nat list option"
  if_strip_counts :: "nat list option"
  if_jpeg_offset :: "nat option"
  if_jpeg_length :: "nat option"
  if_pending :: "(nat \<times> nat) list"
  if_orientation :: "nat option"

definition scan_tiff_entry :: "Walker \<Rightarrow> bool \<Rightarrow> nat \<Rightarrow> TiffEntry \<Rightarrow> ifd_state \<Rightarrow> ifd_state" where
  "scan_tiff_entry w is_first lv entry s =
     (if te_tag entry = TAG_ORIENTATION \<and> is_first then
        s\<lparr>if_orientation := Option.bind (tiff_single w entry) (\<lambda>v. if 1 \<le> v \<and> v \<le> 8 then Some v else None)\<rparr>
      else if te_tag entry = TAG_COMPRESSION then s\<lparr>if_compression := tiff_single w entry\<rparr>
      else if te_tag entry = TAG_PHOTOMETRIC then s\<lparr>if_photometric := tiff_single w entry\<rparr>
      else if te_tag entry = TAG_STRIP_OFFSETS then s\<lparr>if_strip_offsets := tiff_values w entry 1\<rparr>
      else if te_tag entry = TAG_STRIP_BYTE_COUNTS then s\<lparr>if_strip_counts := tiff_values w entry 1\<rparr>
      else if te_tag entry = TAG_JPEG_OFFSET then s\<lparr>if_jpeg_offset := tiff_single w entry\<rparr>
      else if te_tag entry = TAG_JPEG_LENGTH then s\<lparr>if_jpeg_length := tiff_single w entry\<rparr>
      else if te_tag entry = TAG_SUB_IFDS \<and> lv < MAX_DEPTH then
        (case tiff_values w entry MAX_SUB_IFDS of
           Some children \<Rightarrow> s\<lparr>if_pending := rev (map (\<lambda>c. (c, lv + 1)) children) @ if_pending s\<rparr>
         | None \<Rightarrow> s)
      else if te_tag entry = TAG_EXIF_IFD \<and> lv < MAX_DEPTH then
        (case tiff_single w entry of
           Some child \<Rightarrow> s\<lparr>if_pending := (child, lv + 1) # if_pending s\<rparr>
         | None \<Rightarrow> s)
      else s)"

definition push_candidate :: "nat \<Rightarrow> nat \<Rightarrow> nat \<Rightarrow> TiffScan \<Rightarrow> TiffScan" where
  "push_candidate len offset n result =
     (let in_bounds = (4 \<le> n \<and> (case checked_add64 offset n of Some e \<Rightarrow> e \<le> len | None \<Rightarrow> False));
          candidate = \<lparr> ca_offset = offset, ca_length = n \<rparr>
      in if in_bounds \<and> length (ts_candidates result) < MAX_CANDIDATES \<and> candidate \<notin> set (ts_candidates result)
         then result\<lparr>ts_candidates := ts_candidates result @ [candidate]\<rparr> else result)"

definition ifd_candidates :: "nat \<Rightarrow> ifd_state \<Rightarrow> TiffScan \<Rightarrow> TiffScan" where
  "ifd_candidates len s result =
     (let result = (case (if_jpeg_offset s, if_jpeg_length s) of
                      (Some offset, Some n) \<Rightarrow> push_candidate len offset n result
                    | _ \<Rightarrow> result);
          raw_data = (if_photometric s \<in> {Some PHOTOMETRIC_CFA, Some PHOTOMETRIC_LINEAR_RAW})
      in if if_compression s \<in> {Some 6, Some 7} \<and> \<not> raw_data
         then (case (if_strip_offsets s, if_strip_counts s) of
                 (Some offsets, Some counts) \<Rightarrow> push_candidate len (hd offsets) (hd counts) result
               | _ \<Rightarrow> result)
         else result)"

definition ifd_start :: "(nat \<times> nat) list \<Rightarrow> TiffScan \<Rightarrow> ifd_state" where
  "ifd_start pending result =
     \<lparr> if_compression = None, if_photometric = None, if_strip_offsets = None, if_strip_counts = None,
       if_jpeg_offset = None, if_jpeg_length = None, if_pending = pending, if_orientation = ts_orientation result \<rparr>"

text \<open>
  The walk returns its result with the directories it visited. Each turn pops a directory or visits a new one, of which
  there are at most 32.
\<close>

function tiff_walk ::
  "Walker \<Rightarrow> nat \<Rightarrow> (nat \<times> nat) list \<Rightarrow> nat list \<Rightarrow> TiffScan \<Rightarrow> bool \<Rightarrow> TiffScan option \<times> nat list" where
  "tiff_walk w first pending visited result read_first =
     (case pending of
        [] \<Rightarrow> (if read_first then Some result else None, visited)
      | (offset, lv) # pending \<Rightarrow>
          if offset < 8 \<or> MAX_IFDS \<le> length visited \<or> offset \<in> set visited
          then tiff_walk w first pending visited result read_first
          else
            let visited = visited @ [offset] in
            (case tiff_directory w offset of
               None \<Rightarrow> if offset = first then (None, visited) else tiff_walk w first pending visited result read_first
             | Some (entries, next_ifd) \<Rightarrow>
                 let is_first = (offset = first);
                     s = fold (scan_tiff_entry w is_first lv) entries (ifd_start pending result);
                     result = ifd_candidates (wk_len w) s (result\<lparr>ts_orientation := if_orientation s\<rparr>);
                     pending = (if next_ifd \<noteq> 0 then (next_ifd, lv) # if_pending s else if_pending s)
                 in tiff_walk w first pending visited result (read_first \<or> is_first)))"
  by pat_completeness auto
termination
  by (relation "measures [\<lambda>(w, f, pending, visited, r, b). MAX_IFDS - length visited, \<lambda>(w, f, pending, visited, r, b). length pending]")
    auto

declare tiff_walk.simps [simp del]

definition tiff_scan_visited :: "reader \<Rightarrow> nat \<Rightarrow> TiffScan option \<times> nat list" where
  "tiff_scan_visited rd len =
     (if len < 8 then (None, [])
      else (case read_exact_at rd 0 8 of
          Inl _ \<Rightarrow> (None, [])
        | Inr header \<Rightarrow>
            if \<not> is_tiff header then (None, [])
            else
              let w = \<lparr> wk_reader = rd, wk_len = len, wk_endian = (if header ! 0 = 0x49 then Little else Big) \<rparr>;
                  first = endian_nat w (sub header 4 8)
              in tiff_walk w first [(first, 0)] [] \<lparr> ts_orientation = None, ts_candidates = [] \<rparr> False))"

definition tiff_scan :: "reader \<Rightarrow> nat \<Rightarrow> TiffScan option" where
  "tiff_scan rd len = fst (tiff_scan_visited rd len)"

definition tiff_orientation :: "bytes \<Rightarrow> nat option" where
  "tiff_orientation exif = Option.bind (tiff_scan (cursor_reader exif) (length exif)) ts_orientation"

subsection \<open>Bounds of the walk\<close>

definition candidate_ok :: "nat \<Rightarrow> Candidate \<Rightarrow> bool" where
  "candidate_ok len c \<longleftrightarrow> 4 \<le> ca_length c \<and> ca_offset c + ca_length c \<le> len"

definition orientation_ok :: "nat option \<Rightarrow> bool" where
  "orientation_ok v \<longleftrightarrow> (\<forall>n. v = Some n \<longrightarrow> 1 \<le> n \<and> n \<le> 8)"

definition scan_ok :: "nat \<Rightarrow> TiffScan \<Rightarrow> bool" where
  "scan_ok len s \<longleftrightarrow> list_all (candidate_ok len) (ts_candidates s) \<and> distinct (ts_candidates s)
     \<and> length (ts_candidates s) \<le> MAX_CANDIDATES \<and> orientation_ok (ts_orientation s)"

lemma push_candidate_ok: "scan_ok len s \<Longrightarrow> scan_ok len (push_candidate len offset n s)"
  by (auto simp: push_candidate_def scan_ok_def candidate_ok_def Let_def split: option.splits)

lemma ifd_candidates_ok: "scan_ok len r \<Longrightarrow> scan_ok len (ifd_candidates len s r)"
  by (auto simp: ifd_candidates_def Let_def push_candidate_ok split: option.splits)

lemma entry_orientation: "orientation_ok (if_orientation s) \<Longrightarrow> orientation_ok (if_orientation (scan_tiff_entry w f lv e s))"
  by (simp add: scan_tiff_entry_def split: option.splits)
    (auto simp: orientation_ok_def bind_eq_Some_conv split: if_splits)

lemma entries_orientation:
  "orientation_ok (if_orientation s) \<Longrightarrow> orientation_ok (if_orientation (fold (scan_tiff_entry w f lv) es s))"
  by (induction es arbitrary: s) (auto dest: entry_orientation)

lemma tiff_walk_bounded:
  assumes "distinct visited" "length visited \<le> MAX_IFDS" "scan_ok (wk_len w) result" "\<forall>v \<in> set visited. 8 \<le> v"
    "tiff_walk w first pending visited result read_first = (r, vs)"
  shows "distinct vs \<and> length vs \<le> MAX_IFDS \<and> (\<forall>v \<in> set vs. 8 \<le> v) \<and> (\<forall>s. r = Some s \<longrightarrow> scan_ok (wk_len w) s)"
  using assms
proof (induction w first pending visited result read_first rule: tiff_walk.induct)
  case (1 w first pending visited result read_first)
  show ?case
  proof (cases pending)
    case Nil
    then show ?thesis using 1(4-) by (auto simp: tiff_walk.simps [of _ _ "[]"] split: if_splits)
  next
    case (Cons top rest)
    obtain offset lv where top: "top = (offset, lv)" by fastforce
    note walk = 1(8) [unfolded Cons top tiff_walk.simps [of w first "(offset, lv) # rest"], simplified list.case prod.case]
    note IH = 1(1-3) [OF Cons top [symmetric]]
    show ?thesis
    proof (cases "offset < 8 \<or> MAX_IFDS \<le> length visited \<or> offset \<in> set visited")
      case True
      have "tiff_walk w first rest visited result read_first = (r, vs)"
        using walk True by simp
      then show ?thesis using IH(1) [OF True 1(4-7)] by blast
    next
      case False
      have new: "distinct (visited @ [offset])" "length (visited @ [offset]) \<le> MAX_IFDS" "\<forall>v \<in> set (visited @ [offset]). 8 \<le> v"
        using False 1(4,5,7) by auto
      show ?thesis
      proof (cases "tiff_directory w offset")
        case None
        show ?thesis
        proof (cases "offset = first")
          case True
          with walk False None have "r = None" "vs = visited @ [offset]" by simp_all
          with new show ?thesis by simp
        next
          case ne: False
          have "tiff_walk w first rest (visited @ [offset]) result read_first = (r, vs)"
            using walk False None ne by simp
          from IH(2) [OF False refl None ne new(1,2) 1(6) new(3) this] show ?thesis .
        qed
      next
        case (Some d)
        obtain entries nx where d: "d = (entries, nx)" by fastforce
        define s where "s = fold (scan_tiff_entry w (offset = first) lv) entries (ifd_start rest result)"
        have "orientation_ok (if_orientation s)"
          unfolding s_def by (rule entries_orientation) (use 1(6) in \<open>simp add: ifd_start_def scan_ok_def\<close>)
        then have ok: "scan_ok (wk_len w) (ifd_candidates (wk_len w) s (result\<lparr>ts_orientation := if_orientation s\<rparr>))"
          using 1(6) by (intro ifd_candidates_ok) (simp add: scan_ok_def)
        have "tiff_walk w first (if nx \<noteq> 0 then (nx, lv) # if_pending s else if_pending s) (visited @ [offset])
            (ifd_candidates (wk_len w) s (result\<lparr>ts_orientation := if_orientation s\<rparr>)) (read_first \<or> offset = first) = (r, vs)"
          unfolding s_def using walk False Some d by (simp add: Let_def split del: if_split)
        from IH(3) [OF False refl Some d [symmetric] refl s_def refl refl new(1,2) ok new(3) this] show ?thesis .
      qed
    qed
  qed
qed


text \<open>The witness: a TIFF whose only directory is its own successor.\<close>

definition looping_tiff :: bytes where
  "looping_tiff = [0x49, 0x49, 0x2A, 0, 8, 0, 0, 0, 1, 0, 0x12, 0x01, 3, 0, 1, 0, 0, 0, 6, 0, 0, 0, 8, 0, 0, 0]"

lemma looping_tiff_scan:
  "tiff_scan_visited (cursor_reader looping_tiff) 26 = (Some \<lparr> ts_orientation = Some 6, ts_candidates = [] \<rparr>, [8])"
proof -
  have "tiff_directory \<lparr> wk_reader = cursor_reader looping_tiff, wk_len = 26, wk_endian = Little \<rparr> 8
      = Some ([\<lparr> te_tag = TAG_ORIENTATION, te_kind = TYPE_SHORT, te_count = 1, te_value = [6, 0, 0, 0] \<rparr>], 8)"
    by (simp add: tiff_directory_def walker_read_at_def read_exact_at_def cursor_reader_def slice_def looping_tiff_def
        endian_nat_def MAX_ENTRIES_def checked_add_def read_entry_def sub_def TAG_ORIENTATION_def TYPE_SHORT_def chunks_exact_unfold [of 12])
  moreover have "scan_tiff_entry \<lparr> wk_reader = cursor_reader looping_tiff, wk_len = 26, wk_endian = Little \<rparr> True 0
      \<lparr> te_tag = TAG_ORIENTATION, te_kind = TYPE_SHORT, te_count = 1, te_value = [6, 0, 0, 0] \<rparr> s = s\<lparr>if_orientation := Some 6\<rparr>" for s
    by (simp add: scan_tiff_entry_def tiff_single_def tiff_values_def TYPE_SHORT_def endian_nat_def chunks_exact_unfold [of 2])
  ultimately have "tiff_walk \<lparr> wk_reader = cursor_reader looping_tiff, wk_len = 26, wk_endian = Little \<rparr> 8 [(8, 0)] []
      \<lparr> ts_orientation = None, ts_candidates = [] \<rparr> False = (Some \<lparr> ts_orientation = Some 6, ts_candidates = [] \<rparr>, [8])"
    by (simp add: tiff_walk.simps [of _ _ "[(8, 0)]"] tiff_walk.simps [of _ _ "[]"] MAX_IFDS_def ifd_start_def ifd_candidates_def)
  then show ?thesis
    by (simp add: tiff_scan_visited_def read_exact_at_def cursor_reader_def looping_tiff_def slice_def is_tiff_def
        endian_nat_def sub_def)
qed


subsection \<open>JPEG headers\<close>

datatype ThumbnailError = ThumbUnsupported | ThumbTooLarge | ThumbCorrupt | ThumbUnavailable

definition thumb_read_at :: "reader \<Rightarrow> nat \<Rightarrow> nat \<Rightarrow> nat \<Rightarrow> ThumbnailError + bytes" where
  "thumb_read_at rd offset n limit =
     and_then (ok_or ThumbCorrupt (checked_add64 offset n)) (\<lambda>e.
       if limit < e then Err ThumbCorrupt
       else map_err (\<lambda>e. case e of ReadEof \<Rightarrow> ThumbCorrupt | ReadFailed \<Rightarrow> ThumbUnavailable) (read_exact_at rd offset n))"

definition MAX_JPEG_SEGMENTS :: nat where "MAX_JPEG_SEGMENTS = 256"
definition MAX_JPEG_FILL :: nat where "MAX_JPEG_FILL = 64"

record JpegHeader =
  jh_width :: nat
  jh_height :: nat
  jh_components :: nat
  jh_progressive :: bool
  jh_orientation :: "nat option"

text \<open>The fill bytes before a marker: the marker and its position.\<close>

function skip_fill :: "reader \<Rightarrow> nat \<Rightarrow> nat \<Rightarrow> u8 \<Rightarrow> nat \<Rightarrow> ThumbnailError + (u8 \<times> nat)" where
  "skip_fill rd e fill marker position =
     (if marker \<noteq> 0xFF then Ok (marker, position)
      else
        let fill = fill + 1 in
        if MAX_JPEG_FILL < fill then Err ThumbCorrupt
        else
          let position = position + 1 in
          (case thumb_read_at rd position 2 e of
             Inl err \<Rightarrow> Err err
           | Inr p \<Rightarrow> skip_fill rd e fill (p ! 1) position))"
  by pat_completeness auto
termination by (relation "measure (\<lambda>(rd, e, fill, m, p). MAX_JPEG_FILL - fill)") auto

declare skip_fill.simps [simp del]

definition bare_marker :: "u8 \<Rightarrow> bool" where
  "bare_marker m \<longleftrightarrow> m = 0x01 \<or> (0xD0 \<le> m \<and> m \<le> 0xD7)"

definition bad_marker :: "u8 \<Rightarrow> bool" where
  "bad_marker m \<longleftrightarrow> m = 0x00 \<or> m = 0xD8 \<or> m = 0xD9 \<or> m = 0xDA"

definition unsupported_frame :: "u8 \<Rightarrow> bool" where
  "unsupported_frame m \<longleftrightarrow> m = 0xC3 \<or> (0xC5 \<le> m \<and> m \<le> 0xC7) \<or> (0xC9 \<le> m \<and> m \<le> 0xCB) \<or> (0xCD \<le> m \<and> m \<le> 0xCF)"

definition sampling_ok :: "bytes \<Rightarrow> bool" where
  "sampling_ok spec \<longleftrightarrow> (let h = drop_bit 4 (spec ! 1); v = spec ! 1 AND 0x0F in 1 \<le> h \<and> h \<le> 4 \<and> 1 \<le> v \<and> v \<le> 4)"

definition frame_header ::
  "reader \<Rightarrow> nat \<Rightarrow> u8 \<Rightarrow> nat \<Rightarrow> nat \<Rightarrow> nat option \<Rightarrow> ThumbnailError + JpegHeader" where
  "frame_header rd e marker payload next_segment orientation =
     and_then (thumb_read_at rd payload 6 e) (\<lambda>frame.
     let height = be_nat [frame ! 1, frame ! 2]; width = be_nat [frame ! 3, frame ! 4]; components = frame ! 5 in
     if frame ! 0 \<noteq> 8 \<or> width = 0 \<or> height = 0 \<or> components \<notin> {1, 3, 4} then Err ThumbUnsupported
     else
       and_then (thumb_read_at rd (payload + 6) (unat components * 3) next_segment) (\<lambda>specs.
         if \<not> list_all sampling_ok (chunks_exact 3 specs) then Err ThumbCorrupt
         else Ok \<lparr> jh_width = width, jh_height = height, jh_components = unat components,
                   jh_progressive = (marker = 0xC2), jh_orientation = orientation \<rparr>))"

fun strip_bytes :: "bytes \<Rightarrow> bytes \<Rightarrow> bytes option" where
  "strip_bytes p bs = (if starts_with p bs then Some (drop (length p) bs) else None)"

definition exif_orientation ::
  "reader \<Rightarrow> u8 \<Rightarrow> nat \<Rightarrow> nat \<Rightarrow> nat \<Rightarrow> nat option \<Rightarrow> ThumbnailError + nat option" where
  "exif_orientation rd marker len payload next_segment orientation =
     (if marker = 0xE1 \<and> orientation = None \<and> 2 + 6 + 8 \<le> len then
        and_then (thumb_read_at rd payload (len - 2) next_segment) (\<lambda>exif.
          Ok (case strip_bytes (byte_lit ''Exif'' @ [0, 0]) exif of
                Some tiff_bytes \<Rightarrow> tiff_orientation tiff_bytes
              | None \<Rightarrow> orientation))
      else Ok orientation)"

fun jpeg_segments ::
  "nat \<Rightarrow> reader \<Rightarrow> nat \<Rightarrow> nat \<Rightarrow> nat option \<Rightarrow> ThumbnailError + JpegHeader" where
  "jpeg_segments 0 rd e position orientation = Err ThumbCorrupt"
| "jpeg_segments (Suc n) rd e position orientation =
     and_then (thumb_read_at rd position 2 e) (\<lambda>p.
     if p ! 0 \<noteq> 0xFF then Err ThumbCorrupt
     else
       and_then (skip_fill rd e 0 (p ! 1) position) (\<lambda>(marker, position).
       if bare_marker marker then jpeg_segments n rd e (position + 2) orientation
       else if bad_marker marker then Err ThumbCorrupt
       else
         and_then (thumb_read_at rd (position + 2) 2 e) (\<lambda>len.
         let len = be_nat len; payload = position + 4; next_segment = position + 2 + len in
         if len < 2 \<or> e < next_segment then Err ThumbCorrupt
         else if 0xC0 \<le> marker \<and> marker \<le> 0xC2 then frame_header rd e marker payload next_segment orientation
         else if unsupported_frame marker then Err ThumbUnsupported
         else
           and_then (exif_orientation rd marker len payload next_segment orientation) (\<lambda>orientation.
             jpeg_segments n rd e next_segment orientation))))"

definition jpeg_header :: "reader \<Rightarrow> nat \<Rightarrow> nat \<Rightarrow> ThumbnailError + JpegHeader" where
  "jpeg_header rd start len =
     and_then (ok_or ThumbCorrupt (checked_add64 start len)) (\<lambda>e.
     and_then (thumb_read_at rd start 2 e) (\<lambda>soi.
       if soi \<noteq> [0xFF, 0xD8] then Err ThumbCorrupt
       else jpeg_segments MAX_JPEG_SEGMENTS rd e (start + 2) None))"

record RawPreview =
  rp_offset :: nat
  rp_length :: nat
  rp_header :: JpegHeader
  rp_orientation :: nat

definition better_preview :: "reader \<Rightarrow> nat \<Rightarrow> Candidate \<Rightarrow> RawPreview option \<Rightarrow> RawPreview option" where
  "better_preview rd orientation candidate best =
     (case jpeg_header rd (ca_offset candidate) (ca_length candidate) of
        Inl _ \<Rightarrow> best
      | Inr header \<Rightarrow>
          let pixels = jh_width header * jh_height header;
              better = (case best of None \<Rightarrow> True
                        | Some current \<Rightarrow> jh_width (rp_header current) * jh_height (rp_header current) < pixels)
          in if better
             then Some \<lparr> rp_offset = ca_offset candidate, rp_length = ca_length candidate, rp_header = header,
                         rp_orientation = orientation \<rparr>
             else best)"

definition raw_preview :: "reader \<Rightarrow> nat \<Rightarrow> ThumbnailError + RawPreview option" where
  "raw_preview rd len =
     (case tiff_scan rd len of
        None \<Rightarrow> Ok None
      | Some s \<Rightarrow>
          Ok (fold (better_preview rd (case ts_orientation s of Some v \<Rightarrow> v | None \<Rightarrow> 1)) (ts_candidates s) None))"

subsection \<open>What the header readers accept\<close>

definition jpeg_ok :: "JpegHeader \<Rightarrow> bool" where
  "jpeg_ok h \<longleftrightarrow> 0 < jh_width h \<and> jh_width h < 2 ^ 16 \<and> 0 < jh_height h \<and> jh_height h < 2 ^ 16
     \<and> jh_components h \<in> {1, 3, 4} \<and> orientation_ok (jh_orientation h)"

lemma tiff_scan_ok: "tiff_scan rd len = Some s \<Longrightarrow> scan_ok len s"
proof -
  assume s: "tiff_scan rd len = Some s"
  obtain vs where vs: "tiff_scan_visited rd len = (Some s, vs)" using s by (metis tiff_scan_def prod.collapse)
  then obtain w first where "tiff_walk w first [(first, 0)] [] \<lparr> ts_orientation = None, ts_candidates = [] \<rparr> False = (Some s, vs)"
    "wk_len w = len"
    by (auto simp: tiff_scan_visited_def Let_def split: sum.splits if_splits)
  from tiff_walk_bounded [OF _ _ _ _ this(1)] this(2) show ?thesis by (auto simp: scan_ok_def orientation_ok_def)
qed

lemma tiff_orientation_ok: "orientation_ok (tiff_orientation exif)"
  by (auto simp: tiff_orientation_def orientation_ok_def bind_eq_Some_conv scan_ok_def dest: tiff_scan_ok)

lemma be_nat_pair: "be_nat [a, b] < 65536"
  using be_nat_bound [of "[a, b]"] by simp

lemma frame_header_ok:
  assumes "frame_header rd e m payload nx orientation = Ok h" "orientation_ok orientation"
  shows "jpeg_ok h"
proof -
  obtain frame where f: "thumb_read_at rd payload 6 e = Ok frame" using assms(1) by (auto simp: frame_header_def)
  let ?h = "be_nat [frame ! 1, frame ! 2]" and ?w = "be_nat [frame ! 3, frame ! 4]"
  have "\<not> (frame ! 0 \<noteq> 8 \<or> ?w = 0 \<or> ?h = 0 \<or> frame ! 5 \<notin> {1, 3, 4})"
    using assms(1) f by (auto simp: frame_header_def Let_def split: if_splits)
  moreover from this have "jh_width h = ?w" "jh_height h = ?h" "jh_components h = unat (frame ! 5)" "jh_orientation h = orientation"
    using assms(1) f by (auto simp: frame_header_def Let_def simp del: insert_iff split: if_splits)
  ultimately show ?thesis using assms(2) by (auto simp: jpeg_ok_def be_nat_pair)
qed

lemma exif_orientation_ok:
  "exif_orientation rd m len payload nx o1 = Ok o2 \<Longrightarrow> orientation_ok o1 \<Longrightarrow> orientation_ok o2"
  by (auto simp: exif_orientation_def tiff_orientation_ok split: if_splits option.splits)

lemma jpeg_segments_ok: "jpeg_segments n rd e position orientation = Ok h \<Longrightarrow> orientation_ok orientation \<Longrightarrow> jpeg_ok h"
proof (induction n rd e position orientation rule: jpeg_segments.induct)
  case (2 n rd e position orientation)
  from "2.prems"(1) obtain p marker pos where p: "thumb_read_at rd position 2 e = Ok p" "p ! 0 = 0xFF"
    "skip_fill rd e 0 (p ! 1) position = Ok (marker, pos)" by (auto split: if_splits)
  note step = "2.prems"(1) [unfolded jpeg_segments.simps(2) p(1), simplified p(2,3) and_then.simps prod.case]
  show ?case
  proof (cases "bare_marker marker")
    case True
    then show ?thesis using step p(2,3) "2.IH"(1) [OF p(1) _ p(3) refl] "2.prems"(2) by simp
  next
    case False
    with step p(2,3) obtain l where l: "\<not> bad_marker marker" "thumb_read_at rd (pos + 2) 2 e = Ok l"
      by (auto split: if_splits)
    let ?len = "be_nat l"
    have ok: "\<not> (?len < 2 \<or> e < pos + 2 + ?len)"
      using step p(2,3) False l by (auto simp: Let_def split: if_splits)
    show ?thesis
    proof (cases "0xC0 \<le> marker \<and> marker \<le> 0xC2")
      case True
      then have "frame_header rd e marker (pos + 4) (pos + 2 + ?len) orientation = Ok h"
        using step p(2,3) False l ok by (simp add: Let_def)
      then show ?thesis using frame_header_ok "2.prems"(2) by blast
    next
      case fr: False
      then obtain o2 where "\<not> unsupported_frame marker"
        "exif_orientation rd marker ?len (pos + 4) (pos + 2 + ?len) orientation = Ok o2"
        "jpeg_segments n rd e (pos + 2 + ?len) o2 = Ok h"
        using step p(2,3) False l ok by (simp add: Let_def split: if_splits) blast
      then show ?thesis
        using "2.IH"(2) [OF p(1) _ p(3) refl False l(1,2) refl refl refl ok fr] p(2) exif_orientation_ok "2.prems"(2) by simp
    qed
  qed
qed simp

lemma jpeg_header_ok: "jpeg_header rd start len = Ok h \<Longrightarrow> jpeg_ok h"
  by (auto simp: jpeg_header_def orientation_ok_def dest: jpeg_segments_ok split: if_splits)

definition pixels :: "JpegHeader \<Rightarrow> nat" where "pixels h = jh_width h * jh_height h"

definition best_so_far :: "reader \<Rightarrow> nat \<Rightarrow> Candidate list \<Rightarrow> RawPreview option \<Rightarrow> bool" where
  "best_so_far rd v cs best \<longleftrightarrow>
     (\<forall>p. best = Some p \<longrightarrow> rp_orientation p = v
        \<and> (\<exists>c \<in> set cs. rp_offset p = ca_offset c \<and> rp_length p = ca_length c
             \<and> jpeg_header rd (ca_offset c) (ca_length c) = Ok (rp_header p)))
     \<and> (\<forall>c \<in> set cs. \<forall>h. jpeg_header rd (ca_offset c) (ca_length c) = Ok h \<longrightarrow>
          (\<exists>p. best = Some p \<and> pixels h \<le> pixels (rp_header p)))"

lemma better_preview_best: "best_so_far rd v cs best \<Longrightarrow> best_so_far rd v (cs @ [c]) (better_preview rd v c best)"
proof (cases "jpeg_header rd (ca_offset c) (ca_length c)")
  case (Inl e)
  assume "best_so_far rd v cs best"
  then show ?thesis using Inl by (auto simp: better_preview_def best_so_far_def)
next
  case (Inr h)
  assume b: "best_so_far rd v cs best"
  show ?thesis
  proof (cases best)
    case None
    then show ?thesis using b Inr by (fastforce simp: better_preview_def best_so_far_def)
  next
    case (Some q)
    then show ?thesis using b Inr
      by (cases "pixels (rp_header q) < pixels h") (fastforce simp: better_preview_def best_so_far_def pixels_def Let_def)+
  qed
qed

lemma previews_best: "best_so_far rd v cs best \<Longrightarrow> best_so_far rd v (cs @ ds) (fold (better_preview rd v) ds best)"
proof (induction ds arbitrary: cs best)
  case (Cons d ds)
  then show ?case using Cons.IH [OF better_preview_best [OF Cons.prems]] by simp
qed simp

text \<open>
  The preview of a RAW file is its largest displayable one. If a TIFF container yields an embedded
  preview then it is one of the candidates the walk found, lies inside the file, is a JPEG frame with one, three or
  four components and non-zero 16-bit dimensions, has at least as many pixels as every other candidate that has a
  valid header, and comes with an orientation between 1 and 8. If it yields none, no candidate has a valid header.
\<close>

theorem raw_preview_largest:
  assumes "tiff_scan rd len = Some s" "raw_preview rd len = Ok best"
  shows "case best of
      Some p \<Rightarrow> rp_offset p + rp_length p \<le> len \<and> jpeg_header rd (rp_offset p) (rp_length p) = Ok (rp_header p)
        \<and> 0 < jh_width (rp_header p) \<and> 0 < jh_height (rp_header p) \<and> jh_components (rp_header p) \<in> {1, 3, 4}
        \<and> 1 \<le> rp_orientation p \<and> rp_orientation p \<le> 8
        \<and> (\<forall>c \<in> set (ts_candidates s). \<forall>h. jpeg_header rd (ca_offset c) (ca_length c) = Ok h \<longrightarrow>
             jh_width h * jh_height h \<le> jh_width (rp_header p) * jh_height (rp_header p))
    | None \<Rightarrow> \<forall>c \<in> set (ts_candidates s). \<forall>h. jpeg_header rd (ca_offset c) (ca_length c) \<noteq> Ok h"
proof -
  define v where "v = (case ts_orientation s of Some v \<Rightarrow> v | None \<Rightarrow> 1)"
  note ok = tiff_scan_ok [OF assms(1)]
  have v: "1 \<le> v" "v \<le> 8" using ok by (auto simp: v_def scan_ok_def orientation_ok_def split: option.splits)
  have "best_so_far rd v ([] @ ts_candidates s) (fold (better_preview rd v) (ts_candidates s) None)"
    by (rule previews_best) (simp add: best_so_far_def)
  moreover have "best = fold (better_preview rd v) (ts_candidates s) None"
    using assms by (simp add: raw_preview_def v_def)
  ultimately have b: "best_so_far rd v (ts_candidates s) best" by simp
  show ?thesis
  proof (cases best)
    case (Some p)
    then obtain c where c: "c \<in> set (ts_candidates s)" "rp_offset p = ca_offset c" "rp_length p = ca_length c"
      "jpeg_header rd (ca_offset c) (ca_length c) = Ok (rp_header p)" "rp_orientation p = v"
      using b by (auto simp: best_so_far_def)
    have "rp_offset p + rp_length p \<le> len" using ok c by (auto simp: scan_ok_def list_all_iff candidate_ok_def)
    then show ?thesis using b Some c v jpeg_header_ok [OF c(4)] by (auto simp: best_so_far_def pixels_def jpeg_ok_def)
  qed (use b in \<open>auto simp: best_so_far_def\<close>)
qed

theorem raw_preview_largest_witness:
  "\<exists>s. tiff_scan (cursor_reader looping_tiff) 26 = Some s \<and> raw_preview (cursor_reader looping_tiff) 26 = Ok None
    \<and> (\<forall>c \<in> set (ts_candidates s). \<forall>h. jpeg_header (cursor_reader looping_tiff) (ca_offset c) (ca_length c) \<noteq> Ok h)"
proof -
  have s: "tiff_scan (cursor_reader looping_tiff) 26 = Some \<lparr> ts_orientation = Some 6, ts_candidates = [] \<rparr>"
    by (simp add: tiff_scan_def looping_tiff_scan)
  then have r: "raw_preview (cursor_reader looping_tiff) 26 = Ok None" by (simp add: raw_preview_def)
  show ?thesis using raw_preview_largest [OF s r] s r by auto
qed

end
