(* ===== verification/FileRoutes.thy ===== *)
theory FileRoutes
  imports ArchiveRoutes Tiff
begin

text \<open>
  Routes of \<open>src/src/browse.rs\<close> that read one entry: \<open>discover_shares\<close>, \<open>read_metadata\<close>, \<open>read_text\<close> and
  \<open>download\<close>, over \<open>open_file\<close> and \<open>read_file\<close> of \<open>src/src/filesystem.rs\<close>. HMAC-SHA-256, SHA-256, the media type
  guess (crate \<open>mime_guess\<close>) and \<open>HeaderValue::from_str\<close> are fields of \<open>file_env\<close>.
\<close>

subsection \<open>Opened files\<close>

text \<open>
  What an opened handle yields. The file may change while it is read, so nothing relates the fields: the metadata
  read from the handle, the bytes of a read from the start and whether an error follows them, whether a later
  seek succeeds, the bytes read from the start after it, and reads at an offset.
\<close>

type_synonym stream = "bytes \<times> io_error option"

record file_io =
  fi_metadata :: "io_error + Metadata"
  fi_header :: stream
  fi_seek :: bool
  fi_again :: stream
  fi_at :: reader

text \<open>\<open>take(limit).read_to_end\<close>: an error after the limit is not met.\<close>

definition read_to_end :: "nat \<Rightarrow> stream \<Rightarrow> io_error + bytes" where
  "read_to_end limit s =
     (case snd s of
        Some e \<Rightarrow> if length (fst s) < limit then Err e else Ok (take limit (fst s))
      | None \<Rightarrow> Ok (take limit (fst s)))"

record OpenedFile =
  of_len :: nat
  of_modified :: "SystemTime option"
  of_file_id :: nat
  of_io :: file_io

record file_env =
  fe_browse :: browse_env
  fe_io :: "str \<Rightarrow> VirtualPath \<Rightarrow> file_io"
  fe_mac :: "bytes \<Rightarrow> bytes \<Rightarrow> bytes"
  fe_sha256 :: "bytes \<Rightarrow> bytes"
  fe_guess :: "str \<Rightarrow> str"
  fe_valid_header :: "str \<Rightarrow> bool"

definition open_handle :: "file_env \<Rightarrow> str \<Rightarrow> VirtualPath \<Rightarrow> FsErrorCode + (Metadata \<times> file_io)" where
  "open_handle env share_id path =
     (let b = fe_browse env; io = fe_io env share_id path in
      and_then (open_regular_file (be_os b) (be_root b share_id) path) (\<lambda>_.
      and_then (map_err map_io (fi_metadata io)) (\<lambda>m. Ok (m, io))))"

definition open_file :: "file_env \<Rightarrow> str \<Rightarrow> VirtualPath \<Rightarrow> FsErrorCode + OpenedFile" where
  "open_file env share_id path =
     and_then (open_handle env share_id path) (\<lambda>(m, io).
       Ok \<lparr> of_len = md_len m, of_modified = md_modified m, of_file_id = metadata_identity m, of_io = io \<rparr>)"

definition read_file :: "file_env \<Rightarrow> str \<Rightarrow> VirtualPath \<Rightarrow> nat \<Rightarrow> FsErrorCode + bytes" where
  "read_file env share_id path max_bytes =
     and_then (open_handle env share_id path) (\<lambda>(m, io).
       if max_bytes < md_len m then Err FsTooLarge
       else
         and_then (map_err map_io (read_to_end (saturating_add 64 max_bytes 1) (fi_header io))) (\<lambda>bs.
           if max_bytes < length bs then Err FsTooLarge else Ok bs))"

subsection \<open>Admission\<close>

definition acquire_download :: "AuthenticatedIdentity \<Rightarrow> BrowseState \<Rightarrow> (AppError + unit) \<times> BrowseState" where
  "acquire_download identity b =
     (let (admitted, g) = try_acquire (id_subject identity) (bs_download_gate b) in
      (if admitted then Ok () else Err Busy, b\<lparr>bs_download_gate := g\<rparr>))"

definition drop_download :: "AuthenticatedIdentity \<Rightarrow> BrowseState \<Rightarrow> BrowseState" where
  "drop_download identity b = b\<lparr>bs_download_gate := drop_lease (id_subject identity) (bs_download_gate b)\<rparr>"

definition acquire_buffered_read :: "AuthenticatedIdentity \<Rightarrow> BrowseState \<Rightarrow> (AppError + unit) \<times> BrowseState" where
  "acquire_buffered_read identity b =
     (let (admitted, g) = try_acquire (id_subject identity) (bs_buffered_read_gate b) in
      (if admitted then Ok () else Err Busy, b\<lparr>bs_buffered_read_gate := g\<rparr>))"

definition drop_buffered_read :: "AuthenticatedIdentity \<Rightarrow> BrowseState \<Rightarrow> BrowseState" where
  "drop_buffered_read identity b =
     b\<lparr>bs_buffered_read_gate := drop_lease (id_subject identity) (bs_buffered_read_gate b)\<rparr>"

definition acquire_blocking :: "AuthenticatedIdentity \<Rightarrow> BrowseState \<Rightarrow> (AppError + unit) \<times> BrowseState" where
  "acquire_blocking identity b =
     (let (admitted, g) = try_acquire (id_subject identity) (bs_blocking_gate b) in
      (if admitted then Ok () else Err Busy, b\<lparr>bs_blocking_gate := g\<rparr>))"

definition drop_blocking :: "AuthenticatedIdentity \<Rightarrow> BrowseState \<Rightarrow> BrowseState" where
  "drop_blocking identity b = b\<lparr>bs_blocking_gate := drop_lease (id_subject identity) (bs_blocking_gate b)\<rparr>"

text \<open>
  The lease of a streamed response moves into its body stream and is dropped with it, later; a response without
  such a body, or an error, drops it before the handler returns.
\<close>

definition keeps_lease :: "'e + StreamResponse \<Rightarrow> bool" where
  "keeps_lease r = (case r of Inr (Streamed rs) \<Rightarrow> rs_status rs \<in> {200, 206} | _ \<Rightarrow> False)"

definition settle_download ::
  "AuthenticatedIdentity \<Rightarrow> 'e + StreamResponse \<Rightarrow> BrowseState \<Rightarrow> ('e + StreamResponse) \<times> BrowseState" where
  "settle_download identity r b = (r, if keeps_lease r then b else drop_download identity b)"

subsection \<open>Validators\<close>

definition file_etag :: "file_env \<Rightarrow> BrowseState \<Rightarrow> str \<Rightarrow> VirtualPath \<Rightarrow> OpenedFile \<Rightarrow> str" where
  "file_etag env b share_id path opened =
     metadata_etag (fe_mac env (bs_cursor_key b)) share_id path (of_len opened) (of_modified opened) (of_file_id opened) File"

definition entry_etag :: "file_env \<Rightarrow> BrowseState \<Rightarrow> str \<Rightarrow> VirtualPath \<Rightarrow> EntryMetadata \<Rightarrow> str" where
  "entry_etag env b share_id path m =
     metadata_etag (fe_mac env (bs_cursor_key b)) share_id path (em_size m) (em_modified m) (em_file_id m) (em_kind m)"

definition mime_for_path :: "file_env \<Rightarrow> VirtualPath \<Rightarrow> str" where
  "mime_for_path env path = fe_guess env (path_display path)"

subsection \<open>Handlers\<close>

text \<open>A JSON response: its headers and the serialised value; axum's \<open>Json\<close> sets the content type.\<close>

record 'a JsonResponse =
  jr_headers :: response_headers
  jr_value :: 'a

definition json :: "'a \<Rightarrow> 'a JsonResponse" where
  "json v = \<lparr> jr_headers = Map.empty(''content-type'' \<mapsto> lit ''application/json''), jr_value = v \<rparr>"

definition inert_json :: "'a \<Rightarrow> 'a JsonResponse" where
  "inert_json v = (json v)\<lparr>jr_headers := add_inert_headers (jr_headers (json v))\<rparr>"

text \<open>The share of a request and its parsed path.\<close>

definition request_target ::
  "file_env \<Rightarrow> BrowseState \<Rightarrow> AuthenticatedIdentity \<Rightarrow> str \<Rightarrow> str \<Rightarrow> AppError + (str \<times> VirtualPath)" where
  "request_target env b identity raw_share_id raw_path =
     and_then (authorized_owned b identity raw_share_id) (\<lambda>(share, _).
     and_then (map_err non_disclosing_fs_error (VirtualPath_parse (be_unicode (fe_browse env)) raw_path)) (\<lambda>path.
       Ok (sf_id share, path)))"

record MetadataResponse =
  mr_share_id :: str
  mr_path :: str
  mr_name :: str
  mr_kind :: string
  mr_size :: "nat option"
  mr_modified_at_ms :: "nat option"
  mr_accessed_at_ms :: "nat option"
  mr_created_at_ms :: "nat option"
  mr_etag :: str

definition metadata_response :: "str \<Rightarrow> VirtualPath \<Rightarrow> str \<Rightarrow> str \<Rightarrow> EntryMetadata \<Rightarrow> MetadataResponse" where
  "metadata_response share_id path name etag m =
     \<lparr> mr_share_id = share_id, mr_path = path_display path, mr_name = name, mr_kind = kind_name (em_kind m),
       mr_size = (if em_kind m = File then Some (em_size m) else None),
       mr_modified_at_ms = system_time_millis (em_modified m), mr_accessed_at_ms = system_time_millis (em_accessed m),
       mr_created_at_ms = system_time_millis (em_created m), mr_etag = etag \<rparr>"

definition read_metadata ::
  "file_env \<Rightarrow> AuthenticatedIdentity \<Rightarrow> str \<Rightarrow> str \<Rightarrow> BrowseState
   \<Rightarrow> (AppError + MetadataResponse JsonResponse) \<times> BrowseState" where
  "read_metadata env identity raw_share_id raw_path b =
     (case request_target env b identity raw_share_id raw_path of
        Inl e \<Rightarrow> (Err e, b)
      | Inr (share_id, path) \<Rightarrow>
          (case acquire_blocking identity b of
             (Inl e, b) \<Rightarrow> (Err e, b)
           | (Inr _, b) \<Rightarrow>
               (and_then (run_blocking (fe_browse env)
                   (share_metadata (be_os (fe_browse env)) (be_root (fe_browse env) share_id) path)) (\<lambda>m.
                and_then (map_err non_disclosing_fs_error m) (\<lambda>m.
                and_then (ok_or InvalidRequest (file_name path)) (\<lambda>name.
                  let etag = entry_etag env b share_id path m;
                      r = inert_json (metadata_response share_id path name etag m)
                  in and_then (header_value (fe_valid_header env) etag) (\<lambda>v.
                       Ok (r\<lparr>jr_headers := (jr_headers r)(''etag'' \<mapsto> v)\<rparr>))))),
                drop_blocking identity b)))"

record TextResponse =
  tr_share_id :: str
  tr_path :: str
  tr_text :: str
  tr_size :: nat
  tr_mime_type :: str
  tr_etag :: str

definition read_text ::
  "file_env \<Rightarrow> AuthenticatedIdentity \<Rightarrow> str \<Rightarrow> str \<Rightarrow> BrowseState
   \<Rightarrow> (AppError + TextResponse JsonResponse) \<times> BrowseState" where
  "read_text env identity raw_share_id raw_path b =
     (case request_target env b identity raw_share_id raw_path of
        Inl e \<Rightarrow> (Err e, b)
      | Inr (share_id, path) \<Rightarrow>
          (case acquire_buffered_read identity b of
             (Inl e, b) \<Rightarrow> (Err e, b)
           | (Inr _, b) \<Rightarrow>
               (and_then (run_blocking (fe_browse env)
                   (read_file env share_id path (bl_max_text_bytes (bs_limits b)))) (\<lambda>bs.
                and_then (map_err non_disclosing_fs_error bs) (\<lambda>bs.
                and_then (ok_or UnsupportedMedia (from_utf8 bs)) (\<lambda>content.
                  let etag = content_etag (fe_sha256 env) (str_bytes content);
                      r = json \<lparr> tr_share_id = share_id, tr_path = path_display path, tr_text = content,
                                 tr_size = length bs, tr_mime_type = mime_for_path env path, tr_etag = etag \<rparr>
                  in and_then (header_value (fe_valid_header env) etag) (\<lambda>v.
                       Ok (r\<lparr>jr_headers := add_inert_headers ((jr_headers r)(''etag'' \<mapsto> v))\<rparr>))))),
                drop_buffered_read identity b)))"

definition download ::
  "file_env \<Rightarrow> AuthenticatedIdentity \<Rightarrow> str \<Rightarrow> str \<Rightarrow> HeaderMap \<Rightarrow> BrowseState
   \<Rightarrow> (AppError + StreamResponse) \<times> BrowseState" where
  "download env identity raw_share_id raw_path headers b =
     (case request_target env b identity raw_share_id raw_path of
        Inl e \<Rightarrow> (Err e, b)
      | Inr (share_id, path) \<Rightarrow>
          (case acquire_download identity b of
             (Inl e, b) \<Rightarrow> (Err e, b)
           | (Inr _, b) \<Rightarrow>
               settle_download identity
                 (and_then (run_blocking (fe_browse env) (open_file env share_id path)) (\<lambda>opened.
                  and_then (map_err non_disclosing_fs_error opened) (\<lambda>opened.
                    if bl_max_download_bytes (bs_limits b) < of_len opened then Err TooLarge
                    else
                      and_then (ok_or InvalidRequest (file_name path)) (\<lambda>filename.
                        stream_file (fe_valid_header env) headers (fi_seek (of_io opened)) (fst (fi_again (of_io opened)))
                          (of_len opened) (file_etag env b share_id path opened)
                          (add_file_headers (fe_valid_header env) (download_mime (mime_for_path env path)) filename))))) b))"

record ShareSummary =
  ss_id :: str
  ss_access :: AccessLevel

text \<open>
  \<open>discover_shares\<close>: \<open>ids\<close> is the order in which the hash map of shares is iterated; the B-tree map sorts
  the visible ones.
\<close>

definition visible_share :: "BrowseState \<Rightarrow> AuthenticatedIdentity \<Rightarrow> str \<Rightarrow> ShareSummary option" where
  "visible_share b identity share_id =
     Option.bind (bs_shares b share_id) (\<lambda>share.
     Option.bind (grant_for identity share_id) (\<lambda>grant.
       case authorize share (Some grant) (bs_policy b) of
         Inr access \<Rightarrow> Some \<lparr> ss_id = share_id, ss_access = access \<rparr>
       | Inl _ \<Rightarrow> None))"

definition discover_shares :: "BrowseState \<Rightarrow> AuthenticatedIdentity \<Rightarrow> str list \<Rightarrow> ShareSummary list JsonResponse" where
  "discover_shares b identity ids =
     inert_json (sort_key (\<lambda>s. utf8 (ss_id s)) (List.map_filter (visible_share b identity) ids))"


subsection \<open>Leases\<close>

lemma try_acquire_cancel:
  "no_zero g \<Longrightarrow> try_acquire u g = (True, g') \<Longrightarrow> drop_lease u g' = g"
  by (cases g; cases "sg_subjects g u")
    (auto simp: try_acquire_def take_permit_def admit_subject_def active_def drop_lease_def release_subject_def
      return_permit_def no_zero_def Let_def fun_upd_idem split: if_splits option.splits)

lemma try_acquire_refused:
  "no_zero g \<Longrightarrow> 0 < sg_per_subject g \<Longrightarrow> try_acquire u g = (False, g') \<Longrightarrow> g' = g"
  by (cases g; cases "sg_subjects g u")
    (auto simp: try_acquire_def take_permit_def admit_subject_def active_def return_permit_def no_zero_def
      Let_def fun_upd_idem split: if_splits option.splits)

text \<open>What the gates of a running server satisfy (theory \<open>Gates\<close>).\<close>

definition gates_ok :: "BrowseState \<Rightarrow> bool" where
  "gates_ok b \<longleftrightarrow>
     (\<forall>g \<in> {bs_download_gate b, bs_buffered_read_gate b, bs_blocking_gate b}. no_zero g \<and> 0 < sg_per_subject g)"

text \<open>
  A handler with a streamed response leaves the state unchanged except for one download lease, which exists
  exactly when the response has a body stream to hold it.
\<close>

definition lease_exact :: "AuthenticatedIdentity \<Rightarrow> 'e + StreamResponse \<Rightarrow> BrowseState \<Rightarrow> BrowseState \<Rightarrow> bool" where
  "lease_exact identity r b b' \<longleftrightarrow>
     (if keeps_lease r then acquire_download identity b = (Ok (), b') else b' = b)"

text \<open>
  The contract of one gate of the state, for its clients: taking a lease and dropping it again changes nothing, and
  neither does being refused.
\<close>

locale leased_gate =
  fixes gate :: "BrowseState \<Rightarrow> SubjectGate" and set_gate :: "SubjectGate \<Rightarrow> BrowseState \<Rightarrow> BrowseState"
    and acquire :: "AuthenticatedIdentity \<Rightarrow> BrowseState \<Rightarrow> (AppError + unit) \<times> BrowseState"
    and release :: "AuthenticatedIdentity \<Rightarrow> BrowseState \<Rightarrow> BrowseState"
  assumes gate_set: "gate (set_gate g b) = g"
    and set_set: "set_gate g (set_gate g' b) = set_gate g b"
    and set_same: "set_gate (gate b) b = b"
    and frame: "bs_limits (set_gate g b) = bs_limits b \<and> bs_cursor_key (set_gate g b) = bs_cursor_key b"
    and acquire: "acquire identity b =
      (let (admitted, g) = try_acquire (id_subject identity) (gate b) in (if admitted then Ok () else Err Busy, set_gate g b))"
    and release: "release identity b = set_gate (drop_lease (id_subject identity) (gate b)) b"
begin

lemma acquire_cases:
  assumes gate: "no_zero (gate b)" "0 < sg_per_subject (gate b)" and run: "acquire identity b = (r, b1)"
  obtains (refused) "r = Err Busy" "b1 = b"
    | (admitted) "r = Ok ()" "release identity b1 = b" "bs_limits b1 = bs_limits b" "bs_cursor_key b1 = bs_cursor_key b"
proof (cases "try_acquire (id_subject identity) (gate b)")
  case (Pair ok g)
  show thesis
  proof (cases ok)
    case True
    with Pair try_acquire_cancel [OF gate(1)] have "drop_lease (id_subject identity) g = gate b" by simp
    with True Pair run show thesis
      by (intro admitted) (auto simp: acquire release gate_set set_set set_same frame)
  next
    case False
    with Pair try_acquire_refused [OF gate] have "g = gate b" by simp
    with False Pair run show thesis by (intro refused) (auto simp: acquire set_same)
  qed
qed

end

interpretation download_lease:
  leased_gate bs_download_gate "\<lambda>g b. b\<lparr>bs_download_gate := g\<rparr>" acquire_download drop_download
  by unfold_locales (simp_all add: acquire_download_def drop_download_def)

interpretation buffered_read_lease:
  leased_gate bs_buffered_read_gate "\<lambda>g b. b\<lparr>bs_buffered_read_gate := g\<rparr>" acquire_buffered_read drop_buffered_read
  by unfold_locales (simp_all add: acquire_buffered_read_def drop_buffered_read_def)

interpretation blocking_lease:
  leased_gate bs_blocking_gate "\<lambda>g b. b\<lparr>bs_blocking_gate := g\<rparr>" acquire_blocking drop_blocking
  by unfold_locales (simp_all add: acquire_blocking_def drop_blocking_def)

interpretation listing_lease:
  leased_gate bs_listing_gate "\<lambda>g b. b\<lparr>bs_listing_gate := g\<rparr>" acquire_listing drop_listing
  by unfold_locales (simp_all add: acquire_listing_def drop_listing_def)

lemma acquire_download_cases:
  assumes "gates_ok b" "acquire_download identity b = (r, b1)"
  obtains (refused) "r = Err Busy" "b1 = b"
    | (admitted) "r = Ok ()" "drop_download identity b1 = b" "bs_limits b1 = bs_limits b" "bs_cursor_key b1 = bs_cursor_key b"
  by (rule download_lease.acquire_cases [OF _ _ assms(2)]) (use assms(1) in \<open>auto simp: gates_ok_def\<close>)

lemma acquire_buffered_read_cases:
  assumes "gates_ok b" "acquire_buffered_read identity b = (r, b1)"
  obtains (refused) "r = Err Busy" "b1 = b"
    | (admitted) "r = Ok ()" "drop_buffered_read identity b1 = b" "bs_limits b1 = bs_limits b" "bs_cursor_key b1 = bs_cursor_key b"
  by (rule buffered_read_lease.acquire_cases [OF _ _ assms(2)]) (use assms(1) in \<open>auto simp: gates_ok_def\<close>)

lemma acquire_blocking_cases:
  assumes "gates_ok b" "acquire_blocking identity b = (r, b1)"
  obtains (refused) "r = Err Busy" "b1 = b"
    | (admitted) "r = Ok ()" "drop_blocking identity b1 = b" "bs_limits b1 = bs_limits b" "bs_cursor_key b1 = bs_cursor_key b"
  by (rule blocking_lease.acquire_cases [OF _ _ assms(2)]) (use assms(1) in \<open>auto simp: gates_ok_def\<close>)

lemma settle_download_exact:
  assumes "gates_ok b" "acquire_download identity b = (Ok (), b1)" "settle_download identity r b1 = (r', b')"
  shows "r' = r \<and> lease_exact identity r b b'"
  using assms by (elim acquire_download_cases) (auto simp: settle_download_def lease_exact_def)

text \<open>The headers of a streamed response: those of the representation, and the validators, length and range.\<close>

lemma stream_file_headers:
  assumes "stream_file valid_header headers seek_ok content total_len etag representation = Ok (Streamed r)"
  obtains h where "representation Map.empty = Ok h" "rs_status r \<in> {200, 206, 304}"
    "rs_headers r ''etag'' = Some etag" "length (rs_body r) \<le> total_len"
    "\<And>k. k \<notin> {''etag'', ''accept-ranges'', ''content-length'', ''content-range''} \<Longrightarrow> rs_headers r k = h k"
proof (cases "if_none_match (header_get headers ''if-none-match'') etag")
  case True
  with assms obtain h where "representation Map.empty = Ok h" "add_validator_headers valid_header etag h = Ok (rs_headers r)"
    "rs_status r = 304" "rs_body r = []"
    by (auto simp: stream_file_def split: sum.splits)
  then show thesis
    by (intro that [of h]) (auto simp: add_validator_headers_def header_value_def split: if_splits dest!: sym [of _ "rs_headers r"])
next
  case False
  show thesis
  proof (cases "requested_range headers etag total_len")
    case Unsatisfiable
    with assms False show thesis by (auto simp: stream_file_def range_not_satisfiable_def)
  next
    case (Satisfiable s e)
    then have "s \<le> e \<and> e < total_len" by (rule requested_range_bounds)
    moreover obtain h x y where "representation Map.empty = Ok h" "rs_status r = 206" "length (rs_body r) \<le> e - s + 1"
      "rs_headers r = h(''etag'' \<mapsto> etag, ''accept-ranges'' \<mapsto> lit ''bytes'', ''content-length'' \<mapsto> x, ''content-range'' \<mapsto> y)"
      using assms False Satisfiable
      by (simp add: stream_file_def add_validator_headers_def header_value_def Let_def split: sum.splits if_splits) force
    ultimately show thesis by (intro that [of h]) auto
  next
    case Ignore
    obtain h x where "representation Map.empty = Ok h" "rs_status r = 200" "length (rs_body r) \<le> total_len"
      "rs_headers r = h(''etag'' \<mapsto> etag, ''accept-ranges'' \<mapsto> lit ''bytes'', ''content-length'' \<mapsto> x)"
      using assms False Ignore
      by (simp add: stream_file_def add_validator_headers_def header_value_def Let_def split: sum.splits if_splits) force
    then show thesis by (intro that [of h]) auto
  qed
qed

lemma add_file_headers_Ok:
  assumes "add_file_headers valid_header mime filename h = Ok h'"
  shows "h' ''content-type'' = Some mime" "h' ''content-disposition'' = Some (disposition_text filename)"
    "h' ''content-security-policy'' = Some (lit ''default-src 'none'; sandbox'')"
    "h' ''x-content-type-options'' = Some (lit ''nosniff'')"
  using assms by (auto simp: add_file_headers_def content_disposition_def header_value_def add_inert_headers_def split: if_splits)

text \<open>
  C35: A download is inert and leaves no slot behind. Whatever the file, its name and the request, a response with
  content comes only for a share the identity was granted, is a 200, 206 or 304 sent as an attachment under a deny-all
  sandbox policy with sniffing disabled, with a media type no browser runs, and is never longer than the download
  limit. The state changes by exactly one download lease, which the body holds, and by nothing when the request
  fails, is refused or has no body.
\<close>

theorem download_contained:
  assumes "download env identity raw_share_id raw_path headers b = (r, b')" "gates_ok b"
  shows "lease_exact identity r b b'
    \<and> (\<forall>rs. r = Ok (Streamed rs) \<longrightarrow>
         (\<exists>share path name mime. authorized_owned b identity raw_share_id = Ok share \<and> path \<noteq> []
            \<and> file_name path = Some name
            \<and> rs_status rs \<in> {200, 206, 304} \<and> length (rs_body rs) \<le> bl_max_download_bytes (bs_limits b)
            \<and> rs_headers rs ''content-disposition'' = Some (disposition_text name)
            \<and> rs_headers rs ''content-security-policy'' = Some (lit ''default-src 'none'; sandbox'')
            \<and> rs_headers rs ''x-content-type-options'' = Some (lit ''nosniff'')
            \<and> rs_headers rs ''content-type'' = Some mime \<and> \<not> executable_essence (essence mime)))"
proof (cases "request_target env b identity raw_share_id raw_path")
  case (Inr t)
  obtain share_id path where t: "t = (share_id, path)" by (cases t)
  obtain share where share: "authorized_owned b identity raw_share_id = Ok share"
    using Inr by (cases "authorized_owned b identity raw_share_id") (auto simp: request_target_def)
  obtain q b1 where q: "acquire_download identity b = (q, b1)" by fastforce
  from assms(2) q show ?thesis
  proof (cases rule: acquire_download_cases)
    case refused
    with assms(1) Inr t q show ?thesis by (auto simp: download_def lease_exact_def keeps_lease_def)
  next
    case admitted
    with assms(1) Inr t q have s: "settle_download identity r b1 = (r, b')"
      "r = and_then (run_blocking (fe_browse env) (open_file env share_id path)) (\<lambda>opened.
           and_then (map_err non_disclosing_fs_error opened) (\<lambda>opened.
             if bl_max_download_bytes (bs_limits b) < of_len opened then Err TooLarge
             else
               and_then (ok_or InvalidRequest (file_name path)) (\<lambda>filename.
                 stream_file (fe_valid_header env) headers (fi_seek (of_io opened)) (fst (fi_again (of_io opened)))
                   (of_len opened) (file_etag env b1 share_id path opened)
                   (add_file_headers (fe_valid_header env) (download_mime (mime_for_path env path)) filename))))"
      by (auto simp: download_def settle_download_def)
    have "lease_exact identity r b b'"
      using settle_download_exact [OF assms(2) _ s(1)] q admitted(1) by simp
    moreover have "\<exists>name mime. path \<noteq> [] \<and> file_name path = Some name
        \<and> rs_status rs \<in> {200, 206, 304} \<and> length (rs_body rs) \<le> bl_max_download_bytes (bs_limits b)
        \<and> rs_headers rs ''content-disposition'' = Some (disposition_text name)
        \<and> rs_headers rs ''content-security-policy'' = Some (lit ''default-src 'none'; sandbox'')
        \<and> rs_headers rs ''x-content-type-options'' = Some (lit ''nosniff'')
        \<and> rs_headers rs ''content-type'' = Some mime \<and> \<not> executable_essence (essence mime)" if "r = Ok (Streamed rs)" for rs
    proof -
      from that s(2) obtain opened name where o: "of_len opened \<le> bl_max_download_bytes (bs_limits b)"
        "file_name path = Some name"
        "stream_file (fe_valid_header env) headers (fi_seek (of_io opened)) (fst (fi_again (of_io opened)))
           (of_len opened) (file_etag env b1 share_id path opened)
           (add_file_headers (fe_valid_header env) (download_mime (mime_for_path env path)) name) = Ok (Streamed rs)"
        by (auto simp: not_less split: sum.splits if_splits option.splits)
      from o(3) obtain h where h: "add_file_headers (fe_valid_header env) (download_mime (mime_for_path env path)) name Map.empty = Ok h"
        "rs_status rs \<in> {200, 206, 304}" "length (rs_body rs) \<le> of_len opened"
        "\<And>k. k \<notin> {''etag'', ''accept-ranges'', ''content-length'', ''content-range''} \<Longrightarrow> rs_headers rs k = h k"
        using stream_file_headers [OF o(3)] by metis
      have "path \<noteq> []" using o(2) by (auto simp: file_name_def)
      moreover have "rs_headers rs ''content-disposition'' = h ''content-disposition''"
        "rs_headers rs ''content-security-policy'' = h ''content-security-policy''"
        "rs_headers rs ''x-content-type-options'' = h ''x-content-type-options''"
        "rs_headers rs ''content-type'' = h ''content-type''"
        by (rule h(4); simp)+
      ultimately show ?thesis
        using add_file_headers_Ok [OF h(1)] h(2,3) o(1,2) download_never_executable by auto
    qed
    ultimately show ?thesis using share by blast
  qed
qed (use assms in \<open>auto simp: download_def lease_exact_def keeps_lease_def\<close>)


text \<open>A share with one three-byte file.\<close>

definition sample_io :: "bytes \<Rightarrow> file_io" where
  "sample_io bs = \<lparr> fi_metadata = Inr (sample_metadata True (length bs) 1), fi_header = (bs, None), fi_seek = True,
     fi_again = (bs, None), fi_at = cursor_reader bs \<rparr>"

definition sample_file_env :: "bytes \<Rightarrow> file_env" where
  "sample_file_env bs =
     \<lparr> fe_browse = sample_browse_env
         \<lparr>be_os := sample_os\<lparr>os_open_with := (\<lambda>_ _. Inr (Inr (sample_metadata True (length bs) 1)))\<rparr>\<rparr>,
       fe_io = (\<lambda>_ _. sample_io bs), fe_mac = (\<lambda>_ _. []), fe_sha256 = (\<lambda>_. []), fe_guess = (\<lambda>_. lit ''text/plain''),
       fe_valid_header = (\<lambda>_. True) \<rparr>"

lemma sample_target:
  "request_target (sample_file_env bs) sample_browse sample_identity [100] [98] = Ok ([100], [[98]])"
proof -
  have "ShareId_new [100] = Ok [100]" "VirtualPath_parse ascii_unicode [98] = Ok [[98]]" by code_simp+
  then show ?thesis
    by (simp add: request_target_def sample_file_env_def sample_browse_env_def sample_browse_def sample_identity_def
        authorized_owned_def authorize_owned_def authorize_def grant_for_def with_gates_def)
qed

lemma sample_open:
  "open_file (sample_file_env bs) [100] [n] =
     Ok \<lparr> of_len = length bs, of_modified = Some 0, of_file_id = 7, of_io = sample_io bs \<rparr>"
proof -
  have "split_file [n] = Ok ([], n)" by (simp add: split_file_def)
  then show ?thesis
    by (simp add: open_file_def open_handle_def sample_file_env_def sample_browse_env_def sample_io_def Let_def
        open_regular_file_def open_directory_def sample_metadata_def validate_regular_handle_def classify_metadata_def
        assert_no_external_alias_def metadata_identity_def)
qed

lemma sample_gates: "gates_ok sample_browse"
  by (simp add: gates_ok_def sample_browse_def with_gates_def SubjectGate_new_def no_zero_def
      MAX_CONCURRENT_DOWNLOADS_PER_SUBJECT_def MAX_CONCURRENT_BUFFERED_READS_PER_SUBJECT_def
      MAX_CONCURRENT_BLOCKING_REQUESTS_PER_SUBJECT_def)

lemma sample_worker [simp]: "run_blocking (fe_browse (sample_file_env bs)) w = Ok w"
  by (simp add: run_blocking_def sample_file_env_def sample_browse_env_def)

lemma sample_valid_header [simp]: "fe_valid_header (sample_file_env bs) v"
  by (simp add: sample_file_env_def)

lemma sample_admitted: "fst (acquire_download sample_identity sample_browse) = Ok ()"
  by (simp add: acquire_download_def split_def try_acquire_admitted sample_browse_def with_gates_def SubjectGate_new_def
      MAX_CONCURRENT_DOWNLOADS_def MAX_CONCURRENT_DOWNLOADS_PER_SUBJECT_def active_def)

lemma sample_limits_default: "bs_limits sample_browse = BrowseLimits_default"
  by (simp add: sample_browse_def with_gates_def)

theorem download_contained_witness:
  "\<exists>rs b'. download (sample_file_env [104, 105, 33]) sample_identity [100] [98] [] sample_browse = (Ok (Streamed rs), b')
    \<and> rs_body rs = [104, 105, 33] \<and> acquire_download sample_identity sample_browse = (Ok (), b')
    \<and> rs_headers rs ''x-content-type-options'' = Some (lit ''nosniff'')"
proof -
  let ?env = "sample_file_env [104, 105, 33]"
  obtain b1 where b1: "acquire_download sample_identity sample_browse = (Ok (), b1)"
    using sample_admitted by (metis prod.collapse)
  then have limits: "bs_limits b1 = BrowseLimits_default"
    using acquire_download_cases [OF sample_gates] by (metis sample_limits_default sum.distinct(1))
  obtain r b' where d: "download ?env sample_identity [100] [98] [] sample_browse = (r, b')" by fastforce
  have "\<exists>rs. r = Ok (Streamed rs) \<and> rs_body rs = [104, 105, 33] \<and> rs_status rs = 200"
    using d b1 limits
    by (auto simp: download_def sample_target sample_open settle_download_def BrowseLimits_default_def file_name_def
        stream_file_def sample_io_def if_none_match_def requested_range_def header_get_def get_all_def if_range_allows_def
        add_file_headers_def add_validator_headers_def header_value_def content_disposition_def Let_def)
  then obtain rs where rs: "r = Ok (Streamed rs)" "rs_body rs = [104, 105, 33]" "rs_status rs = 200" by blast
  from download_contained [OF d sample_gates] rs
  have "acquire_download sample_identity sample_browse = (Ok (), b')"
    "rs_headers rs ''x-content-type-options'' = Some (lit ''nosniff'')"
    by (auto simp: lease_exact_def keeps_lease_def)
  with d rs show ?thesis by auto
qed


subsection \<open>Text and discovery\<close>

lemma read_to_end_length: "read_to_end limit s = Ok bs \<Longrightarrow> bs = take limit (fst s)"
  by (auto simp: read_to_end_def split: option.splits if_splits)

lemma read_file_Ok:
  assumes "read_file env share_id path max_bytes = Ok bs"
  shows "length bs \<le> max_bytes" "\<exists>rest. fst (fi_header (fe_io env share_id path)) = bs @ rest"
proof -
  from assms obtain m where r: "length bs \<le> max_bytes"
    "read_to_end (saturating_add 64 max_bytes 1) (fi_header (fe_io env share_id path)) = Ok bs"
    by (auto simp: read_file_def open_handle_def Let_def not_less split: if_splits)
  then show "length bs \<le> max_bytes" "\<exists>rest. fst (fi_header (fe_io env share_id path)) = bs @ rest"
    by (auto dest!: read_to_end_length intro: append_take_drop_id [symmetric])
qed

lemma read_text_exact:
  assumes "read_text env identity raw_share_id raw_path b = (r, b')" "gates_ok b"
  shows "b' = b \<and> (\<forall>t. r = Ok t \<longrightarrow>
     (\<exists>share path bs rest. authorized_owned b identity raw_share_id = Ok share
        \<and> fst (fi_header (fe_io env (sf_id (fst share)) path)) = bs @ rest
        \<and> from_utf8 bs = Some (tr_text (jr_value t)) \<and> tr_size (jr_value t) = length bs
        \<and> length bs \<le> bl_max_text_bytes (bs_limits b)))"
proof (cases "request_target env b identity raw_share_id raw_path")
  case (Inr t)
  obtain share_id path where t: "t = (share_id, path)" by (cases t)
  obtain share where share: "authorized_owned b identity raw_share_id = Ok share" "share_id = sf_id (fst share)"
    using Inr t by (cases "authorized_owned b identity raw_share_id") (auto simp: request_target_def)
  obtain q b1 where q: "acquire_buffered_read identity b = (q, b1)" by fastforce
  from assms(2) q show ?thesis
  proof (cases rule: acquire_buffered_read_cases)
    case refused
    with assms(1) Inr t q show ?thesis by (auto simp: read_text_def)
  next
    case admitted
    with assms(1) Inr t q have "b' = b" by (simp add: read_text_def)
    moreover have "\<exists>bs rest. fst (fi_header (fe_io env share_id path)) = bs @ rest
        \<and> from_utf8 bs = Some (tr_text (jr_value v)) \<and> tr_size (jr_value v) = length bs
        \<and> length bs \<le> bl_max_text_bytes (bs_limits b)" if "r = Ok v" for v
    proof -
      from assms(1) Inr t q admitted that obtain bs content where o:
        "read_file env share_id path (bl_max_text_bytes (bs_limits b)) = Ok bs"
        and u: "from_utf8 bs = Some content" "tr_text (jr_value v) = content" "tr_size (jr_value v) = length bs"
        by (auto simp: read_text_def run_blocking_def header_value_def json_def Let_def split: if_splits)
      then show ?thesis using read_file_Ok [OF o] by auto
    qed
    ultimately show ?thesis using share by blast
  qed
qed (use assms in \<open>auto simp: read_text_def\<close>)

lemma discover_shares_granted:
  assumes "set ids = dom (bs_shares b)"
  shows "set (map ss_id (jr_value (discover_shares b identity ids)))
    = {i. \<exists>share grant. bs_shares b i = Some share \<and> grant_for identity i = Some grant \<and> sf_id share = i}"
proof -
  have g: "sg_share_id grant = i" if "grant_for identity i = Some grant" for i grant
    using that by (auto simp: grant_for_def find_Some_iff)
  have v: "visible_share b identity i = Some s \<Longrightarrow> ss_id s = i" for i s
    by (cases "bs_shares b i"; cases "grant_for identity i") (auto simp: visible_share_def split: sum.splits)
  have n: "(visible_share b identity i \<noteq> None) \<longleftrightarrow>
      (\<exists>share grant. bs_shares b i = Some share \<and> grant_for identity i = Some grant \<and> sf_id share = i)" for i
    using g [of i] by (cases "bs_shares b i"; cases "grant_for identity i")
      (auto simp: visible_share_def authorize_def split: if_splits)
  have m: "set (map ss_id (List.map_filter f ids)) = {i \<in> set ids. f i \<noteq> None}"
    if "\<And>i s. f i = Some s \<Longrightarrow> ss_id s = i" for f :: "str \<Rightarrow> ShareSummary option"
    using that by (induction ids) (auto simp: map_filter_simps split: option.splits)
  show ?thesis
    using n assms m [of "visible_share b identity", OF v]
    by (auto simp: discover_shares_def inert_json_def json_def dom_def)
qed

end
