(* ===== verification/Codecs.thy ===== *)
theory Codecs
  imports Media Download
begin

text \<open>
  The codec strings of \<open>preview.rs\<close>: the EBML walk of Matroska and WebM files and the box walk of
  MP4 files over the signature header, and the RFC 6381 names built from the codec configuration
  records. Every walk is a total function over arbitrary bytes. The theory shows that a reported
  parameter is a list of at most eight distinct short names without quotes, and that the codecs of a
  well-formed WebM header are read exactly.
\<close>

unbundle bit_operations_syntax

subsection \<open>Formatting\<close>

text \<open>\<open>{n:X}\<close>, and the padding of \<open>{n:02}\<close> and \<open>{n:02X}\<close>.\<close>

fun to_upper_hex :: "nat \<Rightarrow> str" where
  "to_upper_hex n = (if n < 16 then [upper_hex n] else to_upper_hex (n div 16) @ [upper_hex (n mod 16)])"

declare to_upper_hex.simps [simp del]

definition pad2 :: "str \<Rightarrow> str" where
  "pad2 s = replicate (2 - length s) 48 @ s"

subsection \<open>Collecting codecs\<close>

definition MAX_MEDIA_CODECS :: nat where "MAX_MEDIA_CODECS = 8"

record CodecList =
  cl_codecs :: "str list"
  cl_unknown :: bool

definition CodecList_default :: CodecList where
  "CodecList_default = \<lparr> cl_codecs = [], cl_unknown = False \<rparr>"

definition CodecList_push :: "str option \<Rightarrow> CodecList \<Rightarrow> CodecList" where
  "CodecList_push name l =
     (case name of
        None \<Rightarrow> l\<lparr>cl_unknown := True\<rparr>
      | Some c \<Rightarrow>
          if length (cl_codecs l) < MAX_MEDIA_CODECS \<and> c \<notin> set (cl_codecs l)
          then l\<lparr>cl_codecs := cl_codecs l @ [c]\<rparr> else l)"

fun join_comma :: "str list \<Rightarrow> str" where
  "join_comma [] = []"
| "join_comma [c] = c"
| "join_comma (c # cs) = c @ lit '', '' @ join_comma cs"

definition CodecList_finish :: "CodecList \<Rightarrow> str option" where
  "CodecList_finish l = (if \<not> cl_unknown l \<and> cl_codecs l \<noteq> [] then Some (join_comma (cl_codecs l)) else None)"

subsection \<open>AV1\<close>

definition av1_codec :: "bytes \<Rightarrow> str option" where
  "av1_codec config =
     (case config of
        magic # profile_level # flags # _ \<Rightarrow>
          if magic \<noteq> 0x81 then None
          else
            let profile = unat (drop_bit 5 profile_level);
                level = unat (profile_level AND 0x1F);
                tier = (if flags AND 0x80 = 0 then lit ''M'' else lit ''H'');
                bits = (if flags AND 0x40 = 0 then 8 else if flags AND 0x20 = 0 then 10 else 12)
            in Some (lit ''av01.'' @ to_string profile @ lit ''.'' @ pad2 (to_string level) @ tier @ lit ''.''
                     @ pad2 (to_string bits))
      | _ \<Rightarrow> None)"

subsection \<open>Matroska\<close>

definition EBML_HEADER_ID :: u32 where "EBML_HEADER_ID = 0x1A45DFA3"
definition MATROSKA_SEGMENT_ID :: u32 where "MATROSKA_SEGMENT_ID = 0x18538067"
definition MATROSKA_TRACKS_ID :: u32 where "MATROSKA_TRACKS_ID = 0x1654AE6B"
definition MATROSKA_CLUSTER_ID :: u32 where "MATROSKA_CLUSTER_ID = 0x1F43B675"
definition MATROSKA_TRACK_ENTRY_ID :: u32 where "MATROSKA_TRACK_ENTRY_ID = 0xAE"
definition MATROSKA_CODEC_ID_ID :: u32 where "MATROSKA_CODEC_ID_ID = 0x86"
definition MATROSKA_CODEC_PRIVATE_ID :: u32 where "MATROSKA_CODEC_PRIVATE_ID = 0x63A2"

definition leading_zeros :: "u8 \<Rightarrow> nat" where
  "leading_zeros b = length (takeWhile (\<lambda>i. \<not> bit b i) [7, 6, 5, 4, 3, 2, 1, 0])"

definition byte_at :: "bytes \<Rightarrow> nat \<Rightarrow> u8 option" where
  "byte_at bytes i = (if i < length bytes then Some (bytes ! i) else None)"

text \<open>
  The element at an offset: its identifier, its size (\<open>None\<close> the reserved unknown value), and where its data
  starts.
\<close>

definition ebml_element :: "bytes \<Rightarrow> nat \<Rightarrow> (u32 \<times> nat option \<times> nat) option" where
  "ebml_element bytes offset =
     Option.bind (byte_at bytes offset) (\<lambda>first.
     let id_len = leading_zeros first + 1 in
     if 4 < id_len then None
     else
       Option.bind (checked_add64 offset id_len) (\<lambda>size_offset.
       Option.bind (slice bytes offset size_offset) (\<lambda>id_bytes.
       let ident = foldl (\<lambda>ident b. push_bit 8 ident OR ucast b) (0 :: u32) id_bytes in
       Option.bind (byte_at bytes size_offset) (\<lambda>first.
       let size_len = leading_zeros first + 1 in
       if 8 < size_len then None
       else
         Option.bind (checked_add64 size_offset size_len) (\<lambda>data.
         let marker_mask = drop_bit size_len (0xFF :: u16) in
         Option.bind (slice bytes (size_offset + 1) data) (\<lambda>size_bytes.
         let sz = foldl (\<lambda>sz b. push_bit 8 sz OR ucast b) (ucast (first AND ucast marker_mask) :: u64) size_bytes;
             unknown = push_bit (7 * size_len) 1 - 1
         in Some (ident, if sz = unknown then None else Some (unat sz), data)))))))"

lemma ebml_element_progress:
  "ebml_element bytes offset = Some (ident, sz, data) \<Longrightarrow> offset < length bytes \<and> offset < data \<and> data \<le> length bytes"
  by (auto simp: ebml_element_def byte_at_def slice_def Let_def bind_eq_Some_conv split: if_splits)

record MatroskaTrack =
  mt_codec_id :: "bytes option"
  mt_private :: "bytes option"

function track_fields :: "bytes \<Rightarrow> nat \<Rightarrow> MatroskaTrack \<Rightarrow> MatroskaTrack option" where
  "track_fields entry offset t =
     (if \<not> offset < length entry then Some t
      else (case ebml_element entry offset of
          None \<Rightarrow> None
        | Some (ident, sz, data) \<Rightarrow>
            (case Option.bind sz (checked_add64 data) of
               None \<Rightarrow> None
             | Some offset \<Rightarrow>
                 (case slice entry data offset of
                    None \<Rightarrow> None
                  | Some v \<Rightarrow>
                      track_fields entry offset
                        (if ident = MATROSKA_CODEC_ID_ID then t\<lparr>mt_codec_id := Some (take (rposition_len (\<lambda>b. b \<noteq> 0) v) v)\<rparr>
                         else if ident = MATROSKA_CODEC_PRIVATE_ID then t\<lparr>mt_private := Some v\<rparr>
                         else t)))))"
  by pat_completeness auto
termination
  by (relation "measure (\<lambda>(entry, offset, t). length entry - offset)")
    (auto simp: bind_eq_Some_conv dest!: ebml_element_progress)

declare track_fields.simps [simp del]

definition matroska_track_fields :: "bytes \<Rightarrow> MatroskaTrack option" where
  "matroska_track_fields entry = track_fields entry 0 \<lparr> mt_codec_id = None, mt_private = None \<rparr>"

definition matroska_codec :: "bytes \<Rightarrow> bytes option \<Rightarrow> str option" where
  "matroska_codec codec_id priv =
     (if codec_id = byte_lit ''V_VP8'' then Some (lit ''vp8'')
      else if codec_id = byte_lit ''V_VP9'' then Some (lit ''vp9'')
      else if codec_id = byte_lit ''V_AV1'' then Option.bind priv av1_codec
      else if codec_id = byte_lit ''A_OPUS'' then Some (lit ''opus'')
      else if codec_id = byte_lit ''A_VORBIS'' then Some (lit ''vorbis'')
      else None)"

definition push_track :: "bytes \<Rightarrow> CodecList \<Rightarrow> CodecList" where
  "push_track entry codecs =
     (case matroska_track_fields entry of
        None \<Rightarrow> CodecList_push None codecs
      | Some t \<Rightarrow>
          (case mt_codec_id t of
             Some codec_id \<Rightarrow>
               if starts_with (byte_lit ''V_'') codec_id \<or> starts_with (byte_lit ''A_'') codec_id
               then CodecList_push (matroska_codec codec_id (mt_private t)) codecs else codecs
           | None \<Rightarrow> codecs))"

function track_entries :: "bytes \<Rightarrow> nat \<Rightarrow> CodecList \<Rightarrow> CodecList option" where
  "track_entries tracks offset codecs =
     (case ebml_element tracks offset of
        None \<Rightarrow> Some codecs
      | Some (ident, sz, data) \<Rightarrow>
          (case Option.bind sz (checked_add64 data) of
             None \<Rightarrow> None
           | Some entry_stop \<Rightarrow>
               (case slice tracks data entry_stop of
                  None \<Rightarrow> Some codecs
                | Some entry \<Rightarrow>
                    track_entries tracks entry_stop
                      (if ident = MATROSKA_TRACK_ENTRY_ID then push_track entry codecs else codecs))))"
  by pat_completeness auto
termination
  by (relation "measure (\<lambda>(tracks, offset, codecs). length tracks - offset)")
    (auto simp: bind_eq_Some_conv dest!: ebml_element_progress)

declare track_entries.simps [simp del]

definition matroska_track_codecs :: "bytes \<Rightarrow> str option" where
  "matroska_track_codecs tracks = Option.bind (track_entries tracks 0 CodecList_default) CodecList_finish"

function segment_codecs :: "bytes \<Rightarrow> nat \<Rightarrow> str option" where
  "segment_codecs segment offset =
     (case ebml_element segment offset of
        None \<Rightarrow> None
      | Some (ident, sz, data) \<Rightarrow>
          if ident = MATROSKA_TRACKS_ID then
            Option.bind (Option.bind sz (checked_add64 data)) (\<lambda>e.
            Option.bind (slice segment data (min e (length segment))) matroska_track_codecs)
          else if ident = MATROSKA_CLUSTER_ID then None
          else (case Option.bind sz (checked_add64 data) of
                  None \<Rightarrow> None
                | Some offset \<Rightarrow> segment_codecs segment offset))"
  by pat_completeness auto
termination
  by (relation "measure (\<lambda>(segment, offset). length segment - offset)")
    (auto simp: bind_eq_Some_conv dest!: ebml_element_progress)

declare segment_codecs.simps [simp del]

definition matroska_codecs :: "bytes \<Rightarrow> str option" where
  "matroska_codecs header =
     Option.bind (ebml_element header 0) (\<lambda>(ident, sz, data).
     if ident \<noteq> EBML_HEADER_ID then None
     else
       Option.bind (Option.bind sz (checked_add64 data)) (\<lambda>next_offset.
       Option.bind (ebml_element header next_offset) (\<lambda>(ident, sz, offset).
       if ident \<noteq> MATROSKA_SEGMENT_ID then None
       else
         let e = (case Option.bind sz (checked_add64 offset) of
                    Some e \<Rightarrow> min e (length header) | None \<Rightarrow> length header)
         in segment_codecs (take e header) offset)))"

subsection \<open>ISO base media boxes\<close>

text \<open>
  One step of the box iterator: the box at the offset (its type, its content clamped to the region,
  whether it is complete) or the end of the iteration, and the next offset.
\<close>

type_synonym iso_box = "bytes \<times> bytes \<times> bool"

definition USIZE_MAX :: nat where "USIZE_MAX = 2 ^ 64 - 1"

definition iso_extent :: "bytes \<Rightarrow> nat \<Rightarrow> nat \<Rightarrow> (nat \<times> nat) option" where
  "iso_extent bytes start sz =
     (if sz = 0 then Some (start + 8, USIZE_MAX)
      else if sz = 1 then
        Option.bind (slice bytes (start + 8) (start + 16)) (\<lambda>large.
        let sz = be_nat large in
        if sz < 16 then None else Some (start + 16, saturating_add 64 start sz))
      else if sz < 8 then None
      else Some (start + 8, saturating_add 64 start sz))"

definition iso_next :: "bytes \<Rightarrow> nat \<Rightarrow> (iso_box \<times> nat) option" where
  "iso_next bytes start =
     Option.bind (checked_add64 start 8) (\<lambda>head_end.
     Option.bind (slice bytes start head_end) (\<lambda>head.
     let kind = sub head 4 8 in
     Option.bind (iso_extent bytes start (be_nat (sub head 0 4))) (\<lambda>(content, e).
     Option.bind (slice bytes content (min e (length bytes))) (\<lambda>content.
       Some ((kind, content, e \<le> length bytes), e)))))"

lemma iso_next_progress: "iso_next bytes start = Some (b, e) \<Longrightarrow> start < e \<and> start < length bytes"
  by (auto simp: iso_next_def iso_extent_def USIZE_MAX_def slice_def saturating_add_def Let_def bind_eq_Some_conv
      split: if_splits)

function iso_boxes :: "bytes \<Rightarrow> nat \<Rightarrow> iso_box list" where
  "iso_boxes bytes offset =
     (case iso_next bytes offset of None \<Rightarrow> [] | Some (b, offset) \<Rightarrow> b # iso_boxes bytes offset)"
  by pat_completeness auto
termination
  by (relation "measure (\<lambda>(bytes, offset). length bytes - offset)") (auto dest!: iso_next_progress)

declare iso_boxes.simps [simp del]

definition iso_child :: "bytes \<Rightarrow> bytes \<Rightarrow> bytes option" where
  "iso_child region kind =
     map_option (\<lambda>(_, content, _). content) (List.find (\<lambda>(child, _, _). child = kind) (iso_boxes region 0))"

definition iso_complete_child :: "bytes \<Rightarrow> bytes \<Rightarrow> bytes option" where
  "iso_complete_child region kind =
     Option.bind (List.find (\<lambda>(child, _, _). child = kind) (iso_boxes region 0))
       (\<lambda>(_, content, complete). if complete then Some content else None)"

definition VISUAL_SAMPLE_ENTRY_BYTES :: nat where "VISUAL_SAMPLE_ENTRY_BYTES = 78"

definition sample_entry_child :: "bytes \<Rightarrow> nat \<Rightarrow> bytes \<Rightarrow> bytes option" where
  "sample_entry_child entry fixed kind =
     Option.bind (slice entry fixed (length entry)) (\<lambda>rest. iso_complete_child rest kind)"

definition audio_sample_entry_bytes :: "bytes \<Rightarrow> nat option" where
  "audio_sample_entry_bytes entry =
     Option.bind (slice entry 8 10) (\<lambda>v.
       if be_nat v = 0 then Some 28
       else if be_nat v = 1 then Some 44
       else if be_nat v = 2 then Some 64
       else None)"

definition reverse_bits :: "u32 \<Rightarrow> u32" where
  "reverse_bits w = foldl (\<lambda>acc i. push_bit 1 acc OR of_bool (bit w i)) 0 [0..<32]"

definition hevc_codec :: "str \<Rightarrow> bytes \<Rightarrow> str option" where
  "hevc_codec fourcc config =
     Option.bind (slice config 0 13) (\<lambda>config.
     let space = map lit [[], ''A'', ''B'', ''C''] ! unat (drop_bit 6 (config ! 1));
         tier = (if config ! 1 AND 0x20 = 0 then lit ''L'' else lit ''H'');
         profile = unat (config ! 1 AND 0x1F);
         compatibility = unat (reverse_bits (of_nat (be_nat (sub config 2 6))));
         level = unat (config ! 12);
         constraints = sub config 6 12
     in Some (fourcc @ lit ''.'' @ space @ to_string profile @ lit ''.'' @ to_upper_hex compatibility @ lit ''.''
              @ tier @ to_string level
              @ concat (map (\<lambda>b. lit ''.'' @ to_upper_hex (unat b))
                  (take (rposition_len (\<lambda>b. b \<noteq> 0) constraints) constraints))))"

text \<open>The size of a descriptor takes one to four bytes; \<open>offset\<close> is where the next of them is.\<close>

function descriptor_len :: "bytes \<Rightarrow> nat \<Rightarrow> nat \<Rightarrow> (nat \<times> nat) option" where
  "descriptor_len bytes offset len =
     (case byte_at bytes offset of
        None \<Rightarrow> None
      | Some b \<Rightarrow>
          let offset = offset + 1; len = len * 128 + unat (b AND 0x7F) in
          if b AND 0x80 = 0 then Some (offset, len)
          else if 4 < offset then None
          else descriptor_len bytes offset len)"
  by pat_completeness auto
termination
  by (relation "measure (\<lambda>(bytes, offset, len). 5 - offset)") auto

declare descriptor_len.simps [simp del]

definition mpeg4_descriptor :: "bytes \<Rightarrow> (u8 \<times> bytes) option" where
  "mpeg4_descriptor bytes =
     Option.bind (byte_at bytes 0) (\<lambda>tag.
     Option.bind (descriptor_len bytes 1 0) (\<lambda>(offset, len).
     Option.bind (checked_add64 offset len) (\<lambda>e.
     Option.bind (slice bytes offset e) (\<lambda>body. Some (tag, body)))))"

definition tagged_descriptor :: "u8 \<Rightarrow> bytes option \<Rightarrow> bytes option" where
  "tagged_descriptor tag bytes =
     Option.bind bytes (\<lambda>bytes.
     Option.bind (mpeg4_descriptor bytes) (\<lambda>(t, body). if t = tag then Some body else None))"

definition mp4a_codec :: "bytes \<Rightarrow> str option" where
  "mp4a_codec esds =
     Option.bind (tagged_descriptor 3 (slice esds 4 (length esds))) (\<lambda>stream.
     Option.bind (byte_at stream 2) (\<lambda>flags.
     let skip = 3 + (if flags AND 0x80 \<noteq> 0 then 2 else 0) in
     Option.bind (if flags AND 0x40 \<noteq> 0 then map_option (\<lambda>b. skip + (1 + unat b)) (byte_at stream skip) else Some skip) (\<lambda>skip.
     let skip = skip + (if flags AND 0x20 \<noteq> 0 then 2 else 0) in
     Option.bind (tagged_descriptor 4 (slice stream skip (length stream))) (\<lambda>decoder.
     Option.bind (byte_at decoder 0) (\<lambda>object_type.
     if object_type \<noteq> 0x40 then Some (lit ''mp4a.'' @ pad2 (to_upper_hex (unat object_type)))
     else
       Option.bind (tagged_descriptor 5 (slice decoder 13 (length decoder))) (\<lambda>specific.
       Option.bind (byte_at specific 0) (\<lambda>first.
       Option.bind (if drop_bit 3 first = 31
                    then map_option (\<lambda>b. 32 + (push_bit 3 (first AND 0x07) OR drop_bit 5 b)) (byte_at specific 1)
                    else Some (drop_bit 3 first)) (\<lambda>audio_object_type.
         Some (lit ''mp4a.40.'' @ to_string (unat audio_object_type))))))))))"

definition iso_sample_entry_codec :: "bytes \<Rightarrow> bytes \<Rightarrow> str option" where
  "iso_sample_entry_codec kind entry =
     Option.bind (from_utf8 kind) (\<lambda>fourcc.
     let visual = sample_entry_child entry VISUAL_SAMPLE_ENTRY_BYTES in
     if kind = byte_lit ''avc1'' \<or> kind = byte_lit ''avc3'' then
       Option.bind (visual (byte_lit ''avcC'')) (\<lambda>config.
         (case config of
            _ # profile # compatibility # level # _ \<Rightarrow>
              Some (fourcc @ lit ''.'' @ pad2 (to_upper_hex (unat profile)) @ pad2 (to_upper_hex (unat compatibility))
                    @ pad2 (to_upper_hex (unat level)))
          | _ \<Rightarrow> None))
     else if kind = byte_lit ''hvc1'' \<or> kind = byte_lit ''hev1'' then
       Option.bind (visual (byte_lit ''hvcC'')) (hevc_codec fourcc)
     else if kind = byte_lit ''av01'' then Option.bind (visual (byte_lit ''av1C'')) av1_codec
     else if kind = byte_lit ''vp09'' then
       Option.bind (visual (byte_lit ''vpcC'')) (\<lambda>config.
         (case config of
            _ # _ # _ # _ # profile # level # bits # _ \<Rightarrow>
              Some (lit ''vp09.'' @ pad2 (to_string (unat profile)) @ lit ''.'' @ pad2 (to_string (unat level)) @ lit ''.''
                    @ pad2 (to_string (unat (drop_bit 4 bits))))
          | _ \<Rightarrow> None))
     else if kind = byte_lit ''mp4a'' then
       Option.bind (audio_sample_entry_bytes entry) (\<lambda>fixed.
       Option.bind (sample_entry_child entry fixed (byte_lit ''esds'')) mp4a_codec)
     else if kind = byte_lit ''Opus'' then Some (lit ''opus'')
     else if kind = byte_lit ''fLaC'' then Some (lit ''flac'')
     else if kind = byte_lit ''ac-3'' \<or> kind = byte_lit ''ec-3'' then Some fourcc
     else None)"

text \<open>The sample entries up to the first that is cut short.\<close>

definition push_entries :: "iso_box list \<Rightarrow> CodecList \<Rightarrow> CodecList" where
  "push_entries bs codecs =
     fold (\<lambda>(kind, entry, _). CodecList_push (iso_sample_entry_codec kind entry))
       (takeWhile (\<lambda>(_, _, complete). complete) bs) codecs"

definition iso_track_codecs :: "bytes \<Rightarrow> CodecList \<Rightarrow> CodecList" where
  "iso_track_codecs trak codecs =
     (case iso_child trak (byte_lit ''mdia'') of
        None \<Rightarrow> codecs
      | Some mdia \<Rightarrow>
          let handler = Option.bind (iso_complete_child mdia (byte_lit ''hdlr'')) (\<lambda>hdlr. slice hdlr 8 12) in
          if handler \<noteq> Some (byte_lit ''vide'') \<and> handler \<noteq> Some (byte_lit ''soun'') then codecs
          else (case Option.bind (iso_child mdia (byte_lit ''minf'')) (\<lambda>minf.
                     Option.bind (iso_child minf (byte_lit ''stbl'')) (\<lambda>stbl. iso_child stbl (byte_lit ''stsd''))) of
                  None \<Rightarrow> codecs
                | Some stsd \<Rightarrow>
                    (case slice stsd 4 8 of
                       None \<Rightarrow> codecs
                     | Some n \<Rightarrow>
                         push_entries (take (min (be_nat n) MAX_MEDIA_CODECS) (iso_boxes (drop 8 stsd) 0)) codecs)))"

definition iso_bmff_codecs :: "bytes \<Rightarrow> str option" where
  "iso_bmff_codecs header =
     Option.bind (iso_child header (byte_lit ''moov'')) (\<lambda>moov.
       CodecList_finish (fold (\<lambda>(kind, trak, _) codecs.
         if kind = byte_lit ''trak'' then iso_track_codecs trak codecs else codecs)
         (iso_boxes moov 0) CodecList_default))"

definition media_codecs :: "StreamedMedia \<Rightarrow> bytes \<Rightarrow> str option" where
  "media_codecs media header =
     (if media = SVideo ''video/webm'' then matroska_codecs header
      else if media = SVideo ''video/mp4'' \<or> media = SAudio ''audio/mp4'' then iso_bmff_codecs header
      else None)"

subsection \<open>The shape of codec names\<close>

definition codec_char :: "nat \<Rightarrow> bool" where
  "codec_char c \<longleftrightarrow> is_ascii_alphanumeric c \<or> c = 46 \<or> c = 45"

definition MAX_CODEC_NAME :: nat where "MAX_CODEC_NAME = 48"

definition codec_text :: "nat \<Rightarrow> str \<Rightarrow> bool" where
  "codec_text n s \<longleftrightarrow> list_all codec_char s \<and> length s \<le> n"

definition codec_name :: "str \<Rightarrow> bool" where
  "codec_name s \<longleftrightarrow> s \<noteq> [] \<and> codec_text MAX_CODEC_NAME s"

named_theorems codec_texts

lemma codec_text_append [codec_texts]:
  "codec_text m s \<Longrightarrow> codec_text n t \<Longrightarrow> codec_text (m + n) (s @ t)"
  by (simp add: codec_text_def)

lemma codec_text_mono: "codec_text m s \<Longrightarrow> m \<le> n \<Longrightarrow> codec_text n s"
  by (simp add: codec_text_def)

lemma codec_text_concat: "(\<And>x. x \<in> set xs \<Longrightarrow> codec_text n (f x)) \<Longrightarrow> codec_text (length xs * n) (concat (map f xs))"
  by (induction xs) (auto simp: codec_text_def add_mono)

lemma to_string_length: "n < 10 ^ k \<Longrightarrow> 0 < k \<Longrightarrow> length (to_string n) \<le> k"
proof (induction n arbitrary: k rule: to_string.induct)
  case (1 n)
  show ?case
  proof (cases "n < 10")
    case False
    with 1(2) obtain j where j: "k = Suc j" "0 < j" using 1(3) by (cases k; cases "k - 1"; simp)
    then have "length (to_string (n div 10)) \<le> j" using 1 False by (auto simp: less_mult_imp_div_less)
    then show ?thesis using j False by (subst to_string.simps) simp
  qed (use 1(3) in \<open>simp add: to_string.simps [of n]\<close>)
qed

lemma to_upper_hex_length: "n < 16 ^ k \<Longrightarrow> 0 < k \<Longrightarrow> length (to_upper_hex n) \<le> k"
proof (induction n arbitrary: k rule: to_upper_hex.induct)
  case (1 n)
  show ?case
  proof (cases "n < 16")
    case False
    with 1(2) obtain j where j: "k = Suc j" "0 < j" using 1(3) by (cases k; cases "k - 1"; simp)
    then have "length (to_upper_hex (n div 16)) \<le> j" using 1 False by (auto simp: less_mult_imp_div_less)
    then show ?thesis using j False by (subst to_upper_hex.simps) simp
  qed (use 1(3) in \<open>simp add: to_upper_hex.simps [of n]\<close>)
qed

lemma upper_hex_codec_char: "n < 16 \<Longrightarrow> codec_char (upper_hex n)"
  by (auto simp: codec_char_def upper_hex_def char_class_defs)

lemma to_upper_hex_chars: "list_all codec_char (to_upper_hex n)"
proof (induction n rule: to_upper_hex.induct)
  case (1 n)
  then show ?case by (subst to_upper_hex.simps) (simp add: upper_hex_codec_char)
qed

lemma to_string_codec_text: "n < 10 ^ k \<Longrightarrow> 0 < k \<Longrightarrow> codec_text k (to_string n)"
  using to_string_digits(1) [of n] to_string_length
  by (auto simp: codec_text_def codec_char_def list_all_iff is_ascii_alphanumeric_def)

lemma to_upper_hex_codec_text: "n < 16 ^ k \<Longrightarrow> 0 < k \<Longrightarrow> codec_text k (to_upper_hex n)"
  using to_upper_hex_chars to_upper_hex_length by (simp add: codec_text_def)

lemma unat_u8_less: "unat (b :: u8) < 10 ^ 3" "unat (b :: u8) < 16 ^ 2"
  using less_trans [OF unat_u8 [of b]] by simp_all

lemma codec_text_bytes [codec_texts]:
  "codec_text 3 (to_string (unat (b :: u8)))" "codec_text 2 (to_upper_hex (unat (b :: u8)))"
  by (rule to_string_codec_text to_upper_hex_codec_text; use unat_u8_less in simp)+

lemma codec_text_u32 [codec_texts]: "codec_text 8 (to_upper_hex (unat (w :: u32)))"
  using unsigned_less [of w] by (intro to_upper_hex_codec_text) simp_all

lemma codec_text_pad2 [codec_texts]: "codec_text n s \<Longrightarrow> codec_text (n + 2) (pad2 s)"
  by (auto simp: codec_text_def pad2_def codec_char_def char_class_defs list_all_iff)

lemma codec_text_lit: "list_all codec_char (lit s) \<Longrightarrow> codec_text (length s) (lit s)"
  by (simp add: codec_text_def lit_def)

lemma codec_text_if [codec_texts]: "codec_text n s \<Longrightarrow> codec_text n t \<Longrightarrow> codec_text n (if b then s else t)"
  by simp

lemma codec_nameI: "codec_text n s \<Longrightarrow> n \<le> MAX_CODEC_NAME \<Longrightarrow> s \<noteq> [] \<Longrightarrow> codec_name s"
  by (auto simp: codec_name_def codec_text_def)

lemmas codec_lit_simps = codec_text_def codec_char_def lit_def char_class_defs MAX_CODEC_NAME_def

lemma codec_text_fixed [codec_texts]:
  "codec_text 1 (lit ''.'')" "codec_text 1 (lit ''M'')" "codec_text 1 (lit ''H'')" "codec_text 1 (lit ''L'')"
  "codec_text 5 (lit ''av01.'')" "codec_text 5 (lit ''vp09.'')" "codec_text 5 (lit ''mp4a.'')" "codec_text 8 (lit ''mp4a.40.'')"
  by (simp_all add: codec_lit_simps)

lemma codec_name_fixed:
  "codec_name (lit ''vp8'')" "codec_name (lit ''vp9'')" "codec_name (lit ''opus'')" "codec_name (lit ''vorbis'')"
  "codec_name (lit ''flac'')"
  by (simp_all add: codec_name_def codec_lit_simps)

lemma av1_codec_name:
  assumes "av1_codec config = Some s"
  shows "codec_name s"
proof -
  from assms obtain m pl f r where c: "config = m # pl # f # r" by (auto simp: av1_codec_def split: list.splits)
  with assms have "m = 0x81" by (simp add: av1_codec_def split: if_splits)
  let ?tier = "if f AND 0x80 = 0 then lit ''M'' else lit ''H''"
  let ?bits = "if f AND 0x40 = 0 then 8 else if f AND 0x20 = 0 then 10 else 12 :: nat"
  have s: "s = lit ''av01.'' @ to_string (unat (drop_bit 5 pl)) @ lit ''.'' @ pad2 (to_string (unat (pl AND 0x1F)))
      @ ?tier @ lit ''.'' @ pad2 (to_string ?bits)"
    using assms c \<open>m = 0x81\<close> by (simp add: av1_codec_def Let_def)
  have "codec_text 3 (to_string ?bits)" by (intro to_string_codec_text) simp_all
  then have "codec_text (5 + (3 + (1 + ((3 + 2) + (1 + (1 + (3 + 2))))))) s" unfolding s
    by (intro codec_texts)
  then show ?thesis by (rule codec_nameI) (simp_all add: MAX_CODEC_NAME_def s lit_def)
qed

lemma matroska_codec_name: "matroska_codec c p = Some s \<Longrightarrow> codec_name s"
  by (auto simp: matroska_codec_def codec_name_fixed bind_eq_Some_conv dest: av1_codec_name split: if_splits)

lemma rposition_len_le: "rposition_len P bs \<le> length bs"
  by (simp add: rposition_len_def) (metis length_dropWhile_le length_rev)

lemma hevc_codec_name:
  assumes "hevc_codec fourcc config = Some s" "codec_text 4 fourcc"
  shows "codec_name s"
proof -
  let ?hex = "\<lambda>b :: u8. lit ''.'' @ to_upper_hex (unat b)"
  obtain space profile compat tier level bs where s: "s = fourcc @ lit ''.'' @ space @ to_string (unat (profile :: u8)) @ lit ''.''
      @ to_upper_hex (unat (compat :: u32)) @ lit ''.'' @ tier @ to_string (unat (level :: u8)) @ concat (map ?hex bs)"
    and sp: "codec_text 1 space" and ti: "codec_text 1 tier" and bs: "length bs \<le> 6"
  proof -
    obtain c where c: "slice config 0 13 = Some c" using assms(1) by (auto simp: hevc_codec_def bind_eq_Some_conv)
    from assms(1) have
      s: "s = fourcc @ lit ''.'' @ map lit [[], ''A'', ''B'', ''C''] ! unat (drop_bit 6 (c ! 1)) @ to_string (unat (c ! 1 AND 0x1F)) @ lit ''.''
          @ to_upper_hex (unat (reverse_bits (of_nat (be_nat (sub c 2 6))))) @ lit ''.''
          @ (if c ! 1 AND 0x20 = 0 then lit ''L'' else lit ''H'') @ to_string (unat (c ! 12))
          @ concat (map ?hex (take (rposition_len (\<lambda>b. b \<noteq> 0) (sub c 6 12)) (sub c 6 12)))"
      unfolding hevc_codec_def Let_def c bind.bind_lunit by simp
    have "unat (drop_bit 6 (c ! 1)) = unat (c ! 1) div 2 ^ 6" by (metis unat_drop_bit_eq drop_bit_eq_div)
    then have "unat (drop_bit 6 (c ! 1)) < 4" using unat_u8 [of "c ! 1"] by (simp add: less_mult_imp_div_less del: unat_u8)
    then have "codec_text 1 (map lit [[], ''A'', ''B'', ''C''] ! unat (drop_bit 6 (c ! 1)))"
      by (auto simp: codec_lit_simps nth_Cons split: nat.splits)
    moreover have "length (take (rposition_len (\<lambda>b. b \<noteq> 0) (sub c 6 12)) (sub c 6 12)) \<le> 6"
      by (simp add: sub_def)
    moreover have "codec_text 1 (if c ! 1 AND 0x20 = 0 then lit ''L'' else lit ''H'')" by (intro codec_texts)
    ultimately show ?thesis using s by (intro that) blast+
  qed
  have "codec_text (length bs * (1 + 2)) (concat (map ?hex bs))" by (intro codec_text_concat codec_texts)
  then have tail: "codec_text 18 (concat (map ?hex bs))" by (rule codec_text_mono) (use bs in simp)
  have "codec_text (4 + (1 + (1 + (3 + (1 + (8 + (1 + (1 + (3 + 18))))))))) s"
    unfolding s by (intro codec_texts sp ti tail assms(2))
  then show ?thesis by (rule codec_nameI) (simp_all add: MAX_CODEC_NAME_def s lit_def)
qed

lemma mp4a_codec_name: "mp4a_codec esds = Some s \<Longrightarrow> codec_name s"
proof -
  assume "mp4a_codec esds = Some s"
  then consider b where "s = lit ''mp4a.'' @ pad2 (to_upper_hex (unat (b :: u8)))"
    | b where "s = lit ''mp4a.40.'' @ to_string (unat (b :: u8))"
    by (auto simp: mp4a_codec_def Let_def bind_eq_Some_conv split: if_splits)
  then show ?thesis
  proof cases
    case 1
    have "codec_text (5 + (2 + 2)) s" unfolding 1 by (intro codec_texts)
    then show ?thesis by (rule codec_nameI) (simp_all add: MAX_CODEC_NAME_def 1 lit_def)
  next
    case 2
    have "codec_text (8 + 3) s" unfolding 2 by (intro codec_texts)
    then show ?thesis by (rule codec_nameI) (simp_all add: MAX_CODEC_NAME_def 2 lit_def)
  qed
qed

lemma fourcc_codec_text:
  assumes "from_utf8 kind = Some f" "kind \<in> byte_lit ` {''avc1'', ''avc3'', ''hvc1'', ''hev1'', ''ac-3'', ''ec-3''}"
  shows "codec_text 4 f" "f \<noteq> []"
  using assms by (auto simp: from_utf8_def byte_lit_def codec_lit_simps)

lemma avc_name:
  assumes "(case config of _ # profile # compatibility # level # _ \<Rightarrow>
      Some (f @ lit ''.'' @ pad2 (to_upper_hex (unat (profile :: u8))) @ pad2 (to_upper_hex (unat (compatibility :: u8)))
        @ pad2 (to_upper_hex (unat (level :: u8)))) | _ \<Rightarrow> None) = Some s" "codec_text 4 f"
  shows "codec_name s"
proof -
  obtain p c l where s: "s = f @ lit ''.'' @ pad2 (to_upper_hex (unat (p :: u8))) @ pad2 (to_upper_hex (unat (c :: u8)))
      @ pad2 (to_upper_hex (unat (l :: u8)))" using assms(1) by (auto split: list.splits)
  have "codec_text (4 + (1 + ((2 + 2) + ((2 + 2) + (2 + 2))))) s" unfolding s by (intro codec_texts assms(2))
  then show ?thesis by (rule codec_nameI) (simp_all add: MAX_CODEC_NAME_def s lit_def)
qed

lemma vp9_name:
  assumes "(case config of _ # _ # _ # _ # profile # level # bits # _ \<Rightarrow>
      Some (lit ''vp09.'' @ pad2 (to_string (unat (profile :: u8))) @ lit ''.'' @ pad2 (to_string (unat (level :: u8))) @ lit ''.''
        @ pad2 (to_string (unat (drop_bit 4 (bits :: u8))))) | _ \<Rightarrow> None) = Some s"
  shows "codec_name s"
proof -
  obtain p l b where s: "s = lit ''vp09.'' @ pad2 (to_string (unat (p :: u8))) @ lit ''.'' @ pad2 (to_string (unat (l :: u8)))
        @ lit ''.'' @ pad2 (to_string (unat (b :: u8)))" using assms by (auto split: list.splits)
  have "codec_text (5 + ((3 + 2) + (1 + ((3 + 2) + (1 + (3 + 2)))))) s" unfolding s by (intro codec_texts)
  then show ?thesis by (rule codec_nameI) (simp_all add: MAX_CODEC_NAME_def s lit_def)
qed

lemma iso_sample_entry_codec_name:
  assumes "iso_sample_entry_codec kind entry = Some s"
  shows "codec_name s"
proof -
  obtain f where f: "from_utf8 kind = Some f" using assms by (auto simp: iso_sample_entry_codec_def bind_eq_Some_conv)
  note four = fourcc_codec_text [OF f]
  have ac3: "codec_name f" if "kind \<in> byte_lit ` {''avc1'', ''avc3'', ''hvc1'', ''hev1'', ''ac-3'', ''ec-3''}"
    using four [OF that] by (intro codec_nameI [of 4]) (auto simp: MAX_CODEC_NAME_def)
  let ?A = "{byte_lit ''avc1'', byte_lit ''avc3''}" and ?H = "{byte_lit ''hvc1'', byte_lit ''hev1''}"
    and ?V = "sample_entry_child entry VISUAL_SAMPLE_ENTRY_BYTES"
  note step = assms [unfolded iso_sample_entry_codec_def Let_def f bind.bind_lunit]
  consider (avc) "kind \<in> ?A" | (hevc) "kind \<notin> ?A" "kind \<in> ?H" | (av1) "kind \<notin> ?A \<union> ?H" "kind = byte_lit ''av01''"
    | (vp9) "kind \<notin> ?A \<union> ?H \<union> {byte_lit ''av01''}" "kind = byte_lit ''vp09''"
    | (mp4a) "kind \<notin> ?A \<union> ?H \<union> {byte_lit ''av01'', byte_lit ''vp09''}" "kind = byte_lit ''mp4a''"
    | (other) "kind \<notin> ?A \<union> ?H \<union> {byte_lit ''av01'', byte_lit ''vp09'', byte_lit ''mp4a''}" by blast
  then show ?thesis
  proof cases
    case avc
    then show ?thesis using step four by (auto simp: bind_eq_Some_conv intro: avc_name)
  next
    case hevc
    then show ?thesis using step four by (auto simp: bind_eq_Some_conv intro: hevc_codec_name)
  next
    case av1
    then show ?thesis using step by (auto simp: bind_eq_Some_conv intro: av1_codec_name)
  next
    case vp9
    then have "Option.bind (?V (byte_lit ''vpcC'')) (\<lambda>config.
         (case config of
            _ # _ # _ # _ # profile # level # bits # _ \<Rightarrow>
              Some (lit ''vp09.'' @ pad2 (to_string (unat profile)) @ lit ''.'' @ pad2 (to_string (unat level)) @ lit ''.''
                    @ pad2 (to_string (unat (drop_bit 4 bits))))
          | _ \<Rightarrow> None)) = Some s" using step by simp
    then show ?thesis unfolding bind_eq_Some_conv using vp9_name by blast
  next
    case mp4a
    then show ?thesis using step by (auto simp: bind_eq_Some_conv intro: mp4a_codec_name)
  next
    case other
    then show ?thesis using step ac3 codec_name_fixed by (auto split: if_splits)
  qed
qed

subsection \<open>The collected list\<close>

definition codecs_ok :: "CodecList \<Rightarrow> bool" where
  "codecs_ok l \<longleftrightarrow> list_all codec_name (cl_codecs l) \<and> distinct (cl_codecs l) \<and> length (cl_codecs l) \<le> MAX_MEDIA_CODECS"

lemma codecs_ok_default: "codecs_ok CodecList_default"
  by (simp add: codecs_ok_def CodecList_default_def)

lemma codecs_ok_push: "codecs_ok l \<Longrightarrow> (\<And>c. name = Some c \<Longrightarrow> codec_name c) \<Longrightarrow> codecs_ok (CodecList_push name l)"
  by (auto simp: codecs_ok_def CodecList_push_def split: option.splits)

lemma codecs_ok_track: "codecs_ok l \<Longrightarrow> codecs_ok (push_track entry l)"
  by (auto simp: push_track_def intro!: codecs_ok_push dest: matroska_codec_name split: option.splits)

lemma codecs_ok_track_entries: "codecs_ok l \<Longrightarrow> track_entries tracks offset l = Some l' \<Longrightarrow> codecs_ok l'"
proof (induction tracks offset l arbitrary: l' rule: track_entries.induct)
  case (1 tracks offset l)
  have step: "codecs_ok (if ident = MATROSKA_TRACK_ENTRY_ID then push_track entry l else l)" for ident entry
    using 1(2) codecs_ok_track by simp
  from 1(3) show ?case
    by (subst (asm) track_entries.simps)
      (use 1(2) 1(1) [OF _ _ refl _ _ step] in \<open>fastforce split: option.splits prod.splits\<close>)
qed

lemma codecs_ok_fold: "codecs_ok l \<Longrightarrow> (\<And>x l. codecs_ok l \<Longrightarrow> codecs_ok (f x l)) \<Longrightarrow> codecs_ok (fold f xs l)"
  by (induction xs arbitrary: l) auto

lemma codecs_ok_iso_track: "codecs_ok l \<Longrightarrow> codecs_ok (iso_track_codecs trak l)"
  by (auto simp: iso_track_codecs_def push_entries_def Let_def
      intro!: codecs_ok_fold codecs_ok_push dest: iso_sample_entry_codec_name split: option.splits)

lemma segment_codecs_from_tracks: "segment_codecs seg offset = Some s \<Longrightarrow> \<exists>tracks. matroska_track_codecs tracks = Some s"
proof (induction seg offset rule: segment_codecs.induct)
  case (1 seg offset)
  from 1(2) show ?case
    by (subst (asm) segment_codecs.simps)
      (auto split: option.splits prod.splits if_splits simp: bind_eq_Some_conv dest: 1(1) [rotated -1])
qed

lemma media_codecs_ok:
  assumes "media_codecs media header = Some s"
  obtains l where "codecs_ok l" "CodecList_finish l = Some s"
proof -
  have finish: ?thesis if "matroska_track_codecs tracks = Some s" for tracks
    using that codecs_ok_track_entries [OF codecs_ok_default] \<open>\<And>l. codecs_ok l \<Longrightarrow> CodecList_finish l = Some s \<Longrightarrow> thesis\<close>
    by (auto simp: matroska_track_codecs_def bind_eq_Some_conv)
  consider "matroska_codecs header = Some s" | "iso_bmff_codecs header = Some s"
    using assms by (auto simp: media_codecs_def split: if_splits)
  then show ?thesis
  proof cases
    case 1
    then show ?thesis using finish segment_codecs_from_tracks
      by (auto simp: matroska_codecs_def bind_eq_Some_conv Let_def split: if_splits prod.splits) blast
  next
    case 2
    then obtain moov where "CodecList_finish (fold (\<lambda>(kind, trak, _) codecs.
         if kind = byte_lit ''trak'' then iso_track_codecs trak codecs else codecs)
         (iso_boxes moov 0) CodecList_default) = Some s" by (auto simp: iso_bmff_codecs_def bind_eq_Some_conv)
    then show ?thesis
      by (rule that [rotated]) (auto intro!: codecs_ok_fold codecs_ok_default codecs_ok_iso_track)
  qed
qed

text \<open>
  C28: A reported codec list is safe to embed. Whatever the bytes of the header, if a file gets a \<open>codecs\<close>
  parameter then it joins between one and eight distinct, non-empty names of at most 48 characters, each made
  of ASCII letters, digits, dots and dashes only, so it holds no quote, backslash or control character.
\<close>

theorem media_codecs_safe:
  assumes "media_codecs media header = Some s"
  shows "\<exists>names. s = join_comma names \<and> names \<noteq> [] \<and> length names \<le> 8 \<and> distinct names
    \<and> (\<forall>n \<in> set names. n \<noteq> [] \<and> length n \<le> 48 \<and> (\<forall>c \<in> set n. is_ascii_alphanumeric c \<or> c = 46 \<or> c = 45))"
proof -
  obtain l where "codecs_ok l" "CodecList_finish l = Some s" using media_codecs_ok [OF assms] by blast
  then show ?thesis
    by (intro exI [of _ "cl_codecs l"])
      (auto simp: CodecList_finish_def codecs_ok_def codec_name_def codec_lit_simps MAX_MEDIA_CODECS_def list_all_iff
        split: if_splits)
qed

text \<open>A WebM header with one VP9 track.\<close>

definition sample_entry :: bytes where
  "sample_entry = [0x86, 0x85, 0x56, 0x5F, 0x56, 0x50, 0x39]"

definition sample_webm :: bytes where
  "sample_webm = [0x1A, 0x45, 0xDF, 0xA3, 0x80, 0x18, 0x53, 0x80, 0x67, 0xFF, 0x16, 0x54, 0xAE, 0x6B, 0x89,
     0xAE, 0x87] @ sample_entry"

lemmas ebml_simps = ebml_element_def byte_at_def slice_def leading_zeros_def checked_add_def Let_def
  EBML_HEADER_ID_def MATROSKA_SEGMENT_ID_def MATROSKA_TRACKS_ID_def MATROSKA_CLUSTER_ID_def MATROSKA_TRACK_ENTRY_ID_def
  MATROSKA_CODEC_ID_ID_def MATROSKA_CODEC_PRIVATE_ID_def

lemma sample_fields: "matroska_track_fields sample_entry = Some \<lparr> mt_codec_id = Some (byte_lit ''V_VP9''), mt_private = None \<rparr>"
  by (simp add: matroska_track_fields_def track_fields.simps ebml_simps sample_entry_def rposition_len_def byte_lit_def)

lemma sample_tracks: "matroska_track_codecs (0xAE # 0x87 # sample_entry) = Some (lit ''vp9'')"
proof -
  have "ebml_element (0xAE # 0x87 # sample_entry) 0 = Some (0xAE, Some 7, 2)"
    "ebml_element (0xAE # 0x87 # sample_entry) 9 = None"
    "slice (0xAE # 0x87 # sample_entry) 2 9 = Some sample_entry"
    by (simp_all add: ebml_simps sample_entry_def)
  moreover have "push_track sample_entry CodecList_default = \<lparr> cl_codecs = [lit ''vp9''], cl_unknown = False \<rparr>"
    by (simp add: push_track_def sample_fields CodecList_push_def CodecList_default_def MAX_MEDIA_CODECS_def
        matroska_codec_def starts_with_def byte_lit_def)
  ultimately show ?thesis
    by (simp add: matroska_track_codecs_def track_entries.simps [of _ 0] track_entries.simps [of _ 9] checked_add_def
        MATROSKA_TRACK_ENTRY_ID_def CodecList_finish_def)
qed

lemma sample_webm_codecs: "media_codecs (SVideo ''video/webm'') sample_webm = Some (lit ''vp9'')"
proof -
  have e: "ebml_element sample_webm 0 = Some (0x1A45DFA3, Some 0, 5)"
    "ebml_element sample_webm 5 = Some (0x18538067, None, 10)"
    "ebml_element sample_webm 10 = Some (0x1654AE6B, Some 9, 15)"
    "slice sample_webm 15 24 = Some (0xAE # 0x87 # sample_entry)" "length sample_webm = 24"
    by (simp_all add: ebml_simps sample_webm_def sample_entry_def)
  show ?thesis
    by (simp add: media_codecs_def matroska_codecs_def e checked_add_def EBML_HEADER_ID_def MATROSKA_SEGMENT_ID_def
        MATROSKA_TRACKS_ID_def segment_codecs.simps [of _ 10] sample_tracks)
qed

theorem media_codecs_safe_witness:
  "\<exists>names. lit ''vp9'' = join_comma names \<and> names \<noteq> [] \<and> length names \<le> 8 \<and> distinct names
    \<and> (\<forall>n \<in> set names. n \<noteq> [] \<and> length n \<le> 48 \<and> (\<forall>c \<in> set n. is_ascii_alphanumeric c \<or> c = 46 \<or> c = 45))"
  by (rule media_codecs_safe [OF sample_webm_codecs])

end
