(* ===== verification/Svg.thy ===== *)
theory Svg
  imports Media
begin

text \<open>
  SVG detection of \<open>preview.rs\<close> (\<open>is_svg_document\<close>). The scanner is modelled as written, with its two
  loops as recursive functions. The theorem relates it to a grammar: the scanner accepts a text
  exactly when its first 64 KiB are a byte-order mark, an XML declaration, comments and one doctype
  without an internal subset, and an unprefixed \<open>svg\<close> start tag that declares the SVG namespace.
\<close>

subsection \<open>The scanner\<close>

definition SVG_NAMESPACE :: str where "SVG_NAMESPACE = lit ''http://www.w3.org/2000/svg''"

definition is_xml_space :: "nat \<Rightarrow> bool" where
  "is_xml_space c \<longleftrightarrow> c = 32 \<or> c = 9 \<or> c = 13 \<or> c = 10"

text \<open>\<open>&text[..end]\<close> for the last character boundary at or before \<open>n\<close> bytes.\<close>

fun truncate_str :: "nat \<Rightarrow> str \<Rightarrow> str" where
  "truncate_str n [] = []"
| "truncate_str n (c # s) =
     (if length (utf8_char c) \<le> n then c # truncate_str (n - length (utf8_char c)) s else [])"

text \<open>The text after the first occurrence of a terminator.\<close>

fun after_str :: "str \<Rightarrow> str \<Rightarrow> str option" where
  "after_str t [] = strip_prefix t []"
| "after_str t (c # s) = (case strip_prefix t (c # s) of Some r \<Rightarrow> Some r | None \<Rightarrow> after_str t s)"

lemma after_str_shorter: "after_str t s = Some r \<Longrightarrow> length r \<le> length s"
  by (induction t s rule: after_str.induct) (auto split: option.splits dest: arg_cong [of _ _ length])

definition trim_space :: "str \<Rightarrow> str" where
  "trim_space s = dropWhile is_xml_space s"

lemma length_trim_space: "length (trim_space s) \<le> length s"
  by (simp add: trim_space_def length_dropWhile_le)

lemma strip_trimmed: "strip_prefix p (trim_space s) = Some r \<Longrightarrow> length r + length p \<le> length s"
  using length_trim_space [of s] by auto

lemma trimmed_Cons: "trim_space s = c # r \<Longrightarrow> Suc (length r) \<le> length s"
  using length_trim_space [of s] by simp

lemma dropped_Cons: "Suc n \<le> length (dropWhile P (trim_space s)) \<Longrightarrow> Suc n \<le> length s"
  using length_dropWhile_le [of P "trim_space s"] length_trim_space [of s] by linarith

definition starts_with_char :: "(nat \<Rightarrow> bool) \<Rightarrow> str \<Rightarrow> bool" where
  "starts_with_char P s = (case s of c # _ \<Rightarrow> P c | [] \<Rightarrow> False)"

definition doctype_ok :: "str \<Rightarrow> bool" where
  "doctype_ok d \<longleftrightarrow> 91 \<notin> set d \<and> starts_with_char is_xml_space d
     \<and> takeWhile (Not \<circ> is_xml_space) (trim_space d) = lit ''svg''"

text \<open>The loop over comments and the doctype: what follows them, or nothing when the text is refused.\<close>

function svg_prolog :: "bool \<Rightarrow> str \<Rightarrow> str option" where
  "svg_prolog seen_doctype rest =
     (let rest = trim_space rest in
      case strip_prefix (lit ''<!--'') rest of
        Some c \<Rightarrow> (case after_str (lit ''-->'') c of None \<Rightarrow> None | Some r \<Rightarrow> svg_prolog seen_doctype r)
      | None \<Rightarrow>
          (case strip_prefix (lit ''<!DOCTYPE'') rest of
             Some doctype \<Rightarrow>
               (case split_once 62 doctype of
                  None \<Rightarrow> None
                | Some (declaration, r) \<Rightarrow>
                    if seen_doctype \<or> \<not> doctype_ok declaration then None else svg_prolog True r)
           | None \<Rightarrow> Some rest))"
  by pat_completeness auto
termination
  by (relation "measure (\<lambda>(b, s). length s)")
    (auto simp: split_once_Some lit_def dest!: strip_trimmed after_str_shorter simp del: strip_prefix_Some)

declare svg_prolog.simps [simp del]

definition name_end :: "nat \<Rightarrow> bool" where
  "name_end c \<longleftrightarrow> is_xml_space c \<or> c = 61 \<or> c = 62 \<or> c = 47"

text \<open>The loop over the attributes of the start tag.\<close>

function svg_tag :: "bool \<Rightarrow> str \<Rightarrow> bool" where
  "svg_tag svg_namespace tag =
     (let tag = trim_space tag in
      if starts_with_char (\<lambda>c. c = 62) tag \<or> strip_prefix (lit ''/>'') tag \<noteq> None then svg_namespace
      else
        let name = takeWhile (Not \<circ> name_end) tag in
        (case trim_space (dropWhile (Not \<circ> name_end) tag) of
           [] \<Rightarrow> False
         | c # v \<Rightarrow>
             if c \<noteq> 61 then False
             else (case trim_space v of
                 [] \<Rightarrow> False
               | quote # v \<Rightarrow>
                   if quote \<noteq> 34 \<and> quote \<noteq> 39 then False
                   else (case split_once quote v of
                       None \<Rightarrow> False
                     | Some (v, tag) \<Rightarrow>
                         if name = [] then False
                         else if name = lit ''xmlns'' \<and> v \<noteq> SVG_NAMESPACE then False
                         else svg_tag (svg_namespace \<or> name = lit ''xmlns'') tag))))"
  by pat_completeness auto
termination
  by (relation "measure (\<lambda>(b, s). length s)") (auto simp: split_once_Some dest!: trimmed_Cons dropped_Cons)

declare svg_tag.simps [simp del]

definition xml_declaration :: "str \<Rightarrow> str option" where
  "xml_declaration rest =
     (case strip_prefix (lit ''<?xml'') rest of
        None \<Rightarrow> Some rest
      | Some declaration \<Rightarrow>
          if \<not> starts_with_char is_xml_space declaration then None else after_str (lit ''?>'') declaration)"

definition is_svg_document :: "str \<Rightarrow> bool" where
  "is_svg_document text =
     (let text = truncate_str SIGNATURE_HEADER_BYTES text;
          rest = (case strip_prefix [0xFEFF] text of Some r \<Rightarrow> r | None \<Rightarrow> text)
      in
      case Option.bind (xml_declaration rest) (svg_prolog False) of
        None \<Rightarrow> False
      | Some rest \<Rightarrow>
          (case strip_prefix (lit ''<svg'') rest of
             None \<Rightarrow> False
           | Some tag \<Rightarrow>
               if \<not> starts_with_char (\<lambda>c. is_xml_space c \<or> c = 62 \<or> c = 47) tag then False
               else svg_tag False tag))"

subsection \<open>The grammar\<close>

definition spaces :: "str \<Rightarrow> bool" where
  "spaces s = list_all is_xml_space s"

text \<open>\<open>c\<close> up to the first occurrence of a terminator.\<close>

definition ends_first :: "str \<Rightarrow> str \<Rightarrow> bool" where
  "ends_first t c \<longleftrightarrow> after_str t (c @ t) = Some []"

datatype prolog_item = Comment str | Doctype str

fun item_text :: "prolog_item \<Rightarrow> str" where
  "item_text (Comment c) = lit ''<!--'' @ c @ lit ''-->''"
| "item_text (Doctype d) = lit ''<!DOCTYPE'' @ d @ [62]"

fun item_ok :: "prolog_item \<Rightarrow> bool" where
  "item_ok (Comment c) \<longleftrightarrow> ends_first (lit ''-->'') c"
| "item_ok (Doctype d) \<longleftrightarrow> 62 \<notin> set d \<and> doctype_ok d"

fun is_doctype :: "prolog_item \<Rightarrow> bool" where
  "is_doctype (Comment _) = False"
| "is_doctype (Doctype _) = True"

definition prolog_text :: "(str \<times> prolog_item) list \<Rightarrow> str" where
  "prolog_text items = concat (map (\<lambda>(w, i). w @ item_text i) items)"

definition prolog_ok :: "bool \<Rightarrow> (str \<times> prolog_item) list \<Rightarrow> bool" where
  "prolog_ok seen items \<longleftrightarrow> list_all (\<lambda>(w, i). spaces w \<and> item_ok i) items
     \<and> length (filter (is_doctype \<circ> snd) items) \<le> (if seen then 0 else 1)"

record attribute =
  at_space :: str
  at_name :: str
  at_before :: str
  at_after :: str
  at_quote :: nat
  at_value :: str

definition attribute_text :: "attribute \<Rightarrow> str" where
  "attribute_text a = at_space a @ at_name a @ at_before a @ 61 # at_after a @ at_quote a # at_value a @ [at_quote a]"

definition attribute_ok :: "attribute \<Rightarrow> bool" where
  "attribute_ok a \<longleftrightarrow> spaces (at_space a) \<and> spaces (at_before a) \<and> spaces (at_after a)
     \<and> at_name a \<noteq> [] \<and> list_all (Not \<circ> name_end) (at_name a)
     \<and> (at_quote a = 34 \<or> at_quote a = 39) \<and> at_quote a \<notin> set (at_value a)
     \<and> (at_name a = lit ''xmlns'' \<longrightarrow> at_value a = SVG_NAMESPACE)"

text \<open>The end of the start tag: white space and \<open>>\<close> or \<open>/>\<close>, and whatever follows.\<close>

definition tag_close :: "str \<Rightarrow> bool" where
  "tag_close s \<longleftrightarrow> starts_with_char (\<lambda>c. c = 62) (trim_space s) \<or> strip_prefix (lit ''/>'') (trim_space s) \<noteq> None"

definition attributes_text :: "attribute list \<Rightarrow> str" where
  "attributes_text as = concat (map attribute_text as)"

definition svg_grammar :: "str \<Rightarrow> bool" where
  "svg_grammar t \<longleftrightarrow> (\<exists>bom decl items w as close.
     t = bom @ decl @ prolog_text items @ w @ lit ''<svg'' @ attributes_text as @ close
     \<and> (bom = [] \<or> bom = [0xFEFF])
     \<and> (decl = [] \<or> (\<exists>d. decl = lit ''<?xml'' @ d @ lit ''?>'' \<and> starts_with_char is_xml_space d \<and> ends_first (lit ''?>'') d))
     \<and> prolog_ok False items \<and> spaces w
     \<and> list_all attribute_ok as \<and> (as \<noteq> [] \<longrightarrow> at_space (hd as) \<noteq> []) \<and> tag_close close
     \<and> lit ''xmlns'' \<in> at_name ` set as)"

subsection \<open>White space and terminators\<close>

lemma trim_split: "\<exists>w. spaces w \<and> s = w @ trim_space s"
  by (rule exI [of _ "takeWhile is_xml_space s"]) (auto simp: spaces_def trim_space_def list_all_iff dest: set_takeWhileD)

lemma trim_spaces: "spaces w \<Longrightarrow> trim_space (w @ s) = trim_space s"
  by (induction w) (auto simp: spaces_def trim_space_def)

lemma trim_stop: "\<not> is_xml_space c \<Longrightarrow> trim_space (c # s) = c # s"
  by (simp add: trim_space_def)

lemma trim_trim: "trim_space (trim_space s) = trim_space s"
  by (simp add: trim_space_def)

lemma after_str_here: "after_str t (t @ r) = Some r"
proof -
  have "strip_prefix t (t @ r) = Some r" by simp
  then show ?thesis by (cases "t @ r") (simp_all del: strip_prefix_Some)
qed

lemma after_str_Some: "after_str t s = Some r \<longleftrightarrow> (\<exists>c. s = c @ t @ r \<and> ends_first t c)"
proof
  assume "after_str t s = Some r"
  then show "\<exists>c. s = c @ t @ r \<and> ends_first t c"
  proof (induction t s rule: after_str.induct)
    case (1 t)
    then show ?case by (auto simp: ends_first_def)
  next
    case (2 t c s)
    show ?case
    proof (cases "strip_prefix t (c # s)")
      case (Some q)
      with 2(2) have "c # s = t @ r" by auto
      moreover have "after_str t t = Some []" using after_str_here [of t "[]"] by simp
      ultimately show ?thesis by (intro exI [of _ "[]"]) (simp add: ends_first_def)
    next
      case None
      with 2 obtain d where d: "s = d @ t @ r" "ends_first t d" by auto
      have "strip_prefix t (c # d @ t) = None"
      proof (rule ccontr)
        assume "strip_prefix t (c # d @ t) \<noteq> None"
        then obtain q where "c # d @ t = t @ q" by auto
        then have "c # s = t @ (q @ r)" using d(1) by (metis append.assoc append_Cons)
        then show False using None by (metis strip_prefix_Some option.distinct(1))
      qed
      then show ?thesis using d by (intro exI [of _ "c # d"]) (auto simp: ends_first_def)
    qed
  qed
next
  assume "\<exists>c. s = c @ t @ r \<and> ends_first t c"
  then obtain c where c: "s = c @ t @ r" "ends_first t c" by blast
  have "after_str t (c @ t @ r) = Some r" using c(2)
  proof (induction c)
    case Nil
    show ?case using after_str_here by simp
  next
    case (Cons x c)
    show ?case
    proof (cases "strip_prefix t (x # c @ t)")
      case None
      then have "ends_first t c" using Cons.prems by (simp add: ends_first_def)
      have "\<exists>q. x # c @ t = t @ q" if "x # c @ t @ r = t @ q" for q
        using that by (intro exI [of _ "drop (length t) (x # c @ t)"])
          (metis append.assoc append_Cons append_eq_append_conv_if append_take_drop_id le_add1 length_append length_Cons add.commute le_SucI)
      with None have "strip_prefix t (x # c @ t @ r) = None" by (metis not_Some_eq strip_prefix_Some)
      then show ?thesis using Cons.IH [OF \<open>ends_first t c\<close>] by simp
    next
      case (Some q)
      with Cons.prems have "q = []" by (simp add: ends_first_def)
      with Some have "x # c @ t = t" by simp
      then have "length (x # c @ t) = length t" by presburger
      then show ?thesis by simp
    qed
  qed
  then show "after_str t s = Some r" by (simp add: c(1))
qed

subsection \<open>The prolog\<close>

definition after_prolog :: "str \<Rightarrow> bool" where
  "after_prolog r \<longleftrightarrow> trim_space r = r \<and> strip_prefix (lit ''<!--'') r = None \<and> strip_prefix (lit ''<!DOCTYPE'') r = None"

lemma svg_prolog_Comment:
  assumes "spaces w" "ends_first (lit ''-->'') c"
  shows "svg_prolog seen (w @ item_text (Comment c) @ s) = svg_prolog seen s"
proof -
  let ?r = "lit ''<!--'' @ c @ lit ''-->'' @ s"
  have "trim_space (w @ ?r) = ?r" using assms(1) by (simp add: trim_spaces lit_def trim_stop is_xml_space_def)
  moreover have "strip_prefix (lit ''<!--'') ?r = Some (c @ lit ''-->'' @ s)" by simp
  moreover have "after_str (lit ''-->'') (c @ lit ''-->'' @ s) = Some s" using assms(2) by (auto simp: after_str_Some)
  ultimately show ?thesis by (subst svg_prolog.simps) (simp del: strip_prefix_Some)
qed

lemma svg_prolog_Doctype:
  assumes "spaces w" "62 \<notin> set d" "doctype_ok d"
  shows "svg_prolog False (w @ item_text (Doctype d) @ s) = svg_prolog True s"
proof -
  let ?r = "lit ''<!DOCTYPE'' @ d @ 62 # s"
  have "trim_space (w @ ?r) = ?r" using assms(1) by (simp add: trim_spaces lit_def trim_stop is_xml_space_def)
  moreover have "strip_prefix (lit ''<!--'') ?r = None" by (simp add: lit_def)
  moreover have "strip_prefix (lit ''<!DOCTYPE'') ?r = Some (d @ 62 # s)" by simp
  moreover have "split_once 62 (d @ 62 # s) = Some (d, s)" using assms(2) by (simp add: split_once_Some)
  ultimately show ?thesis using assms(3) by (subst svg_prolog.simps) (simp del: strip_prefix_Some)
qed

lemma svg_prolog_stop: "spaces w \<Longrightarrow> after_prolog r \<Longrightarrow> svg_prolog seen (w @ r) = Some r"
  by (subst svg_prolog.simps) (simp add: trim_spaces after_prolog_def)

lemma svg_prolog_complete:
  "prolog_ok seen items \<Longrightarrow> svg_prolog seen (prolog_text items @ s)
    = svg_prolog (seen \<or> (\<exists>i \<in> set items. is_doctype (snd i))) s"
proof (induction items arbitrary: seen)
  case Nil
  then show ?case by (simp add: prolog_text_def)
next
  case (Cons wi items)
  obtain w i where wi: "wi = (w, i)" by fastforce
  have tx: "prolog_text (wi # items) @ s = w @ item_text i @ prolog_text items @ s" by (simp add: wi prolog_text_def)
  show ?case
  proof (cases i)
    case (Comment c)
    have "prolog_ok seen items" using Cons.prems by (simp add: prolog_ok_def wi Comment)
    then show ?thesis using Cons svg_prolog_Comment [of w c seen] unfolding tx Comment by (simp add: prolog_ok_def wi Comment)
  next
    case (Doctype d)
    have "prolog_ok True items" "\<not> seen" using Cons.prems by (auto simp: prolog_ok_def wi Doctype split: if_splits)
    then show ?thesis using Cons svg_prolog_Doctype [of w d] unfolding tx Doctype by (simp add: prolog_ok_def wi Doctype)
  qed
qed

lemma svg_prolog_sound:
  "svg_prolog seen s = Some r \<Longrightarrow>
    \<exists>items w. s = prolog_text items @ w @ r \<and> prolog_ok seen items \<and> spaces w \<and> after_prolog r"
proof (induction seen s rule: svg_prolog.induct)
  case (1 seen s)
  obtain w where w: "spaces w" "s = w @ trim_space s" using trim_split by blast
  consider (comment) c q where "strip_prefix (lit ''<!--'') (trim_space s) = Some c" "after_str (lit ''-->'') c = Some q"
      "svg_prolog seen q = Some r"
    | (doctype) d p q where "strip_prefix (lit ''<!--'') (trim_space s) = None"
      "strip_prefix (lit ''<!DOCTYPE'') (trim_space s) = Some d" "split_once 62 d = Some (p, q)"
      "\<not> seen" "doctype_ok p" "svg_prolog True q = Some r"
    | (stop) "strip_prefix (lit ''<!--'') (trim_space s) = None" "strip_prefix (lit ''<!DOCTYPE'') (trim_space s) = None"
      "r = trim_space s"
    using 1(3) by (subst (asm) svg_prolog.simps)
      (auto simp: Let_def simp del: strip_prefix_Some split: option.splits if_splits prod.splits)
  then show ?case
  proof cases
    case comment
    obtain items v where items: "q = prolog_text items @ v @ r" "prolog_ok seen items" "spaces v" "after_prolog r"
      using 1(2) [OF refl comment] by blast
    obtain k where k: "c = k @ lit ''-->'' @ q" "ends_first (lit ''-->'') k" using comment(2) by (auto simp: after_str_Some)
    have "s = w @ item_text (Comment k) @ q" using w(2) comment(1) k(1) by auto
    then show ?thesis using items k w(1)
      by - (rule exI [of _ "(w, Comment k) # items"], rule exI [of _ v], simp add: prolog_text_def prolog_ok_def)
  next
    case doctype
    obtain items v where items: "q = prolog_text items @ v @ r" "prolog_ok True items" "spaces v" "after_prolog r"
      using 1(1) [OF refl doctype(1,2,3) refl] doctype by blast
    have p: "d = p @ 62 # q" "62 \<notin> set p" using doctype(3) by (simp_all add: split_once_Some)
    have "s = w @ item_text (Doctype p) @ q" using w(2) doctype(2) p(1) by auto
    then show ?thesis using items p w(1) doctype(4,5)
      by - (rule exI [of _ "(w, Doctype p) # items"], rule exI [of _ v], simp add: prolog_text_def prolog_ok_def)
  next
    case stop
    then show ?thesis using w
      by - (rule exI [of _ "[]"], rule exI [of _ w], simp add: prolog_text_def prolog_ok_def after_prolog_def trim_trim del: strip_prefix_Some)
  qed
qed

subsection \<open>The start tag\<close>

lemma takeWhile_stop: "list_all P n \<Longrightarrow> \<not> P x \<Longrightarrow> takeWhile P (n @ x # s) = n \<and> dropWhile P (n @ x # s) = x # s"
  by (induction n) auto

lemma name_stop:
  assumes "list_all (Not \<circ> name_end) n" "spaces b"
  shows "takeWhile (Not \<circ> name_end) (n @ b @ 61 # s) = n" "dropWhile (Not \<circ> name_end) (n @ b @ 61 # s) = b @ 61 # s"
  using assms takeWhile_stop [of "Not \<circ> name_end" n]
  by (cases b; simp add: spaces_def name_end_def)+

lemma svg_tag_attribute:
  assumes "attribute_ok a"
  shows "svg_tag ns (attribute_text a @ s) = svg_tag (ns \<or> at_name a = lit ''xmlns'') s"
proof -
  note ok = assms [unfolded attribute_ok_def]
  let ?v = "at_quote a # at_value a @ at_quote a # s"
  let ?t = "at_name a @ at_before a @ 61 # at_after a @ ?v"
  obtain c n where n: "at_name a = c # n" "\<not> name_end c" using ok by (cases "at_name a") auto
  have t: "attribute_text a @ s = at_space a @ ?t" by (simp add: attribute_text_def)
  have "trim_space (at_space a @ ?t) = ?t" using ok n by (simp add: trim_spaces trim_stop name_end_def)
  moreover have "\<not> (starts_with_char (\<lambda>c. c = 62) ?t \<or> strip_prefix (lit ''/>'') ?t \<noteq> None)"
    using n by (auto simp: starts_with_char_def name_end_def lit_def)
  moreover have "takeWhile (Not \<circ> name_end) ?t = at_name a"
    "trim_space (dropWhile (Not \<circ> name_end) ?t) = 61 # at_after a @ ?v"
    using ok name_stop [of "at_name a" "at_before a"] by (simp_all add: trim_spaces trim_stop is_xml_space_def)
  moreover have "trim_space (at_after a @ ?v) = ?v" using ok by (auto simp: trim_spaces trim_stop is_xml_space_def)
  moreover have "split_once (at_quote a) (at_value a @ at_quote a # s) = Some (at_value a, s)"
    using ok by (simp add: split_once_Some)
  ultimately show ?thesis unfolding t using ok
    by (subst svg_tag.simps) (simp del: strip_prefix_Some)
qed

lemma svg_tag_complete:
  "list_all attribute_ok as \<Longrightarrow> tag_close close
    \<Longrightarrow> svg_tag ns (attributes_text as @ close) \<longleftrightarrow> ns \<or> lit ''xmlns'' \<in> at_name ` set as"
proof (induction as arbitrary: ns)
  case Nil
  then show ?case by (subst svg_tag.simps) (simp add: attributes_text_def tag_close_def Let_def)
next
  case (Cons a as)
  then show ?case using svg_tag_attribute [of a ns "attributes_text as @ close"] by (auto simp: attributes_text_def)
qed

lemma svg_tag_sound:
  "svg_tag ns s \<Longrightarrow> \<exists>as close. s = attributes_text as @ close \<and> list_all attribute_ok as \<and> tag_close close
     \<and> (ns \<or> lit ''xmlns'' \<in> at_name ` set as)"
proof (induction ns s rule: svg_tag.induct)
  case (1 ns s)
  let ?t = "trim_space s"
  show ?case
  proof (cases "starts_with_char (\<lambda>c. c = 62) ?t \<or> strip_prefix (lit ''/>'') ?t \<noteq> None")
    case True
    then have ns using 1(2) by (subst (asm) svg_tag.simps) (simp add: Let_def)
    then show ?thesis using True
      by - (rule exI [of _ "[]"], rule exI [of _ s], simp add: attributes_text_def tag_close_def del: strip_prefix_Some)
  next
    case False
    define name where "name = takeWhile (Not \<circ> name_end) ?t"
    obtain v0 q v1 v tag where p: "trim_space (dropWhile (Not \<circ> name_end) ?t) = 61 # v0" "trim_space v0 = q # v1"
      "q = 34 \<or> q = 39" "split_once q v1 = Some (v, tag)" "name \<noteq> []" "name = lit ''xmlns'' \<longrightarrow> v = SVG_NAMESPACE"
      "svg_tag (ns \<or> name = lit ''xmlns'') tag"
      using 1(2) False by (subst (asm) svg_tag.simps)
        (auto simp: Let_def name_def simp del: strip_prefix_Some split: list.splits if_splits option.splits)
    have "\<exists>as close. tag = attributes_text as @ close \<and> list_all attribute_ok as \<and> tag_close close
        \<and> ((ns \<or> name = lit ''xmlns'') \<or> lit ''xmlns'' \<in> at_name ` set as)"
      by (rule 1(1) [OF refl False name_def p(1) _ p(2) _ p(4) refl]) (use p in auto)
    then obtain as close where as: "tag = attributes_text as @ close" "list_all attribute_ok as" "tag_close close"
      "ns \<or> name = lit ''xmlns'' \<or> lit ''xmlns'' \<in> at_name ` set as" by blast
    obtain w where w: "spaces w" "s = w @ ?t" using trim_split by blast
    obtain b where b: "spaces b" "dropWhile (Not \<circ> name_end) ?t = b @ 61 # v0" using trim_split p(1) by metis
    obtain e where e: "spaces e" "v0 = e @ q # v1" using trim_split p(2) by metis
    have v1: "v1 = v @ q # tag" "q \<notin> set v" using p(4) by (simp_all add: split_once_Some)
    have t: "?t = name @ b @ 61 # v0" using b(2) by (metis name_def takeWhile_dropWhile_id)
    let ?a = "\<lparr> at_space = w, at_name = name, at_before = b, at_after = e, at_quote = q, at_value = v \<rparr>"
    have "s = attribute_text ?a @ tag" using w(2) t e(2) v1(1) by (simp add: attribute_text_def)
    moreover have "attribute_ok ?a" using w b e v1 p
      by (auto simp: attribute_ok_def name_def list_all_iff dest: set_takeWhileD)
    ultimately show ?thesis using as
      by - (rule exI [of _ "?a # as"], rule exI [of _ close], auto simp: attributes_text_def)
  qed
qed


subsection \<open>Equivalence with the grammar\<close>

lemma strip_prefix_self: "strip_prefix p (p @ s) = Some s" by simp

lemma xml_declaration_iff:
  "xml_declaration s = Some r \<longleftrightarrow>
     (\<exists>d. s = lit ''<?xml'' @ d @ lit ''?>'' @ r \<and> starts_with_char is_xml_space (d @ lit ''?>'' @ r) \<and> ends_first (lit ''?>'') d)
     \<or> (strip_prefix (lit ''<?xml'') s = None \<and> r = s)"
proof (cases "strip_prefix (lit ''<?xml'') s")
  case None
  then have "s \<noteq> lit ''<?xml'' @ d" for d by (metis option.distinct(1) strip_prefix_self)
  then show ?thesis using None by (auto simp: xml_declaration_def)
next
  case (Some d)
  then have "s = lit ''<?xml'' @ d" by simp
  then show ?thesis using Some by (auto simp: xml_declaration_def after_str_Some simp del: strip_prefix_Some)
qed

lemma declaration_space:
  "starts_with_char is_xml_space (d @ lit ''?>'' @ r) \<longleftrightarrow> starts_with_char is_xml_space d"
  by (cases d) (simp_all add: starts_with_char_def lit_def is_xml_space_def)

text \<open>What follows the byte-order mark and the declaration starts with white space or a tag, so neither is mistaken.\<close>

lemma body_head:
  assumes "prolog_ok False items" "spaces w"
  shows "\<exists>c s. prolog_text items @ w @ lit ''<svg'' @ t = c # s \<and> c \<noteq> 0xFEFF
    \<and> strip_prefix (lit ''<?xml'') (prolog_text items @ w @ lit ''<svg'' @ t) = None"
proof -
  have head: "\<exists>c r. v @ lit ''<'' @ x # s = c # r \<and> c \<noteq> 0xFEFF \<and> strip_prefix (lit ''<?xml'') (v @ lit ''<'' @ x # s) = None"
    if "spaces v" "x \<noteq> 63" for v x s
    using that by (cases v) (auto simp: lit_def spaces_def is_xml_space_def)
  show ?thesis
  proof (cases items)
    case Nil
    then show ?thesis using head [OF assms(2), of 115] by (simp add: prolog_text_def lit_def)
  next
    case (Cons wi rest)
    obtain v i where wi: "wi = (v, i)" by fastforce
    have v: "spaces v" using assms(1) by (simp add: prolog_ok_def Cons wi)
    show ?thesis using head [OF v, of 33] by (cases i) (simp_all add: Cons wi prolog_text_def lit_def)
  qed
qed

lemma attributes_head:
  assumes "list_all attribute_ok as" "tag_close close"
  shows "starts_with_char (\<lambda>c. is_xml_space c \<or> c = 62 \<or> c = 47) (attributes_text as @ close) \<longleftrightarrow> (as \<noteq> [] \<longrightarrow> at_space (hd as) \<noteq> [])"
proof (cases as)
  case Nil
  obtain w where "spaces w" "close = w @ trim_space close" using trim_split by blast
  then have "starts_with_char (\<lambda>c. is_xml_space c \<or> c = 62 \<or> c = 47) close"
    using assms(2) by (cases w) (auto simp: starts_with_char_def tag_close_def lit_def spaces_def split: list.splits)
  then show ?thesis using Nil by (simp add: attributes_text_def)
next
  case (Cons a bs)
  then show ?thesis using assms(1)
    by (cases "at_space a"; cases "at_name a")
      (auto simp: attributes_text_def attribute_text_def starts_with_char_def attribute_ok_def spaces_def name_end_def)
qed

lemma svg_grammar_iff:
  "svg_grammar t \<longleftrightarrow> (\<exists>rest p tag. rest = (case strip_prefix [0xFEFF] t of Some r \<Rightarrow> r | None \<Rightarrow> t)
     \<and> xml_declaration rest = Some p \<and> svg_prolog False p = Some (lit ''<svg'' @ tag)
     \<and> starts_with_char (\<lambda>c. is_xml_space c \<or> c = 62 \<or> c = 47) tag \<and> svg_tag False tag)"
  (is "_ \<longleftrightarrow> ?scan")
proof
  assume "svg_grammar t"
  then obtain bom decl items w as close where t: "t = bom @ decl @ prolog_text items @ w @ lit ''<svg'' @ attributes_text as @ close"
    and bom: "bom = [] \<or> bom = [0xFEFF]"
    and decl: "decl = [] \<or> (\<exists>d. decl = lit ''<?xml'' @ d @ lit ''?>'' \<and> starts_with_char is_xml_space d \<and> ends_first (lit ''?>'') d)"
    and pro: "prolog_ok False items" "spaces w"
    and as: "list_all attribute_ok as" "as \<noteq> [] \<longrightarrow> at_space (hd as) \<noteq> []" "tag_close close" "lit ''xmlns'' \<in> at_name ` set as"
    unfolding svg_grammar_def by blast
  let ?tag = "attributes_text as @ close" and ?p = "prolog_text items @ w @ lit ''<svg'' @ attributes_text as @ close"
  obtain c s where p: "?p = c # s" "c \<noteq> 0xFEFF" "strip_prefix (lit ''<?xml'') ?p = None"
    using body_head [OF pro] by blast
  have "(case strip_prefix [0xFEFF] t of Some r \<Rightarrow> r | None \<Rightarrow> t) = decl @ ?p"
    using bom decl p(2) unfolding t p(1) by (auto simp: lit_def)
  moreover have "xml_declaration (decl @ ?p) = Some ?p"
    using decl p(3) unfolding xml_declaration_iff by (auto simp: declaration_space simp del: strip_prefix_Some)
  moreover have "svg_prolog False ?p = Some (lit ''<svg'' @ ?tag)"
    using svg_prolog_complete [OF pro(1), of "w @ lit ''<svg'' @ ?tag"] svg_prolog_stop [OF pro(2), of "lit ''<svg'' @ ?tag"]
    by (auto simp: after_prolog_def lit_def trim_stop is_xml_space_def)
  ultimately show ?scan using attributes_head [OF as(1,3)] svg_tag_complete [OF as(1,3), of False] as(2,4) by auto
next
  assume ?scan
  then obtain rest p tag where r: "rest = (case strip_prefix [0xFEFF] t of Some r \<Rightarrow> r | None \<Rightarrow> t)"
    "xml_declaration rest = Some p" "svg_prolog False p = Some (lit ''<svg'' @ tag)"
    "starts_with_char (\<lambda>c. is_xml_space c \<or> c = 62 \<or> c = 47) tag" "svg_tag False tag" by blast
  obtain bom where bom: "t = bom @ rest" "bom = [] \<or> bom = [0xFEFF]"
    using r(1) by (cases "strip_prefix [0xFEFF] t") auto
  obtain decl where decl: "rest = decl @ p"
    "decl = [] \<or> (\<exists>d. decl = lit ''<?xml'' @ d @ lit ''?>'' \<and> starts_with_char is_xml_space d \<and> ends_first (lit ''?>'') d)"
    using r(2) unfolding xml_declaration_iff by (auto simp: declaration_space simp del: strip_prefix_Some)
  obtain items w where pro: "p = prolog_text items @ w @ lit ''<svg'' @ tag" "prolog_ok False items" "spaces w"
    using svg_prolog_sound [OF r(3)] by blast
  obtain as close where as: "tag = attributes_text as @ close" "list_all attribute_ok as" "tag_close close"
    "lit ''xmlns'' \<in> at_name ` set as" using svg_tag_sound [OF r(5)] by blast
  show "svg_grammar t" unfolding svg_grammar_def
    using bom decl pro as attributes_head [OF as(2,3)] r(4)
    by (intro exI [where x = bom] exI [where x = decl] exI [where x = items] exI [where x = w] exI [where x = as] exI [where x = close] conjI) simp_all
qed

text \<open>
  C27: SVG detection implements a grammar. A text is taken for an SVG document exactly when its first
  64 KiB, cut on a character boundary, consist of an optional byte-order mark, an optional XML
  declaration, comments and at most one doctype that names \<open>svg\<close> and has no internal subset, and
  a start tag \<open>svg\<close> with well-formed quoted attributes, of which \<open>xmlns\<close> occurs and is always the SVG
  namespace. Every other text, such as one with another processing instruction or a prefixed root, is refused.
\<close>

theorem svg_document_grammar:
  "is_svg_document t \<longleftrightarrow> svg_grammar (truncate_str SIGNATURE_HEADER_BYTES t)"
proof -
  let ?t = "truncate_str SIGNATURE_HEADER_BYTES t"
  define rest where "rest = (case strip_prefix [0xFEFF] ?t of Some r \<Rightarrow> r | None \<Rightarrow> ?t)"
  have "svg_grammar ?t \<longleftrightarrow> (\<exists>p tag. xml_declaration rest = Some p \<and> svg_prolog False p = Some (lit ''<svg'' @ tag)
     \<and> starts_with_char (\<lambda>c. is_xml_space c \<or> c = 62 \<or> c = 47) tag \<and> svg_tag False tag)"
    unfolding svg_grammar_iff rest_def by blast
  also have "\<dots> \<longleftrightarrow> is_svg_document t"
    unfolding is_svg_document_def Let_def rest_def [symmetric]
    by (auto simp: bind_eq_Some_conv strip_prefix_self simp del: strip_prefix_Some split: option.splits)
      (simp_all add: strip_prefix_self)
  finally show ?thesis by simp
qed

end
