(* ===== verification/Downscale.thy ===== *)
theory Downscale
  imports Tiff
begin

text \<open>
  The pixel work of \<open>thumbnail/decode.rs\<close>: the planner that reads headers and bounds memory, the
  streaming box downscaler, and the EXIF orientation. The decoders and encoders are third-party
  code; what they deliver is an argument. The theory shows that the downscaler computes the
  alpha-weighted area average of the source, row by row, that no cast truncates, that an orientation is undone
  by its inverse, and that a plan respects the pixel cap with an estimate that cannot overflow.
\<close>

unbundle bit_operations_syntax

subsection \<open>The downscaler\<close>

text \<open>
  Pixels are quadruples of red, green, blue and alpha; the flat buffers of the code are lists of such groups of four.
\<close>

type_synonym rgba = "nat \<times> nat \<times> nat \<times> nat"

datatype Layout = Gray | GrayAlpha | Rgb | Rgba | Cmyk

fun channels :: "Layout \<Rightarrow> nat" where
  "channels Gray = 1"
| "channels GrayAlpha = 2"
| "channels Rgb = 3"
| "channels Rgba = 4"
| "channels Cmyk = 4"

record Downscaler =
  ds_source_width :: nat
  ds_source_height :: nat
  ds_out_width :: nat
  ds_out_height :: nat
  ds_column :: "nat list"
  ds_column_count :: "nat list"
  ds_sums :: "rgba list"
  ds_rows_in_current :: nat
  ds_current_row :: nat
  ds_rows_seen :: nat
  ds_output :: "rgba list"
  ds_opaque :: bool

definition Downscaler_new :: "nat \<Rightarrow> nat \<Rightarrow> nat \<Rightarrow> nat \<Rightarrow> Downscaler" where
  "Downscaler_new source_width source_height out_width out_height =
     (let column = map (\<lambda>x. x * out_width div source_width) [0..<source_width] in
      \<lparr> ds_source_width = source_width, ds_source_height = source_height, ds_out_width = out_width,
        ds_out_height = out_height, ds_column = column,
        ds_column_count = fold (\<lambda>t n. n[t := n ! t + 1]) column (replicate out_width 0),
        ds_sums = replicate out_width (0, 0, 0, 0), ds_rows_in_current = 0, ds_current_row = 0, ds_rows_seen = 0,
        ds_output = replicate (out_width * out_height) (0, 0, 0, 0), ds_opaque = True \<rparr>)"

definition cmyk_channel :: "nat \<Rightarrow> nat \<Rightarrow> nat" where
  "cmyk_channel key v = (v * key + 127) div 255 mod 256"

definition to_rgba :: "Layout \<Rightarrow> bytes \<Rightarrow> rgba" where
  "to_rgba layout pixel =
     (let p = (\<lambda>i. unat (pixel ! i)) in
      case layout of
        Gray \<Rightarrow> (p 0, p 0, p 0, 255)
      | GrayAlpha \<Rightarrow> (p 0, p 0, p 0, p 1)
      | Rgb \<Rightarrow> (p 0, p 1, p 2, 255)
      | Rgba \<Rightarrow> (p 0, p 1, p 2, p 3)
      | Cmyk \<Rightarrow> (cmyk_channel (p 3) (p 0), cmyk_channel (p 3) (p 1), cmyk_channel (p 3) (p 2), 255))"

fun add_weighted :: "rgba \<Rightarrow> rgba \<Rightarrow> rgba" where
  "add_weighted (s0, s1, s2, s3) (red, green, blue, alpha) =
     (s0 + red * alpha, s1 + green * alpha, s2 + blue * alpha, s3 + alpha)"

text \<open>One output pixel: the casts to \<open>u8\<close> keep the low byte.\<close>

definition flush_pixel :: "rgba \<Rightarrow> nat \<Rightarrow> rgba option" where
  "flush_pixel sums n =
     (case sums of (s0, s1, s2, s3) \<Rightarrow>
        if s3 = 0 \<or> n = 0 then None
        else Some ((s0 + s3 div 2) div s3 mod 256, (s1 + s3 div 2) div s3 mod 256, (s2 + s3 div 2) div s3 mod 256,
                   (s3 + n div 2) div n mod 256))"

definition flush_column :: "nat \<Rightarrow> Downscaler \<Rightarrow> Downscaler" where
  "flush_column c d =
     (let i = ds_current_row d * ds_out_width d + c;
          n = ds_column_count d ! c * ds_rows_in_current d
      in
      (case flush_pixel (ds_sums d ! c) n of
         None \<Rightarrow> d\<lparr>ds_output := (ds_output d)[i := (0, 0, 0, 0)], ds_opaque := False\<rparr>
       | Some p \<Rightarrow> d\<lparr>ds_output := (ds_output d)[i := p], ds_opaque := ds_opaque d \<and> snd (snd (snd p)) = 255\<rparr>)
      \<lparr>ds_sums := (ds_sums d)[c := (0, 0, 0, 0)]\<rparr>)"

definition Downscaler_flush :: "Downscaler \<Rightarrow> Downscaler" where
  "Downscaler_flush d =
     (if ds_rows_in_current d = 0 then d
      else (fold flush_column [0..<ds_out_width d] d)\<lparr>ds_rows_in_current := 0\<rparr>)"

definition push_pixels :: "(rgba \<times> nat) list \<Rightarrow> rgba list \<Rightarrow> rgba list" where
  "push_pixels = fold (\<lambda>(p, out) s. s[out := add_weighted (s ! out) p])"

definition Downscaler_push :: "Layout \<Rightarrow> bytes \<Rightarrow> Downscaler \<Rightarrow> ThumbnailError + Downscaler" where
  "Downscaler_push layout row d =
     (if ds_source_height d \<le> ds_rows_seen d \<or> length row < ds_source_width d * channels layout then Err ThumbCorrupt
      else
        let target = ds_rows_seen d * ds_out_height d div ds_source_height d;
            d = (if target \<noteq> ds_current_row d then (Downscaler_flush d)\<lparr>ds_current_row := target\<rparr> else d)
        in Ok (d\<lparr>ds_sums := push_pixels (zip (map (to_rgba layout) (chunks_exact (channels layout) row)) (ds_column d)) (ds_sums d),
                 ds_rows_in_current := ds_rows_in_current d + 1, ds_rows_seen := ds_rows_seen d + 1\<rparr>))"

definition Downscaler_finish :: "Downscaler \<Rightarrow> ThumbnailError + (rgba list \<times> bool)" where
  "Downscaler_finish d =
     (let d = Downscaler_flush d in
      if ds_rows_seen d \<noteq> ds_source_height d then Err ThumbCorrupt else Ok (ds_output d, ds_opaque d))"

text \<open>The loop of \<open>render\<close>: every line is pushed, then the downscaler is finished.\<close>

definition scale_rows :: "Layout \<Rightarrow> bytes list \<Rightarrow> Downscaler \<Rightarrow> ThumbnailError + (rgba list \<times> bool)" where
  "scale_rows layout rows d = and_then (fold_res (Downscaler_push layout) rows d) Downscaler_finish"

subsection \<open>Orientation\<close>

definition orient_target :: "nat \<Rightarrow> nat \<Rightarrow> nat \<Rightarrow> nat \<Rightarrow> nat \<Rightarrow> nat \<times> nat" where
  "orient_target orientation w h x y =
     (if orientation = 2 then (w - 1 - x, y)
      else if orientation = 3 then (w - 1 - x, h - 1 - y)
      else if orientation = 4 then (x, h - 1 - y)
      else if orientation = 5 then (y, x)
      else if orientation = 6 then (h - 1 - y, x)
      else if orientation = 7 then (h - 1 - y, w - 1 - x)
      else (y, w - 1 - x))"

definition orient :: "rgba list \<Rightarrow> nat \<Rightarrow> nat \<Rightarrow> nat \<Rightarrow> rgba list \<times> nat \<times> nat" where
  "orient rgba w h orientation =
     (if \<not> (2 \<le> orientation \<and> orientation \<le> 8) then (rgba, w, h)
      else
        let (new_width, new_height) = (if 5 \<le> orientation then (h, w) else (w, h)) in
        (fold (\<lambda>y. fold (\<lambda>x output.
            let (dx, dy) = orient_target orientation w h x y in
            output[dy * new_width + dx := rgba ! (y * w + x)]) [0..<w]) [0..<h]
           (replicate (length rgba) (0, 0, 0, 0)),
         new_width, new_height))"

subsection \<open>Planning\<close>

definition MAX_SOURCE_BYTES :: nat where "MAX_SOURCE_BYTES = 100 * 1024 * 1024"
definition MAX_WEBP_CHUNKS :: nat where "MAX_WEBP_CHUNKS = 10000"
definition FIXED_OVERHEAD :: nat where "FIXED_OVERHEAD = 2 * 1024 * 1024"
definition PNG_ANCILLARY_LIMIT :: nat where "PNG_ANCILLARY_LIMIT = 1024 * 1024"
definition WEBP_METADATA_LIMIT :: nat where "WEBP_METADATA_LIMIT = 1024 * 1024"

datatype SourceKind = JpegSource | PngSource | GifSource | WebPSource | RawSource

record PngHeader =
  ph_width :: nat
  ph_height :: nat
  ph_bits_per_pixel :: nat
  ph_interlaced :: bool

datatype Codec = CJpeg JpegHeader nat | CPng PngHeader | CGif | CWebP

record Plan =
  pl_kind :: SourceKind
  pl_codec :: Codec
  pl_window_start :: nat
  pl_window_len :: nat
  pl_width :: nat
  pl_height :: nat
  pl_out_width :: nat
  pl_out_height :: nat
  pl_orientation :: nat
  pl_long_edge :: nat
  pl_estimate :: nat

definition div_ceil :: "nat \<Rightarrow> nat \<Rightarrow> nat" where
  "div_ceil a b = (a + b - 1) div b"

definition output_size :: "nat \<Rightarrow> nat \<Rightarrow> nat \<Rightarrow> nat \<times> nat" where
  "output_size width height long_edge =
     (let longest = max width height in
      if longest \<le> long_edge then (width, height)
      else
        let scale = (\<lambda>side.
              let scaled = max ((side * long_edge + longest div 2) div longest) 1
              in if scaled < 2 ^ 32 then scaled else long_edge)
        in (scale width, scale height))"

definition check_pixels :: "nat \<Rightarrow> nat \<Rightarrow> ThumbnailError + unit" where
  "check_pixels width height =
     (if width = 0 \<or> height = 0 then Err ThumbCorrupt
      else if MAX_IMAGE_PIXELS < width * height then Err ThumbTooLarge
      else Ok ())"

definition jpeg_scale :: "nat \<Rightarrow> nat \<Rightarrow> nat \<Rightarrow> nat \<Rightarrow> nat" where
  "jpeg_scale width height out_width out_height =
     (case List.find (\<lambda>scale. out_width \<le> div_ceil width scale \<and> out_height \<le> div_ceil height scale) [8, 4, 2] of
        Some scale \<Rightarrow> scale | None \<Rightarrow> 1)"

text \<open>The estimates in exact arithmetic; \<open>plan_bounded\<close> shows that nothing exceeds 64 bits.\<close>

definition jpeg_decode_estimate :: "JpegHeader \<Rightarrow> nat \<Rightarrow> nat \<Rightarrow> nat" where
  "jpeg_decode_estimate header scale stream_len =
     (let padded_width = jh_width header + 64;
          padded_height = jh_height header + 64;
          scaled = div_ceil padded_width scale * div_ceil padded_height scale;
          components = jh_components header;
          planes = components * scaled;
          out = components * scaled;
          coefficients = (if jh_progressive header then components * padded_width * padded_height * 2 else 0);
          mcu_rows = components * padded_width * 32 * 2 * 2
      in planes + out + coefficients + mcu_rows + stream_len)"

definition jpeg_output_reserve :: "nat \<Rightarrow> nat \<Rightarrow> nat" where
  "jpeg_output_reserve width height = width * height + 4096"

definition encode_estimate :: "nat \<Rightarrow> nat \<Rightarrow> nat" where
  "encode_estimate width height =
     (let png = width * height * 4;
          band = div_ceil (max width height) 16 * 16 * 16 * 3;
          out = jpeg_output_reserve width height * 3
      in max png (band + out))"

definition decode_estimate :: "Plan \<Rightarrow> nat" where
  "decode_estimate p =
     (let n = pl_width p * pl_height p; width = pl_width p in
      case pl_codec p of
        CJpeg header scale \<Rightarrow> jpeg_decode_estimate header scale (pl_window_len p)
      | CPng header \<Rightarrow>
          (let raw_row = div_ceil (width * ph_bits_per_pixel header) 8 + 1;
               stream = 12 * raw_row;
               rows = 2 * width * 4;
               frame = (if ph_interlaced header then n * 4 else 0)
           in stream + rows + frame + PNG_ANCILLARY_LIMIT)
      | CGif \<Rightarrow> n * 5
      | CWebP \<Rightarrow> n * 20 + WEBP_METADATA_LIMIT)"

definition estimate :: "Plan \<Rightarrow> nat" where
  "estimate p =
     (let out_pixels = pl_out_width p * pl_out_height p;
          stage = out_pixels * 4 * 2;
          resize = pl_out_width p * (4 * 8 + 4) + pl_width p * 4
      in saturating_add 64 (saturating_add 64 (saturating_add 64 (saturating_add 64 (decode_estimate p) stage) resize)
           (encode_estimate (pl_out_width p) (pl_out_height p))) FIXED_OVERHEAD)"

definition png_header :: "reader \<Rightarrow> nat \<Rightarrow> ThumbnailError + PngHeader" where
  "png_header rd len =
     and_then (thumb_read_at rd 8 25 len) (\<lambda>ihdr.
     if sub ihdr 4 8 \<noteq> byte_lit ''IHDR'' \<or> be_nat (sub ihdr 0 4) \<noteq> 13 then Err ThumbCorrupt
     else
       let bits = unat (ihdr ! 16); kind = ihdr ! 17;
           n = (if kind = 0 \<or> kind = 3 then Some 1 else if kind = 2 then Some 3 else if kind = 4 then Some 2
                else if kind = 6 then Some 4 else None)
       in
       and_then (ok_or ThumbCorrupt n) (\<lambda>n.
         if bits \<notin> {1, 2, 4, 8, 16} then Err ThumbCorrupt
         else Ok \<lparr> ph_width = be_nat (sub ihdr 8 12), ph_height = be_nat (sub ihdr 12 16), ph_bits_per_pixel = n * bits,
                   ph_interlaced = (ihdr ! 20 \<noteq> 0) \<rparr>))"

text \<open>The chunks of a WebP file: a stack of ranges, the file first and then its animation frames.\<close>

definition consider_size :: "nat \<times> nat \<Rightarrow> nat \<Rightarrow> nat \<Rightarrow> nat \<times> nat" where
  "consider_size largest width height = (max (fst largest) width, max (snd largest) height)"

definition webp_chunk ::
  "reader \<Rightarrow> nat \<Rightarrow> nat \<Rightarrow> nat \<Rightarrow> nat \<Rightarrow> nat \<Rightarrow> bytes \<Rightarrow> (nat \<times> nat) list \<Rightarrow> nat \<times> nat
   \<Rightarrow> ThumbnailError + ((nat \<times> nat) list \<times> (nat \<times> nat))" where
  "webp_chunk rd len range_end body body_end sz kind ranges largest =
     (if kind = byte_lit ''VP8 '' then
        and_then (thumb_read_at rd body 10 len) (\<lambda>frame.
          if sub frame 3 6 \<noteq> [0x9D, 0x01, 0x2A] then Err ThumbCorrupt
          else Ok (ranges, consider_size largest (le_nat [frame ! 6, frame ! 7] mod 2 ^ 14) (le_nat [frame ! 8, frame ! 9] mod 2 ^ 14)))
      else if kind = byte_lit ''VP8L'' then
        and_then (thumb_read_at rd body 5 len) (\<lambda>frame.
          if frame ! 0 \<noteq> 0x2F then Err ThumbCorrupt
          else
            let bits = le_nat (sub frame 1 5) in
            Ok (ranges, consider_size largest (bits mod 2 ^ 14 + 1) (bits div 2 ^ 14 mod 2 ^ 14 + 1)))
      else if kind = byte_lit ''VP8X'' then
        and_then (thumb_read_at rd body 10 len) (\<lambda>canvas.
          Ok (ranges, consider_size largest (1 + le_nat (sub canvas 4 7)) (1 + le_nat (sub canvas 7 10))))
      else if kind = byte_lit ''ANMF'' \<and> 16 \<le> sz then
        and_then (thumb_read_at rd body 16 len) (\<lambda>frame.
          Ok ((body + 16, min body_end range_end) # ranges,
              consider_size largest (1 + le_nat (sub frame 6 9)) (1 + le_nat (sub frame 9 12))))
      else Ok (ranges, largest))"

function webp_range ::
  "reader \<Rightarrow> nat \<Rightarrow> nat \<Rightarrow> nat \<Rightarrow> nat \<Rightarrow> (nat \<times> nat) list \<Rightarrow> nat \<times> nat
   \<Rightarrow> ThumbnailError + (nat \<times> (nat \<times> nat) list \<times> (nat \<times> nat))" where
  "webp_range rd len position range_end chunks ranges largest =
     (if \<not> position + 8 \<le> range_end then Ok (chunks, ranges, largest)
      else
        let chunks = chunks + 1 in
        if MAX_WEBP_CHUNKS < chunks then Err ThumbUnsupported
        else (case thumb_read_at rd position 8 range_end of
            Inl e \<Rightarrow> Err e
          | Inr header \<Rightarrow>
              let sz = le_nat (sub header 4 8); body = position + 8 in
              (case checked_add64 body sz of
                 None \<Rightarrow> Err ThumbCorrupt
               | Some body_end \<Rightarrow>
                   (case webp_chunk rd len range_end body body_end sz (take 4 header) ranges largest of
                      Inl e \<Rightarrow> Err e
                    | Inr (ranges, largest) \<Rightarrow>
                        webp_range rd len (body_end + sz mod 2) range_end chunks ranges largest))))"
  by pat_completeness auto
termination
  by (relation "measure (\<lambda>(rd, len, p, e, chunks, rs, l). MAX_WEBP_CHUNKS - chunks)") auto

declare webp_range.simps [simp del]

lemma webp_range_progress:
  "webp_range rd len position range_end chunks ranges largest = Ok (n, rs, l)
    \<Longrightarrow> (chunks < n \<and> n \<le> MAX_WEBP_CHUNKS) \<or> (n = chunks \<and> rs = ranges)"
proof (induction rd len position range_end chunks ranges largest rule: webp_range.induct)
  case (1 rd len position range_end chunks ranges largest)
  show ?case
  proof (cases "position + 8 \<le> range_end")
    case True
    with 1(2) obtain header body_end rs1 l1 where s: "\<not> MAX_WEBP_CHUNKS < chunks + 1"
      "thumb_read_at rd position 8 range_end = Ok header"
      "checked_add64 (position + 8) (le_nat (sub header 4 8)) = Some body_end"
      "webp_chunk rd len range_end (position + 8) body_end (le_nat (sub header 4 8)) (take 4 header) ranges largest = Ok (rs1, l1)"
      "webp_range rd len (body_end + le_nat (sub header 4 8) mod 2) range_end (chunks + 1) rs1 l1 = Ok (n, rs, l)"
      by (subst (asm) webp_range.simps) (auto simp: Let_def split: if_splits sum.splits option.splits)
    have "(chunks + 1 < n \<and> n \<le> MAX_WEBP_CHUNKS) \<or> (n = chunks + 1 \<and> rs = rs1)"
      using True by (intro 1(1) [OF _ refl s(1,2) refl refl s(3,4) refl s(5)]) simp
    then show ?thesis using s(1) by auto
  qed (use 1(2) in \<open>simp add: webp_range.simps [of rd]\<close>)
qed

function webp_ranges ::
  "reader \<Rightarrow> nat \<Rightarrow> nat \<Rightarrow> (nat \<times> nat) list \<Rightarrow> nat \<times> nat \<Rightarrow> ThumbnailError + (nat \<times> nat)" where
  "webp_ranges rd len chunks ranges largest =
     (case ranges of
        [] \<Rightarrow> Ok largest
      | (position, range_end) # ranges \<Rightarrow>
          (case webp_range rd len position range_end chunks ranges largest of
             Inl e \<Rightarrow> Err e
           | Inr (chunks, ranges, largest) \<Rightarrow> webp_ranges rd len chunks ranges largest))"
  by pat_completeness auto
termination
  by (relation "measures [\<lambda>(rd, len, chunks, rs, l). MAX_WEBP_CHUNKS - chunks, \<lambda>(rd, len, chunks, rs, l). length rs]")
    (auto dest!: webp_range_progress)

declare webp_ranges.simps [simp del]

definition webp_dimensions :: "reader \<Rightarrow> nat \<Rightarrow> ThumbnailError + (nat \<times> nat)" where
  "webp_dimensions rd len =
     and_then (thumb_read_at rd 4 4 len) (\<lambda>riff.
     and_then (webp_ranges rd len 0 [(12, min (le_nat riff + 8) len)] (0, 0)) (\<lambda>largest.
       if fst largest = 0 \<or> snd largest = 0 then Err ThumbCorrupt else Ok largest))"

text \<open>What the signature decides: the kind, the codec, the window, the dimensions and the orientation.\<close>

type_synonym source = "SourceKind \<times> Codec \<times> nat \<times> nat \<times> nat \<times> nat \<times> nat"

definition plan_source :: "reader \<Rightarrow> nat \<Rightarrow> bytes \<Rightarrow> ThumbnailError + source" where
  "plan_source rd len signature =
     (if starts_with PNG_MAGIC signature then
        and_then (png_header rd len) (\<lambda>h. Ok (PngSource, CPng h, 0, len, ph_width h, ph_height h, 1))
      else if starts_with (byte_lit ''GIF87a'') signature \<or> starts_with (byte_lit ''GIF89a'') signature then
        and_then (thumb_read_at rd 6 4 len) (\<lambda>screen.
          Ok (GifSource, CGif, 0, len, le_nat (sub screen 0 2), le_nat (sub screen 2 4), 1))
      else if starts_with [0xFF, 0xD8, 0xFF] signature then
        and_then (jpeg_header rd 0 len) (\<lambda>h.
          Ok (JpegSource, CJpeg h 1, 0, len, jh_width h, jh_height h, (case jh_orientation h of Some v \<Rightarrow> v | None \<Rightarrow> 1)))
      else if 12 \<le> length signature \<and> starts_with (byte_lit ''RIFF'') signature \<and> sub signature 8 12 = byte_lit ''WEBP'' then
        and_then (webp_dimensions rd len) (\<lambda>(width, height). Ok (WebPSource, CWebP, 0, len, width, height, 1))
      else if is_tiff signature then
        and_then (raw_preview rd len) (\<lambda>p.
        and_then (ok_or ThumbUnsupported p) (\<lambda>p.
          Ok (RawSource, CJpeg (rp_header p) 1, rp_offset p, rp_length p, jh_width (rp_header p), jh_height (rp_header p),
              rp_orientation p)))
      else Err ThumbUnsupported)"

definition plan :: "reader \<Rightarrow> nat \<Rightarrow> nat \<Rightarrow> ThumbnailError + Plan" where
  "plan rd len long_edge =
     (if MAX_SOURCE_BYTES < len then Err ThumbTooLarge
      else
        and_then (thumb_read_at rd 0 (min len 16) len) (\<lambda>signature.
        and_then (plan_source rd len signature) (\<lambda>(kind, codec, window_start, window_len, width, height, orientation).
        and_then (check_pixels width height) (\<lambda>_.
          let (out_width, out_height) = output_size width height long_edge;
              codec = (case codec of CJpeg h _ \<Rightarrow> CJpeg h (jpeg_scale width height out_width out_height) | c \<Rightarrow> c);
              p = \<lparr> pl_kind = kind, pl_codec = codec, pl_window_start = window_start, pl_window_len = window_len,
                    pl_width = width, pl_height = height, pl_out_width = out_width, pl_out_height = out_height,
                    pl_orientation = orientation, pl_long_edge = long_edge, pl_estimate = 0 \<rparr>
          in Ok (p\<lparr>pl_estimate := estimate p\<rparr>)))))"

text \<open>
  The tail of \<open>render\<close>, for a decoder that delivered lines of the given size and layout: the size is
  checked against the plan, the lines are downscaled, and the result is oriented.
\<close>

definition downscaler_for :: "Plan \<Rightarrow> nat \<Rightarrow> nat \<Rightarrow> ThumbnailError + Downscaler" where
  "downscaler_for p width height =
     (if width = 0 \<or> height = 0 \<or> pl_width p * pl_height p < width * height then Err ThumbCorrupt
      else
        let (out_width, out_height) =
              (case pl_codec p of
                 CJpeg _ _ \<Rightarrow> (min (pl_out_width p) width, min (pl_out_height p) height)
               | _ \<Rightarrow> output_size width height (pl_long_edge p))
        in Ok (Downscaler_new width height out_width out_height))"

definition render_decoded ::
  "Plan \<Rightarrow> nat \<Rightarrow> nat \<Rightarrow> Layout \<Rightarrow> bytes list \<Rightarrow> ThumbnailError + ((rgba list \<times> nat \<times> nat) \<times> bool)" where
  "render_decoded p width height layout rows =
     and_then (downscaler_for p width height) (\<lambda>d.
     and_then (scale_rows layout rows d) (\<lambda>(rgba, opaque).
       Ok (orient rgba (ds_out_width d) (ds_out_height d) (pl_orientation p), opaque)))"

subsection \<open>The area average\<close>

text \<open>The reference: the alpha-weighted average of a block of pixels, rounded to nearest.\<close>

definition block_sum :: "(rgba \<Rightarrow> nat) \<Rightarrow> rgba list \<Rightarrow> nat" where
  "block_sum f xs = sum_list (map f xs)"

definition area_average :: "rgba list \<Rightarrow> rgba" where
  "area_average xs =
     (let a = block_sum (\<lambda>(_, _, _, a). a) xs;
          mean = (\<lambda>s. (s + a div 2) div a)
      in if a = 0 then (0, 0, 0, 0)
         else (mean (block_sum (\<lambda>(r, _, _, a). r * a) xs), mean (block_sum (\<lambda>(_, g, _, a). g * a) xs),
               mean (block_sum (\<lambda>(_, _, b, a). b * a) xs), (a + length xs div 2) div length xs))"

definition row_pixel :: "Layout \<Rightarrow> bytes \<Rightarrow> nat \<Rightarrow> rgba" where
  "row_pixel layout row x = to_rgba layout (take (channels layout) (drop (x * channels layout) row))"

text \<open>The source pixels of one output pixel: those whose scaled coordinates round down to it.\<close>

definition block_row :: "Layout \<Rightarrow> bytes \<Rightarrow> nat \<Rightarrow> nat \<Rightarrow> nat \<Rightarrow> rgba list" where
  "block_row layout row sw ow X = map (row_pixel layout row) (filter (\<lambda>x. x * ow div sw = X) [0..<sw])"

definition block :: "Layout \<Rightarrow> bytes list \<Rightarrow> nat \<Rightarrow> nat \<Rightarrow> nat \<Rightarrow> nat \<Rightarrow> nat \<Rightarrow> nat \<Rightarrow> nat \<Rightarrow> rgba list" where
  "block layout rows sw sh ow oh k X Y =
     concat (map (\<lambda>y. block_row layout (rows ! y) sw ow X) (filter (\<lambda>y. y * oh div sh = Y) [0..<k]))"

subsection \<open>Sums of pixels\<close>

definition total :: "rgba list \<Rightarrow> rgba" where
  "total = foldl add_weighted (0, 0, 0, 0)"

lemma total_sums:
  "total xs = (block_sum (\<lambda>(r, _, _, a). r * a) xs, block_sum (\<lambda>(_, g, _, a). g * a) xs,
     block_sum (\<lambda>(_, _, b, a). b * a) xs, block_sum (\<lambda>(_, _, _, a). a) xs)"
  by (induction xs rule: rev_induct) (auto simp: total_def block_sum_def)

definition byte_pixel :: "rgba \<Rightarrow> bool" where
  "byte_pixel p = (case p of (r, g, b, a) \<Rightarrow> r < 256 \<and> g < 256 \<and> b < 256 \<and> a < 256)"

lemma byte_pixel_to_rgba: "byte_pixel (to_rgba layout pixel)"
  using unat_u8 by (auto simp: byte_pixel_def to_rgba_def cmyk_channel_def Let_def split: Layout.splits)

lemma block_sum_weighted:
  assumes "\<forall>p \<in> set xs. byte_pixel p"
    and "f = (\<lambda>(r, _, _, a). r * a) \<or> f = (\<lambda>(_, g, _, a). g * a) \<or> f = (\<lambda>(_, _, b, a). b * a)"
  shows "block_sum f xs \<le> 255 * block_sum (\<lambda>(_, _, _, a). a) xs"
proof -
  have le: "f p \<le> 255 * (case p of (_, _, _, a) \<Rightarrow> a)" if "byte_pixel p" for p
    using that assms(2) by (cases p) (auto simp: byte_pixel_def)
  show ?thesis using assms(1)
  proof (induction xs)
    case (Cons p xs)
    then show ?case using le [of p] by (auto simp: block_sum_def distrib_left)
  qed (simp add: block_sum_def)
qed

lemma block_sum_alpha: "\<forall>p \<in> set xs. byte_pixel p \<Longrightarrow> block_sum (\<lambda>(_, _, _, a). a) xs \<le> 255 * length xs"
proof (induction xs)
  case (Cons p xs)
  then show ?case by (cases p) (auto simp: block_sum_def byte_pixel_def)
qed (simp add: block_sum_def)

lemma rounded_mean_byte: "s \<le> 255 * n \<Longrightarrow> 0 < n \<Longrightarrow> (s + n div 2) div n < (256 :: nat)"
  by (rule less_mult_imp_div_less) linarith

text \<open>No cast of the flush truncates: an average of bytes is a byte.\<close>

lemma flush_pixel_average:
  assumes "\<forall>p \<in> set xs. byte_pixel p" "xs \<noteq> []"
  shows "(case flush_pixel (total xs) (length xs) of None \<Rightarrow> (0, 0, 0, 0) | Some p \<Rightarrow> p) = area_average xs"
proof -
  let ?a = "block_sum (\<lambda>(_, _, _, a). a) xs"
  have n: "0 < length xs" using assms(2) by simp
  show ?thesis
  proof (cases "?a = 0")
    case False
    then show ?thesis
      using rounded_mean_byte [OF block_sum_weighted [OF assms(1)]] rounded_mean_byte [OF block_sum_alpha [OF assms(1)] n] n
      by (simp add: flush_pixel_def total_sums area_average_def Let_def)
  qed (simp add: flush_pixel_def total_sums area_average_def Let_def)
qed

subsection \<open>The pixels of a row\<close>

lemma length_chunks_exact: "0 < n \<Longrightarrow> length (chunks_exact n xs) = length xs div n"
proof (induction n xs rule: chunks_exact.induct)
  case (2 n xs)
  then show ?case by (auto simp: le_div_geq not_less)
qed simp

lemma chunks_exact_nth: "0 < n \<Longrightarrow> i < length xs div n \<Longrightarrow> chunks_exact n xs ! i = take n (drop (i * n) xs)"
proof (induction n xs arbitrary: i rule: chunks_exact.induct)
  case (2 n xs)
  show ?case
  proof (cases "length xs < Suc n")
    case False
    show ?thesis
    proof (cases i)
      case (Suc j)
      have j: "j < length (drop (Suc n) xs) div Suc n"
        using "2.prems"(2) False Suc by (simp add: le_div_geq not_less)
      show ?thesis using "2.IH" [OF False _ j] False Suc by (simp add: ac_simps)
    qed (use False in simp)
  qed (use "2.prems" in simp)
qed simp

lemma zip_row:
  assumes "sw * channels layout \<le> length row"
  shows "zip (map (to_rgba layout) (chunks_exact (channels layout) row)) (map c [0..<sw])
    = map (\<lambda>x. (row_pixel layout row x, c x)) [0..<sw]"
proof (rule nth_equalityI)
  have ch: "0 < channels layout" by (cases layout) auto
  have le: "sw \<le> length row div channels layout"
    using assms ch by (simp add: less_eq_div_iff_mult_less_eq)
  then show "length (zip (map (to_rgba layout) (chunks_exact (channels layout) row)) (map c [0..<sw]))
      = length (map (\<lambda>x. (row_pixel layout row x, c x)) [0..<sw])"
    by (simp add: length_chunks_exact [OF ch])
  fix i assume "i < length (zip (map (to_rgba layout) (chunks_exact (channels layout) row)) (map c [0..<sw]))"
  then show "zip (map (to_rgba layout) (chunks_exact (channels layout) row)) (map c [0..<sw]) ! i
      = map (\<lambda>x. (row_pixel layout row x, c x)) [0..<sw] ! i"
    using le by (simp add: length_chunks_exact [OF ch] chunks_exact_nth [OF ch] row_pixel_def)
qed

lemma length_push_pixels [simp]: "length (push_pixels zs s) = length s"
  unfolding push_pixels_def by (induction zs arbitrary: s) (auto split: prod.splits)

lemma push_pixels_nth:
  "X < length s \<Longrightarrow> push_pixels zs s ! X = foldl add_weighted (s ! X) (map fst (filter (\<lambda>z. snd z = X) zs))"
proof (induction zs arbitrary: s)
  case (Cons z zs)
  obtain p c where z: "z = (p, c)" by fastforce
  show ?case using Cons.IH [of "s[c := add_weighted (s ! c) p]"] Cons.prems
    by (simp add: push_pixels_def z nth_list_update)
qed (simp add: push_pixels_def)

lemma push_row_nth:
  assumes "sw * channels layout \<le> length row" "X < length s"
  shows "push_pixels (zip (map (to_rgba layout) (chunks_exact (channels layout) row)) (map (\<lambda>x. x * ow div sw) [0..<sw])) s ! X
    = foldl add_weighted (s ! X) (block_row layout row sw ow X)"
  unfolding zip_row [OF assms(1)] push_pixels_nth [OF assms(2)] block_row_def
  by (simp add: filter_map o_def)

lemma count_columns:
  "X < length n \<Longrightarrow> fold (\<lambda>t n. n[t := Suc (n ! t)]) cs n ! X = n ! X + length (filter (\<lambda>c. c = X) cs)"
  by (induction cs arbitrary: n) (auto simp: nth_list_update)

lemma length_count_columns: "length (fold (\<lambda>t n. n[t := Suc (n ! t)]) cs n) = length n"
  by (induction cs arbitrary: n) auto

subsection \<open>Flushing a row\<close>

definition flushed :: "Downscaler \<Rightarrow> nat \<Rightarrow> rgba" where
  "flushed d c =
     (case flush_pixel (ds_sums d ! c) (ds_column_count d ! c * ds_rows_in_current d) of
        None \<Rightarrow> (0, 0, 0, 0) | Some p \<Rightarrow> p)"

definition same_frame :: "Downscaler \<Rightarrow> Downscaler \<Rightarrow> bool" where
  "same_frame d e \<longleftrightarrow> ds_source_width e = ds_source_width d \<and> ds_source_height e = ds_source_height d
     \<and> ds_out_width e = ds_out_width d \<and> ds_out_height e = ds_out_height d \<and> ds_column e = ds_column d
     \<and> ds_column_count e = ds_column_count d \<and> ds_rows_in_current e = ds_rows_in_current d
     \<and> ds_current_row e = ds_current_row d \<and> ds_rows_seen e = ds_rows_seen d
     \<and> length (ds_sums e) = length (ds_sums d) \<and> length (ds_output e) = length (ds_output d)"

lemma same_frame_refl: "same_frame d d" by (simp add: same_frame_def)

lemma flush_column_frame: "same_frame d e \<Longrightarrow> same_frame d (flush_column c e)"
  by (auto simp: same_frame_def flush_column_def Let_def split: option.splits)

lemma flush_columns:
  assumes "m \<le> ds_out_width d" "length (ds_sums d) = ds_out_width d"
    "(ds_current_row d + 1) * ds_out_width d \<le> length (ds_output d)"
  defines "e \<equiv> fold flush_column [0..<m] d"
  shows "same_frame d e"
    and "\<forall>c < ds_out_width d. ds_sums e ! c = (if c < m then (0, 0, 0, 0) else ds_sums d ! c)"
    and "\<forall>i < length (ds_output d). ds_output e ! i
      = (if ds_current_row d * ds_out_width d \<le> i \<and> i < ds_current_row d * ds_out_width d + m
         then flushed d (i - ds_current_row d * ds_out_width d) else ds_output d ! i)"
    and "ds_opaque e \<longleftrightarrow> ds_opaque d \<and> (\<forall>c < m. snd (snd (snd (flushed d c))) = 255)"
  using assms(1) unfolding e_def
proof (induction m)
  case 0
  { case 1 show ?case by (simp add: same_frame_refl) next
    case 2 show ?case by simp next
    case 3 show ?case by auto next
    case 4 show ?case by simp }
next
  case (Suc m)
  define f where "f = fold flush_column [0..<m] d"
  have step: "fold flush_column [0..<Suc m] d = flush_column m f" by (simp add: f_def)
  have le: "m \<le> ds_out_width d" if "Suc m \<le> ds_out_width d" using that by simp
  { case 1
    show ?case using flush_column_frame Suc.IH(1) [OF le] 1 unfolding step f_def by blast
  next
    case 2
    note f = Suc.IH [OF le [OF 2], folded f_def]
    show ?case unfolding step using f(1,2) assms(2)
      by (auto simp: flush_column_def Let_def same_frame_def nth_list_update less_Suc_eq split: option.splits)
  next
    case 3
    note f = Suc.IH [OF le [OF 3], folded f_def]
    have now: "ds_sums f ! m = ds_sums d ! m" using f(2) 3 by simp
    show ?case unfolding step using f(1,3) assms(3) 3 now
      by (auto simp: flush_column_def Let_def same_frame_def nth_list_update less_Suc_eq flushed_def split: option.splits)
  next
    case 4
    note f = Suc.IH [OF le [OF 4], folded f_def]
    have now: "ds_sums f ! m = ds_sums d ! m" using f(2) 4 by simp
    show ?case unfolding step using f(1,4) now
      by (auto simp: flush_column_def Let_def same_frame_def less_Suc_eq flushed_def split: option.splits)
  }
qed

subsection \<open>The invariant of the scan\<close>

lemma scaled_step:
  assumes "0 < n" "n \<le> (m :: nat)"
  shows "Suc k * n div m = k * n div m \<or> Suc k * n div m = Suc (k * n div m)"
proof -
  have "Suc k * n div m \<le> (k * n + m) div m" using assms by (intro div_le_mono) simp
  also have "\<dots> = Suc (k * n div m)" using assms by (subst div_add_self2) simp_all
  finally have "Suc k * n div m \<le> Suc (k * n div m)" .
  moreover have "k * n div m \<le> Suc k * n div m" by (intro div_le_mono) simp
  ultimately show ?thesis by linarith
qed

lemma scaled_mono: "i \<le> j \<Longrightarrow> i * n div m \<le> j * n div (m :: nat)"
  by (intro div_le_mono) simp

lemma scaled_last:
  assumes "0 < n" "n \<le> (m :: nat)"
  shows "(m - 1) * n div m = n - 1"
proof -
  obtain r a b where r: "m = n + r" "n = Suc a" "m = Suc b" using assms by (metis Suc_pred le_Suc_ex less_le_trans)
  then have "(m - 1) * n = (n - 1) * m + r" by (simp add: algebra_simps)
  moreover have "r < m" using r by simp
  ultimately show ?thesis by simp
qed

definition scan_inv :: "Layout \<Rightarrow> bytes list \<Rightarrow> nat \<Rightarrow> nat \<Rightarrow> nat \<Rightarrow> nat \<Rightarrow> nat \<Rightarrow> nat \<Rightarrow> Downscaler \<Rightarrow> bool" where
  "scan_inv layout rows sw sh ow oh k cur d \<longleftrightarrow>
     ds_source_width d = sw \<and> ds_source_height d = sh \<and> ds_out_width d = ow \<and> ds_out_height d = oh
     \<and> ds_column d = map (\<lambda>x. x * ow div sw) [0..<sw]
     \<and> ds_column_count d = map (\<lambda>X. length (filter (\<lambda>x. x * ow div sw = X) [0..<sw])) [0..<ow]
     \<and> length (ds_sums d) = ow \<and> length (ds_output d) = ow * oh
     \<and> ds_rows_seen d = k \<and> ds_current_row d = cur
     \<and> ds_rows_in_current d = length (filter (\<lambda>y. y * oh div sh = cur) [0..<k])
     \<and> (\<forall>X < ow. ds_sums d ! X = total (block layout rows sw sh ow oh k X cur))
     \<and> (\<forall>Y < cur. \<forall>X < ow. ds_output d ! (Y * ow + X) = area_average (block layout rows sw sh ow oh sh X Y))
     \<and> (ds_opaque d \<longleftrightarrow> (\<forall>Y < cur. \<forall>X < ow. snd (snd (snd (area_average (block layout rows sw sh ow oh sh X Y)))) = 255))"

lemma scan_inv_new: "scan_inv layout rows sw sh ow oh 0 0 (Downscaler_new sw sh ow oh)"
  by (auto simp: scan_inv_def Downscaler_new_def Let_def block_def total_def length_count_columns count_columns filter_map o_def
      intro!: nth_equalityI)

lemma byte_block: "p \<in> set (block layout rows sw sh ow oh k X Y) \<Longrightarrow> byte_pixel p"
  by (auto simp: block_def block_row_def row_pixel_def byte_pixel_to_rgba)

lemma length_block:
  "length (block layout rows sw sh ow oh k X Y)
    = length (filter (\<lambda>x. x * ow div sw = X) [0..<sw]) * length (filter (\<lambda>y. y * oh div sh = Y) [0..<k])"
  by (simp add: block_def block_row_def length_concat o_def sum_list_const_mult [symmetric] sum_list_triv)

lemma block_complete:
  assumes "k \<le> sh" "\<forall>y. k \<le> y \<and> y < sh \<longrightarrow> y * oh div sh \<noteq> Y"
  shows "block layout rows sw sh ow oh sh X Y = block layout rows sw sh ow oh k X Y"
proof -
  have "[0..<sh] = [0..<k] @ [k..<sh]" using upt_add_eq_append [of 0 k "sh - k"] assms(1) by simp
  moreover have "filter (\<lambda>y. y * oh div sh = Y) [k..<sh] = []" using assms(2) by (auto simp: filter_empty_conv)
  ultimately show ?thesis by (simp add: block_def)
qed

lemma scaled_hit:
  assumes "0 < n" "n \<le> (m :: nat)" "Y < n"
  shows "\<exists>y < m. y * n div m = Y"
proof -
  have "\<exists>y. y * n div m = Y \<and> y < m" using assms(3)
  proof (induction Y)
    case 0
    then show ?case using assms by (intro exI [of _ 0]) simp
  next
    case (Suc Y)
    then obtain y where y: "y * n div m = Y" "y < m" by auto
    define y' where "y' = (LEAST z. Suc Y \<le> z * n div m)"
    have ex: "Suc Y \<le> (m - 1) * n div m" using scaled_last [OF assms(1,2)] Suc.prems by simp
    have ge: "Suc Y \<le> y' * n div m" unfolding y'_def by (rule LeastI [of _ "m - 1"]) (rule ex)
    then have pos: "0 < y'" by (cases y') auto
    then have "\<not> Suc Y \<le> (y' - 1) * n div m" unfolding y'_def by (intro not_less_Least) simp
    then have "y' * n div m \<le> Suc Y" using scaled_step [OF assms(1,2), of "y' - 1"] pos by auto
    moreover have "y' \<le> m - 1" unfolding y'_def by (rule Least_le) (rule ex)
    ultimately show ?case using ge assms by (intro exI [of _ y']) auto
  qed
  then show ?thesis by blast
qed

lemma filter_nonempty: "\<exists>x < n. P x \<Longrightarrow> filter P [0..<n] \<noteq> []"
  by (auto simp: filter_empty_conv)

text \<open>Flushing after the last row of a block.\<close>

lemma scan_inv_flush:
  assumes inv: "scan_inv layout rows sw sh ow oh k cur d"
    and dims: "0 < ow" "ow \<le> sw" "0 < oh" "oh \<le> sh" and k: "k \<le> sh" "cur < oh"
    and past: "\<forall>y. k \<le> y \<and> y < sh \<longrightarrow> y * oh div sh \<noteq> cur"
  shows "scan_inv layout rows sw sh ow oh k (Suc cur) ((Downscaler_flush d)\<lparr>ds_current_row := Suc cur\<rparr>)
    \<or> (\<exists>y < k. y * oh div sh = Suc cur)"
proof (rule disjCI)
  assume none: "\<not> (\<exists>y < k. y * oh div sh = Suc cur)"
  let ?b = "\<lambda>X Y. block layout rows sw sh ow oh sh X Y"
  note i = inv [unfolded scan_inv_def]
  have whole: "block layout rows sw sh ow oh k X cur = ?b X cur" for X using block_complete [OF k(1) past] by simp
  obtain y where y: "y < sh" "y * oh div sh = cur" using scaled_hit [OF dims(3,4) k(2)] by blast
  then have "y < k" using past by (metis not_le)
  then have some: "filter (\<lambda>y. y * oh div sh = cur) [0..<k] \<noteq> []" using y(2) by (intro filter_nonempty) auto
  then have rows0: "ds_rows_in_current d \<noteq> 0" using i by simp
  define e where "e = fold flush_column [0..<ow] d"
  have room: "(ds_current_row d + 1) * ds_out_width d \<le> length (ds_output d)"
    using i k(2) by (metis Suc_eq_plus1 Suc_leI mult.commute mult_le_mono2)
  have fl: "same_frame d e" "\<forall>c < ow. ds_sums e ! c = (0, 0, 0, 0)"
    "\<forall>j < length (ds_output d). ds_output e ! j = (if cur * ow \<le> j \<and> j < cur * ow + ow then flushed d (j - cur * ow) else ds_output d ! j)"
    "ds_opaque e \<longleftrightarrow> ds_opaque d \<and> (\<forall>c < ow. snd (snd (snd (flushed d c))) = 255)"
    using flush_columns [of ow d] i room unfolding e_def by auto
  have flushed: "flushed d X = area_average (?b X cur)" if X: "X < ow" for X
  proof -
    have "filter (\<lambda>x. x * ow div sw = X) [0..<sw] \<noteq> []" using scaled_hit [OF dims(1,2) X] by (rule filter_nonempty)
    then have "?b X cur \<noteq> []" using some length_block [of layout rows sw sh ow oh k X cur] whole [of X] by (metis length_0_conv mult_is_0)
    moreover have "ds_column_count d ! X * ds_rows_in_current d = length (?b X cur)"
      using i X unfolding whole [symmetric] length_block by simp
    moreover have "ds_sums d ! X = total (?b X cur)" using i X whole by simp
    ultimately show ?thesis using flush_pixel_average [of "?b X cur"] byte_block by (simp add: flushed_def)
  qed
  have out: "ds_output e ! (Y * ow + X) = area_average (?b X Y)" if "Y < Suc cur" "X < ow" for X Y
  proof -
    have "Y * ow + X < (Y + 1) * ow" using that(2) by simp
    also have "\<dots> \<le> oh * ow" using that(1) k(2) by (intro mult_le_mono1) simp
    finally have lt: "Y * ow + X < length (ds_output d)" using i by (simp add: mult.commute)
    show ?thesis
    proof (cases "Y = cur")
      case True
      then show ?thesis using fl(3) lt that flushed by simp
    next
      case False
      then have "(Y + 1) * ow \<le> cur * ow" using that(1) by (intro mult_le_mono1) simp
      then have "Y * ow + X < cur * ow" using that(2) by simp
      then show ?thesis using fl(3) lt i that False by simp
    qed
  qed
  have opaque: "ds_opaque e \<longleftrightarrow> (\<forall>Y < Suc cur. \<forall>X < ow. snd (snd (snd (area_average (?b X Y)))) = 255)"
    using i fl(4) flushed by (auto simp: less_Suc_eq)
  have zero: "block layout rows sw sh ow oh k X (Suc cur) = []" for X using none by (auto simp: block_def)
  have "Downscaler_flush d = e\<lparr>ds_rows_in_current := 0\<rparr>" using rows0 i by (simp add: Downscaler_flush_def e_def)
  then show "scan_inv layout rows sw sh ow oh k (Suc cur) ((Downscaler_flush d)\<lparr>ds_current_row := Suc cur\<rparr>)"
    using i fl(1,2) out opaque none zero unfolding scan_inv_def same_frame_def
    by (intro conjI) (simp_all add: total_def filter_empty_conv)
qed

definition last_row :: "nat \<Rightarrow> nat \<Rightarrow> nat \<Rightarrow> nat" where
  "last_row oh sh k = (if k = 0 then 0 else (k - 1) * oh div sh)"

lemma scan_inv_push:
  assumes inv: "scan_inv layout rows sw sh ow oh k (last_row oh sh k) d"
    and dims: "0 < ow" "ow \<le> sw" "0 < oh" "oh \<le> sh" and k: "k < sh" and row: "sw * channels layout \<le> length (rows ! k)"
  shows "\<exists>d'. Downscaler_push layout (rows ! k) d = Ok d' \<and> scan_inv layout rows sw sh ow oh (Suc k) (last_row oh sh (Suc k)) d'"
proof -
  let ?t = "k * oh div sh"
  define d2 where "d2 = (if ?t \<noteq> ds_current_row d then (Downscaler_flush d)\<lparr>ds_current_row := ?t\<rparr> else d)"
  have cur: "ds_current_row d = last_row oh sh k" "ds_rows_seen d = k" "ds_source_height d = sh" "ds_source_width d = sw" "ds_out_height d = oh"
    using inv by (simp_all add: scan_inv_def)
  have inv2: "scan_inv layout rows sw sh ow oh k ?t d2"
  proof (cases "?t = last_row oh sh k")
    case True
    then show ?thesis using inv cur by (simp add: d2_def)
  next
    case False
    then have pos: "0 < k" using dims by (cases k) (auto simp: last_row_def)
    then have lr: "last_row oh sh k = (k - 1) * oh div sh" by (simp add: last_row_def)
    have t: "?t = Suc (last_row oh sh k)" using scaled_step [OF dims(3,4), of "k - 1"] pos False lr by auto
    have "k - 1 \<le> sh - 1" using k by simp
    then have lt: "last_row oh sh k < oh" using scaled_mono [of "k - 1" "sh - 1" oh sh] scaled_last [OF dims(3,4)] dims lr by linarith
    have "y * oh div sh \<noteq> last_row oh sh k" if "k \<le> y" for y
      using scaled_mono [OF that, of oh sh] t by linarith
    then have past: "\<forall>y. k \<le> y \<and> y < sh \<longrightarrow> y * oh div sh \<noteq> last_row oh sh k" by blast
    have "y * oh div sh \<noteq> Suc (last_row oh sh k)" if "y < k" for y
      using scaled_mono [of y "k - 1" oh sh] that lr by linarith
    then have none: "\<not> (\<exists>y < k. y * oh div sh = Suc (last_row oh sh k))" by blast
    from scan_inv_flush [OF inv dims less_imp_le [OF k] lt past] none show ?thesis
      using cur(1) False by (simp add: d2_def t)
  qed
  note i = inv2 [unfolded scan_inv_def]
  let ?sums = "push_pixels (zip (map (to_rgba layout) (chunks_exact (channels layout) (rows ! k))) (ds_column d2)) (ds_sums d2)"
  let ?d' = "d2\<lparr>ds_sums := ?sums, ds_rows_in_current := ds_rows_in_current d2 + 1, ds_rows_seen := ds_rows_seen d2 + 1\<rparr>"
  have run: "Downscaler_push layout (rows ! k) d = Ok ?d'"
    using k row by (simp add: Downscaler_push_def cur Let_def d2_def)
  have sums: "?sums ! X = total (block layout rows sw sh ow oh (Suc k) X ?t)" if "X < ow" for X
  proof -
    have "block layout rows sw sh ow oh (Suc k) X ?t = block layout rows sw sh ow oh k X ?t @ block_row layout (rows ! k) sw ow X"
      by (simp add: block_def)
    then show ?thesis using push_row_nth [OF row] i that by (simp add: total_def)
  qed
  have next_row: "last_row oh sh (Suc k) = ?t" by (simp add: last_row_def)
  have "scan_inv layout rows sw sh ow oh (Suc k) ?t ?d'"
    using i sums unfolding scan_inv_def by (intro conjI) simp_all
  then show ?thesis using run next_row by auto
qed

lemma scan_rows:
  assumes "0 < ow" "ow \<le> sw" "0 < oh" "oh \<le> sh" "length rows = sh" "\<forall>row \<in> set rows. sw * channels layout \<le> length row"
  shows "\<exists>d. fold_res (Downscaler_push layout) rows (Downscaler_new sw sh ow oh) = Ok d
    \<and> scan_inv layout rows sw sh ow oh sh (last_row oh sh sh) d"
proof -
  have "\<exists>d'. fold_res (Downscaler_push layout) (drop k rows) d = Ok d' \<and> scan_inv layout rows sw sh ow oh sh (last_row oh sh sh) d'"
    if "k \<le> sh" "scan_inv layout rows sw sh ow oh k (last_row oh sh k) d" for k d
    using that
  proof (induction "sh - k" arbitrary: k d)
    case 0
    then show ?case using assms(5) by simp
  next
    case (Suc n)
    then have k: "k < sh" by simp
    have row: "sw * channels layout \<le> length (rows ! k)" using assms(5,6) k by simp
    obtain d' where d': "Downscaler_push layout (rows ! k) d = Ok d'"
      "scan_inv layout rows sw sh ow oh (Suc k) (last_row oh sh (Suc k)) d'"
      using scan_inv_push [OF Suc.prems(2) assms(1-4) k row] by blast
    have "drop k rows = rows ! k # drop (Suc k) rows" using k assms(5) by (simp add: Cons_nth_drop_Suc)
    then show ?case using Suc.hyps(1) [OF _ _ d'(2)] Suc.hyps(2) k d'(1) by simp
  qed
  from this [of 0 "Downscaler_new sw sh ow oh"] scan_inv_new show ?thesis by (simp add: last_row_def)
qed

text \<open>
  C30: The streaming downscaler computes the area average. Whatever the pixel layout, pushing every row of an
  image succeeds, and each pixel of the result is the average, rounded to nearest and with the colours weighted by alpha,
  of exactly the source pixels whose scaled coordinates round down to it, transparent black where they are all
  transparent. No sum or cast loses a bit, and the image is reported as opaque exactly when every output pixel is.
\<close>

theorem downscale_area_average:
  assumes "0 < ow" "ow \<le> sw" "0 < oh" "oh \<le> sh" "length rows = sh" "\<forall>row \<in> set rows. sw * channels layout \<le> length row"
  shows "\<exists>out opaque. scale_rows layout rows (Downscaler_new sw sh ow oh) = Ok (out, opaque)
    \<and> length out = ow * oh
    \<and> (\<forall>Y < oh. \<forall>X < ow. block layout rows sw sh ow oh sh X Y \<noteq> []
         \<and> out ! (Y * ow + X) = area_average (block layout rows sw sh ow oh sh X Y))
    \<and> (opaque \<longleftrightarrow> (\<forall>Y < oh. \<forall>X < ow. snd (snd (snd (area_average (block layout rows sw sh ow oh sh X Y)))) = 255))"
proof -
  obtain d where d: "fold_res (Downscaler_push layout) rows (Downscaler_new sw sh ow oh) = Ok d"
    "scan_inv layout rows sw sh ow oh sh (last_row oh sh sh) d" using scan_rows [OF assms] by blast
  have cur: "last_row oh sh sh = oh - 1" using scaled_last [OF assms(3,4)] assms(3,4) by (simp add: last_row_def)
  let ?e = "(Downscaler_flush d)\<lparr>ds_current_row := oh\<rparr>"
  have "y * oh div sh < oh" if "y < sh" for y
    using that assms(3) by (intro less_mult_imp_div_less) (simp add: mult.commute)
  then have "\<not> (\<exists>y < sh. y * oh div sh = oh)" by fastforce
  then have e: "scan_inv layout rows sw sh ow oh sh oh ?e"
    using scan_inv_flush [OF d(2)[unfolded cur] assms(1-4)] assms(3) by auto
  have "block layout rows sw sh ow oh sh X Y \<noteq> []" if "X < ow" "Y < oh" for X Y
  proof -
    have "filter (\<lambda>x. x * ow div sw = X) [0..<sw] \<noteq> []" "filter (\<lambda>y. y * oh div sh = Y) [0..<sh] \<noteq> []"
      using scaled_hit [OF assms(1,2) that(1)] scaled_hit [OF assms(3,4) that(2)] by (auto intro!: filter_nonempty simp del: filter_empty_conv)
    then show ?thesis by (metis length_block length_0_conv mult_is_0)
  qed
  then show ?thesis using d(1) e by (auto simp: scale_rows_def Downscaler_finish_def Let_def scan_inv_def)
qed

theorem downscale_area_average_witness:
  "\<exists>out opaque. scale_rows Gray [[0, 255], [255, 0]] (Downscaler_new 2 2 1 1) = Ok (out, opaque)
    \<and> out ! 0 = (128, 128, 128, 255) \<and> opaque"
proof -
  let ?rows = "[[0, 255], [255, 0]] :: bytes list"
  have two: "[0..<2] = [0, 1 :: nat]" by (simp add: upt_rec)
  have b: "block Gray ?rows 2 2 1 1 2 0 0 = [(0, 0, 0, 255), (255, 255, 255, 255), (255, 255, 255, 255), (0, 0, 0, 255)]"
    by (simp add: block_def block_row_def two row_pixel_def to_rgba_def)
  have avg: "area_average (block Gray ?rows 2 2 1 1 2 0 0) = (128, 128, 128, 255)"
    unfolding b by (simp add: area_average_def block_sum_def)
  obtain out opaque where "scale_rows Gray ?rows (Downscaler_new 2 2 1 1) = Ok (out, opaque)"
    "\<forall>Y < 1. \<forall>X < 1. out ! (Y * 1 + X) = area_average (block Gray ?rows 2 2 1 1 2 X Y)"
    "opaque \<longleftrightarrow> (\<forall>Y < 1. \<forall>X < 1. snd (snd (snd (area_average (block Gray ?rows 2 2 1 1 2 X Y)))) = 255)"
    using downscale_area_average [of 1 2 1 2 ?rows Gray] by auto
  then show ?thesis using avg by auto
qed

subsection \<open>Orientation is a permutation\<close>

lemma fold_fold: "fold (\<lambda>y. fold (g y) xs) ys s = fold (\<lambda>(x, y). g y x) (concat (map (\<lambda>y. map (\<lambda>x. (x, y)) xs) ys)) s"
  by (induction ys arbitrary: s) (simp_all add: fold_map o_def)

lemma fold_update_other: "i \<notin> k ` set ps \<Longrightarrow> fold (\<lambda>p out. out[k p := v p]) ps s ! i = s ! i"
  by (induction ps arbitrary: s) auto

lemma length_fold_update: "length (fold (\<lambda>p out. out[k p := v p]) ps s) = length s"
  by (induction ps arbitrary: s) auto

lemma fold_update_nth:
  "inj_on k (set ps) \<Longrightarrow> distinct ps \<Longrightarrow> p \<in> set ps \<Longrightarrow> k p < length s \<Longrightarrow> fold (\<lambda>p out. out[k p := v p]) ps s ! k p = v p"
proof (induction ps arbitrary: s)
  case (Cons q ps)
  show ?case
  proof (cases "p = q")
    case True
    have "k q \<notin> k ` set ps" using Cons.prems(1,2) by (auto simp: inj_on_def)
    then show ?thesis using True Cons.prems(4) by (simp add: fold_update_other)
  next
    case False
    then show ?thesis using Cons by (simp add: inj_on_insert)
  qed
qed simp

definition oriented_size :: "nat \<Rightarrow> nat \<Rightarrow> nat \<Rightarrow> nat \<times> nat" where
  "oriented_size v w h = (if 5 \<le> v then (h, w) else (w, h))"

definition target_index :: "nat \<Rightarrow> nat \<Rightarrow> nat \<Rightarrow> nat \<times> nat \<Rightarrow> nat" where
  "target_index v w h p = (case orient_target v w h (fst p) (snd p) of (dx, dy) \<Rightarrow> dy * fst (oriented_size v w h) + dx)"

lemma orient_eq:
  assumes "2 \<le> v" "v \<le> 8"
  shows "orient rgba w h v =
    (fold (\<lambda>p out. out[target_index v w h p := rgba ! (snd p * w + fst p)])
       (concat (map (\<lambda>y. map (\<lambda>x. (x, y)) [0..<w]) [0..<h])) (replicate (length rgba) (0, 0, 0, 0)), oriented_size v w h)"
  using assms unfolding orient_def fold_fold
  by (auto simp: target_index_def oriented_size_def split_def Let_def)

lemma pixels_of_image:
  "set (concat (map (\<lambda>y. map (\<lambda>x. (x, y)) [0..<w]) [0..<h])) = {..<w} \<times> {..<h}"
  "distinct (concat (map (\<lambda>y. map (\<lambda>x. (x, y)) [0..<w]) [0..<h]))"
  by (auto, induction h) (auto simp: distinct_map inj_on_def)

lemma target_inside:
  assumes "2 \<le> v" "v \<le> 8" "x < w" "y < h" "orient_target v w h x y = (dx, dy)" "oriented_size v w h = (nw, nh)"
  shows "dx < nw \<and> dy < nh"
  using assms by (auto simp: orient_target_def oriented_size_def split: if_splits)

definition inverse_orientation :: "nat \<Rightarrow> nat" where
  "inverse_orientation v = (if v = 6 then 8 else if v = 8 then 6 else v)"

lemma target_inverse:
  assumes "2 \<le> v" "v \<le> 8" "x < w" "y < h" "orient_target v w h x y = (dx, dy)" "oriented_size v w h = (nw, nh)"
  shows "orient_target (inverse_orientation v) nw nh dx dy = (x, y)"
  using assms by (auto simp: orient_target_def oriented_size_def inverse_orientation_def split: if_splits)

lemma row_major_inj:
  assumes "x * n + y = x' * n + y'" "y < n" "y' < (n :: nat)"
  shows "x = x' \<and> y = y'"
proof -
  have "(x * n + y) div n = (x' * n + y') div n" "(x * n + y) mod n = (x' * n + y') mod n" using assms(1) by simp_all
  then show ?thesis using assms(2,3) by simp
qed

lemma row_major_less: "x < m \<Longrightarrow> y < n \<Longrightarrow> x * n + y < m * (n :: nat)"
proof -
  assume "x < m" "y < n"
  then have "x * n + y < Suc x * n" by simp
  also have "\<dots> \<le> m * n" using \<open>x < m\<close> by (intro mult_le_mono1) simp
  finally show ?thesis .
qed

lemma orient_pixel:
  assumes v: "2 \<le> v" "v \<le> 8" and "x < w" "y < h" "length rgba = w * h"
    and t: "orient_target v w h x y = (dx, dy)" and r: "orient rgba w h v = (out, nw, nh)"
  shows "out ! (dy * nw + dx) = rgba ! (y * w + x)" "length out = nw * nh" "dx < nw" "dy < nh" "(nw, nh) = oriented_size v w h"
proof -
  let ?ps = "concat (map (\<lambda>y. map (\<lambda>x. (x, y)) [0..<w]) [0..<h])"
  have size: "(nw, nh) = oriented_size v w h" and
    out: "out = fold (\<lambda>p out. out[target_index v w h p := rgba ! (snd p * w + fst p)]) ?ps (replicate (length rgba) (0, 0, 0, 0))"
    using r unfolding orient_eq [OF v] by simp_all
  show "(nw, nh) = oriented_size v w h" by (rule size)
  have area: "nw * nh = w * h" using size by (auto simp: oriented_size_def split: if_splits)
  show len: "length out = nw * nh" by (simp add: out length_fold_update assms(5) area)
  show dx: "dx < nw" and dy: "dy < nh" using target_inside [OF v assms(3,4) t size [symmetric]] by blast+
  have inj: "inj_on (target_index v w h) (set ?ps)"
  proof (rule inj_onI)
    fix p q assume p: "p \<in> set ?ps" and q: "q \<in> set ?ps" and eq: "target_index v w h p = target_index v w h q"
    obtain a b where a: "orient_target v w h (fst p) (snd p) = (a, b)" by fastforce
    obtain c d where c: "orient_target v w h (fst q) (snd q) = (c, d)" by fastforce
    have pb: "fst p < w" "snd p < h" "fst q < w" "snd q < h" using p q unfolding pixels_of_image by auto
    have "b * nw + a = d * nw + c" using eq size [symmetric] by (simp add: target_index_def a c)
    with row_major_inj [OF this] target_inside [OF v pb(1,2) a size [symmetric]] target_inside [OF v pb(3,4) c size [symmetric]]
    have "a = c" "b = d" by auto
    with target_inverse [OF v pb(1,2) a size [symmetric]] target_inverse [OF v pb(3,4) c size [symmetric]]
    show "p = q" by (simp add: prod_eq_iff)
  qed
  have ti: "target_index v w h (x, y) = dy * nw + dx" using t size [symmetric] by (simp add: target_index_def)
  have "target_index v w h (x, y) < length rgba"
    using row_major_less [OF dy dx] area assms(5) by (simp add: ti mult.commute)
  then have "out ! target_index v w h (x, y) = rgba ! (snd (x, y) * w + fst (x, y))"
    unfolding out using assms(3,4) by (intro fold_update_nth [OF inj pixels_of_image(2)]) (simp_all add: pixels_of_image(1) del: set_concat)
  then show "out ! (dy * nw + dx) = rgba ! (y * w + x)" by (simp add: ti)
qed

text \<open>
  Orientation loses nothing. For every EXIF orientation that is applied, the oriented image has the original's size
  or its transpose, and applying the inverse orientation gives bk the original image and its size: the nested pixel loops
  are a permutation with no pixel dropped or written twice.
\<close>

theorem orientation_undone:
  assumes "2 \<le> v" "v \<le> 8" "length rgba = w * h" "orient rgba w h v = (out, nw, nh)"
  shows "(nw, nh) = (if 5 \<le> v then (h, w) else (w, h)) \<and> length out = w * h
    \<and> orient out nw nh (inverse_orientation v) = (rgba, w, h)"
proof -
  have size: "(nw, nh) = oriented_size v w h" using assms(4) unfolding orient_eq [OF assms(1,2)] by simp
  have area: "nw * nh = w * h" using size by (auto simp: oriented_size_def split: if_splits)
  have len: "length out = nw * nh"
    using assms(4) unfolding orient_eq [OF assms(1,2)] by (auto simp: length_fold_update assms(3) area)
  let ?v = "inverse_orientation v"
  have v: "2 \<le> ?v" "?v \<le> 8" using assms(1,2) by (simp_all add: inverse_orientation_def)
  obtain bk bw bh where bk: "orient out nw nh ?v = (bk, bw, bh)" by (cases "orient out nw nh ?v") auto
  have bsize: "(bw, bh) = (w, h)"
    using bk size unfolding orient_eq [OF v] by (auto simp: oriented_size_def inverse_orientation_def split: if_splits)
  have "length bk = length out" using bk unfolding orient_eq [OF v] by (auto simp: length_fold_update)
  then have "bk = rgba"
  proof (intro nth_equalityI)
    fix i assume "i < length bk"
    then have i: "i < w * h" using \<open>length bk = length out\<close> len area by simp
    then have w: "0 < w" by (cases w) auto
    define x y where "x = i mod w" and "y = i div w"
    have xy: "x < w" "y < h" "i = y * w + x" using i w by (auto simp: x_def y_def less_mult_imp_div_less mult.commute)
    obtain dx dy where t: "orient_target v w h x y = (dx, dy)" by fastforce
    note p = orient_pixel [OF assms(1,2) xy(1,2) assms(3) t assms(4)]
    have "orient_target ?v nw nh dx dy = (x, y)" by (rule target_inverse [OF assms(1,2) xy(1,2) t size [symmetric]])
    from orient_pixel(1) [OF v p(3,4) p(2) this bk] p(1) bsize show "bk ! i = rgba ! i" by (simp add: xy(3))
  qed (simp add: len area assms(3))
  then show ?thesis using size bk bsize len area by (auto simp: oriented_size_def)
qed

theorem orientation_undone_witness:
  "\<exists>out. orient [(1, 1, 1, 1), (2, 2, 2, 2)] 2 1 6 = (out, 1, 2) \<and> orient out 1 2 8 = ([(1, 1, 1, 1), (2, 2, 2, 2)], 2, 1)"
proof -
  let ?i = "[(1, 1, 1, 1), (2, 2, 2, 2)] :: rgba list"
  obtain out nw nh where o: "orient ?i 2 1 6 = (out, nw, nh)" by (cases "orient ?i 2 1 6") auto
  show ?thesis using orientation_undone [of 6 ?i 2 1, OF _ _ _ o] o by (auto simp: inverse_orientation_def)
qed

subsection \<open>Plans are bounded\<close>

lemma div_ceil_le: "0 < b \<Longrightarrow> div_ceil a b \<le> a"
proof -
  assume "0 < b"
  show ?thesis
  proof (cases "a = 0")
    case False
    then have "a + b - 1 \<le> a * b" using \<open>0 < b\<close>
      by (cases a; cases b) (simp_all add: add_mono)
    then show ?thesis using \<open>0 < b\<close> unfolding div_ceil_def by (metis div_le_mono nonzero_mult_div_cancel_right not_gr_zero)
  qed (use \<open>0 < b\<close> in \<open>simp add: div_ceil_def\<close>)
qed

lemma scaled_side:
  assumes "0 < side" "side \<le> longest" "0 < edge" "edge < (longest :: nat)"
  shows "(side * edge + longest div 2) div longest \<le> edge" "(side * edge + longest div 2) div longest \<le> side"
proof -
  obtain k where l: "longest = edge + k" "0 < k" using assms(4) by (metis less_imp_add_positive)
  have "side * edge \<le> edge * longest" using assms(2) by (simp add: mult.commute)
  moreover have "longest div 2 < longest" using assms(4) by simp
  moreover have "(edge + 1) * longest = edge * longest + longest" by simp
  ultimately have "side * edge + longest div 2 < (edge + 1) * longest" by linarith
  then have "(side * edge + longest div 2) div longest < edge + 1" by (rule less_mult_imp_div_less)
  then show "(side * edge + longest div 2) div longest \<le> edge" by simp
  have "side * edge \<le> side * longest" using assms(4) by simp
  moreover have "longest div 2 < longest" using assms(4) by simp
  moreover have "(side + 1) * longest = side * longest + longest" by simp
  ultimately have "side * edge + longest div 2 < (side + 1) * longest" by linarith
  then have "(side * edge + longest div 2) div longest < side + 1" by (rule less_mult_imp_div_less)
  then show "(side * edge + longest div 2) div longest \<le> side" by simp
qed

lemma output_size_bounds:
  assumes "0 < width" "0 < height" "0 < edge" "edge < 2 ^ 32" "output_size width height edge = (ow, oh)"
  shows "0 < ow \<and> ow \<le> width \<and> ow \<le> edge \<and> 0 < oh \<and> oh \<le> height \<and> oh \<le> edge"
proof (cases "max width height \<le> edge")
  case True
  then show ?thesis using assms by (simp add: output_size_def)
next
  case False
  then have lt: "edge < max width height" by (simp only: not_le)
  have side: "max ((s * edge + max width height div 2) div max width height) 1 < 2 ^ 32
      \<and> max ((s * edge + max width height div 2) div max width height) 1 \<le> s
      \<and> max ((s * edge + max width height div 2) div max width height) 1 \<le> edge"
    if "0 < s" "s \<le> max width height" for s
    using scaled_side [OF that assms(3) lt] that assms(3,4) by simp
  show ?thesis using side [of width] side [of height] assms False
    by (simp add: output_size_def Let_def) (auto simp: max_def split: if_splits)
qed

lemma jpeg_scale_covers:
  assumes "ow \<le> width" "oh \<le> height"
  shows "jpeg_scale width height ow oh \<in> {1, 2, 4, 8} \<and> ow \<le> div_ceil width (jpeg_scale width height ow oh)
    \<and> oh \<le> div_ceil height (jpeg_scale width height ow oh)"
  using assms by (auto simp: jpeg_scale_def div_ceil_def)

definition codec_ok :: "Codec \<Rightarrow> bool" where
  "codec_ok c = (case c of CJpeg h _ \<Rightarrow> jpeg_ok h | CPng h \<Rightarrow> ph_bits_per_pixel h \<le> 64 | _ \<Rightarrow> True)"

lemma png_header_ok: "png_header rd len = Ok h \<Longrightarrow> ph_bits_per_pixel h \<le> 64"
  by (auto simp: png_header_def Let_def split: if_splits option.splits)

lemma best_preview_ok:
  assumes "raw_preview rd len = Ok (Some p)"
  shows "rp_offset p + rp_length p \<le> len" "jpeg_ok (rp_header p)" "1 \<le> rp_orientation p" "rp_orientation p \<le> 8"
proof -
  obtain s where s: "tiff_scan rd len = Some s" using assms by (auto simp: raw_preview_def split: option.splits)
  define v where "v = (case ts_orientation s of Some v \<Rightarrow> v | None \<Rightarrow> 1)"
  note ok = tiff_scan_ok [OF s]
  have "best_so_far rd v ([] @ ts_candidates s) (fold (better_preview rd v) (ts_candidates s) None)"
    by (rule previews_best) (simp add: best_so_far_def)
  then have "best_so_far rd v (ts_candidates s) (Some p)" using assms s by (simp add: raw_preview_def v_def)
  then obtain c where c: "c \<in> set (ts_candidates s)" "rp_offset p = ca_offset c" "rp_length p = ca_length c"
      "jpeg_header rd (ca_offset c) (ca_length c) = Ok (rp_header p)" "rp_orientation p = v"
    by (auto simp: best_so_far_def)
  show "rp_offset p + rp_length p \<le> len" using ok c by (auto simp: scan_ok_def list_all_iff candidate_ok_def)
  show "jpeg_ok (rp_header p)" by (rule jpeg_header_ok [OF c(4)])
  show "1 \<le> rp_orientation p" "rp_orientation p \<le> 8"
    using ok c(5) by (auto simp: v_def scan_ok_def orientation_ok_def split: option.splits)
qed

lemma jpeg_header_orientation:
  "jpeg_header rd start len = Ok h \<Longrightarrow> 1 \<le> (case jh_orientation h of Some v \<Rightarrow> v | None \<Rightarrow> 1)
    \<and> (case jh_orientation h of Some v \<Rightarrow> v | None \<Rightarrow> 1) \<le> 8"
  using jpeg_header_ok [of rd start len h] by (auto simp: jpeg_ok_def orientation_ok_def split: option.splits)

lemma plan_source_ok:
  assumes "plan_source rd len signature = Ok (kind, cdc, start, wlen, width, height, orientation)"
  shows "codec_ok cdc \<and> start + wlen \<le> len \<and> 1 \<le> orientation \<and> orientation \<le> 8
    \<and> (case cdc of CJpeg h _ \<Rightarrow> width = jh_width h \<and> height = jh_height h | _ \<Rightarrow> True)"
  using assms
  by (auto simp: plan_source_def codec_ok_def best_preview_ok best_preview_ok(3) [simplified]
      dest: png_header_ok jpeg_header_ok jpeg_header_orientation split: if_splits)

lemma le_times: "a \<le> c \<Longrightarrow> b \<le> d \<Longrightarrow> a * b \<le> c * (d :: nat)"
  by (rule mult_le_mono)

lemma jpeg_estimate_bound:
  assumes "jpeg_ok h" "0 < scale" "n \<le> MAX_SOURCE_BYTES"
  shows "jpeg_decode_estimate h scale n < 2 ^ 60"
proof -
  let ?w = "jh_width h + 64" and ?h = "jh_height h + 64" and ?c = "jh_components h"
  have c: "?c \<le> 4" and w: "?w \<le> 65600" and hh: "?h \<le> 65600" using assms(1) by (auto simp: jpeg_ok_def)
  have s: "?c * (div_ceil ?w scale * div_ceil ?h scale) \<le> 4 * (65600 * 65600)"
    using div_ceil_le [OF assms(2), of ?w] div_ceil_le [OF assms(2), of ?h] c w hh by (intro le_times) linarith+
  have co: "?c * ?w * ?h * 2 \<le> 4 * 65600 * 65600 * 2" using c w hh by (intro le_times) simp_all
  have m: "?c * ?w * 32 * 2 * 2 \<le> 4 * 65600 * 32 * 2 * 2" using c w by (intro le_times) simp_all
  have "(2 :: nat) ^ 60 = 1152921504606846976" by simp
  then show ?thesis using s co m assms(3) unfolding jpeg_decode_estimate_def Let_def MAX_SOURCE_BYTES_def
    by (cases "jh_progressive h"; simp only: if_True if_False; linarith)
qed

lemma decode_estimate_bound:
  assumes "codec_ok (pl_codec p)" "(case pl_codec p of CJpeg _ scale \<Rightarrow> 0 < scale | _ \<Rightarrow> True)"
    and "pl_window_len p \<le> MAX_SOURCE_BYTES" "pl_width p * pl_height p \<le> MAX_IMAGE_PIXELS" "0 < pl_height p"
  shows "decode_estimate p < 2 ^ 60"
proof -
  have width: "pl_width p \<le> 100000000"
    using assms(4,5) unfolding MAX_IMAGE_PIXELS_def by (metis One_nat_def Suc_leI le_trans mult.right_neutral mult_le_mono2)
  show ?thesis
  proof (cases "pl_codec p")
    case (CJpeg h scale)
    then show ?thesis using jpeg_estimate_bound assms(1-3) by (simp add: decode_estimate_def codec_ok_def)
  next
    case (CPng h)
    then have "pl_width p * ph_bits_per_pixel h \<le> 100000000 * 64"
      using assms(1) width by (intro le_times) (simp_all add: codec_ok_def)
    then have "div_ceil (pl_width p * ph_bits_per_pixel h) 8 \<le> 6400000000"
      using div_ceil_le [of 8 "pl_width p * ph_bits_per_pixel h"] by simp
    then show ?thesis using CPng width assms(4)
      by (simp add: decode_estimate_def Let_def MAX_IMAGE_PIXELS_def PNG_ANCILLARY_LIMIT_def)
  qed (use assms(4) assms(4) [unfolded mult.commute [of "pl_width p"]] in \<open>auto simp: decode_estimate_def Let_def MAX_IMAGE_PIXELS_def WEBP_METADATA_LIMIT_def\<close>)
qed

lemma encode_estimate_bound:
  assumes "w * h \<le> MAX_IMAGE_PIXELS" "0 < w" "0 < h"
  shows "encode_estimate w h < 2 ^ 60"
proof -
  have w: "w \<le> w * h" and h: "h \<le> w * h" using assms(2,3) by simp_all
  then have "div_ceil (max w h) 16 \<le> 100000000"
    using div_ceil_le [of 16 "max w h"] assms(1) unfolding MAX_IMAGE_PIXELS_def by linarith
  then show ?thesis using assms(1) assms(1) [unfolded mult.commute [of w]] by (simp add: encode_estimate_def Let_def jpeg_output_reserve_def MAX_IMAGE_PIXELS_def)
qed

lemma estimate_ignores: "estimate (q\<lparr>pl_estimate := n\<rparr>) = estimate q" "decode_estimate (q\<lparr>pl_estimate := n\<rparr>) = decode_estimate q"
  by (cases "pl_codec q"; simp add: estimate_def decode_estimate_def)+

text \<open>
  C31: A thumbnail plan is bounded. If planning accepts a file for a requested edge, the image has between 1 and
  100 million pixels, the output has at least one pixel on each axis and exceeds neither the source nor the edge, a JPEG
  decode scale still covers the output, the decoded window lies inside the file, the orientation is between 1 and 8,
  and the memory estimate is the exact sum of its parts: no multiplication, addition or saturation in it reaches 64 bits.
\<close>

theorem plan_bounded:
  assumes "plan rd len edge = Ok p" "0 < edge" "edge < 2 ^ 32"
  shows "0 < pl_width p \<and> 0 < pl_height p \<and> pl_width p * pl_height p \<le> 100000000
    \<and> 0 < pl_out_width p \<and> pl_out_width p \<le> min (pl_width p) edge
    \<and> 0 < pl_out_height p \<and> pl_out_height p \<le> min (pl_height p) edge
    \<and> (case pl_codec p of CJpeg h scale \<Rightarrow> scale \<in> {1, 2, 4, 8} \<and> pl_out_width p \<le> div_ceil (pl_width p) scale
         \<and> pl_out_height p \<le> div_ceil (pl_height p) scale | _ \<Rightarrow> True)
    \<and> pl_window_start p + pl_window_len p \<le> len \<and> len \<le> MAX_SOURCE_BYTES
    \<and> 1 \<le> pl_orientation p \<and> pl_orientation p \<le> 8
    \<and> pl_estimate p = decode_estimate p + pl_out_width p * pl_out_height p * 8 + (pl_out_width p * 36 + pl_width p * 4)
        + encode_estimate (pl_out_width p) (pl_out_height p) + FIXED_OVERHEAD
    \<and> pl_estimate p < 2 ^ 62"
proof -
  obtain signature kind cdc start wlen width height orientation ow oh where
    src: "plan_source rd len signature = Ok (kind, cdc, start, wlen, width, height, orientation)"
    and px: "check_pixels width height = Ok ()" and len: "len \<le> MAX_SOURCE_BYTES"
    and out: "output_size width height edge = (ow, oh)"
    and p: "p = (let q = \<lparr> pl_kind = kind, pl_codec = (case cdc of CJpeg h _ \<Rightarrow> CJpeg h (jpeg_scale width height ow oh) | c \<Rightarrow> c),
        pl_window_start = start, pl_window_len = wlen, pl_width = width, pl_height = height, pl_out_width = ow,
        pl_out_height = oh, pl_orientation = orientation, pl_long_edge = edge, pl_estimate = 0 \<rparr> in q\<lparr>pl_estimate := estimate q\<rparr>)"
  proof -
    obtain signature kind cdc start wlen width height orientation where
      src: "thumb_read_at rd 0 (min len 16) len = Ok signature" "len \<le> MAX_SOURCE_BYTES"
      "plan_source rd len signature = Ok (kind, cdc, start, wlen, width, height, orientation)" "check_pixels width height = Ok ()"
      using assms(1) by (auto simp: plan_def split: if_splits)
    moreover obtain ow oh where "output_size width height edge = (ow, oh)" by fastforce
    ultimately show ?thesis using assms(1) by (intro that) (auto simp: plan_def Let_def)
  qed
  note ok = plan_source_ok [OF src]
  have dims: "0 < width" "0 < height" "width * height \<le> MAX_IMAGE_PIXELS"
    using px by (auto simp: check_pixels_def split: if_splits)
  note o = output_size_bounds [OF dims(1,2) assms(2,3) out]
  have scale: "jpeg_scale width height ow oh \<in> {1, 2, 4, 8}" "ow \<le> div_ceil width (jpeg_scale width height ow oh)"
    "oh \<le> div_ceil height (jpeg_scale width height ow oh)" using jpeg_scale_covers o by blast+
  have fields: "pl_width p = width" "pl_height p = height" "pl_out_width p = ow" "pl_out_height p = oh"
    "pl_window_start p = start" "pl_window_len p = wlen" "pl_orientation p = orientation"
    "pl_codec p = (case cdc of CJpeg h _ \<Rightarrow> CJpeg h (jpeg_scale width height ow oh) | c \<Rightarrow> c)"
    by (simp_all add: p Let_def)
  have est: "pl_estimate p = estimate p" unfolding p Let_def by (subst estimate_ignores) simp
  have codec: "codec_ok (pl_codec p)" "case pl_codec p of CJpeg _ scale \<Rightarrow> 0 < scale | _ \<Rightarrow> True"
    using ok scale(1) by (auto simp: fields codec_ok_def split: Codec.splits)
  have small: "ow * oh \<le> width * height" using o by (intro le_times) simp_all
  have dec: "decode_estimate p < 2 ^ 60"
    using decode_estimate_bound [OF codec] ok len dims by (simp add: fields)
  have enc: "encode_estimate ow oh < 2 ^ 60" using encode_estimate_bound [of ow oh] small dims(3) o by simp
  have w: "width \<le> width * height" using dims(2) by simp
  have pow: "(2 :: nat) ^ 60 = 1152921504606846976" "(2 :: nat) ^ 62 = 4611686018427387904" by simp_all
  have sum: "decode_estimate p + ow * oh * 8 + (ow * 36 + width * 4) + encode_estimate ow oh + FIXED_OVERHEAD < 2 ^ 62"
    using dec enc small dims(3) w o pow unfolding MAX_IMAGE_PIXELS_def FIXED_OVERHEAD_def by linarith
  then have "pl_estimate p = decode_estimate p + ow * oh * 8 + (ow * 36 + width * 4) + encode_estimate ow oh + FIXED_OVERHEAD"
    by (simp add: est estimate_def Let_def saturating_add_def fields)
  with sum show ?thesis using dims o scale ok len
    by (auto simp: fields MAX_IMAGE_PIXELS_def split: Codec.splits)
qed

text \<open>The witness: the header of a GIF of 4000 by 2000 pixels, planned for an edge of 256.\<close>

definition tiny_gif :: bytes where
  "tiny_gif = byte_lit ''GIF89a'' @ [0xA0, 0x0F, 0xD0, 0x07, 0, 0, 0, 0x2C, 0, 0]"

lemma plan_tiny_gif:
  "\<exists>p. plan (cursor_reader tiny_gif) 16 256 = Ok p \<and> pl_out_width p = 256 \<and> pl_out_height p = 128"
proof -
  have sig: "thumb_read_at (cursor_reader tiny_gif) 0 16 16 = Ok tiny_gif"
    by (simp add: thumb_read_at_def checked_add_def read_exact_at_def cursor_reader_def slice_def tiny_gif_def byte_lit_def)
  have screen: "thumb_read_at (cursor_reader tiny_gif) 6 4 16 = Ok [0xA0, 0x0F, 0xD0, 0x07]"
    by (simp add: thumb_read_at_def checked_add_def read_exact_at_def cursor_reader_def slice_def tiny_gif_def byte_lit_def)
  have src: "plan_source (cursor_reader tiny_gif) 16 tiny_gif = Ok (GifSource, CGif, 0, 16, 4000, 2000, 1)"
    unfolding plan_source_def screen
    by (simp add: tiny_gif_def byte_lit_def starts_with_def PNG_MAGIC_def sub_def)
  show ?thesis
    by (simp add: plan_def MAX_SOURCE_BYTES_def sig src check_pixels_def MAX_IMAGE_PIXELS_def output_size_def)
qed

theorem plan_bounded_witness:
  "\<exists>p. plan (cursor_reader tiny_gif) 16 256 = Ok p \<and> pl_out_width p = 256 \<and> pl_out_height p = 128 \<and> pl_estimate p < 2 ^ 62"
proof -
  obtain p where p: "plan (cursor_reader tiny_gif) 16 256 = Ok p" "pl_out_width p = 256" "pl_out_height p = 128"
    using plan_tiny_gif by blast
  show ?thesis using plan_bounded [OF p(1)] p by auto
qed

end
