(* ===== verification/Previews.thy ===== *)
theory Previews
  imports FileRoutes Codecs Svg Downscale
begin

text \<open>
  The preview and inline routes of \<open>src/src/preview.rs\<close>: the policy, its errors, the security headers, \<open>load\<close>, the
  opening functions and the handlers. File handles are those of theory \<open>FileRoutes\<close>; the bytes of a file are
  classified by theories \<open>Media\<close>, \<open>Codecs\<close>, \<open>Svg\<close> and \<open>Tiff\<close>.
\<close>

subsection \<open>Policy and errors\<close>

definition HARD_MAX_PREVIEW_BYTES :: nat where "HARD_MAX_PREVIEW_BYTES = 16 * 1024 * 1024"
definition DEFAULT_MAX_RENDER_BYTES :: nat where "DEFAULT_MAX_RENDER_BYTES = 32 * 1024 * 1024"
definition HARD_MAX_RENDER_BYTES :: nat where "HARD_MAX_RENDER_BYTES = 1024 * 1024 * 1024"
definition SVG_MIME_TYPE :: string where "SVG_MIME_TYPE = ''image/svg+xml''"
definition TEXT_PLAIN_UTF8 :: string where "TEXT_PLAIN_UTF8 = ''text/plain; charset=utf-8''"
definition HTML_UTF8 :: string where "HTML_UTF8 = ''text/html; charset=utf-8''"

definition PREVIEW_CSP :: string where
  "PREVIEW_CSP = ''sandbox; default-src 'none'; style-src 'unsafe-inline'; img-src data:; ''
     @ ''base-uri 'none'; form-action 'none'; frame-ancestors 'self'; navigate-to 'none'' @ [CHR 0x27]"

definition PERMISSIONS_POLICY :: string where
  "PERMISSIONS_POLICY = ''accelerometer=(), autoplay=(), camera=(), display-capture=(), ''
     @ ''encrypted-media=(), fullscreen=(), geolocation=(), gyroscope=(), hid=(), identity-credentials-get=(), ''
     @ ''idle-detection=(), local-fonts=(), magnetometer=(), microphone=(), midi=(), payment=(), ''
     @ ''picture-in-picture=(), publickey-credentials-create=(), publickey-credentials-get=(), ''
     @ ''screen-wake-lock=(), serial=(), speaker-selection=(), usb=(), web-share=(), xr-spatial-tracking=()''"

record PreviewPolicy =
  pp_max_bytes :: nat
  pp_max_render_bytes :: nat

definition PreviewPolicy_new :: "nat \<Rightarrow> PreviewError + PreviewPolicy" where
  "PreviewPolicy_new configured =
     (if configured = 0 \<or> HARD_MAX_PREVIEW_BYTES < configured then Err InvalidLimit
      else Ok \<lparr> pp_max_bytes = configured, pp_max_render_bytes = max DEFAULT_MAX_RENDER_BYTES configured \<rparr>)"

definition with_max_render_bytes :: "PreviewPolicy \<Rightarrow> nat \<Rightarrow> PreviewError + PreviewPolicy" where
  "with_max_render_bytes p configured =
     (if configured < pp_max_bytes p \<or> HARD_MAX_RENDER_BYTES < configured then Err InvalidLimit
      else Ok (p\<lparr>pp_max_render_bytes := configured\<rparr>))"

definition with_render_cap :: "PreviewPolicy \<Rightarrow> nat \<Rightarrow> PreviewPolicy" where
  "with_render_cap p cap =
     p\<lparr>pp_max_render_bytes := (if cap < pp_max_render_bytes p then cap else pp_max_render_bytes p)\<rparr>"

definition PreviewPolicy_default :: PreviewPolicy where
  "PreviewPolicy_default = \<lparr> pp_max_bytes = 1024 * 1024, pp_max_render_bytes = DEFAULT_MAX_RENDER_BYTES \<rparr>"

fun preview_code :: "PreviewError \<Rightarrow> string" where
  "preview_code PreviewAccessDenied = ''not_found''"
| "preview_code PreviewInvalidPath = ''invalid_path''"
| "preview_code PreviewNotFound = ''not_found''"
| "preview_code PreviewTooLarge = ''preview_too_large''"
| "preview_code InvalidUtf8 = ''invalid_utf8''"
| "preview_code BinaryFile = ''binary_file''"
| "preview_code PreviewUnsupported = ''unsupported_entry''"
| "preview_code PreviewUnavailable = ''preview_unavailable''"
| "preview_code InvalidLimit = ''invalid_preview_limit''"
| "preview_code InvalidThumbnailSize = ''invalid_thumbnail_size''"
| "preview_code ThumbnailTooLarge = ''thumbnail_too_large''"

fun preview_status :: "PreviewError \<Rightarrow> nat" where
  "preview_status PreviewAccessDenied = 404"
| "preview_status PreviewNotFound = 404"
| "preview_status PreviewInvalidPath = 400"
| "preview_status InvalidThumbnailSize = 400"
| "preview_status PreviewTooLarge = 413"
| "preview_status ThumbnailTooLarge = 413"
| "preview_status InvalidUtf8 = 415"
| "preview_status BinaryFile = 415"
| "preview_status PreviewUnsupported = 415"
| "preview_status PreviewUnavailable = 503"
| "preview_status InvalidLimit = 500"

fun preview_message :: "PreviewError \<Rightarrow> string" where
  "preview_message PreviewAccessDenied = ''Preview not found''"
| "preview_message PreviewNotFound = ''Preview not found''"
| "preview_message PreviewInvalidPath = ''Preview path is invalid''"
| "preview_message PreviewTooLarge = ''File is too large to preview''"
| "preview_message InvalidUtf8 = ''File is not valid UTF-8 text''"
| "preview_message BinaryFile = ''Binary files cannot be previewed''"
| "preview_message PreviewUnsupported = ''Entry cannot be previewed''"
| "preview_message PreviewUnavailable = ''Preview is temporarily unavailable''"
| "preview_message InvalidLimit = ''Preview service is unavailable''"
| "preview_message InvalidThumbnailSize = ''Thumbnail size is not supported''"
| "preview_message ThumbnailTooLarge = ''Image is too large to thumbnail''"

fun preview_error :: "FsErrorCode \<Rightarrow> PreviewError" where
  "preview_error AccessDenied = PreviewAccessDenied"
| "preview_error FsConflict = PreviewUnavailable"
| "preview_error CrossDevice = PreviewUnavailable"
| "preview_error InvalidPath = PreviewInvalidPath"
| "preview_error TooDeep = PreviewInvalidPath"
| "preview_error FsNotFound = PreviewNotFound"
| "preview_error FsTooLarge = PreviewTooLarge"
| "preview_error UnsupportedEntry = PreviewUnsupported"
| "preview_error Unavailable = PreviewUnavailable"

text \<open>\<open>CompleteResponse\<close> is the source's \<open>Response\<close>: a refusal built elsewhere (theory \<open>Thumbnails\<close>).\<close>

datatype PreviewRequestError = Application AppError | Preview PreviewError | CompleteResponse StreamResponse

subsection \<open>Responses\<close>

definition apply_security_headers :: "response_headers \<Rightarrow> response_headers" where
  "apply_security_headers h =
     h(''content-security-policy'' \<mapsto> lit PREVIEW_CSP, ''x-content-type-options'' \<mapsto> lit ''nosniff'',
       ''referrer-policy'' \<mapsto> lit ''no-referrer'', ''cache-control'' \<mapsto> lit ''no-store, private'',
       ''permissions-policy'' \<mapsto> lit PERMISSIONS_POLICY, ''cross-origin-resource-policy'' \<mapsto> lit ''same-origin'',
       ''x-frame-options'' \<mapsto> lit ''SAMEORIGIN'')"

text \<open>\<open>PreviewError::into_response\<close>: status, headers, code and message.\<close>

definition preview_error_response :: "PreviewError \<Rightarrow> nat \<times> (string \<times> string) JsonResponse" where
  "preview_error_response e =
     (let r = json (preview_code e, preview_message e) in
      (preview_status e, r\<lparr>jr_headers := apply_security_headers (jr_headers r)\<rparr>))"

record PreviewDocument =
  pd_kind :: PreviewKind
  pd_source :: str
  pd_language :: "string option"
  pd_mime_type :: "string option"
  pd_codecs :: "str option"
  pd_width :: "nat option"
  pd_height :: "nat option"
  pd_size :: nat
  pd_truncated :: bool
  pd_shown_bytes :: "nat option"
  pd_shown_lines :: "nat option"
  pd_openable :: bool
  pd_renderable :: bool
  pd_thumbnailable :: bool

definition json_response :: "PreviewDocument \<Rightarrow> PreviewDocument JsonResponse" where
  "json_response d =
     (let r = json d in
      r\<lparr>jr_headers := apply_security_headers ((jr_headers r)(''content-disposition'' \<mapsto> lit ''inline''))\<rparr>)"

definition html_source_response :: "PreviewDocument \<Rightarrow> PreviewError + Response" where
  "html_source_response d =
     (if pd_kind d \<noteq> KHtmlSource then Err PreviewUnsupported
      else if pd_truncated d then Err PreviewTooLarge
      else Ok \<lparr> rs_status = 200,
                rs_headers = apply_security_headers
                  (Map.empty(''content-type'' \<mapsto> lit ''text/plain; charset=utf-8'', ''content-disposition'' \<mapsto> lit ''inline'')),
                rs_body = str_bytes (pd_source d) \<rparr>)"

definition image_response :: "(str \<Rightarrow> bool) \<Rightarrow> bytes \<Rightarrow> string \<Rightarrow> nat \<Rightarrow> Response" where
  "image_response valid_header body mime len =
     (let h = Map.empty(''content-type'' \<mapsto> lit mime, ''content-disposition'' \<mapsto> lit ''inline'');
          h = (if valid_header (to_string len) then h(''content-length'' \<mapsto> to_string len) else h)
      in \<lparr> rs_status = 200, rs_headers = apply_security_headers h, rs_body = body \<rparr>)"

text \<open>The inert notice for top-level loads of rendered HTML.\<close>

definition frame_only_response :: Response where
  "frame_only_response =
     \<lparr> rs_status = 403,
       rs_headers = apply_security_headers (Map.empty(''content-type'' \<mapsto> lit ''text/plain; charset=utf-8'')),
       rs_body = str_bytes (lit (''Rendered HTML previews open only inside Crabinet's sandboxed viewer.'' @ [CHR 0x0A])) \<rparr>"

definition rendered_destination_allowed :: "HeaderMap \<Rightarrow> bool" where
  "rendered_destination_allowed headers \<longleftrightarrow>
     (case header_get headers ''sec-fetch-dest'' of None \<Rightarrow> True | Some v \<Rightarrow> as_bytes v = lit ''iframe'')"

text \<open>Security headers on whatever \<open>stream_file\<close> returned.\<close>

fun secured :: "StreamResponse \<Rightarrow> StreamResponse" where
  "secured (Streamed r) = Streamed (r\<lparr>rs_headers := apply_security_headers (rs_headers r)\<rparr>)"
| "secured (Rejected e h) = Rejected e (apply_security_headers h)"

subsection \<open>Opening\<close>

definition read_signature_header :: "file_io \<Rightarrow> PreviewError + bytes" where
  "read_signature_header io = map_err (\<lambda>_. PreviewUnavailable) (read_to_end SIGNATURE_HEADER_BYTES (fi_header io))"

text \<open>An opened text, with whether its header is an SVG document.\<close>

definition open_streamed_text :: "file_env \<Rightarrow> str \<Rightarrow> VirtualPath \<Rightarrow> PreviewError + (OpenedFile \<times> bool)" where
  "open_streamed_text env share_id path =
     and_then (map_err preview_error (open_file env share_id path)) (\<lambda>opened.
     and_then (read_signature_header (of_io opened)) (\<lambda>header.
     and_then (classify_streamed header) (\<lambda>media.
       if media \<noteq> None then Err PreviewUnsupported
       else
         and_then (check_text_prefix header (header_reached_end header)) (\<lambda>text.
           Ok (opened, is_svg_document text)))))"

definition open_rendered_html :: "file_env \<Rightarrow> str \<Rightarrow> VirtualPath \<Rightarrow> nat \<Rightarrow> PreviewError + OpenedFile" where
  "open_rendered_html env share_id path max_bytes =
     and_then (open_streamed_text env share_id path) (\<lambda>(opened, svg).
       if fst (classify_path path) \<noteq> KHtmlSource \<or> svg then Err PreviewUnsupported
       else if max_bytes < of_len opened then Err PreviewTooLarge
       else Ok opened)"

definition open_svg :: "file_env \<Rightarrow> str \<Rightarrow> VirtualPath \<Rightarrow> nat \<Rightarrow> PreviewError + OpenedFile" where
  "open_svg env share_id path max_bytes =
     and_then (open_streamed_text env share_id path) (\<lambda>(opened, svg).
       if \<not> svg then Err PreviewUnsupported
       else if max_bytes < of_len opened then Err PreviewTooLarge
       else if \<not> fi_seek (of_io opened) then Err PreviewUnavailable
       else Ok opened)"

definition open_image :: "file_env \<Rightarrow> str \<Rightarrow> VirtualPath \<Rightarrow> nat \<Rightarrow> PreviewError + (OpenedFile \<times> ImageInfo)" where
  "open_image env share_id path max_bytes =
     and_then (map_err preview_error (open_file env share_id path)) (\<lambda>opened.
       if max_bytes < of_len opened then Err PreviewTooLarge
       else
         and_then (read_signature_header (of_io opened)) (\<lambda>header.
         and_then (validated_image header) (\<lambda>image.
           if \<not> fi_seek (of_io opened) then Err PreviewUnavailable else Ok (opened, image))))"

datatype InlineContent = InlineMedia StreamedMedia | InlineSvg | InlineText

fun media_type :: "InlineContent \<Rightarrow> string" where
  "media_type (InlineMedia m) = mime_type m"
| "media_type InlineSvg = SVG_MIME_TYPE"
| "media_type InlineText = TEXT_PLAIN_UTF8"

definition open_for_inline ::
  "file_env \<Rightarrow> str \<Rightarrow> VirtualPath \<Rightarrow> nat \<Rightarrow> nat \<Rightarrow> PreviewError + (OpenedFile \<times> InlineContent)" where
  "open_for_inline env share_id path max_bytes max_svg_bytes =
     and_then (map_err preview_error (open_file env share_id path)) (\<lambda>opened.
       if max_bytes < of_len opened then Err PreviewTooLarge
       else
         and_then (read_signature_header (of_io opened)) (\<lambda>header.
         and_then (classify_streamed header) (\<lambda>media.
           case media of
             Some m \<Rightarrow> Ok (opened, InlineMedia m)
           | None \<Rightarrow>
               and_then (check_text_prefix header (header_reached_end header)) (\<lambda>text.
                 Ok (opened, if of_len opened \<le> max_svg_bytes \<and> is_svg_document text then InlineSvg else InlineText)))))"

subsection \<open>Documents\<close>

definition media_thumbnailable :: "file_io \<Rightarrow> bytes \<Rightarrow> StreamedMedia \<Rightarrow> PreviewError + bool" where
  "media_thumbnailable io header media =
     (case media of
        SImage img \<Rightarrow>
          if im_mime_type img \<in> {''image/png'', ''image/jpeg''} then Ok True
          else if im_mime_type img = ''image/webp'' then Ok (\<not> webp_is_animated header)
          else if im_mime_type img = ''image/gif'' then
            (if \<not> fi_seek io then Err PreviewUnavailable else Ok (\<not> gif_is_animated (fst (fi_again io))))
          else Ok False
      | _ \<Rightarrow> Ok False)"

definition media_document :: "StreamedMedia \<Rightarrow> bytes \<Rightarrow> nat \<Rightarrow> bool \<Rightarrow> PreviewDocument" where
  "media_document media header len thumbnailable =
     \<lparr> pd_kind = media_kind media, pd_source = [], pd_language = None, pd_mime_type = Some (mime_type media),
       pd_codecs = media_codecs media header,
       pd_width = (case media of SImage img \<Rightarrow> im_width img | _ \<Rightarrow> None),
       pd_height = (case media of SImage img \<Rightarrow> im_height img | _ \<Rightarrow> None),
       pd_size = len, pd_truncated = False, pd_shown_bytes = None, pd_shown_lines = None,
       pd_openable = opens_in_tab media, pd_renderable = False, pd_thumbnailable = thumbnailable \<rparr>"

definition raw_document :: "nat \<Rightarrow> PreviewDocument" where
  "raw_document len =
     \<lparr> pd_kind = KRaw, pd_source = [], pd_language = None, pd_mime_type = None, pd_codecs = None, pd_width = None,
       pd_height = None, pd_size = len, pd_truncated = False, pd_shown_bytes = None, pd_shown_lines = None,
       pd_openable = False, pd_renderable = False, pd_thumbnailable = True \<rparr>"

definition text_document :: "PreviewPolicy \<Rightarrow> PreviewKind \<times> string option \<Rightarrow> str \<Rightarrow> nat \<Rightarrow> bool \<Rightarrow> PreviewDocument" where
  "text_document policy kind_language source len truncated =
     \<lparr> pd_kind = fst kind_language, pd_source = source, pd_language = snd kind_language, pd_mime_type = None,
       pd_codecs = None, pd_width = None, pd_height = None, pd_size = len, pd_truncated = truncated,
       pd_shown_bytes = (if truncated then Some (str_len source) else None),
       pd_shown_lines = (if truncated then Some (line_count source) else None), pd_openable = True,
       pd_renderable = (fst kind_language = KHtmlSource \<and> len \<le> pp_max_render_bytes policy),
       pd_thumbnailable = False \<rparr>"

definition load_head :: "VirtualPath \<Rightarrow> PreviewPolicy \<Rightarrow> nat \<Rightarrow> bytes \<Rightarrow> str \<Rightarrow> PreviewError + PreviewDocument" where
  "load_head path policy len header header_text =
     (let window = min (min (pp_max_bytes policy) HEAD_MAX_BYTES) (length header);
          head = take (text_head_len (take window header)) header
      in and_then (ok_or InvalidUtf8 (from_utf8 head)) (\<lambda>source.
           Ok (text_document policy
             (if len \<le> pp_max_render_bytes policy \<and> is_svg_document header_text then (KSvg, Some ''xml'')
              else classify_path path) source len True)))"

definition load_whole :: "VirtualPath \<Rightarrow> PreviewPolicy \<Rightarrow> nat \<Rightarrow> file_io \<Rightarrow> PreviewError + PreviewDocument" where
  "load_whole path policy len io =
     (if \<not> fi_seek io then Err PreviewUnavailable
      else
        and_then (map_err (\<lambda>_. PreviewUnavailable)
            (read_to_end (saturating_add 64 (pp_max_bytes policy) 1) (fi_again io))) (\<lambda>bs.
          if pp_max_bytes policy < length bs then Err PreviewTooLarge
          else
            and_then (ok_or InvalidUtf8 (from_utf8 bs)) (\<lambda>source.
              if contains_binary_control source then Err BinaryFile
              else
                Ok (text_document policy
                  (if is_svg_document source then (KSvg, Some ''xml'') else classify_path path) source len False))))"

definition load :: "file_env \<Rightarrow> str \<Rightarrow> VirtualPath \<Rightarrow> PreviewPolicy \<Rightarrow> PreviewError + PreviewDocument" where
  "load env share_id path policy =
     and_then (map_err preview_error (open_file env share_id path)) (\<lambda>opened.
     let len = of_len opened; io = of_io opened in
     and_then (read_signature_header io) (\<lambda>header.
     and_then (classify_streamed header) (\<lambda>media.
       case media of
         Some m \<Rightarrow> and_then (media_thumbnailable io header m) (\<lambda>t. Ok (media_document m header len t))
       | None \<Rightarrow>
           if is_tiff header \<and> len \<le> MAX_SOURCE_BYTES
              \<and> (case raw_preview (fi_at io) len of Inr (Some _) \<Rightarrow> True | _ \<Rightarrow> False)
           then Ok (raw_document len)
           else
             and_then (check_text_prefix header (header_reached_end header)) (\<lambda>header_text.
               if pp_max_bytes policy < len then load_head path policy len header header_text
               else load_whole path policy len io))))"

subsection \<open>Handlers\<close>

definition effective_policy :: "PreviewPolicy \<Rightarrow> BrowseState \<Rightarrow> PreviewPolicy" where
  "effective_policy policy b = with_render_cap policy (bl_max_download_bytes (bs_limits b))"

definition render_limit :: "PreviewPolicy \<Rightarrow> BrowseState \<Rightarrow> nat" where
  "render_limit policy b = pp_max_render_bytes (effective_policy policy b)"

text \<open>The checks every handler starts with: the share identifier, the path, and the grant.\<close>

definition preview_target ::
  "file_env \<Rightarrow> BrowseState \<Rightarrow> AuthenticatedIdentity \<Rightarrow> str \<Rightarrow> str option \<Rightarrow> PreviewRequestError + (str \<times> VirtualPath)" where
  "preview_target env b identity raw_share_id raw_path =
     (case ShareId_new raw_share_id of
        Inl _ \<Rightarrow> Err (Application NotFound)
      | Inr share_id \<Rightarrow>
          and_then (ok_or (Preview PreviewInvalidPath) raw_path) (\<lambda>raw_path.
          and_then (map_err (Preview \<circ> preview_error) (VirtualPath_parse (be_unicode (fe_browse env)) raw_path)) (\<lambda>path.
          and_then (map_err Application (authorize_owned (bs_shares b) (bs_policy b) identity share_id)) (\<lambda>_.
            Ok (share_id, path)))))"

text \<open>The blocking work of a handler under its download lease.\<close>

definition with_download ::
  "file_env \<Rightarrow> AuthenticatedIdentity \<Rightarrow> (PreviewError + 'a) \<Rightarrow> ('a \<Rightarrow> BrowseState \<Rightarrow> AppError + StreamResponse) \<Rightarrow> BrowseState
   \<Rightarrow> (PreviewRequestError + StreamResponse) \<times> BrowseState" where
  "with_download env identity work respond b =
     (case acquire_download identity b of
        (Inl e, b) \<Rightarrow> (Err (Application e), b)
      | (Inr _, b) \<Rightarrow>
          settle_download identity
            (and_then (map_err Application (run_blocking (fe_browse env) work)) (\<lambda>opened.
             and_then (map_err Preview opened) (\<lambda>opened.
               map_err Application (respond opened b)))) b)"

definition request_document ::
  "file_env \<Rightarrow> PreviewPolicy \<Rightarrow> AuthenticatedIdentity \<Rightarrow> str \<Rightarrow> str option \<Rightarrow> BrowseState
   \<Rightarrow> (PreviewRequestError + PreviewDocument) \<times> BrowseState" where
  "request_document env policy identity raw_share_id raw_path b =
     (case preview_target env b identity raw_share_id raw_path of
        Inl e \<Rightarrow> (Err e, b)
      | Inr (share_id, path) \<Rightarrow>
          (case acquire_buffered_read identity b of
             (Inl e, b) \<Rightarrow> (Err (Application e), b)
           | (Inr _, b) \<Rightarrow>
               (and_then (map_err Application (run_blocking (fe_browse env) (load env share_id path (effective_policy policy b))))
                  (map_err Preview),
                drop_buffered_read identity b)))"

definition preview_json ::
  "file_env \<Rightarrow> PreviewPolicy \<Rightarrow> AuthenticatedIdentity \<Rightarrow> str \<Rightarrow> str option \<Rightarrow> BrowseState
   \<Rightarrow> (PreviewRequestError + PreviewDocument JsonResponse) \<times> BrowseState" where
  "preview_json env policy identity raw_share_id raw_path b =
     (let (r, b) = request_document env policy identity raw_share_id raw_path b in
      (and_then r (\<lambda>d. Ok (json_response d)), b))"

definition preview_html_source ::
  "file_env \<Rightarrow> PreviewPolicy \<Rightarrow> AuthenticatedIdentity \<Rightarrow> str \<Rightarrow> str option \<Rightarrow> BrowseState
   \<Rightarrow> (PreviewRequestError + Response) \<times> BrowseState" where
  "preview_html_source env policy identity raw_share_id raw_path b =
     (let (r, b) = request_document env policy identity raw_share_id raw_path b in
      (and_then r (\<lambda>d. map_err Preview (html_source_response d)), b))"

text \<open>The body stream of \<open>file.take(size)\<close>, from where the handle was left.\<close>

definition streamed_image :: "file_env \<Rightarrow> OpenedFile \<Rightarrow> string \<Rightarrow> StreamResponse" where
  "streamed_image env opened mime =
     Streamed (image_response (fe_valid_header env) (take (of_len opened) (fst (fi_again (of_io opened)))) mime (of_len opened))"

definition preview_svg ::
  "file_env \<Rightarrow> PreviewPolicy \<Rightarrow> AuthenticatedIdentity \<Rightarrow> str \<Rightarrow> str option \<Rightarrow> BrowseState
   \<Rightarrow> (PreviewRequestError + StreamResponse) \<times> BrowseState" where
  "preview_svg env policy identity raw_share_id raw_path b =
     (case preview_target env b identity raw_share_id raw_path of
        Inl e \<Rightarrow> (Err e, b)
      | Inr (share_id, path) \<Rightarrow>
          with_download env identity (open_svg env share_id path (render_limit policy b))
            (\<lambda>opened _. Ok (streamed_image env opened SVG_MIME_TYPE)) b)"

definition preview_image ::
  "file_env \<Rightarrow> AuthenticatedIdentity \<Rightarrow> str \<Rightarrow> str option \<Rightarrow> BrowseState \<Rightarrow> (PreviewRequestError + StreamResponse) \<times> BrowseState" where
  "preview_image env identity raw_share_id raw_path b =
     (case preview_target env b identity raw_share_id raw_path of
        Inl e \<Rightarrow> (Err e, b)
      | Inr (share_id, path) \<Rightarrow>
          with_download env identity (open_image env share_id path (bl_max_download_bytes (bs_limits b)))
            (\<lambda>(opened, image) _. Ok (streamed_image env opened (im_mime_type image))) b)"

definition inline_headers :: "string \<Rightarrow> response_headers \<Rightarrow> AppError + response_headers" where
  "inline_headers mime h = Ok (h(''content-type'' \<mapsto> lit mime, ''content-disposition'' \<mapsto> lit ''inline''))"

definition stream_inline ::
  "file_env \<Rightarrow> str \<Rightarrow> VirtualPath \<Rightarrow> HeaderMap \<Rightarrow> OpenedFile \<Rightarrow> string \<Rightarrow> BrowseState \<Rightarrow> AppError + StreamResponse" where
  "stream_inline env share_id path headers opened mime b =
     and_then (stream_file (fe_valid_header env) headers (fi_seek (of_io opened)) (fst (fi_again (of_io opened)))
         (of_len opened) (file_etag env b share_id path opened) (inline_headers mime)) (\<lambda>r.
       Ok (secured r))"

definition preview_html_rendered ::
  "file_env \<Rightarrow> PreviewPolicy \<Rightarrow> AuthenticatedIdentity \<Rightarrow> str \<Rightarrow> str option \<Rightarrow> HeaderMap \<Rightarrow> BrowseState
   \<Rightarrow> (PreviewRequestError + StreamResponse) \<times> BrowseState" where
  "preview_html_rendered env policy identity raw_share_id raw_path headers b =
     (if \<not> rendered_destination_allowed headers then (Ok (Streamed frame_only_response), b)
      else
        (case preview_target env b identity raw_share_id raw_path of
           Inl e \<Rightarrow> (Err e, b)
         | Inr (share_id, path) \<Rightarrow>
             with_download env identity (open_rendered_html env share_id path (render_limit policy b))
               (\<lambda>opened. stream_inline env share_id path headers opened HTML_UTF8) b))"

definition open_inline ::
  "file_env \<Rightarrow> PreviewPolicy \<Rightarrow> AuthenticatedIdentity \<Rightarrow> str \<Rightarrow> str option \<Rightarrow> HeaderMap \<Rightarrow> BrowseState
   \<Rightarrow> (PreviewRequestError + StreamResponse) \<times> BrowseState" where
  "open_inline env policy identity raw_share_id raw_path headers b =
     (case preview_target env b identity raw_share_id raw_path of
        Inl e \<Rightarrow> (Err e, b)
      | Inr (share_id, path) \<Rightarrow>
          with_download env identity
            (open_for_inline env share_id path (bl_max_download_bytes (bs_limits b)) (render_limit policy b))
            (\<lambda>(opened, inline). stream_inline env share_id path headers opened (media_type inline)) b)"

subsection \<open>The head of a large text\<close>

lemma count_list_unat: "count_list (map unat bs) 10 = count_list (bs :: bytes) 10"
proof (induction bs)
  case (Cons b bs)
  have "unat b = 10 \<longleftrightarrow> b = 10" using word_unat_eq_iff [of b 10] by simp
  then show ?case using Cons by auto
qed simp

lemma utf8_char_last: "utf8_char c \<noteq> [] \<and> (last (utf8_char c) = 10 \<longrightarrow> c = 10)"
  by (auto simp: utf8_char_def)

lemma utf8_last: "s \<noteq> [] \<Longrightarrow> last (utf8 s) = 10 \<Longrightarrow> last s = 10"
proof (induction s rule: rev_induct)
  case (snoc c s)
  then show ?case using utf8_char_last [of c] by (auto simp: utf8_def)
qed simp

lemma head_line_count:
  assumes "from_utf8 (take (text_head_len w) w) = Some s"
  shows "line_count s \<le> HEAD_MAX_LINES"
proof -
  let ?k = "text_head_len w"
  have s: "utf8 s = map unat (take ?k w)" using assms utf8_decode_sound by (auto simp: from_utf8_def)
  have feeds: "count_list (utf8 s) 10 = count_list (take ?k w) 10" unfolding s by (rule count_list_unat)
  show ?thesis
  proof (cases "s = [] \<or> last s = 10")
    case True
    then show ?thesis using feeds text_head_lines [of w] by (simp add: line_count_def)
  next
    case False
    have "last (take (Suc i) w) = 10 \<Longrightarrow> i < length w \<Longrightarrow> ?k \<noteq> Suc i" for i
    proof
      assume i: "last (take (Suc i) w) = 10" "i < length w" "?k = Suc i"
      then have "last (utf8 s) = 10" unfolding s i(3) by (subst last_map) auto
      with False utf8_last show False by blast
    qed
    then have no: "w ! i = 10 \<Longrightarrow> i < length w \<Longrightarrow> ?k \<noteq> Suc i" for i
      by (simp add: take_Suc_conv_app_nth)
    have "rposition_len (\<lambda>b. b = 10) w = 0"
    proof (rule ccontr)
      assume r: "rposition_len (\<lambda>b. b = 10) w \<noteq> 0"
      have "nth_feed (HEAD_MAX_LINES - 1) w = None"
      proof (rule ccontr)
        assume "nth_feed (HEAD_MAX_LINES - 1) w \<noteq> None"
        then obtain i where i: "nth_feed (HEAD_MAX_LINES - 1) w = Some i" by auto
        then have "?k = Suc i" by (simp add: text_head_len_def)
        with no nth_feed_Some [OF i] show False by blast
      qed
      with r have "?k = rposition_len (\<lambda>b. b = 10) w" by (simp add: text_head_len_def Let_def)
      moreover have "rposition_len (\<lambda>b. b = 10) w - 1 < length w" using rposition_len_pos(1) [OF r] r by linarith
      ultimately show False using rposition_len_pos(2) [OF r] no [of "rposition_len (\<lambda>b. b = 10) w - 1"] r by simp
    qed
    then have "count_list w 10 = 0" by (rule rposition_len_0)
    then have "count_list (take ?k w) 10 = 0" using count_list_take_le [of ?k w 10] by simp
    then show ?thesis using feeds False by (simp add: line_count_def HEAD_MAX_LINES_def)
  qed
qed


subsection \<open>Documents\<close>

definition MEDIA_TYPES :: "string list" where
  "MEDIA_TYPES = IMAGE_TYPES @ [''application/pdf''] @ map mime_type AUDIO_VIDEO"

definition locked_down :: "response_headers \<Rightarrow> bool" where
  "locked_down h \<longleftrightarrow>
     h ''content-security-policy'' = Some (lit PREVIEW_CSP) \<and> h ''x-content-type-options'' = Some (lit ''nosniff'')
     \<and> h ''referrer-policy'' = Some (lit ''no-referrer'') \<and> h ''cache-control'' = Some (lit ''no-store, private'')
     \<and> h ''cross-origin-resource-policy'' = Some (lit ''same-origin'') \<and> h ''x-frame-options'' = Some (lit ''SAMEORIGIN'')"

lemma locked_down_applied [simp]: "locked_down (apply_security_headers h)"
  by (simp add: locked_down_def apply_security_headers_def)

lemma apply_security_headers_other [simp]:
  "apply_security_headers h ''content-type'' = h ''content-type''"
  "apply_security_headers h ''content-disposition'' = h ''content-disposition''"
  "apply_security_headers h ''etag'' = h ''etag''"
  by (simp_all add: apply_security_headers_def)

text \<open>Where the source of a document is text, and how much of it there may be.\<close>

definition source_ok :: "PreviewPolicy \<Rightarrow> PreviewDocument \<Rightarrow> bool" where
  "source_ok p d \<longleftrightarrow>
     list_all is_char (pd_source d) \<and> \<not> contains_binary_control (pd_source d)
     \<and> (if pd_truncated d
        then pp_max_bytes p < pd_size d \<and> pd_shown_bytes d = Some (str_len (pd_source d))
          \<and> pd_shown_lines d = Some (line_count (pd_source d))
          \<and> str_len (pd_source d) \<le> min (pp_max_bytes p) HEAD_MAX_BYTES \<and> line_count (pd_source d) \<le> HEAD_MAX_LINES
        else pd_size d \<le> pp_max_bytes p \<and> pd_shown_bytes d = None \<and> pd_shown_lines d = None
          \<and> str_len (pd_source d) \<le> pp_max_bytes p)"

definition streamed_kinds :: "PreviewKind set" where "streamed_kinds = {KImage, KPdf, KAudio, KVideo}"

definition document_ok :: "PreviewPolicy \<Rightarrow> PreviewDocument \<Rightarrow> bool" where
  "document_ok p d \<longleftrightarrow>
     (case pd_mime_type d of
        Some m \<Rightarrow> m \<in> set MEDIA_TYPES \<and> pd_kind d \<in> streamed_kinds
      | None \<Rightarrow> pd_kind d \<notin> streamed_kinds \<and> pd_codecs d = None \<and> pd_width d = None \<and> pd_height d = None)
     \<and> (pd_openable d \<longleftrightarrow> pd_kind d \<notin> {KAudio, KVideo, KRaw})
     \<and> (pd_renderable d \<longleftrightarrow> pd_kind d = KHtmlSource \<and> pd_size d \<le> pp_max_render_bytes p)
     \<and> (pd_thumbnailable d \<longrightarrow> pd_kind d \<in> {KImage, KRaw})
     \<and> (if pd_kind d \<in> streamed_kinds \<union> {KRaw}
        then pd_source d = [] \<and> pd_language d = None \<and> \<not> pd_truncated d \<and> pd_shown_bytes d = None \<and> pd_shown_lines d = None
        else source_ok p d)
     \<and> (pd_kind d = KSvg \<and> pd_truncated d \<longrightarrow> pd_size d \<le> pp_max_render_bytes p)
     \<and> (\<forall>w h. pd_width d = Some w \<and> pd_height d = Some h \<longrightarrow> 0 < w \<and> 0 < h \<and> w * h \<le> MAX_IMAGE_PIXELS)"

lemma classify_path_kind: "fst (classify_path path) \<in> {KText, KHtmlSource, KMarkdownSource, KCode}"
  by (auto simp: classify_path_def split: option.splits)

lemma media_type_listed: "classify_streamed header = Ok (Some m) \<Longrightarrow> mime_type m \<in> set MEDIA_TYPES"
  by (erule classify_streamed_cases) (auto simp: MEDIA_TYPES_def dest: classify_image_type)

lemma media_document_ok:
  assumes "classify_streamed header = Ok (Some m)" "media_thumbnailable io header m = Ok t"
  shows "document_ok p (media_document m header n t)"
proof -
  have "media_kind m \<in> streamed_kinds" by (cases m) (auto simp: streamed_kinds_def)
  moreover have "t \<longrightarrow> media_kind m = KImage" using assms(2) by (cases m) (auto simp: media_thumbnailable_def)
  moreover have "opens_in_tab m \<longleftrightarrow> media_kind m \<notin> {KAudio, KVideo, KRaw}" by (cases m) auto
  moreover have "0 < w \<and> 0 < h \<and> w * h \<le> MAX_IMAGE_PIXELS" if "m = SImage img" "im_width img = Some w" "im_height img = Some h" for img w h
    using assms(1) that by (elim classify_streamed_cases) (auto simp: AUDIO_VIDEO_def dest: validated_pixels)
  ultimately show ?thesis
    using media_type_listed [OF assms(1)]
    by (auto simp: document_ok_def media_document_def streamed_kinds_def split: StreamedMedia.splits)
qed

lemma text_document_ok:
  assumes "kl = (KSvg, l) \<and> (truncated \<longrightarrow> n \<le> pp_max_render_bytes p) \<or> kl = classify_path path"
    "source_ok p (text_document p kl source n truncated)"
  shows "document_ok p (text_document p kl source n truncated)"
proof -
  have "fst kl \<in> {KText, KHtmlSource, KMarkdownSource, KCode, KSvg}"
    using assms(1) classify_path_kind [of path] by auto
  moreover have "fst kl = KSvg \<longrightarrow> truncated \<longrightarrow> n \<le> pp_max_render_bytes p"
    using assms(1) classify_path_kind [of path] by auto
  ultimately show ?thesis
    using assms(2) by (auto simp: document_ok_def text_document_def streamed_kinds_def)
qed

lemma contains_binary_control_append:
  "contains_binary_control (s @ t) \<longleftrightarrow> contains_binary_control s \<or> contains_binary_control t"
  by (auto simp: contains_binary_control_def)

lemma load_head_ok:
  assumes "check_text_prefix header at_end = Ok text" "load_head path p n header text = Ok d" "pp_max_bytes p < n"
  shows "document_ok p d \<and> (\<exists>t. text = pd_source d @ t)"
proof -
  let ?w = "min (min (pp_max_bytes p) HEAD_MAX_BYTES) (length header)"
  obtain s t where s: "text = s @ t" "from_utf8 (take (text_head_len (take ?w header)) header) = Some s"
    "text_head_len (take ?w header) \<le> ?w" using text_head_boundary [OF assms(1)] by blast
  then have tk: "take (text_head_len (take ?w header)) header = take (text_head_len (take ?w header)) (take ?w header)"
    by (simp add: min_def)
  have lines: "line_count s \<le> HEAD_MAX_LINES"
    using head_line_count [of "take ?w header" s] s(2) unfolding tk by blast
  have chars: "list_all is_char s" "utf8 s = map unat (take (text_head_len (take ?w header)) header)"
    using utf8_decode_sound s(2) by (auto simp: from_utf8_def)
  then have len: "str_len s \<le> min (pp_max_bytes p) HEAD_MAX_BYTES" using s(3) by (simp add: str_len_def)
  have "\<not> contains_binary_control s"
    using check_text_prefix_Ok(2) [OF assms(1)] s(1) contains_binary_control_append by blast
  with assms(3) chars lines len have src: "source_ok p (text_document p kl s n True)" for kl
    by (simp add: source_ok_def text_document_def)
  let ?kl = "if n \<le> pp_max_render_bytes p \<and> is_svg_document text then (KSvg, Some ''xml'') else classify_path path"
  have d: "d = text_document p ?kl s n True" using assms(2) s(2) by (auto simp: load_head_def Let_def)
  have "document_ok p d" unfolding d by (rule text_document_ok [where path = path, OF _ src]) auto
  moreover have "pd_source d = s" by (simp add: d text_document_def)
  ultimately show ?thesis using s(1) by blast
qed

lemma load_whole_ok:
  assumes "load_whole path p n io = Ok d" "n \<le> pp_max_bytes p"
  shows "document_ok p d \<and> (\<exists>rest. fst (fi_again io) = str_bytes (pd_source d) @ rest)"
proof -
  from assms(1) obtain bs s where b: "read_to_end (saturating_add 64 (pp_max_bytes p) 1) (fi_again io) = Ok bs"
    "length bs \<le> pp_max_bytes p" "from_utf8 bs = Some s" "\<not> contains_binary_control s"
    and d: "d = text_document p (if is_svg_document s then (KSvg, Some ''xml'') else classify_path path) s n False"
    by (auto simp: load_whole_def not_less split: if_splits)
  have u: "list_all is_char s" "utf8 s = map unat bs" using b(3) utf8_decode_sound by (auto simp: from_utf8_def)
  with b(2,4) assms(2) have src: "source_ok p (text_document p kl s n False)" for kl
    by (simp add: source_ok_def text_document_def str_len_def)
  have "document_ok p d" unfolding d by (rule text_document_ok [where path = path, OF _ src]) auto
  moreover have "str_bytes s = bs" using u(2) by (simp add: str_bytes_def comp_def)
  ultimately show ?thesis
    using read_to_end_length [OF b(1)] append_take_drop_id [of _ "fst (fi_again io)"]
    by (metis d text_document_def PreviewDocument.select_convs(2))
qed

lemma raw_document_ok: "document_ok p (raw_document n)"
  by (simp add: document_ok_def raw_document_def streamed_kinds_def)

lemma load_text_ok:
  assumes "(if pp_max_bytes p < n then load_head path p n header text else load_whole path p n io) = Ok d"
    "check_text_prefix header at_end = Ok text"
  shows "document_ok p d"
proof (cases "pp_max_bytes p < n")
  case True
  with assms load_head_ok [OF assms(2)] show ?thesis by simp
next
  case False
  with assms load_whole_ok show ?thesis by (simp add: not_less)
qed

lemma load_ok:
  assumes "load env share_id path p = Ok d"
  shows "document_ok p d"
proof -
  from assms obtain opened where "open_file env share_id path = Ok opened" by (auto simp: load_def Let_def)
  with assms obtain header where "read_signature_header (of_io opened) = Ok header" by (auto simp: load_def Let_def)
  with assms \<open>open_file env share_id path = Ok opened\<close> obtain media where m: "classify_streamed header = Ok media"
    by (auto simp: load_def Let_def)
  note facts = assms \<open>open_file env share_id path = Ok opened\<close> \<open>read_signature_header (of_io opened) = Ok header\<close> m
  show ?thesis
  proof (cases media)
    case (Some s)
    with facts show ?thesis by (auto simp: load_def Let_def intro: media_document_ok)
  next
    case None
    show ?thesis
    proof (cases "is_tiff header \<and> of_len opened \<le> MAX_SOURCE_BYTES
        \<and> (case raw_preview (fi_at (of_io opened)) (of_len opened) of Inr (Some _) \<Rightarrow> True | _ \<Rightarrow> False)")
      case True
      with facts None raw_document_ok [of p "of_len opened"] show ?thesis by (simp add: load_def Let_def)
    next
      case False
      with facts None obtain ht where t: "check_text_prefix header (header_reached_end header) = Ok ht"
        by (auto simp: load_def Let_def simp del: if_split)
      with facts None False show ?thesis
        by (intro load_text_ok [OF _ t, where n = "of_len opened" and io = "of_io opened" and path = path])
          (simp add: load_def Let_def)
    qed
  qed
qed


subsection \<open>What the routes return\<close>

lemma with_download_exact:
  assumes "with_download env identity work respond b = (r, b')" "gates_ok b"
  shows "lease_exact identity r b b'"
    "r = Ok s \<Longrightarrow> \<exists>opened b1. work = Ok opened \<and> respond opened b1 = Ok s \<and> bs_cursor_key b1 = bs_cursor_key b"
proof -
  obtain q b1 where q: "acquire_download identity b = (q, b1)" by fastforce
  have "lease_exact identity r b b'
    \<and> (r = Ok s \<longrightarrow> (\<exists>opened b1. work = Ok opened \<and> respond opened b1 = Ok s \<and> bs_cursor_key b1 = bs_cursor_key b))"
    using assms(2) q
  proof (cases rule: acquire_download_cases)
    case refused
    with assms(1) q show ?thesis by (auto simp: with_download_def lease_exact_def keeps_lease_def)
  next
    case admitted
    with assms(1) q have "settle_download identity r b1 = (r, b')"
      and r: "r = and_then (map_err Application (run_blocking (fe_browse env) work)) (\<lambda>opened.
               and_then (map_err Preview opened) (\<lambda>opened. map_err Application (respond opened b1)))"
      by (auto simp: with_download_def settle_download_def)
    have "lease_exact identity r b b'"
      using settle_download_exact [OF assms(2) q [unfolded admitted(1)] \<open>settle_download identity r b1 = (r, b')\<close>] by simp
    moreover have "\<exists>opened. work = Ok opened \<and> respond opened b1 = Ok s" if "r = Ok s"
      using that unfolding r by (auto simp: run_blocking_def split: if_splits)
    ultimately show ?thesis using admitted(4) by blast
  qed
  then show "lease_exact identity r b b'"
    "r = Ok s \<Longrightarrow> \<exists>opened b1. work = Ok opened \<and> respond opened b1 = Ok s \<and> bs_cursor_key b1 = bs_cursor_key b"
    by blast+
qed

lemma request_document_exact:
  assumes "request_document env policy identity raw_share_id raw_path b = (r, b')" "gates_ok b"
  shows "b' = b" "r = Ok d \<Longrightarrow> \<exists>share_id path. preview_target env b identity raw_share_id raw_path = Ok (share_id, path)
    \<and> load env share_id path (effective_policy policy b) = Ok d"
proof -
  obtain q b1 where q: "acquire_buffered_read identity b = (q, b1)" by fastforce
  have "b' = b \<and> (r = Ok d \<longrightarrow> (\<exists>share_id path. preview_target env b identity raw_share_id raw_path = Ok (share_id, path)
    \<and> load env share_id path (effective_policy policy b) = Ok d))"
    using assms(2) q
  proof (cases rule: acquire_buffered_read_cases)
    case refused
    with assms(1) q show ?thesis by (auto simp: request_document_def split: sum.splits)
  next
    case admitted
    then have "effective_policy policy b1 = effective_policy policy b" by (simp add: effective_policy_def)
    with admitted assms(1) q show ?thesis
      by (auto simp: request_document_def run_blocking_def split: sum.splits if_splits)
  qed
  then show "b' = b" "r = Ok d \<Longrightarrow> \<exists>share_id path. preview_target env b identity raw_share_id raw_path = Ok (share_id, path)
    \<and> load env share_id path (effective_policy policy b) = Ok d" by blast+
qed

lemma stream_inline_Ok:
  assumes "stream_inline env share_id path headers opened mime b = Ok (Streamed rs)"
  shows "locked_down (rs_headers rs) \<and> rs_headers rs ''content-type'' = Some (lit mime)
    \<and> rs_headers rs ''content-disposition'' = Some (lit ''inline'')
    \<and> rs_status rs \<in> {200, 206, 304} \<and> length (rs_body rs) \<le> of_len opened"
proof -
  from assms obtain t where t: "stream_file (fe_valid_header env) headers (fi_seek (of_io opened)) (fst (fi_again (of_io opened)))
      (of_len opened) (file_etag env b share_id path opened) (inline_headers mime) = Ok t" "secured t = Streamed rs"
    by (auto simp: stream_inline_def)
  then obtain u where u: "t = Streamed u" "rs = u\<lparr>rs_headers := apply_security_headers (rs_headers u)\<rparr>"
    by (cases t) auto
  from t(1) [unfolded u(1)] obtain h where h: "inline_headers mime Map.empty = Ok h" "rs_status u \<in> {200, 206, 304}"
    "length (rs_body u) \<le> of_len opened"
    "\<And>k. k \<notin> {''etag'', ''accept-ranges'', ''content-length'', ''content-range''} \<Longrightarrow> rs_headers u k = h k"
    using stream_file_headers [OF t(1) [unfolded u(1)]] by metis
  have "rs_headers u ''content-type'' = h ''content-type''"
    "rs_headers u ''content-disposition'' = h ''content-disposition''" by (rule h(4); simp)+
  with h(1-3) show ?thesis by (auto simp: u(2) inline_headers_def)
qed


text \<open>
  C32: A file opens in the browser only as what its bytes are. Whatever its name, a file is served inline only with
  the media type its header was recognised as, as a sandboxed SVG image when its header is an SVG document and the
  whole file is within the render limit, or as plain text; never as HTML or script. Every such response carries the
  sandbox headers, is at most the download limit, and holds exactly one download lease while it has a body.
\<close>

theorem inline_by_content:
  assumes "open_inline env policy identity raw_share_id raw_path headers b = (r, b')" "gates_ok b"
  shows "lease_exact identity r b b' \<and> (\<forall>rs. r = Ok (Streamed rs) \<longrightarrow>
     locked_down (rs_headers rs) \<and> rs_headers rs ''content-disposition'' = Some (lit ''inline'')
     \<and> rs_status rs \<in> {200, 206, 304} \<and> length (rs_body rs) \<le> bl_max_download_bytes (bs_limits b)
     \<and> (\<exists>share_id path opened header.
          preview_target env b identity raw_share_id raw_path = Ok (share_id, path)
          \<and> open_file env share_id path = Ok opened \<and> read_signature_header (of_io opened) = Ok header
          \<and> (\<exists>m. rs_headers rs ''content-type'' = Some (lit m)
               \<and> ((\<exists>media. classify_streamed header = Ok (Some media) \<and> m = mime_type media \<and> m \<in> set MEDIA_TYPES)
                  \<or> classify_streamed header = Ok None
                    \<and> (\<exists>text. check_text_prefix header (header_reached_end header) = Ok text
                         \<and> m = (if of_len opened \<le> render_limit policy b \<and> is_svg_document text
                                then ''image/svg+xml'' else ''text/plain; charset=utf-8''))))))"
proof (cases "preview_target env b identity raw_share_id raw_path")
  case (Inr t)
  obtain share_id path where t: "t = (share_id, path)" by (cases t)
  let ?work = "open_for_inline env share_id path (bl_max_download_bytes (bs_limits b)) (render_limit policy b)"
  have w: "with_download env identity ?work
      (\<lambda>(opened, inline). stream_inline env share_id path headers opened (media_type inline)) b = (r, b')"
    using assms(1) Inr t by (simp add: open_inline_def)
  have "lease_exact identity r b b'" by (rule with_download_exact(1) [OF w assms(2)])
  moreover {
    fix rs assume "r = Ok (Streamed rs)"
    from with_download_exact(2) [OF w assms(2) this] obtain opened inline b1 where
      o: "?work = Ok (opened, inline)" "stream_inline env share_id path headers opened (media_type inline) b1 = Ok (Streamed rs)"
      by auto
    from o(1) obtain header where h: "open_file env share_id path = Ok opened"
      "of_len opened \<le> bl_max_download_bytes (bs_limits b)" "read_signature_header (of_io opened) = Ok header"
      "(\<exists>media. classify_streamed header = Ok (Some media) \<and> inline = InlineMedia media)
       \<or> classify_streamed header = Ok None \<and> (\<exists>text. check_text_prefix header (header_reached_end header) = Ok text
           \<and> inline = (if of_len opened \<le> render_limit policy b \<and> is_svg_document text then InlineSvg else InlineText))"
      by (auto simp: open_for_inline_def not_less split: if_splits option.splits)
    from h(4) have "(\<exists>media. classify_streamed header = Ok (Some media) \<and> media_type inline = mime_type media
          \<and> media_type inline \<in> set MEDIA_TYPES)
       \<or> classify_streamed header = Ok None \<and> (\<exists>text. check_text_prefix header (header_reached_end header) = Ok text
           \<and> media_type inline = (if of_len opened \<le> render_limit policy b \<and> is_svg_document text
                then ''image/svg+xml'' else ''text/plain; charset=utf-8''))"
      by (auto simp: SVG_MIME_TYPE_def TEXT_PLAIN_UTF8_def dest: media_type_listed)
    with stream_inline_Ok [OF o(2)] h(1-3) Inr t have
      "locked_down (rs_headers rs) \<and> rs_headers rs ''content-disposition'' = Some (lit ''inline'')
       \<and> rs_status rs \<in> {200, 206, 304} \<and> length (rs_body rs) \<le> bl_max_download_bytes (bs_limits b)
       \<and> (\<exists>share_id path opened header.
          preview_target env b identity raw_share_id raw_path = Ok (share_id, path)
          \<and> open_file env share_id path = Ok opened \<and> read_signature_header (of_io opened) = Ok header
          \<and> (\<exists>m. rs_headers rs ''content-type'' = Some (lit m)
               \<and> ((\<exists>media. classify_streamed header = Ok (Some media) \<and> m = mime_type media \<and> m \<in> set MEDIA_TYPES)
                  \<or> classify_streamed header = Ok None
                    \<and> (\<exists>text. check_text_prefix header (header_reached_end header) = Ok text
                         \<and> m = (if of_len opened \<le> render_limit policy b \<and> is_svg_document text
                                then ''image/svg+xml'' else ''text/plain; charset=utf-8'')))))"
      by (intro conjI exI [of _ share_id] exI [of _ path] exI [of _ opened] exI [of _ header] exI [of _ "media_type inline"]) auto
  }
  ultimately show ?thesis by blast
qed (use assms in \<open>auto simp: open_inline_def lease_exact_def keeps_lease_def\<close>)


lemma streamed_image_Ok:
  "\<exists>rs. streamed_image env opened mime = Streamed rs \<and> locked_down (rs_headers rs) \<and> rs_status rs = 200
     \<and> rs_headers rs ''content-type'' = Some (lit mime) \<and> length (rs_body rs) \<le> of_len opened"
  by (auto simp: streamed_image_def image_response_def Let_def)

text \<open>The panel's images: raster types within the pixel cap, and whole SVG documents within the render limit.\<close>

lemma preview_image_ok:
  assumes "preview_image env identity raw_share_id raw_path b = (r, b')" "gates_ok b"
  shows "lease_exact identity r b b' \<and> (\<forall>s. r = Ok s \<longrightarrow>
     (\<exists>rs img. s = Streamed rs \<and> locked_down (rs_headers rs) \<and> im_mime_type img \<in> set IMAGE_TYPES
        \<and> rs_headers rs ''content-type'' = Some (lit (im_mime_type img)) \<and> validate_image_dimensions img = Ok ()
        \<and> length (rs_body rs) \<le> bl_max_download_bytes (bs_limits b)))"
proof (cases "preview_target env b identity raw_share_id raw_path")
  case (Inr t)
  obtain share_id path where t: "t = (share_id, path)" by (cases t)
  have w: "with_download env identity (open_image env share_id path (bl_max_download_bytes (bs_limits b)))
      (\<lambda>(opened, image) _. Ok (streamed_image env opened (im_mime_type image))) b = (r, b')"
    using assms(1) Inr t by (simp add: preview_image_def)
  have "\<exists>rs img. s = Streamed rs \<and> locked_down (rs_headers rs) \<and> im_mime_type img \<in> set IMAGE_TYPES
      \<and> rs_headers rs ''content-type'' = Some (lit (im_mime_type img)) \<and> validate_image_dimensions img = Ok ()
      \<and> length (rs_body rs) \<le> bl_max_download_bytes (bs_limits b)" if r: "r = Ok s" for s
  proof -
    from with_download_exact(2) [OF w assms(2) r] obtain opened img where
      o: "open_image env share_id path (bl_max_download_bytes (bs_limits b)) = Ok (opened, img)"
      "s = streamed_image env opened (im_mime_type img)" by auto
    from o(1) obtain header where "validated_image header = Ok img" "of_len opened \<le> bl_max_download_bytes (bs_limits b)"
      by (auto simp: open_image_def not_less split: if_splits)
    then have "im_mime_type img \<in> set IMAGE_TYPES" "validate_image_dimensions img = Ok ()"
      "of_len opened \<le> bl_max_download_bytes (bs_limits b)"
      using classify_image_type by (auto simp: validated_image_def)
    then show ?thesis
      using streamed_image_Ok [of env opened "im_mime_type img"] o(2) by (auto intro: order_trans)
  qed
  then show ?thesis using with_download_exact(1) [OF w assms(2)] by blast
qed (use assms in \<open>auto simp: preview_image_def lease_exact_def keeps_lease_def\<close>)

lemma preview_svg_ok:
  assumes "preview_svg env policy identity raw_share_id raw_path b = (r, b')" "gates_ok b"
  shows "lease_exact identity r b b' \<and> (\<forall>s. r = Ok s \<longrightarrow>
     (\<exists>rs share_id path opened. s = Streamed rs \<and> locked_down (rs_headers rs)
        \<and> rs_headers rs ''content-type'' = Some (lit ''image/svg+xml'')
        \<and> open_streamed_text env share_id path = Ok (opened, True)
        \<and> of_len opened \<le> render_limit policy b \<and> length (rs_body rs) \<le> of_len opened))"
proof (cases "preview_target env b identity raw_share_id raw_path")
  case (Inr t)
  obtain share_id path where t: "t = (share_id, path)" by (cases t)
  have w: "with_download env identity (open_svg env share_id path (render_limit policy b))
      (\<lambda>opened _. Ok (streamed_image env opened SVG_MIME_TYPE)) b = (r, b')"
    using assms(1) Inr t by (simp add: preview_svg_def)
  have "\<exists>rs share_id path opened. s = Streamed rs \<and> locked_down (rs_headers rs)
      \<and> rs_headers rs ''content-type'' = Some (lit ''image/svg+xml'')
      \<and> open_streamed_text env share_id path = Ok (opened, True)
      \<and> of_len opened \<le> render_limit policy b \<and> length (rs_body rs) \<le> of_len opened" if r: "r = Ok s" for s
  proof -
    from with_download_exact(2) [OF w assms(2) r] obtain opened where
      o: "open_svg env share_id path (render_limit policy b) = Ok opened"
      "s = streamed_image env opened SVG_MIME_TYPE" by auto
    from o(1) have "open_streamed_text env share_id path = Ok (opened, True)" "of_len opened \<le> render_limit policy b"
      by (auto simp: open_svg_def not_less split: if_splits)
    then show ?thesis
      using streamed_image_Ok [of env opened SVG_MIME_TYPE] o(2) by (auto simp: SVG_MIME_TYPE_def)
  qed
  then show ?thesis using with_download_exact(1) [OF w assms(2)] by blast
qed (use assms in \<open>auto simp: preview_svg_def lease_exact_def keeps_lease_def\<close>)

subsection \<open>A sample file\<close>

lemma sample_preview_target:
  "preview_target (sample_file_env bs) sample_browse sample_identity [100] (Some (lit ''b.html'')) = Ok ([100], [lit ''b.html''])"
proof -
  have "ShareId_new [100] = Ok [100]" "VirtualPath_parse ascii_unicode (lit ''b.html'') = Ok [lit ''b.html'']" by code_simp+
  then show ?thesis
    by (simp add: preview_target_def sample_file_env_def sample_browse_env_def sample_browse_def sample_identity_def
        authorize_owned_def authorize_def grant_for_def with_gates_def)
qed

lemma sample_header:
  "length bs < SIGNATURE_HEADER_BYTES \<Longrightarrow> read_signature_header (sample_io bs) = Ok bs"
  by (simp add: read_signature_header_def read_to_end_def sample_io_def)

lemma sample_plain: "\<not> contains_binary_control [104, 105, 33]" "from_utf8 [104, 105, 33] = Some [104, 105, 33]"
  by (simp add: contains_binary_control_def is_control_def) code_simp

lemma sample_text: "classify_streamed [104, 105, 33] = Ok None" "\<not> is_tiff [104, 105, 33]"
  "classify_path [lit ''b.html''] = (KHtmlSource, Some ''html'')"
  by code_simp+

lemma sample_prefix: "check_text_prefix [104, 105, 33] e = Ok [104, 105, 33]"
  by (simp add: check_text_prefix_def sample_plain)

lemma sample_no_svg: "\<not> is_svg_document [104, 105, 33]"
  by (simp add: is_svg_document_def utf8_char_def xml_declaration_def svg_prolog.simps trim_space_def lit_def is_xml_space_def
    SIGNATURE_HEADER_BYTES_def)

lemma sample_stream [simp]: "fi_seek (sample_io bs)" "fi_again (sample_io bs) = (bs, None)"
  by (simp_all add: sample_io_def)

lemma read_to_end_whole [simp]: "read_to_end n (bs, None) = Ok (take n bs)"
  by (simp add: read_to_end_def)

lemmas sample_preview_simps =
  sample_preview_target sample_open sample_header sample_text sample_plain sample_prefix sample_no_svg SIGNATURE_HEADER_BYTES_def

lemma sample_load:
  "\<exists>d. load (sample_file_env [104, 105, 33]) [100] [lit ''b.html''] (effective_policy PreviewPolicy_default sample_browse) = Ok d
    \<and> pd_source d = [104, 105, 33] \<and> pd_kind d = KHtmlSource"
  by (simp add: load_def sample_preview_simps load_whole_def text_document_def effective_policy_def with_render_cap_def
      PreviewPolicy_default_def saturating_add_def Let_def)



lemma sample_with_download:
  assumes "open_work = Ok opened" "\<And>b. respond opened b = Ok (Streamed (rs b))"
  shows "\<exists>b b'. with_download (sample_file_env bs) sample_identity open_work respond sample_browse = (Ok (Streamed (rs b)), b')"
proof -
  obtain b1 where "acquire_download sample_identity sample_browse = (Ok (), b1)"
    using sample_admitted by (metis prod.collapse)
  then show ?thesis using assms by (auto simp: with_download_def settle_download_def)
qed

lemma sample_stream_inline:
  assumes "header_get headers ''if-none-match'' = None" "header_get headers ''if-range'' = None" "header_get headers ''range'' = None"
  shows "\<exists>rs. stream_inline (sample_file_env bs) [100] path headers
      \<lparr> of_len = length bs, of_modified = Some 0, of_file_id = 7, of_io = sample_io bs \<rparr> mime b = Ok (Streamed rs)
    \<and> rs_status rs = 200 \<and> rs_body rs = bs"
  using assms
  by (simp add: stream_inline_def stream_file_def if_none_match_def requested_range_def if_range_allows_def inline_headers_def
      add_validator_headers_def header_value_def Let_def)

theorem inline_by_content_witness:
  "\<exists>rs b'. open_inline (sample_file_env [104, 105, 33]) PreviewPolicy_default sample_identity [100] (Some (lit ''b.html'')) []
      sample_browse = (Ok (Streamed rs), b') \<and> rs_body rs = [104, 105, 33] \<and> locked_down (rs_headers rs)"
proof -
  let ?env = "sample_file_env [104, 105, 33]"
  let ?o = "\<lparr> of_len = length ([104, 105, 33] :: bytes), of_modified = Some 0, of_file_id = 7, of_io = sample_io [104, 105, 33] \<rparr>"
  have w: "open_for_inline ?env [100] [lit ''b.html''] (bl_max_download_bytes (bs_limits sample_browse))
      (render_limit PreviewPolicy_default sample_browse) = Ok (?o, InlineText)"
    by (simp add: open_for_inline_def sample_preview_simps sample_limits_default BrowseLimits_default_def)
  have "\<exists>rs. stream_inline ?env [100] [lit ''b.html''] [] ?o (media_type InlineText) b = Ok (Streamed rs)
    \<and> rs_status rs = 200 \<and> rs_body rs = [104, 105, 33]" for b
    by (rule sample_stream_inline) (simp_all add: header_get_def get_all_def)
  then obtain rs where rs: "\<And>b. stream_inline ?env [100] [lit ''b.html''] [] ?o (media_type InlineText) b = Ok (Streamed (rs b))"
    "\<And>b. rs_body (rs b) = [104, 105, 33]" by metis
  have "\<exists>b b'. with_download ?env sample_identity (open_for_inline ?env [100] [lit ''b.html'']
        (bl_max_download_bytes (bs_limits sample_browse)) (render_limit PreviewPolicy_default sample_browse))
      (\<lambda>(opened, inline). stream_inline ?env [100] [lit ''b.html''] [] opened (media_type inline)) sample_browse
      = (Ok (Streamed (rs b)), b')"
    by (rule sample_with_download [OF w]) (use rs(1) in simp)
  then obtain b b' where o: "open_inline ?env PreviewPolicy_default sample_identity [100] (Some (lit ''b.html'')) []
      sample_browse = (Ok (Streamed (rs b)), b')"
    by (auto simp: open_inline_def sample_preview_target)
  from inline_by_content [OF o sample_gates] rs(2) o show ?thesis by blast
qed


end
