(* ===== verification/ThumbCache.thy ===== *)
theory ThumbCache
  imports Auth "HOL-Library.Option_ord"
begin

text \<open>
  The on-disk thumbnail cache of \<open>src/src/thumbnail/cache.rs\<close> over the private directory of
  \<open>src/src/filesystem/private_dir.rs\<close>: the index of sizes, eviction, the startup scan, \<open>get\<close>, \<open>put\<close> and \<open>remove\<close>.
  Every system call may fail; which ones do, and how far a failed write got, is an argument of the operations.
\<close>

subsection \<open>The private directory\<close>

text \<open>A flat directory: its entries in listing order. Names that are not UTF-8 are never listed nor named, so they are left out.\<close>

record PrivateFile =
  pf_regular :: bool
  pf_bytes :: bytes
  pf_modified :: "SystemTime option"

type_synonym private_dir = "(str \<times> PrivateFile) list"

record PrivateEntry =
  pe_name :: str
  pe_len :: nat
  pe_modified :: "SystemTime option"

definition other_error :: io_error where "other_error = \<lparr> raw_os_error = None, io_kind = OtherKind \<rparr>"
definition invalid_input :: io_error where "invalid_input = \<lparr> raw_os_error = None, io_kind = InvalidInput \<rparr>"

definition name_char :: "nat \<Rightarrow> bool" where
  "name_char b \<longleftrightarrow> is_ascii_alphanumeric b \<or> b \<in> {46, 45, 95}"

definition check_name :: "str \<Rightarrow> io_error + unit" where
  "check_name name =
     (if name = [] \<or> 128 < str_len name \<or> name = [46] \<or> name = [46, 46] \<or> \<not> list_all name_char (utf8 name)
      then Err invalid_input else Ok ())"

text \<open>The scan: it may fail, and the metadata of single entries may be unreadable.\<close>

definition PrivateDir_list ::
  "io_error option \<Rightarrow> (str \<Rightarrow> bool) \<Rightarrow> nat \<Rightarrow> private_dir \<Rightarrow> io_error + PrivateEntry list" where
  "PrivateDir_list fault unreadable max_entries dir =
     (case fault of
        Some e \<Rightarrow> Err e
      | None \<Rightarrow> Ok (take max_entries
          (map (\<lambda>(name, f). \<lparr> pe_name = name, pe_len = length (pf_bytes f), pe_modified = pf_modified f \<rparr>)
            (filter (\<lambda>(name, f). pf_regular f \<and> \<not> unreadable name) dir))))"

definition PrivateDir_read :: "io_error option \<Rightarrow> str \<Rightarrow> nat \<Rightarrow> private_dir \<Rightarrow> io_error + bytes option" where
  "PrivateDir_read fault name max_len dir =
     and_then (check_name name) (\<lambda>_.
       case fault of
         Some e \<Rightarrow> Err e
       | None \<Rightarrow>
           (case map_of dir name of
              None \<Rightarrow> Ok None
            | Some f \<Rightarrow>
                if \<not> pf_regular f \<or> max_len < length (pf_bytes f) then Err other_error else Ok (Some (pf_bytes f))))"

text \<open>Where an atomic write can stop.\<close>

datatype write_fault = FailCreate | FailWrite nat | FailSync | FailRename

definition write_atomic ::
  "write_fault option \<Rightarrow> bool \<Rightarrow> str \<Rightarrow> str \<Rightarrow> bytes \<Rightarrow> SystemTime option \<Rightarrow> private_dir \<Rightarrow> (io_error + unit) \<times> private_dir" where
  "write_atomic fault cleanup temporary name bs now dir =
     (case and_then (check_name temporary) (\<lambda>_. check_name name) of
        Inl e \<Rightarrow> (Err e, dir)
      | Inr _ \<Rightarrow>
          let f = \<lparr> pf_regular = True, pf_bytes = bs, pf_modified = now \<rparr>;
              (result, dir) =
                (if map_of dir temporary \<noteq> None \<or> fault = Some FailCreate then (Err other_error, dir)
                 else (case fault of
                     Some (FailWrite n) \<Rightarrow> (Err other_error, put_key temporary (f\<lparr>pf_bytes := take n bs\<rparr>) dir)
                   | Some _ \<Rightarrow> (Err other_error, put_key temporary f dir)
                   | None \<Rightarrow> (Ok (), put_key name f (remove_key temporary (put_key temporary f dir)))))
          in (result, if result \<noteq> Ok () \<and> cleanup then remove_key temporary dir else dir))"

definition PrivateDir_remove :: "bool \<Rightarrow> str \<Rightarrow> private_dir \<Rightarrow> (io_error + unit) \<times> private_dir" where
  "PrivateDir_remove fails name dir =
     (case check_name name of
        Inl e \<Rightarrow> (Err e, dir)
      | Inr _ \<Rightarrow> if fails then (Err other_error, dir) else (Ok (), remove_key name dir))"

subsection \<open>Entry names\<close>

definition MAX_CACHE_ENTRIES :: nat where "MAX_CACHE_ENTRIES = 65536"
definition MAX_SCAN_ENTRIES :: nat where "MAX_SCAN_ENTRIES = 2 * MAX_CACHE_ENTRIES"
definition MAX_ENTRY_BYTES :: nat where "MAX_ENTRY_BYTES = 32 * 1024 * 1024"
definition TEMPORARY_PREFIX :: str where "TEMPORARY_PREFIX = lit ''.tmp-''"

type_synonym CacheKey = bytes

datatype MediaKind = Jpeg | Png

fun extension :: "MediaKind \<Rightarrow> str" where
  "extension Jpeg = lit ''jpg''"
| "extension Png = lit ''png''"

fun kind_media_type :: "MediaKind \<Rightarrow> string" where
  "kind_media_type Jpeg = ''image/jpeg''"
| "kind_media_type Png = ''image/png''"

definition from_media_type :: "string \<Rightarrow> MediaKind option" where
  "from_media_type m = (if m = ''image/jpeg'' then Some Jpeg else if m = ''image/png'' then Some Png else None)"

definition cache_file_name :: "CacheKey \<Rightarrow> MediaKind \<Rightarrow> str" where
  "cache_file_name key kind = encode_hex key @ [46] @ extension kind"

definition lower_hex :: "nat \<Rightarrow> bool" where
  "lower_hex b \<longleftrightarrow> 48 \<le> b \<and> b \<le> 57 \<or> 97 \<le> b \<and> b \<le> 102"

text \<open>Two lower-case hexadecimal digits per byte, as \<open>u8::from_str_radix\<close> reads them.\<close>

definition parse_name :: "str \<Rightarrow> (CacheKey \<times> MediaKind) option" where
  "parse_name name =
     (case split_once 46 name of
        None \<Rightarrow> None
      | Some (hex, ext) \<Rightarrow>
          Option.bind (if ext = lit ''jpg'' then Some Jpeg else if ext = lit ''png'' then Some Png else None) (\<lambda>kind.
            if str_len hex \<noteq> 64 \<or> \<not> list_all lower_hex (utf8 hex) then None
            else map_option (\<lambda>key. (key, kind)) (decode_pairs (utf8 hex))))"

subsection \<open>The index\<close>

text \<open>
  Entries by key, and the keys by sequence number in order. \<open>remove\<close> also returns the entry, and \<open>evict\<close> the
  evicted entries, whose files the caller removes.
\<close>

record CacheEntry =
  ce_len :: nat
  ce_sequence :: nat
  ce_kind :: MediaKind

record Index =
  ix_entries :: "(CacheKey \<times> CacheEntry) list"
  ix_order :: "(nat \<times> CacheKey) list"
  ix_total :: nat
  ix_next_sequence :: nat

definition Index_default :: Index where
  "Index_default = \<lparr> ix_entries = [], ix_order = [], ix_total = 0, ix_next_sequence = 0 \<rparr>"

definition Index_remove :: "CacheKey \<Rightarrow> Index \<Rightarrow> CacheEntry option \<times> Index" where
  "Index_remove key ix =
     (case map_of (ix_entries ix) key of
        None \<Rightarrow> (None, ix)
      | Some e \<Rightarrow>
          (Some e, ix\<lparr>ix_entries := remove_key key (ix_entries ix),
                      ix_order := remove_key (ce_sequence e) (ix_order ix),
                      ix_total := ix_total ix - ce_len e\<rparr>))"

definition Index_insert :: "CacheKey \<Rightarrow> nat \<Rightarrow> MediaKind \<Rightarrow> Index \<Rightarrow> Index" where
  "Index_insert key len kind ix =
     (let ix = snd (Index_remove key ix);
          s = ix_next_sequence ix
      in ix\<lparr>ix_next_sequence := s + 1,
            ix_entries := put_key key \<lparr> ce_len = len, ce_sequence = s, ce_kind = kind \<rparr> (ix_entries ix),
            ix_order := insort_key fst (s, key) (ix_order ix),
            ix_total := ix_total ix + len\<rparr>)"

function Index_evict :: "nat \<Rightarrow> Index \<Rightarrow> (CacheKey \<times> MediaKind) list \<times> Index" where
  "Index_evict max_bytes ix =
     (if ix_total ix > max_bytes \<or> length (ix_entries ix) > MAX_CACHE_ENTRIES then
        (case ix_order ix of
           [] \<Rightarrow> ([], ix)
         | (s, key) # order \<Rightarrow>
             let ix = ix\<lparr>ix_order := order\<rparr> in
             (case map_of (ix_entries ix) key of
                None \<Rightarrow> Index_evict max_bytes ix
              | Some e \<Rightarrow>
                  let (evicted, ix) = Index_evict max_bytes (ix\<lparr>ix_entries := remove_key key (ix_entries ix),
                                                                ix_total := ix_total ix - ce_len e\<rparr>)
                  in ((key, ce_kind e) # evicted, ix)))
      else ([], ix))"
  by pat_completeness auto
termination
  by (relation "measure (\<lambda>(m, ix). length (ix_order ix))") auto

declare Index_evict.simps [simp del]

subsection \<open>The cache\<close>

record ThumbnailCache =
  tc_dir :: private_dir
  tc_max_bytes :: nat
  tc_index :: Index

text \<open>Which system calls of one operation fail.\<close>

record cache_faults =
  cf_list :: "io_error option"
  cf_unreadable :: "str \<Rightarrow> bool"
  cf_read :: "io_error option"
  cf_write :: "write_fault option"
  cf_cleanup :: bool
  cf_remove :: "str \<Rightarrow> bool"

definition remove_files :: "cache_faults \<Rightarrow> (CacheKey \<times> MediaKind) list \<Rightarrow> private_dir \<Rightarrow> private_dir" where
  "remove_files faults evicted dir =
     fold (\<lambda>(key, kind) dir. snd (PrivateDir_remove (cf_remove faults (cache_file_name key kind)) (cache_file_name key kind) dir))
       evicted dir"

type_synonym found = "(SystemTime option \<times> CacheKey \<times> nat \<times> MediaKind) list"

fun scan_entries :: "cache_faults \<Rightarrow> PrivateEntry list \<Rightarrow> found \<Rightarrow> private_dir \<Rightarrow> found \<times> private_dir" where
  "scan_entries faults [] found dir = (found, dir)"
| "scan_entries faults (e # es) found dir =
     (let remove = (\<lambda>dir. snd (PrivateDir_remove (cf_remove faults (pe_name e)) (pe_name e) dir)) in
      if strip_prefix TEMPORARY_PREFIX (pe_name e) \<noteq> None then scan_entries faults es found (remove dir)
      else
        (case parse_name (pe_name e) of
           None \<Rightarrow> scan_entries faults es found dir
         | Some (key, kind) \<Rightarrow>
             if pe_len e = 0 \<or> MAX_ENTRY_BYTES < pe_len e then scan_entries faults es found (remove dir)
             else scan_entries faults es (found @ [(pe_modified e, key, pe_len e, kind)]) dir))"

definition insert_found :: "found \<Rightarrow> Index" where
  "insert_found found = fold (\<lambda>(_, key, len, kind) ix. Index_insert key len kind ix) (sort_key fst found) Index_default"

definition ThumbnailCache_open :: "cache_faults \<Rightarrow> private_dir \<Rightarrow> nat \<Rightarrow> io_error + ThumbnailCache" where
  "ThumbnailCache_open faults dir max_bytes =
     and_then (PrivateDir_list (cf_list faults) (cf_unreadable faults) MAX_SCAN_ENTRIES dir) (\<lambda>es.
       let (found, dir) = scan_entries faults es [] dir;
           (evicted, ix) = Index_evict max_bytes (insert_found found)
       in Ok \<lparr> tc_dir = remove_files faults evicted dir, tc_max_bytes = max_bytes, tc_index = ix \<rparr>)"

definition cache_get :: "cache_faults \<Rightarrow> CacheKey \<Rightarrow> ThumbnailCache \<Rightarrow> (bytes \<times> MediaKind) option \<times> ThumbnailCache" where
  "cache_get faults key c =
     (case map_of (ix_entries (tc_index c)) key of
        None \<Rightarrow> (None, c)
      | Some e \<Rightarrow>
          (case PrivateDir_read (cf_read faults) (cache_file_name key (ce_kind e)) MAX_ENTRY_BYTES (tc_dir c) of
             Inr (Some bs) \<Rightarrow>
               if bs \<noteq> [] then (Some (bs, ce_kind e), c)
               else (None, c\<lparr>tc_index := snd (Index_remove key (tc_index c))\<rparr>)
           | _ \<Rightarrow> (None, c\<lparr>tc_index := snd (Index_remove key (tc_index c))\<rparr>)))"

text \<open>\<open>random\<close> is the outcome of \<open>getrandom\<close>, \<open>now\<close> the modification time a new file gets.\<close>

definition cache_put ::
  "cache_faults \<Rightarrow> bytes option \<Rightarrow> SystemTime option \<Rightarrow> CacheKey \<Rightarrow> MediaKind \<Rightarrow> bytes \<Rightarrow> ThumbnailCache \<Rightarrow> ThumbnailCache" where
  "cache_put faults random now key kind bs c =
     (if length bs = 0 \<or> MAX_ENTRY_BYTES < length bs \<or> tc_max_bytes c < length bs then c
      else (case random of
          None \<Rightarrow> c
        | Some r \<Rightarrow>
            (case write_atomic (cf_write faults) (cf_cleanup faults) (TEMPORARY_PREFIX @ encode_hex r) (cache_file_name key kind)
                   bs now (tc_dir c) of
               (Inl _, dir) \<Rightarrow> c\<lparr>tc_dir := dir\<rparr>
             | (Inr _, dir) \<Rightarrow>
                 let (evicted, ix) = Index_evict (tc_max_bytes c) (Index_insert key (length bs) kind (tc_index c))
                 in c\<lparr>tc_dir := remove_files faults evicted dir, tc_index := ix\<rparr>)))"

definition cache_remove :: "cache_faults \<Rightarrow> CacheKey \<Rightarrow> ThumbnailCache \<Rightarrow> ThumbnailCache" where
  "cache_remove faults key c =
     (case Index_remove key (tc_index c) of
        (None, ix) \<Rightarrow> c\<lparr>tc_index := ix\<rparr>
      | (Some e, ix) \<Rightarrow>
          c\<lparr>tc_index := ix,
            tc_dir := snd (PrivateDir_remove (cf_remove faults (cache_file_name key (ce_kind e)))
                             (cache_file_name key (ce_kind e)) (tc_dir c))\<rparr>)"


subsection \<open>The index is consistent\<close>

definition index_ok :: "Index \<Rightarrow> bool" where
  "index_ok ix \<longleftrightarrow>
     distinct (keys (ix_entries ix)) \<and> sorted (keys (ix_order ix)) \<and> distinct (keys (ix_order ix))
     \<and> set (ix_order ix) = (\<lambda>(k, e). (ce_sequence e, k)) ` set (ix_entries ix)
     \<and> ix_total ix = sum_list (map (ce_len \<circ> snd) (ix_entries ix))
     \<and> (\<forall>s \<in> set (keys (ix_order ix)). s < ix_next_sequence ix)"

lemma sum_remove_key:
  "distinct (keys es) \<Longrightarrow> map_of es k = Some e
    \<Longrightarrow> sum_list (map f es) = f (k, e) + sum_list (map f (remove_key k es) :: nat list)"
proof (induction es)
  case (Cons x es)
  obtain k' e' where x: "x = (k', e')" by (cases x)
  show ?case
  proof (cases "k' = k")
    case True
    then have "remove_key k es = es"
      using Cons.prems(1) x by (auto simp: remove_key_def filter_id_conv image_iff)
    then show ?thesis using True Cons.prems(2) x by (simp add: remove_key_def)
  qed (use Cons x in \<open>auto simp: remove_key_def\<close>)
qed simp

lemma index_ok_default: "index_ok Index_default"
  by (simp add: index_ok_def Index_default_def)

lemma sorted_filter_keys: "sorted (keys xs) \<Longrightarrow> sorted (keys (filter P xs))"
  by (induction xs) auto

lemma index_ok_remove:
  assumes "index_ok ix" shows "index_ok (snd (Index_remove key ix))"
proof (cases "map_of (ix_entries ix) key")
  case (Some e)
  let ?es = "ix_entries ix" and ?s = "ce_sequence e"
  have d: "distinct (keys ?es)" "distinct (keys (ix_order ix))"
    "set (ix_order ix) = (\<lambda>(k, e). (ce_sequence e, k)) ` set ?es" using assms by (auto simp: index_ok_def)
  have "(?s, key) \<in> set (ix_order ix)" using map_of_SomeD [OF Some] d(3) by force
  with d(2) have u: "(?s, k) \<in> set (ix_order ix) \<Longrightarrow> k = key" for k by (metis map_of_is_SomeI option.inject)
  have m: "(k, e') \<in> set ?es \<Longrightarrow> k = key \<Longrightarrow> e' = e" for k e' using d(1) Some by auto
  have eq: "k \<noteq> key \<longleftrightarrow> ce_sequence e' \<noteq> ?s" if "(k, e') \<in> set ?es" for k e'
  proof
    assume "k \<noteq> key"
    moreover have "(ce_sequence e', k) \<in> set (ix_order ix)" using that d(3) by force
    ultimately show "ce_sequence e' \<noteq> ?s" using u by metis
  next
    assume "ce_sequence e' \<noteq> ?s" then show "k \<noteq> key" using m that by blast
  qed
  have so: "set (remove_key ?s (ix_order ix)) = {x \<in> set (ix_order ix). fst x \<noteq> ?s}"
    and se: "set (remove_key key ?es) = {x \<in> set ?es. fst x \<noteq> key}" by (auto simp: remove_key_def)
  have 1: "set (remove_key ?s (ix_order ix)) = (\<lambda>(k, e). (ce_sequence e, k)) ` set (remove_key key ?es)"
    unfolding so se d(3)
  proof (intro equalityI subsetI)
    fix x assume "x \<in> {x \<in> (\<lambda>(k, e). (ce_sequence e, k)) ` set ?es. fst x \<noteq> ?s}"
    then obtain k e' where "(k, e') \<in> set ?es" "x = (ce_sequence e', k)" "ce_sequence e' \<noteq> ?s" by auto
    with eq show "x \<in> (\<lambda>(k, e). (ce_sequence e, k)) ` {x \<in> set ?es. fst x \<noteq> key}" by force
  next
    fix x assume "x \<in> (\<lambda>(k, e). (ce_sequence e, k)) ` {x \<in> set ?es. fst x \<noteq> key}"
    then obtain k e' where "(k, e') \<in> set ?es" "x = (ce_sequence e', k)" "k \<noteq> key" by auto
    with eq show "x \<in> {x \<in> (\<lambda>(k, e). (ce_sequence e, k)) ` set ?es. fst x \<noteq> ?s}" by force
  qed
  have ix: "snd (Index_remove key ix) = ix\<lparr>ix_entries := remove_key key ?es, ix_order := remove_key ?s (ix_order ix),
      ix_total := ix_total ix - ce_len e\<rparr>" using Some by (simp add: Index_remove_def)
  have 2: "distinct (keys (remove_key key ?es))" "distinct (keys (remove_key ?s (ix_order ix)))"
    using d(1,2) by (simp_all add: remove_key_def distinct_map_filter)
  have 3: "sorted (keys (remove_key ?s (ix_order ix)))"
    using assms by (simp add: remove_key_def sorted_filter_keys index_ok_def)
  have 4: "ix_total ix - ce_len e = sum_list (map (ce_len \<circ> snd) (remove_key key ?es))"
    using assms sum_remove_key [OF d(1) Some, of "ce_len \<circ> snd"] by (simp add: index_ok_def)
  have 5: "\<forall>s \<in> set (keys (remove_key ?s (ix_order ix))). s < ix_next_sequence ix"
    using assms by (simp add: index_ok_def so)
  show ?thesis unfolding ix index_ok_def using 1 2 3 4 5 by simp
qed (use assms in \<open>simp add: Index_remove_def\<close>)

lemma Index_remove_none: "map_of (ix_entries (snd (Index_remove key ix))) key = None"
  by (auto simp: Index_remove_def map_of_remove_key split: option.splits)

lemma index_ok_insert:
  assumes "index_ok ix" shows "index_ok (Index_insert key len kind ix)"
proof -
  let ?ix = "snd (Index_remove key ix)"
  have ok: "index_ok ?ix" by (rule index_ok_remove [OF assms])
  let ?s = "ix_next_sequence ?ix"
  have k: "key \<notin> fst ` set (ix_entries ?ix)" using Index_remove_none [of key ix] by (simp add: map_of_eq_None_iff)
  have n: "?s \<notin> set (keys (ix_order ?ix))" "\<forall>s \<in> set (keys (ix_order ?ix)). s < Suc ?s"
    using ok unfolding index_ok_def by (meson less_irrefl less_SucI)+
  have r: "remove_key key (ix_entries ?ix) = ix_entries ?ix"
    using k by (force simp: remove_key_def filter_id_conv)
  let ?e = "\<lparr> ce_len = len, ce_sequence = ?s, ce_kind = kind \<rparr>"
  have ix: "Index_insert key len kind ix = ?ix\<lparr>ix_next_sequence := Suc ?s, ix_entries := ix_entries ?ix @ [(key, ?e)],
      ix_order := insort_key fst (?s, key) (ix_order ?ix), ix_total := ix_total ?ix + len\<rparr>"
    using k by (simp add: Index_insert_def Let_def put_key_def)
  have o: "sorted (keys (ix_order ?ix))" "distinct (keys (ix_order ?ix))" "distinct (keys (ix_entries ?ix))"
    "set (ix_order ?ix) = (\<lambda>(k, e). (ce_sequence e, k)) ` set (ix_entries ?ix)"
    "ix_total ?ix = sum_list (map (ce_len \<circ> snd) (ix_entries ?ix))" using ok by (simp_all add: index_ok_def)
  have 1: "sorted (keys (insort_key fst (?s, key) (ix_order ?ix)))" using o(1) by (simp add: sorted_insort_key)
  have "distinct (keys (insort_key fst (s, key) xs)) \<longleftrightarrow> s \<notin> set (keys xs) \<and> distinct (keys xs)" for s xs
    by (induction xs) (auto simp: set_insort_key)
  with n(1) o(2) have 2: "distinct (keys (insort_key fst (?s, key) (ix_order ?ix)))" by blast
  have 3: "distinct (keys (ix_entries ?ix @ [(key, ?e)]))" using o(3) k by simp
  have 4: "set (insort_key fst (?s, key) (ix_order ?ix)) = (\<lambda>(k, e). (ce_sequence e, k)) ` set (ix_entries ?ix @ [(key, ?e)])"
    using o(4) by (simp add: set_insort_key)
  have 5: "\<forall>s \<in> set (keys (insort_key fst (?s, key) (ix_order ?ix))). s < Suc ?s"
    using n(2) by (simp add: set_insort_key)
  show ?thesis unfolding ix index_ok_def using 1 2 3 4 5 o(5) by simp
qed

lemma index_ok_pop:
  assumes "index_ok ix" "ix_order ix = (s, key) # order"
  obtains e where "map_of (ix_entries ix) key = Some e" "ce_sequence e = s"
    "ix\<lparr>ix_order := order, ix_entries := remove_key key (ix_entries ix), ix_total := ix_total ix - ce_len e\<rparr> = snd (Index_remove key ix)"
proof -
  have "(s, key) \<in> (\<lambda>(k, e). (ce_sequence e, k)) ` set (ix_entries ix)" using assms by (auto simp: index_ok_def)
  then obtain e where e: "(key, e) \<in> set (ix_entries ix)" "ce_sequence e = s" by auto
  then have m: "map_of (ix_entries ix) key = Some e" using assms(1) by (simp add: index_ok_def)
  have "s \<notin> fst ` set order" using assms by (auto simp: index_ok_def)
  then have "remove_key s (ix_order ix) = order"
    using assms(2) by (auto simp: remove_key_def filter_id_conv image_iff)
  with m e(2) show thesis by (intro that [of e]) (auto simp: Index_remove_def)
qed

text \<open>
  What eviction does: it drops the shortest run of the oldest entries after which both limits hold, and returns
  exactly those.
\<close>

lemma index_ok_empty: "index_ok ix \<Longrightarrow> ix_order ix = [] \<Longrightarrow> ix_entries ix = [] \<and> ix_total ix = 0"
  by (auto simp: index_ok_def)

lemma Index_evict_step:
  assumes "index_ok ix" "ix_total ix > m \<or> length (ix_entries ix) > MAX_CACHE_ENTRIES"
  obtains s key order e where "ix_order ix = (s, key) # order" "map_of (ix_entries ix) key = Some e"
    "ix_order (snd (Index_remove key ix)) = order"
    "Index_evict m ix = ((key, ce_kind e) # fst (Index_evict m (snd (Index_remove key ix))),
       snd (Index_evict m (snd (Index_remove key ix))))"
proof -
  have "ix_order ix \<noteq> []" using assms index_ok_empty [OF assms(1)] by auto
  then obtain s key order where o: "ix_order ix = (s, key) # order" by (metis list.exhaust surj_pair)
  from index_ok_pop [OF assms(1) o] obtain e where e: "map_of (ix_entries ix) key = Some e" "ce_sequence e = s"
    "ix\<lparr>ix_order := order, ix_entries := remove_key key (ix_entries ix), ix_total := ix_total ix - ce_len e\<rparr> = snd (Index_remove key ix)"
    by blast
  have "Index_evict m ix = ((key, ce_kind e) # fst (Index_evict m (snd (Index_remove key ix))),
       snd (Index_evict m (snd (Index_remove key ix))))"
    by (subst Index_evict.simps) (use assms(2) o e(1,3) in \<open>simp add: split_def Let_def\<close>)
  moreover have "ix_order (snd (Index_remove key ix)) = order" unfolding e(3) [symmetric] by simp
  ultimately show thesis using that o e(1) by blast
qed

lemma Index_evict_stop:
  "\<not> (ix_total ix > m \<or> length (ix_entries ix) > MAX_CACHE_ENTRIES) \<Longrightarrow> Index_evict m ix = ([], ix)"
  by (subst Index_evict.simps) auto

definition index_fits :: "nat \<Rightarrow> Index \<Rightarrow> bool" where
  "index_fits m ix \<longleftrightarrow> ix_total ix \<le> m \<and> length (ix_entries ix) \<le> MAX_CACHE_ENTRIES"

definition drop_oldest :: "nat \<Rightarrow> Index \<Rightarrow> Index" where
  "drop_oldest n ix = fold (\<lambda>(s, key) ix. snd (Index_remove key ix)) (take n (ix_order ix)) ix"

lemma Index_evict_oldest:
  "index_ok ix \<Longrightarrow> \<exists>n. snd (Index_evict m ix) = drop_oldest n ix \<and> index_fits m (drop_oldest n ix)
     \<and> map fst (fst (Index_evict m ix)) = map snd (take n (ix_order ix)) \<and> (\<forall>i<n. \<not> index_fits m (drop_oldest i ix))
     \<and> index_ok (snd (Index_evict m ix))"
proof (induction "length (ix_order ix)" arbitrary: ix)
  case 0
  then have "index_fits m ix" using index_ok_empty by (simp add: index_fits_def)
  then have "Index_evict m ix = ([], ix)" by (intro Index_evict_stop) (auto simp: index_fits_def)
  with \<open>index_fits m ix\<close> 0 show ?case by (intro exI [of _ 0]) (simp add: drop_oldest_def)
next
  case (Suc l ix)
  show ?case
  proof (cases "index_fits m ix")
    case True
    then have "Index_evict m ix = ([], ix)" by (intro Index_evict_stop) (auto simp: index_fits_def)
    with True Suc.prems show ?thesis by (intro exI [of _ 0]) (simp add: drop_oldest_def)
  next
    case False
    then have "ix_total ix > m \<or> length (ix_entries ix) > MAX_CACHE_ENTRIES" by (auto simp: index_fits_def)
    then obtain s key order e where
      o: "ix_order ix = (s, key) # order" "map_of (ix_entries ix) key = Some e" "ix_order (snd (Index_remove key ix)) = order"
        "Index_evict m ix = ((key, ce_kind e) # fst (Index_evict m (snd (Index_remove key ix))),
           snd (Index_evict m (snd (Index_remove key ix))))" by (rule Index_evict_step [OF Suc.prems])
    have d: "drop_oldest (Suc n) ix = drop_oldest n (snd (Index_remove key ix))" for n
      using o(1,3) by (simp add: drop_oldest_def)
    have "l = length (ix_order (snd (Index_remove key ix)))" using Suc.hyps(2) o(1,3) by simp
    from Suc.hyps(1) [OF this index_ok_remove [OF Suc.prems]] obtain n where
      n: "snd (Index_evict m (snd (Index_remove key ix))) = drop_oldest n (snd (Index_remove key ix))"
        "index_fits m (drop_oldest n (snd (Index_remove key ix)))"
        "map fst (fst (Index_evict m (snd (Index_remove key ix)))) = map snd (take n (ix_order (snd (Index_remove key ix))))"
        "\<forall>i<n. \<not> index_fits m (drop_oldest i (snd (Index_remove key ix)))"
        "index_ok (snd (Index_evict m (snd (Index_remove key ix))))" by blast
    have "\<not> index_fits m (drop_oldest i ix)" if "i < Suc n" for i
    proof (cases i)
      case 0 then show ?thesis using False by (simp add: drop_oldest_def)
    next
      case (Suc j) then show ?thesis using that n(4) unfolding Suc d by simp
    qed
    moreover have "snd (Index_evict m ix) = drop_oldest (Suc n) ix" unfolding d o(4) using n(1) by simp
    moreover have "index_fits m (drop_oldest (Suc n) ix)" unfolding d by (rule n(2))
    moreover have "map fst (fst (Index_evict m ix)) = map snd (take (Suc n) (ix_order ix))"
      unfolding o(4) o(1) using n(3) o(3) by simp
    moreover have "index_ok (snd (Index_evict m ix))" unfolding o(4) using n(5) by simp
    ultimately show ?thesis by blast
  qed
qed

text \<open>Hence an entry that fits on its own survives the eviction that follows its insertion.\<close>

lemma Index_insert_get [simp]:
  "map_of (ix_entries (Index_insert key len kind ix)) k =
     (if k = key then Some \<lparr> ce_len = len, ce_sequence = ix_next_sequence (snd (Index_remove key ix)), ce_kind = kind \<rparr>
      else map_of (ix_entries ix) k)"
  by (auto simp: Index_insert_def Let_def map_of_put_key Index_remove_def map_of_remove_key split: option.splits)

lemma Index_remove_get:
  "map_of (ix_entries (snd (Index_remove key ix))) k = (if k = key then None else map_of (ix_entries ix) k)"
  by (auto simp: Index_remove_def map_of_remove_key split: option.splits)

lemma insort_last: "(\<And>y. y \<in> set xs \<Longrightarrow> fst y < s) \<Longrightarrow> insort_key fst (s :: nat, k) xs = xs @ [(s, k)]"
proof (induction xs)
  case (Cons x xs)
  then have "\<not> s \<le> fst x" "insort_key fst (s, k) xs = xs @ [(s, k)]" by (simp_all add: not_le)
  then show ?case by simp
qed simp

lemma Index_insert_order:
  assumes "index_ok ix"
  shows "ix_order (Index_insert key len kind ix) = ix_order (snd (Index_remove key ix)) @ [(ix_next_sequence ix, key)]"
proof -
  let ?ix = "snd (Index_remove key ix)"
  have n: "ix_next_sequence ?ix = ix_next_sequence ix" by (simp add: Index_remove_def split: option.split)
  have "fst y < ix_next_sequence ?ix" if "y \<in> set (ix_order ?ix)" for y
    using index_ok_remove [OF assms, of key] that by (auto simp: index_ok_def)
  then have "insort_key fst (ix_next_sequence ?ix, key) (ix_order ?ix) = ix_order ?ix @ [(ix_next_sequence ?ix, key)]"
    by (rule insort_last)
  then show ?thesis by (simp add: Index_insert_def Let_def n)
qed

lemma drop_oldest_ok:
  "index_ok ix \<Longrightarrow> n \<le> length (ix_order ix)
     \<Longrightarrow> index_ok (drop_oldest n ix) \<and> ix_order (drop_oldest n ix) = drop n (ix_order ix)
       \<and> (\<forall>k. map_of (ix_entries (drop_oldest n ix)) k =
            (if k \<in> snd ` set (take n (ix_order ix)) then None else map_of (ix_entries ix) k))"
proof (induction n arbitrary: ix)
  case (Suc n)
  then obtain s key order where o: "ix_order ix = (s, key) # order" by (cases "ix_order ix") auto
  obtain e where
    e: "map_of (ix_entries ix) key = Some e" "ce_sequence e = s"
      "ix\<lparr>ix_order := order, ix_entries := remove_key key (ix_entries ix), ix_total := ix_total ix - ce_len e\<rparr> = snd (Index_remove key ix)"
    by (rule index_ok_pop [OF Suc.prems(1) o])
  have o2: "ix_order (snd (Index_remove key ix)) = order" unfolding e(3) [symmetric] by simp
  have d: "drop_oldest (Suc n) ix = drop_oldest n (snd (Index_remove key ix))"
    using o o2 by (simp add: drop_oldest_def)
  show ?case
    unfolding d using Suc.IH [OF index_ok_remove [OF Suc.prems(1), of key]] Suc.prems(2) unfolding o o2
    by (simp add: Index_remove_get)
qed (simp add: drop_oldest_def)

lemma evict_cases:
  assumes "index_ok ix"
  obtains n where "n \<le> length (ix_order ix)" "snd (Index_evict m ix) = drop_oldest n ix" "index_ok (drop_oldest n ix)"
    "index_fits m (drop_oldest n ix)" "map fst (fst (Index_evict m ix)) = map snd (take n (ix_order ix))"
    "\<And>i. i < n \<Longrightarrow> \<not> index_fits m (drop_oldest i ix)"
proof -
  from Index_evict_oldest [OF assms, of m] obtain n where
    n: "snd (Index_evict m ix) = drop_oldest n ix" "index_fits m (drop_oldest n ix)"
      "map fst (fst (Index_evict m ix)) = map snd (take n (ix_order ix))" "\<forall>i<n. \<not> index_fits m (drop_oldest i ix)"
      "index_ok (snd (Index_evict m ix))" by blast
  let ?l = "length (ix_order ix)"
  have "n \<le> ?l"
  proof (rule ccontr)
    assume "\<not> n \<le> ?l"
    then have "drop_oldest n ix = drop_oldest ?l ix" by (simp add: drop_oldest_def)
    with n(2,4) \<open>\<not> n \<le> ?l\<close> show False by auto
  qed
  with n that show thesis by metis
qed

lemma index_ok_single:
  assumes "index_ok ix" "ix_order ix = [(s, key)]"
  shows "\<exists>e. ix_entries ix = [(key, e)] \<and> ix_total ix = ce_len e"
proof -
  have "k = key" if "(k, e) \<in> set (ix_entries ix)" for k e
  proof -
    have "(ce_sequence e, k) \<in> set (ix_order ix)" using assms(1) that by (force simp: index_ok_def)
    with assms(2) show ?thesis by simp
  qed
  then have k: "set (keys (ix_entries ix)) \<subseteq> {key}" by auto
  have d: "distinct (keys (ix_entries ix))" "ix_total ix = sum_list (map (ce_len \<circ> snd) (ix_entries ix))"
    using assms(1) by (simp_all add: index_ok_def)
  have "ix_entries ix \<noteq> []" using assms by (auto simp: index_ok_def)
  then obtain x xs where x: "ix_entries ix = x # xs" by (cases "ix_entries ix") auto
  with k d(1) have "xs = []" by (cases xs) auto
  with x k d(2) show ?thesis by (cases x) simp
qed

lemma newest_survives:
  assumes ok: "index_ok ix" and len: "len \<le> m"
  shows "key \<notin> fst ` set (fst (Index_evict m (Index_insert key len kind ix)))"
    and "map_option ce_kind (map_of (ix_entries (snd (Index_evict m (Index_insert key len kind ix)))) key) = Some kind"
proof -
  let ?ix = "Index_insert key len kind ix"
  have okx: "index_ok ?ix" by (rule index_ok_insert [OF ok])
  note order = Index_insert_order [OF ok, of key len kind]
  from evict_cases [OF okx] obtain n where n: "n \<le> length (ix_order ?ix)"
      "snd (Index_evict m ?ix) = drop_oldest n ?ix" "index_fits m (drop_oldest n ?ix)"
      "map fst (fst (Index_evict m ?ix)) = map snd (take n (ix_order ?ix))"
      "\<And>i. i < n \<Longrightarrow> \<not> index_fits m (drop_oldest i ?ix)" by metis
  let ?old = "ix_order (snd (Index_remove key ix))"
  have fresh: "key \<notin> snd ` set ?old"
  proof
    assume "key \<in> snd ` set ?old"
    then have "key \<in> fst ` set (ix_entries (snd (Index_remove key ix)))"
      using index_ok_remove [OF ok, of key] by (force simp: index_ok_def)
    then show False using Index_remove_none [of key ix] by (simp add: map_of_eq_None_iff)
  qed
  have "n \<le> length ?old"
  proof (rule ccontr)
    assume "\<not> n \<le> length ?old"
    then have bad: "\<not> index_fits m (drop_oldest (length ?old) ?ix)" using n(5) by simp
    let ?d = "drop_oldest (length ?old) ?ix"
    have d: "index_ok ?d" "ix_order ?d = [(ix_next_sequence ix, key)]"
      "map_of (ix_entries ?d) key = map_of (ix_entries ?ix) key"
      using drop_oldest_ok [OF okx, of "length ?old"] order fresh by auto
    from index_ok_single [OF d(1,2)] obtain e where e: "ix_entries ?d = [(key, e)]" "ix_total ?d = ce_len e" by blast
    then have "ce_len e = len" using d(3) by simp
    with bad len e show False by (simp add: index_fits_def MAX_CACHE_ENTRIES_def)
  qed
  then have t: "take n (ix_order ?ix) = take n ?old" using order by simp
  with fresh have nk: "key \<notin> snd ` set (take n (ix_order ?ix))" using set_take_subset by fastforce
  then show "key \<notin> fst ` set (fst (Index_evict m ?ix))" using n(4) by (metis set_map)
  show "map_option ce_kind (map_of (ix_entries (snd (Index_evict m ?ix))) key) = Some kind"
    unfolding n(2) using drop_oldest_ok [OF okx n(1)] nk by simp
qed

subsection \<open>Names\<close>

lemma hex_no_dot: "46 \<notin> set (encode_hex bs)"
  using encode_hex_chars [of bs] by auto

lemma split_file_name: "split_once 46 (cache_file_name key kind) = Some (encode_hex key, extension kind)"
  unfolding split_once_Some by (simp add: cache_file_name_def hex_no_dot)

lemma cache_file_name_inject: "cache_file_name key kind = cache_file_name key' kind' \<Longrightarrow> key = key'"
  using split_file_name [of key kind] split_file_name [of key' kind']
  by (metis decode_pairs_encode option.inject prod.inject)

lemma utf8_ascii_only:
  assumes "is_ascii (utf8 s)" shows "utf8 s = s"
proof -
  have "c < 0x80" if "c \<in> set s" for c
  proof (rule ccontr)
    assume "\<not> c < 0x80"
    then have "\<exists>b \<in> set (utf8_char c). 0x80 \<le> b" by (auto simp: utf8_char_def)
    then have "\<exists>b \<in> set (utf8 s). 0x80 \<le> b" using that by (auto simp: utf8_def)
    then show False using assms unfolding is_ascii_def by force
  qed
  then show ?thesis by (simp add: utf8_ascii is_ascii_def)
qed

lemma lower_hex_encode: "list_all lower_hex (encode_hex bs)"
  using encode_hex_chars [of bs] by (auto simp: list_all_iff lower_hex_def)

lemma parse_name_temporary: "parse_name (TEMPORARY_PREFIX @ rest) = None"
  by (simp add: parse_name_def TEMPORARY_PREFIX_def lit_def of_char_def str_len_def utf8_def split: bind_splits)

interpretation cache_names: codec "\<lambda>(key, kind). cache_file_name key kind" parse_name "\<lambda>(key, _). length key = 32"
proof unfold_locales
  fix x :: "CacheKey \<times> MediaKind" assume l: "case x of (key, _) \<Rightarrow> length key = 32"
  obtain key kind where x: "x = (key, kind)" by (cases x)
  have k: "(if extension kind = lit ''jpg'' then Some Jpeg else if extension kind = lit ''png'' then Some Png else None) = Some kind"
    by (cases kind) (simp_all add: lit_def of_char_def)
  show "parse_name (case x of (key, kind) \<Rightarrow> cache_file_name key kind) = Some x"
    using l unfolding x prod.case parse_name_def split_file_name option.case k
    by (simp add: utf8_ascii encode_hex_ascii str_len_def length_encode_hex lower_hex_encode decode_pairs_encode)
next
  fix name x assume p: "parse_name name = Some x"
  then obtain hex ext kind key where s: "split_once 46 name = Some (hex, ext)" "ext = extension kind" "x = (key, kind)"
    "str_len hex = 64" "decode_pairs (utf8 hex) = Some key" "list_all lower_hex (utf8 hex)"
    by (auto simp: parse_name_def split: option.splits if_splits bind_splits)
  have e: "encode_hex key = utf8 hex" using decode_pairs_sound [OF s(5)] s(4) by (simp add: str_len_def)
  then have "utf8 hex = hex" using utf8_ascii_only by (metis encode_hex_ascii)
  moreover have "name = hex @ 46 # ext" using s(1) split_once_Some by blast
  moreover have "length key = 32" using s(4) e length_encode_hex [of key] by (simp add: str_len_def)
  ultimately show "(case x of (key, _) \<Rightarrow> length key = 32) \<and> (case x of (key, kind) \<Rightarrow> cache_file_name key kind) = name"
    using s(2,3) e by (simp add: cache_file_name_def)
qed

lemma parse_file_name: "length key = 32 \<Longrightarrow> parse_name (cache_file_name key kind) = Some (key, kind)"
  using cache_names.dec_enc [of "(key, kind)"] by simp

lemma hex_name_chars: "list_all name_char (encode_hex bs)"
proof -
  have "name_char c" if "c \<in> {48..57} \<union> {97..102}" for c
    using that by (auto simp: name_char_def is_ascii_alphanumeric_def is_ascii_digit_def is_ascii_lowercase_def)
  then show ?thesis using encode_hex_chars [of bs] by (auto simp: list_all_iff)
qed

lemma check_ascii:
  "is_ascii name \<Longrightarrow> 2 < length name \<Longrightarrow> length name \<le> 128 \<Longrightarrow> list_all name_char name \<Longrightarrow> check_name name = Ok ()"
  by (auto simp: check_name_def str_len_ascii utf8_ascii)

lemma check_file_name: "length key = 32 \<Longrightarrow> check_name (cache_file_name key kind) = Ok ()"
proof -
  assume l: "length key = 32"
  have a: "is_ascii (cache_file_name key kind)" using encode_hex_ascii [of key]
    by (cases kind) (simp_all add: cache_file_name_def is_ascii_def lit_def of_char_def)
  have n: "length (cache_file_name key kind) = 68" using l
    by (cases kind) (simp_all add: cache_file_name_def length_encode_hex lit_def)
  have "list_all name_char (cache_file_name key kind)"
    by (cases kind) (simp_all add: cache_file_name_def hex_name_chars lit_def of_char_def name_char_def is_ascii_alphanumeric_def
      is_ascii_lowercase_def)
  with a n show ?thesis by (intro check_ascii) simp_all
qed

lemma check_temporary: "length r = 8 \<Longrightarrow> check_name (TEMPORARY_PREFIX @ encode_hex r) = Ok ()"
proof -
  assume l: "length r = 8"
  let ?n = "TEMPORARY_PREFIX @ encode_hex r"
  have a: "is_ascii ?n" using encode_hex_ascii [of r] by (simp add: is_ascii_def TEMPORARY_PREFIX_def lit_def of_char_def)
  have n: "length ?n = 21" using l by (simp add: length_encode_hex TEMPORARY_PREFIX_def lit_def)
  have "list_all name_char ?n"
    by (simp add: hex_name_chars TEMPORARY_PREFIX_def lit_def of_char_def name_char_def is_ascii_alphanumeric_def
      is_ascii_lowercase_def)
  with a n show ?thesis by (intro check_ascii) simp_all
qed

subsection \<open>Runs of the cache\<close>

text \<open>
  A cache opened on a directory without entries, then any sequence of operations and restarts with arbitrary failures;
  \<open>R\<close> is any property the callers of \<open>put\<close> establish.
\<close>

inductive cache_run :: "(CacheKey \<Rightarrow> MediaKind \<Rightarrow> bytes \<Rightarrow> bool) \<Rightarrow> ThumbnailCache \<Rightarrow> bool" for R where
  opened: "(\<And>name. name \<in> set (keys dir) \<Longrightarrow> parse_name name = None) \<Longrightarrow> ThumbnailCache_open faults dir m = Ok c \<Longrightarrow> cache_run R c"
| reopened: "cache_run R c \<Longrightarrow> ThumbnailCache_open faults (tc_dir c) m = Ok c' \<Longrightarrow> cache_run R c'"
| got: "cache_run R c \<Longrightarrow> cache_run R (snd (cache_get faults key c))"
| stored: "cache_run R c \<Longrightarrow> R key kind bs \<Longrightarrow> cache_run R (cache_put faults random now key kind bs c)"
| removed: "cache_run R c \<Longrightarrow> cache_run R (cache_remove faults key c)"

definition served :: "(CacheKey \<Rightarrow> MediaKind \<Rightarrow> bytes \<Rightarrow> bool) \<Rightarrow> private_dir \<Rightarrow> bool" where
  "served R dir \<longleftrightarrow> (\<forall>name f key kind.
     map_of dir name = Some f \<longrightarrow> parse_name name = Some (key, kind) \<longrightarrow> R key kind (pf_bytes f))"

lemma served_remove_key: "served R dir \<Longrightarrow> served R (remove_key name dir)"
  by (auto simp: served_def map_of_remove_key)

lemma served_remove: "served R dir \<Longrightarrow> served R (snd (PrivateDir_remove fails name dir))"
  by (auto simp: PrivateDir_remove_def served_remove_key split: sum.split)

lemma served_remove_files: "served R dir \<Longrightarrow> served R (remove_files faults es dir)"
  unfolding remove_files_def by (induction es arbitrary: dir) (auto intro: served_remove)

lemma served_scan: "served R dir \<Longrightarrow> scan_entries faults es found dir = (found', dir') \<Longrightarrow> served R dir'"
proof (induction es arbitrary: found dir)
  case (Cons e es)
  show ?case using Cons.prems(2) Cons.IH [OF Cons.prems(1)] Cons.IH [OF served_remove [OF Cons.prems(1)]]
    by (simp add: Let_def split: if_splits option.splits prod.splits)
qed simp

lemma served_put: "served R dir \<Longrightarrow> (\<And>key kind. parse_name name = Some (key, kind) \<Longrightarrow> R key kind (pf_bytes f)) \<Longrightarrow> served R (put_key name f dir)"
  by (auto simp: served_def map_of_put_key)

lemma parse_file_name_sound: "parse_name (cache_file_name key kind) = Some (k, d) \<Longrightarrow> k = key \<and> d = kind"
  using cache_names.dec_sound [of "cache_file_name key kind" "(k, d)"] cache_file_name_inject [of k d key kind]
    parse_file_name [of key kind] by auto

lemma served_write:
  assumes "served R dir" "R key kind bs"
  shows "served R (snd (write_atomic fault cleanup (TEMPORARY_PREFIX @ r) (cache_file_name key kind) bs now dir))"
proof -
  let ?t = "TEMPORARY_PREFIX @ r"
  have t: "served R (put_key ?t f dir)" for f using served_put [OF assms(1)] parse_name_temporary by fastforce
  have "served R (put_key (cache_file_name key kind) \<lparr> pf_regular = True, pf_bytes = bs, pf_modified = now \<rparr>
     (remove_key ?t (put_key ?t \<lparr> pf_regular = True, pf_bytes = bs, pf_modified = now \<rparr> dir)))"
    by (rule served_put [OF served_remove_key [OF t]]) (use assms(2) parse_file_name_sound in auto)
  with t assms(1) show ?thesis
    by (auto simp: write_atomic_def Let_def split: sum.splits option.splits write_fault.splits intro!: served_remove_key)
qed

lemma index_ok_evict: "index_ok ix \<Longrightarrow> index_ok (snd (Index_evict m ix)) \<and> index_fits m (snd (Index_evict m ix))"
  using evict_cases [of ix m] by metis

lemma index_fits_remove: "index_ok ix \<Longrightarrow> index_fits m ix \<Longrightarrow> index_fits m (snd (Index_remove key ix))"
  by (auto simp: index_fits_def Index_remove_def remove_key_def split: option.split intro: le_trans [OF length_filter_le])

lemma index_ok_found: "index_ok (insert_found found)"
proof -
  have "index_ok ix \<Longrightarrow> index_ok (fold (\<lambda>(_, key, len, kind) ix. Index_insert key len kind ix) xs ix)" for xs ix
    by (induction xs arbitrary: ix) (auto intro: index_ok_insert)
  from this [OF index_ok_default] show ?thesis unfolding insert_found_def .
qed

definition thumb_cache_ok :: "(CacheKey \<Rightarrow> MediaKind \<Rightarrow> bytes \<Rightarrow> bool) \<Rightarrow> ThumbnailCache \<Rightarrow> bool" where
  "thumb_cache_ok R c \<longleftrightarrow> served R (tc_dir c) \<and> index_ok (tc_index c) \<and> index_fits (tc_max_bytes c) (tc_index c)"

lemma open_ok:
  assumes "served R dir" "ThumbnailCache_open faults dir m = Ok c" shows "thumb_cache_ok R c"
proof -
  obtain es where es: "PrivateDir_list (cf_list faults) (cf_unreadable faults) MAX_SCAN_ENTRIES dir = Ok es"
    using assms(2) by (cases "PrivateDir_list (cf_list faults) (cf_unreadable faults) MAX_SCAN_ENTRIES dir")
      (auto simp: ThumbnailCache_open_def)
  obtain found dir' where sc: "scan_entries faults es [] dir = (found, dir')" by fastforce
  obtain ev ix where ev: "Index_evict m (insert_found found) = (ev, ix)" by fastforce
  have "c = \<lparr> tc_dir = remove_files faults ev dir', tc_max_bytes = m, tc_index = ix \<rparr>"
    using assms(2) by (simp add: ThumbnailCache_open_def es sc ev)
  moreover have "served R (remove_files faults ev dir')" by (rule served_remove_files [OF served_scan [OF assms(1) sc]])
  ultimately show ?thesis using index_ok_evict [OF index_ok_found, of m found] ev by (simp add: thumb_cache_ok_def)
qed

lemma get_ok: "thumb_cache_ok R c \<Longrightarrow> thumb_cache_ok R (snd (cache_get faults key c))"
  by (auto simp: cache_get_def thumb_cache_ok_def index_ok_remove index_fits_remove split: option.split sum.split)

lemma remove_ok: "thumb_cache_ok R c \<Longrightarrow> thumb_cache_ok R (cache_remove faults key c)"
  using index_ok_remove [of "tc_index c" key] index_fits_remove [of "tc_index c" "tc_max_bytes c" key]
  by (auto simp: cache_remove_def thumb_cache_ok_def served_remove split: option.split prod.split)

lemma put_ok:
  assumes ok: "thumb_cache_ok R c" and r: "R key kind bs" shows "thumb_cache_ok R (cache_put faults random now key kind bs c)"
proof -
  have i: "index_ok (Index_insert key (length bs) kind (tc_index c))" using ok by (simp add: thumb_cache_ok_def index_ok_insert)
  have w: "served R dir" if "write_atomic (cf_write faults) (cf_cleanup faults) (TEMPORARY_PREFIX @ encode_hex x) (cache_file_name key kind)
                   bs now (tc_dir c) = (res, dir)" for x res dir
    using served_write [of R "tc_dir c" key kind bs "cf_write faults" "cf_cleanup faults" "encode_hex x" now] ok r that
    by (simp add: thumb_cache_ok_def)
  show ?thesis using ok index_ok_evict [OF i, of "tc_max_bytes c"]
    by (auto simp: cache_put_def thumb_cache_ok_def Let_def split: option.split prod.split sum.split intro: served_remove_files dest!: w)
qed

lemma run_ok: "cache_run R c \<Longrightarrow> thumb_cache_ok R c"
proof (induction rule: cache_run.induct)
  case (opened dir faults m c)
  have "served R dir" using opened(1) by (force simp: served_def dest: map_of_SomeD)
  then show ?case using opened(2) by (rule open_ok)
next
  case (reopened c faults m c')
  then show ?case by (auto simp: thumb_cache_ok_def dest: open_ok)
qed (blast intro: get_ok remove_ok put_ok)+

lemma get_served:
  assumes "thumb_cache_ok R c" "length key = 32" "fst (cache_get faults key c) = Some (bs, kind)"
  shows "R key kind bs" "bs \<noteq> []" "length bs \<le> MAX_ENTRY_BYTES"
proof -
  from assms(3) obtain f where "map_of (tc_dir c) (cache_file_name key kind) = Some f" "pf_bytes f = bs"
    "length bs \<le> MAX_ENTRY_BYTES" "bs \<noteq> []"
    by (auto simp: cache_get_def PrivateDir_read_def split: option.splits sum.splits if_splits)
  then show "R key kind bs" "bs \<noteq> []" "length bs \<le> MAX_ENTRY_BYTES"
    using assms(1) parse_file_name [OF assms(2)] by (auto simp: thumb_cache_ok_def served_def)
qed

subsection \<open>What a run guarantees\<close>

text \<open>
  C39: in every run of the cache, whatever system calls fail and wherever a write or the process stops, the index is
  consistent and keeps both limits (the sizes add up to at most \<open>max_bytes\<close>, at most \<open>MAX_CACHE_ENTRIES\<close> entries),
  and what \<open>get\<close> returns for a key is non-empty, bounded and was stored completely by some \<open>put\<close> under that very
  key and media kind: never a temporary or partly written file, nor another key's entry.
\<close>

theorem cache_serves_stored:
  assumes run: "cache_run R c" and key: "length key = 32"
  shows "index_ok (tc_index c) \<and> ix_total (tc_index c) \<le> tc_max_bytes c
    \<and> length (ix_entries (tc_index c)) \<le> MAX_CACHE_ENTRIES
    \<and> (\<forall>bs kind. fst (cache_get faults key c) = Some (bs, kind)
         \<longrightarrow> R key kind bs \<and> bs \<noteq> [] \<and> length bs \<le> MAX_ENTRY_BYTES)"
proof (intro conjI allI impI)
  have ok: "thumb_cache_ok R c" by (rule run_ok [OF run])
  then show "index_ok (tc_index c)" "ix_total (tc_index c) \<le> tc_max_bytes c"
    "length (ix_entries (tc_index c)) \<le> MAX_CACHE_ENTRIES" by (simp_all add: thumb_cache_ok_def index_fits_def)
  fix bs kind assume "fst (cache_get faults key c) = Some (bs, kind)"
  from get_served [OF ok key this] show "R key kind bs" "bs \<noteq> []" "length bs \<le> MAX_ENTRY_BYTES" by blast+
qed

definition no_faults :: cache_faults where
  "no_faults = \<lparr> cf_list = None, cf_unreadable = (\<lambda>_. False), cf_read = None, cf_write = None, cf_cleanup = True,
     cf_remove = (\<lambda>_. False) \<rparr>"

definition sample_cache :: ThumbnailCache where
  "sample_cache = cache_put no_faults (Some (replicate 8 1)) None (replicate 32 5) Png [1, 2, 3]
     (ThumbnailCache.make [] 10 Index_default)"

lemma remove_files_other:
  "key \<notin> fst ` set es \<Longrightarrow> map_of (remove_files faults es dir) (cache_file_name key kind) = map_of dir (cache_file_name key kind)"
proof -
  have "map_of (snd (PrivateDir_remove b (cache_file_name k d) dir)) (cache_file_name key kind) = map_of dir (cache_file_name key kind)"
    if "k \<noteq> key" for b k d dir
    using that cache_file_name_inject by (auto simp: PrivateDir_remove_def map_of_remove_key split: sum.split)
  then show "key \<notin> fst ` set es \<Longrightarrow> ?thesis"
    unfolding remove_files_def by (induction es arbitrary: dir) auto
qed

text \<open>
  C40: a thumbnail that fits the cache is there afterwards: when the write succeeds, the eviction that follows \<open>put\<close>
  never drops the entry just written, and the next \<open>get\<close> of the key returns exactly its bytes and kind.
\<close>

theorem put_then_get:
  assumes "cache_run R c" and "length key = 32" and "length r = 8"
    and "map_of (tc_dir c) (TEMPORARY_PREFIX @ encode_hex r) = None" and "cf_write faults = None" and "cf_read faults' = None"
    and "bs \<noteq> []" and "length bs \<le> MAX_ENTRY_BYTES" and "length bs \<le> tc_max_bytes c"
  shows "fst (cache_get faults' key (cache_put faults (Some r) now key kind bs c)) = Some (bs, kind)"
proof -
  let ?f = "\<lparr> pf_regular = True, pf_bytes = bs, pf_modified = now \<rparr>" and ?t = "TEMPORARY_PREFIX @ encode_hex r"
  let ?dir = "put_key (cache_file_name key kind) ?f (remove_key ?t (put_key ?t ?f (tc_dir c)))"
  have ok: "index_ok (tc_index c)" using run_ok [OF assms(1)] by (simp add: thumb_cache_ok_def)
  have w: "write_atomic (cf_write faults) (cf_cleanup faults) ?t (cache_file_name key kind) bs now (tc_dir c) = (Ok (), ?dir)"
    by (simp add: write_atomic_def check_temporary [OF assms(3)] check_file_name [OF assms(2)] assms(4,5) Let_def)
  obtain ev ix where e: "Index_evict (tc_max_bytes c) (Index_insert key (length bs) kind (tc_index c)) = (ev, ix)" by fastforce
  note new = newest_survives [OF ok assms(9), of key kind, unfolded e fst_conv snd_conv]
  have put: "cache_put faults (Some r) now key kind bs c = c\<lparr>tc_dir := remove_files faults ev ?dir, tc_index := ix\<rparr>"
    using assms(7-9) by (simp add: cache_put_def w e)
  obtain en where en: "map_of (ix_entries ix) key = Some en" "ce_kind en = kind" using new(2) by auto
  have "map_of (remove_files faults ev ?dir) (cache_file_name key kind) = Some ?f"
    unfolding remove_files_other [OF new(1)] by (simp add: map_of_put_key)
  then show ?thesis
    unfolding put using en assms(6-8) by (simp add: cache_get_def PrivateDir_read_def check_file_name [OF assms(2)])
qed

subsection \<open>Witnesses\<close>

lemma sample_cache_open: "ThumbnailCache_open no_faults [] 10 = Ok (ThumbnailCache.make [] 10 Index_default)"
proof -
  have "insert_found [] = Index_default" by (simp add: insert_found_def)
  moreover have "Index_evict 10 Index_default = ([], Index_default)"
    by (rule Index_evict_stop) (simp add: Index_default_def)
  ultimately show ?thesis
    by (simp add: ThumbnailCache_open_def PrivateDir_list_def no_faults_def remove_files_def ThumbnailCache.defs)
qed

lemma sample_cache_empty: "cache_run (\<lambda>_ kind bs. kind = Png \<and> bs = [1, 2, 3]) (ThumbnailCache.make [] 10 Index_default)"
  by (rule cache_run.opened [OF _ sample_cache_open]) simp

lemma sample_cache_filled: "cache_run (\<lambda>_ kind bs. kind = Png \<and> bs = [1, 2, 3]) sample_cache"
  unfolding sample_cache_def by (rule cache_run.stored [OF sample_cache_empty]) simp

theorem put_then_get_witness:
  "fst (cache_get no_faults (replicate 32 5) sample_cache) = Some ([1, 2, 3], Png)"
  unfolding sample_cache_def
  by (rule put_then_get [OF sample_cache_empty])
    (simp_all add: no_faults_def ThumbnailCache.defs MAX_ENTRY_BYTES_def)

theorem cache_serves_stored_witness:
  "ix_total (tc_index sample_cache) \<le> tc_max_bytes sample_cache
   \<and> fst (cache_get no_faults (replicate 32 5) sample_cache) \<in> {None, Some ([1, 2, 3], Png)}"
proof -
  have "length (replicate 32 5 :: bytes) = 32" by simp
  note t = cache_serves_stored [OF sample_cache_filled this, of no_faults]
  show ?thesis using t by (cases "fst (cache_get no_faults (replicate 32 5) sample_cache)") auto
qed

end
