(* ===== verification/Thumbnails.thy ===== *)
theory Thumbnails
  imports Previews ThumbCache
begin

text \<open>
  The thumbnail route of \<open>src/src/thumbnail.rs\<close>: the decode budget, cache keys, the single-flight map and the handler,
  over the cache of theory \<open>ThumbCache\<close>, and \<open>render\<close> of \<open>src/src/thumbnail/decode.rs\<close> over the downscaler of theory
  \<open>Downscale\<close>. The image decoders and encoders (crates \<open>jpeg_decoder\<close>, \<open>png\<close>, \<open>gif\<close>, \<open>image_webp\<close> and \<open>jpeg_encoder\<close>) are
  fields of \<open>codecs\<close>.
\<close>

subsection \<open>Rendering\<close>

text \<open>
  What the decoders answer for the window of the file they are given: the header, the scaled size, the pixels. None is
  a decoder error.
\<close>

datatype PixelFormat = L8 | L16 | RGB24 | CMYK32

record codecs =
  co_jpeg_info :: "reader \<Rightarrow> (nat \<times> nat \<times> PixelFormat) option"
  co_jpeg_scale :: "reader \<Rightarrow> nat \<Rightarrow> nat \<Rightarrow> (nat \<times> nat) option"
  co_jpeg_pixels :: "reader \<Rightarrow> nat \<Rightarrow> bytes option"
  co_png_info :: "reader \<Rightarrow> nat \<Rightarrow> (nat \<times> nat \<times> Layout option) option"
  co_png_size :: "reader \<Rightarrow> nat option"
  co_png_frame :: "reader \<Rightarrow> (bytes \<times> nat) option"
  co_png_rows :: "reader \<Rightarrow> bytes list option"
  co_gif_frame :: "reader \<Rightarrow> nat \<Rightarrow> (nat \<times> nat \<times> bytes) option"
  co_webp_info :: "reader \<Rightarrow> (nat \<times> nat \<times> bool) option"
  co_webp_size :: "reader \<Rightarrow> nat option"
  co_webp_pixels :: "reader \<Rightarrow> nat \<Rightarrow> bytes option"
  co_encode_jpeg :: "rgba list \<Rightarrow> nat \<Rightarrow> nat \<Rightarrow> bytes option"
  co_encode_png :: "rgba list \<Rightarrow> nat \<Rightarrow> nat \<Rightarrow> bytes option"

text \<open>The view \<open>[start, start + len)\<close> of a file.\<close>

definition Window :: "reader \<Rightarrow> nat \<Rightarrow> nat \<Rightarrow> reader" where
  "Window rd start len offset n = rd (saturating_add 64 start offset) (min n (len - offset))"

fun jpeg_layout :: "PixelFormat \<Rightarrow> ThumbnailError + Layout" where
  "jpeg_layout L8 = Ok Gray"
| "jpeg_layout RGB24 = Ok Rgb"
| "jpeg_layout CMYK32 = Ok Cmyk"
| "jpeg_layout L16 = Err ThumbUnsupported"

definition u16_side :: "nat \<Rightarrow> ThumbnailError + nat" where
  "u16_side side = (if side < 2 ^ 16 then Ok side else Err ThumbCorrupt)"

text \<open>A decoded image: its size, layout and lines.\<close>

type_synonym decoded = "nat \<times> nat \<times> Layout \<times> bytes list"

definition decode_jpeg :: "codecs \<Rightarrow> Plan \<Rightarrow> JpegHeader \<Rightarrow> nat \<Rightarrow> reader \<Rightarrow> ThumbnailError + decoded" where
  "decode_jpeg co p header scale input =
     and_then (ok_or ThumbCorrupt (co_jpeg_info co input)) (\<lambda>(width, height, format).
       if width \<noteq> jh_width header \<or> height \<noteq> jh_height header then Err ThumbCorrupt
       else
         let wanted_width = div_ceil (jh_width header) scale; wanted_height = div_ceil (jh_height header) scale in
         and_then (u16_side wanted_width) (\<lambda>w.
         and_then (u16_side wanted_height) (\<lambda>h.
         and_then (ok_or ThumbCorrupt (co_jpeg_scale co input w h)) (\<lambda>(width, height).
           if wanted_width < width \<or> wanted_height < height then Err ThumbCorrupt
           else
             and_then (jpeg_layout format) (\<lambda>layout.
               let row = width * channels layout in
               and_then (ok_or ThumbCorrupt (co_jpeg_pixels co input (row * height))) (\<lambda>pixels.
                 if length pixels \<noteq> row * height then Err ThumbCorrupt
                 else
                   and_then (downscaler_for p width height) (\<lambda>_.
                     Ok (width, height, layout, chunks_exact row pixels))))))))"

definition decode_png :: "codecs \<Rightarrow> Plan \<Rightarrow> PngHeader \<Rightarrow> reader \<Rightarrow> ThumbnailError + decoded" where
  "decode_png co p header input =
     and_then (ok_or ThumbCorrupt (co_png_info co input PNG_ANCILLARY_LIMIT)) (\<lambda>(width, height, layout).
       if width \<noteq> ph_width header \<or> height \<noteq> ph_height header then Err ThumbCorrupt
       else
         and_then (ok_or ThumbUnsupported layout) (\<lambda>layout.
         and_then (downscaler_for p width height) (\<lambda>_.
           if ph_interlaced header then
             and_then (ok_or ThumbTooLarge (co_png_size co input)) (\<lambda>edge.
               if width * height * 4 < edge then Err ThumbCorrupt
               else
                 and_then (ok_or ThumbCorrupt (co_png_frame co input)) (\<lambda>(frame, line_size).
                   Ok (width, height, layout, chunks_exact line_size frame)))
           else
             and_then (ok_or ThumbCorrupt (co_png_rows co input)) (\<lambda>rows. Ok (width, height, layout, rows)))))"

definition decode_gif :: "codecs \<Rightarrow> Plan \<Rightarrow> reader \<Rightarrow> ThumbnailError + decoded" where
  "decode_gif co p input =
     (let frame_limit = pl_width p * pl_height p * 4 in
      if frame_limit = 0 then Err ThumbCorrupt
      else
        and_then (ok_or ThumbCorrupt (co_gif_frame co input frame_limit)) (\<lambda>(width, height, buffer).
        and_then (downscaler_for p width height) (\<lambda>_.
          if length buffer \<noteq> width * 4 * height then Err ThumbCorrupt
          else Ok (width, height, Rgba, chunks_exact (width * 4) buffer))))"

definition decode_webp :: "codecs \<Rightarrow> Plan \<Rightarrow> reader \<Rightarrow> ThumbnailError + decoded" where
  "decode_webp co p input =
     and_then (ok_or ThumbCorrupt (co_webp_info co input)) (\<lambda>(width, height, has_alpha).
     and_then (downscaler_for p width height) (\<lambda>_.
     and_then (ok_or ThumbTooLarge (co_webp_size co input)) (\<lambda>edge.
       let layout = (if has_alpha then Rgba else Rgb) in
       and_then (ok_or ThumbCorrupt (co_webp_pixels co input edge)) (\<lambda>pixels.
         Ok (width, height, layout, chunks_exact (width * channels layout) pixels)))))"

record Encoded =
  en_bytes :: bytes
  en_media_type :: string

definition encode_jpeg :: "codecs \<Rightarrow> rgba list \<Rightarrow> nat \<Rightarrow> nat \<Rightarrow> ThumbnailError + bytes" where
  "encode_jpeg co rgba width height =
     (if 2 ^ 16 \<le> width \<or> 2 ^ 16 \<le> height then Err ThumbTooLarge
      else ok_or ThumbUnavailable (co_encode_jpeg co rgba width height))"

definition encode :: "codecs \<Rightarrow> rgba list \<Rightarrow> nat \<Rightarrow> nat \<Rightarrow> bool \<Rightarrow> ThumbnailError + Encoded" where
  "encode co rgba width height opaque =
     (if opaque then
        and_then (encode_jpeg co rgba width height) (\<lambda>bs. Ok \<lparr> en_bytes = bs, en_media_type = ''image/jpeg'' \<rparr>)
      else
        and_then (ok_or ThumbUnavailable (co_encode_png co rgba width height)) (\<lambda>bs.
          Ok \<lparr> en_bytes = bs, en_media_type = ''image/png'' \<rparr>))"

definition render :: "codecs \<Rightarrow> file_io \<Rightarrow> Plan \<Rightarrow> ThumbnailError + Encoded" where
  "render co io p =
     (if \<not> fi_seek io then Err ThumbUnavailable
      else
        let input = Window (fi_at io) (pl_window_start p) (pl_window_len p) in
        and_then
          (case pl_codec p of
             CJpeg header scale \<Rightarrow> decode_jpeg co p header scale input
           | CPng header \<Rightarrow> decode_png co p header input
           | CGif \<Rightarrow> decode_gif co p input
           | CWebP \<Rightarrow> decode_webp co p input) (\<lambda>(width, height, layout, rows).
        and_then (render_decoded p width height layout rows) (\<lambda>((rgba, width, height), opaque).
          encode co rgba width height opaque)))"

subsection \<open>The service\<close>

definition SIZES :: "nat list" where "SIZES = [256, 1600]"
definition HARD_MAX_DECODE_MEMORY :: nat where "HARD_MAX_DECODE_MEMORY = 4 * 1024 * 1024 * 1024"
definition BUDGET_UNIT :: nat where "BUDGET_UNIT = 1024"
definition BUSY_RETRY_AFTER :: string where "BUSY_RETRY_AFTER = ''2''"
definition KEY_DOMAIN :: bytes where "KEY_DOMAIN = byte_lit ''crabinet:thumbnail:v1'' @ [0]"

text \<open>
  \<open>ts_budget\<close> counts the free permits. \<open>ts_in_flight\<close> maps a key to the number of requests that hold its lock object
  beside the map itself: a reference count.
\<close>

record ThumbnailService =
  ts_budget :: nat
  ts_capacity :: nat
  ts_cache :: "ThumbnailCache option"
  ts_key :: bytes
  ts_in_flight :: "(CacheKey \<times> nat) list"

definition ThumbnailService_new :: "nat \<Rightarrow> ThumbnailCache option \<Rightarrow> bytes \<Rightarrow> unit + ThumbnailService" where
  "ThumbnailService_new max_decode_memory cache key =
     (if max_decode_memory < BUDGET_UNIT \<or> HARD_MAX_DECODE_MEMORY < max_decode_memory then Err ()
      else Ok \<lparr> ts_budget = max_decode_memory div BUDGET_UNIT,
                ts_capacity = max_decode_memory div BUDGET_UNIT * BUDGET_UNIT,
                ts_cache = cache, ts_key = key, ts_in_flight = [] \<rparr>)"

definition fits :: "ThumbnailService \<Rightarrow> nat \<Rightarrow> bool" where
  "fits svc est \<longleftrightarrow> est \<le> ts_capacity svc"

text \<open>\<open>granted\<close>: whether the semaphore served the request before the wait ended. A reservation is its permits.\<close>

definition reserve :: "bool \<Rightarrow> nat \<Rightarrow> ThumbnailService \<Rightarrow> (ThumbnailError + nat) \<times> ThumbnailService" where
  "reserve granted bytes svc =
     (let units = max (div_ceil bytes BUDGET_UNIT) 1 in
      if \<not> fits svc bytes then (Err ThumbTooLarge, svc)
      else if 2 ^ 32 \<le> units then (Err ThumbTooLarge, svc)
      else if granted \<and> units \<le> ts_budget svc then (Ok units, svc\<lparr>ts_budget := ts_budget svc - units\<rparr>)
      else (Err ThumbUnavailable, svc))"

definition drop_reservation :: "nat \<Rightarrow> ThumbnailService \<Rightarrow> ThumbnailService" where
  "drop_reservation units svc = svc\<lparr>ts_budget := ts_budget svc + units\<rparr>"

text \<open>
  \<open>in_flight\<close> takes a reference to the lock of a key. \<open>release_in_flight\<close> removes the entry when its strong count is at
  most two, the map's and the caller's. \<open>abandon_in_flight\<close> is a caller that is cancelled: its reference is dropped.
\<close>

definition flights :: "CacheKey \<Rightarrow> ThumbnailService \<Rightarrow> nat" where
  "flights key svc = (case map_of (ts_in_flight svc) key of Some n \<Rightarrow> n | None \<Rightarrow> 0)"

definition in_flight :: "CacheKey \<Rightarrow> ThumbnailService \<Rightarrow> ThumbnailService" where
  "in_flight key svc = svc\<lparr>ts_in_flight := put_key key (flights key svc + 1) (ts_in_flight svc)\<rparr>"

definition abandon_in_flight :: "CacheKey \<Rightarrow> ThumbnailService \<Rightarrow> ThumbnailService" where
  "abandon_in_flight key svc =
     (if map_of (ts_in_flight svc) key = None then svc
      else svc\<lparr>ts_in_flight := put_key key (flights key svc - 1) (ts_in_flight svc)\<rparr>)"

definition release_in_flight :: "CacheKey \<Rightarrow> ThumbnailService \<Rightarrow> ThumbnailService" where
  "release_in_flight key svc =
     (if flights key svc + 1 \<le> 2 then svc\<lparr>ts_in_flight := remove_key key (ts_in_flight svc)\<rparr>
      else abandon_in_flight key svc)"

subsection \<open>Keys\<close>

record SourceIdentity =
  si_len :: nat
  si_modified :: "SystemTime option"
  si_file_id :: nat

definition identity_of :: "OpenedFile \<Rightarrow> SourceIdentity" where
  "identity_of opened = \<lparr> si_len = of_len opened, si_modified = of_modified opened, si_file_id = of_file_id opened \<rparr>"

definition cache_key_input :: "str \<Rightarrow> VirtualPath \<Rightarrow> nat \<Rightarrow> SourceIdentity \<Rightarrow> bytes" where
  "cache_key_input share_id path edge source =
     KEY_DOMAIN @ framed (str_bytes share_id) @ framed (str_bytes (path_display path)) @ be_bytes 4 edge
     @ be_bytes 8 (si_len source) @ be_bytes 8 (si_file_id source) @ time_mac (si_modified source)"

definition cache_key :: "(bytes \<Rightarrow> bytes) \<Rightarrow> str \<Rightarrow> VirtualPath \<Rightarrow> nat \<Rightarrow> SourceIdentity \<Rightarrow> CacheKey" where
  "cache_key mac share_id path edge source = mac (cache_key_input share_id path edge source)"

definition thumb_etag :: "CacheKey \<Rightarrow> str" where
  "thumb_etag key = [34, 116] @ encode_hex (take 16 key) @ [34]"

definition forget :: "cache_faults \<Rightarrow> (bytes \<Rightarrow> bytes) \<Rightarrow> str \<Rightarrow> VirtualPath \<Rightarrow> EntryMetadata \<Rightarrow> ThumbnailService \<Rightarrow> ThumbnailService" where
  "forget faults mac share_id path m svc =
     (case ts_cache svc of
        None \<Rightarrow> svc
      | Some cache \<Rightarrow>
          let source = \<lparr> si_len = em_size m, si_modified = em_modified m, si_file_id = em_file_id m \<rparr>
          in svc\<lparr>ts_cache := Some (fold (\<lambda>edge. cache_remove faults (cache_key mac share_id path edge source)) SIZES cache)\<rparr>)"

subsection \<open>The handler\<close>

text \<open>
  What one request meets: the files, the codecs, the failures of its two cache lookups and its store, whether its later
  blocking tasks complete, what the other requests did to the service while it waited for the lock and for the budget,
  and how the two waits ended.
\<close>

record thumb_env =
  te_files :: file_env
  te_codecs :: codecs
  te_first_get :: cache_faults
  te_second_get :: cache_faults
  te_put :: cache_faults
  te_random :: "bytes option"
  te_now :: "SystemTime option"
  te_lookup_worker :: bool
  te_render_worker :: bool
  te_lock_wait :: "ThumbnailService \<Rightarrow> ThumbnailService"
  te_locked :: bool
  te_budget_wait :: "ThumbnailService \<Rightarrow> ThumbnailService"
  te_granted :: bool

fun thumbnail_preview_error :: "ThumbnailError \<Rightarrow> PreviewError" where
  "thumbnail_preview_error ThumbUnsupported = PreviewUnsupported"
| "thumbnail_preview_error ThumbCorrupt = PreviewUnsupported"
| "thumbnail_preview_error ThumbTooLarge = ThumbnailTooLarge"
| "thumbnail_preview_error ThumbUnavailable = PreviewUnavailable"

definition busy :: PreviewRequestError where
  "busy = CompleteResponse (Rejected (into_response Busy) (apply_security_headers (Map.empty(''retry-after'' \<mapsto> lit BUSY_RETRY_AFTER))))"

datatype Prepared = NotModified | Hit bytes MediaKind | Miss file_io Plan bool

definition thumbnail_target ::
  "file_env \<Rightarrow> BrowseState \<Rightarrow> AuthenticatedIdentity \<Rightarrow> str \<Rightarrow> str option \<Rightarrow> str option
   \<Rightarrow> PreviewRequestError + (str \<times> VirtualPath \<times> nat)" where
  "thumbnail_target env b identity raw_share_id raw_path raw_size =
     (case ShareId_new raw_share_id of
        Inl _ \<Rightarrow> Err (Application NotFound)
      | Inr share_id \<Rightarrow>
          and_then (ok_or (Preview PreviewInvalidPath) raw_path) (\<lambda>raw_path.
          and_then (map_err (Preview \<circ> preview_error) (VirtualPath_parse (be_unicode (fe_browse env)) raw_path)) (\<lambda>path.
          and_then (ok_or (Preview InvalidThumbnailSize)
              (Option.bind (Option.bind raw_size (parse_uint 32)) (\<lambda>v. if v \<in> set SIZES then Some v else None))) (\<lambda>edge.
          and_then (map_err Application (authorize_owned (bs_shares b) (bs_policy b) identity share_id)) (\<lambda>_.
            Ok (share_id, path, edge))))))"

text \<open>A lookup in the optional cache.\<close>

definition service_get :: "cache_faults \<Rightarrow> CacheKey \<Rightarrow> ThumbnailService \<Rightarrow> (bytes \<times> MediaKind) option \<times> ThumbnailService" where
  "service_get faults key svc =
     (case ts_cache svc of
        None \<Rightarrow> (None, svc)
      | Some c \<Rightarrow> (let (hit, c) = cache_get faults key c in (hit, svc\<lparr>ts_cache := Some c\<rparr>)))"

definition prepare ::
  "thumb_env \<Rightarrow> str \<Rightarrow> VirtualPath \<Rightarrow> nat \<Rightarrow> HeaderValue option \<Rightarrow> ThumbnailService
   \<Rightarrow> (PreviewError + (Prepared \<times> CacheKey)) \<times> ThumbnailService" where
  "prepare env share_id path edge condition svc =
     (case open_file (te_files env) share_id path of
        Inl e \<Rightarrow> (Err (preview_error e), svc)
      | Inr opened \<Rightarrow>
          let source = identity_of opened; key = cache_key (fe_mac (te_files env) (ts_key svc)) share_id path edge source in
          if if_none_match condition (thumb_etag key) then (Ok (NotModified, key), svc)
          else if MAX_SOURCE_BYTES < si_len source then (Err (thumbnail_preview_error ThumbTooLarge), svc)
          else
            let cacheable = si_modified source \<noteq> None;
                (hit, svc) = (if cacheable then service_get (te_first_get env) key svc else (None, svc))
            in (case hit of
                  Some (bs, kind) \<Rightarrow> (Ok (Hit bs kind, key), svc)
                | None \<Rightarrow>
                    (and_then (map_err thumbnail_preview_error (plan (fi_at (of_io opened)) (si_len source) edge)) (\<lambda>p.
                       Ok (Miss (of_io opened) p cacheable, key)), svc)))"

text \<open>The blocking work of a miss: decode, encode, and store in the cache.\<close>

definition render_work ::
  "thumb_env \<Rightarrow> CacheKey \<Rightarrow> file_io \<Rightarrow> Plan \<Rightarrow> bool \<Rightarrow> ThumbnailService
   \<Rightarrow> (ThumbnailError + (bytes \<times> MediaKind)) \<times> ThumbnailService" where
  "render_work env key io p use_cache svc =
     (case and_then (render (te_codecs env) io p) (\<lambda>encoded.
           and_then (ok_or ThumbCorrupt (from_media_type (en_media_type encoded))) (\<lambda>kind. Ok (en_bytes encoded, kind))) of
        Inl e \<Rightarrow> (Err e, svc)
      | Inr (bs, kind) \<Rightarrow>
          (Ok (bs, kind),
           case ts_cache svc of
             Some c \<Rightarrow> if use_cache then svc\<lparr>ts_cache := Some (cache_put (te_put env) (te_random env) (te_now env) key kind bs c)\<rparr>
                        else svc
           | None \<Rightarrow> svc))"

definition render_reserved ::
  "thumb_env \<Rightarrow> CacheKey \<Rightarrow> file_io \<Rightarrow> Plan \<Rightarrow> bool \<Rightarrow> ThumbnailService
   \<Rightarrow> (PreviewRequestError + (bytes \<times> MediaKind)) \<times> ThumbnailService" where
  "render_reserved env key io p use_cache svc =
     (case reserve (te_granted env) (pl_estimate p) (te_budget_wait env svc) of
        (Inl ThumbUnavailable, svc) \<Rightarrow> (Err busy, svc)
      | (Inl e, svc) \<Rightarrow> (Err (Preview (thumbnail_preview_error e)), svc)
      | (Inr units, svc) \<Rightarrow>
          if \<not> te_render_worker env then (Err (Application Internal), drop_reservation units svc)
          else
            let (rendered, svc) = render_work env key io p use_cache svc
            in (map_err (Preview \<circ> thumbnail_preview_error) rendered, drop_reservation units svc))"

definition render_locked ::
  "thumb_env \<Rightarrow> CacheKey \<Rightarrow> file_io \<Rightarrow> Plan \<Rightarrow> bool \<Rightarrow> ThumbnailService
   \<Rightarrow> (PreviewRequestError + (bytes \<times> MediaKind)) \<times> ThumbnailService" where
  "render_locked env key io p use_cache svc =
     (if use_cache then
        if \<not> te_lookup_worker env then (Err (Application Internal), svc)
        else
          (case service_get (te_second_get env) key svc of
             (Some hit, svc) \<Rightarrow> (Ok hit, svc)
           | (None, svc) \<Rightarrow> render_reserved env key io p use_cache svc)
      else render_reserved env key io p use_cache svc)"

definition render_miss ::
  "thumb_env \<Rightarrow> CacheKey \<Rightarrow> file_io \<Rightarrow> Plan \<Rightarrow> bool \<Rightarrow> ThumbnailService
   \<Rightarrow> (PreviewRequestError + (bytes \<times> MediaKind)) \<times> ThumbnailService" where
  "render_miss env key io p cacheable svc =
     (if cacheable \<and> ts_cache svc \<noteq> None then
        let svc = te_lock_wait env (in_flight key svc) in
        if \<not> te_locked env then (Err busy, abandon_in_flight key svc)
        else
          let (result, svc) = render_locked env key io p True svc
          in (result, release_in_flight key svc)
      else render_locked env key io p False svc)"

definition with_etag :: "(str \<Rightarrow> bool) \<Rightarrow> str \<Rightarrow> response_headers \<Rightarrow> response_headers" where
  "with_etag valid_header etag h = (if valid_header etag then h(''etag'' \<mapsto> etag) else h)"

definition thumbnail_response :: "(str \<Rightarrow> bool) \<Rightarrow> bytes \<Rightarrow> MediaKind \<Rightarrow> str \<Rightarrow> Response" where
  "thumbnail_response valid_header bs kind etag =
     \<lparr> rs_status = 200,
       rs_headers = apply_security_headers (with_etag valid_header etag
         (Map.empty(''content-type'' \<mapsto> lit (kind_media_type kind), ''content-disposition'' \<mapsto> lit ''inline'',
                    ''content-length'' \<mapsto> to_string (length bs)))),
       rs_body = bs \<rparr>"

definition not_modified :: "(str \<Rightarrow> bool) \<Rightarrow> str \<Rightarrow> Response" where
  "not_modified valid_header etag =
     \<lparr> rs_status = 304, rs_headers = apply_security_headers (with_etag valid_header etag Map.empty), rs_body = [] \<rparr>"

definition answer_prepared ::
  "thumb_env \<Rightarrow> Prepared \<times> CacheKey \<Rightarrow> ThumbnailService \<Rightarrow> (PreviewRequestError + Response) \<times> ThumbnailService" where
  "answer_prepared env prepared_key svc =
     (let (prepared, key) = prepared_key; valid = fe_valid_header (te_files env); etag = thumb_etag key;
          respond = (\<lambda>(bs, kind). Ok (thumbnail_response valid bs kind etag)) in
      case prepared of
        NotModified \<Rightarrow> (Ok (not_modified valid etag), svc)
      | Hit bs kind \<Rightarrow> (respond (bs, kind), svc)
      | Miss io p cacheable \<Rightarrow>
          if \<not> fits svc (pl_estimate p) then (Err (Preview (thumbnail_preview_error ThumbTooLarge)), svc)
          else
            let (rendered, svc) = render_miss env key io p cacheable svc
            in (and_then rendered respond, svc))"

definition thumbnail ::
  "thumb_env \<Rightarrow> AuthenticatedIdentity \<Rightarrow> str \<Rightarrow> str option \<Rightarrow> str option \<Rightarrow> HeaderMap \<Rightarrow> BrowseState \<Rightarrow> ThumbnailService
   \<Rightarrow> (PreviewRequestError + Response) \<times> BrowseState \<times> ThumbnailService" where
  "thumbnail env identity raw_share_id raw_path raw_size headers b svc =
     (case thumbnail_target (te_files env) b identity raw_share_id raw_path raw_size of
        Inl e \<Rightarrow> (Err e, b, svc)
      | Inr (share_id, path, edge) \<Rightarrow>
          (case acquire_buffered_read identity b of
             (Inl e, b) \<Rightarrow> (Err (Application e), b, svc)
           | (Inr _, b) \<Rightarrow>
               let (r, svc) =
                 (case run_blocking (fe_browse (te_files env)) () of
                    Inl e \<Rightarrow> (Err (Application e), svc)
                  | Inr _ \<Rightarrow>
                      (case prepare env share_id path edge (header_get headers ''if-none-match'') svc of
                         (Inl e, svc) \<Rightarrow> (Err (Preview e), svc)
                       | (Inr prepared, svc) \<Rightarrow> answer_prepared env prepared svc))
               in (r, drop_buffered_read identity b, svc)))"

subsection \<open>What the cache holds\<close>

text \<open>
  A rendering stored under a key: at some time a file was opened whose share, path and version, with the requested size,
  have that key, its headers were planned for that size, and the plan was rendered to these bytes.
\<close>

definition stored_rendering :: "codecs \<Rightarrow> (bytes \<Rightarrow> bytes) \<Rightarrow> CacheKey \<Rightarrow> MediaKind \<Rightarrow> bytes \<Rightarrow> bool" where
  "stored_rendering co mac key kind bs \<longleftrightarrow>
     (\<exists>files share_id path edge opened p encoded.
        open_file files share_id path = Ok opened \<and> key = cache_key mac share_id path edge (identity_of opened)
        \<and> plan (fi_at (of_io opened)) (of_len opened) edge = Ok p \<and> render co (of_io opened) p = Ok encoded
        \<and> en_bytes encoded = bs \<and> from_media_type (en_media_type encoded) = Some kind)"

definition service_ok :: "codecs \<Rightarrow> (bytes \<Rightarrow> bytes) \<Rightarrow> ThumbnailService \<Rightarrow> bool" where
  "service_ok co mac svc \<longleftrightarrow> (\<forall>c. ts_cache svc = Some c \<longrightarrow> cache_run (stored_rendering co mac) c)"

definition others_ok :: "codecs \<Rightarrow> (bytes \<Rightarrow> bytes) \<Rightarrow> (ThumbnailService \<Rightarrow> ThumbnailService) \<Rightarrow> bool" where
  "others_ok co mac wait \<longleftrightarrow> (\<forall>svc. service_ok co mac svc \<longrightarrow> service_ok co mac (wait svc))"

lemma service_get_ok:
  assumes "service_ok co mac svc" "length key = 32" "service_get faults key svc = (hit, svc')"
  shows "service_ok co mac svc' \<and> (\<forall>bs kind. hit = Some (bs, kind) \<longrightarrow> stored_rendering co mac key kind bs)"
proof (cases "ts_cache svc")
  case (Some c)
  obtain h c' where g: "cache_get faults key c = (h, c')" by fastforce
  have r: "cache_run (stored_rendering co mac) c" using assms(1) Some by (simp add: service_ok_def)
  have "cache_run (stored_rendering co mac) c'" using cache_run.got [OF r, of faults key] g by simp
  moreover have "stored_rendering co mac key kind bs" if "h = Some (bs, kind)" for bs kind
    using get_served(1) [OF run_ok [OF r] assms(2), of faults] g that by simp
  ultimately show ?thesis using assms(3) Some g by (auto simp: service_get_def service_ok_def)
qed (use assms in \<open>auto simp: service_get_def\<close>)

lemma reserve_cache [simp]: "ts_cache (snd (reserve g n svc)) = ts_cache svc"
  by (simp add: reserve_def Let_def)

lemma service_ok_reserve: "reserve g n svc = (r, svc') \<Longrightarrow> service_ok co mac svc \<Longrightarrow> service_ok co mac svc'"
  using reserve_cache [of g n svc] by (simp add: service_ok_def)

lemma service_ok_drop [simp]: "service_ok co mac (drop_reservation u svc) = service_ok co mac svc"
  by (simp add: service_ok_def drop_reservation_def)

lemma service_ok_flights [simp]:
  "service_ok co mac (in_flight key svc) = service_ok co mac svc"
  "service_ok co mac (abandon_in_flight key svc) = service_ok co mac svc"
  "service_ok co mac (release_in_flight key svc) = service_ok co mac svc"
  by (simp_all add: service_ok_def in_flight_def abandon_in_flight_def release_in_flight_def)

text \<open>What a miss has to render: an opened file of that key, planned.\<close>

definition miss_ok :: "(bytes \<Rightarrow> bytes) \<Rightarrow> CacheKey \<Rightarrow> file_io \<Rightarrow> Plan \<Rightarrow> bool" where
  "miss_ok mac key io p \<longleftrightarrow>
     (\<exists>files share_id path edge opened.
        open_file files share_id path = Ok opened \<and> key = cache_key mac share_id path edge (identity_of opened)
        \<and> io = of_io opened \<and> plan (fi_at io) (of_len opened) edge = Ok p)"

lemma render_work_ok:
  assumes "miss_ok mac key io p" "service_ok (te_codecs env) mac svc" "render_work env key io p use_cache svc = (r, svc')"
  shows "service_ok (te_codecs env) mac svc' \<and> (\<forall>bs kind. r = Ok (bs, kind) \<longrightarrow> stored_rendering (te_codecs env) mac key kind bs)"
proof (cases "and_then (render (te_codecs env) io p) (\<lambda>encoded.
           and_then (ok_or ThumbCorrupt (from_media_type (en_media_type encoded))) (\<lambda>kind. Ok (en_bytes encoded, kind)))")
  case (Inr x)
  obtain bs kind where x: "x = (bs, kind)" by (cases x)
  have st: "stored_rendering (te_codecs env) mac key kind bs"
  proof -
    obtain encoded where e: "render (te_codecs env) io p = Ok encoded" "from_media_type (en_media_type encoded) = Some kind"
      "en_bytes encoded = bs" using Inr x by auto
    from assms(1) obtain files share_id path edge opened where "open_file files share_id path = Ok opened"
      "key = cache_key mac share_id path edge (identity_of opened)" "io = of_io opened" "plan (fi_at io) (of_len opened) edge = Ok p"
      unfolding miss_ok_def by blast
    with e show ?thesis unfolding stored_rendering_def by blast
  qed
  then have "service_ok (te_codecs env) mac svc'"
    using assms(2,3) Inr x by (auto simp: render_work_def service_ok_def split: option.splits if_splits intro: cache_run.stored)
  with st show ?thesis using assms(3) Inr x by (auto simp: render_work_def)
qed (use assms in \<open>auto simp: render_work_def\<close>)

lemma render_reserved_ok:
  assumes "miss_ok mac key io p" "service_ok (te_codecs env) mac svc" "others_ok (te_codecs env) mac (te_budget_wait env)"
    "render_reserved env key io p use_cache svc = (r, svc')"
  shows "service_ok (te_codecs env) mac svc' \<and> (\<forall>bs kind. r = Ok (bs, kind) \<longrightarrow> stored_rendering (te_codecs env) mac key kind bs)"
proof -
  have w: "service_ok (te_codecs env) mac (te_budget_wait env svc)" using assms(2,3) by (simp add: others_ok_def)
  obtain q s1 where q: "reserve (te_granted env) (pl_estimate p) (te_budget_wait env svc) = (q, s1)" by fastforce
  have s1: "service_ok (te_codecs env) mac s1" by (rule service_ok_reserve [OF q w])
  show ?thesis
  proof (cases q)
    case (Inl e)
    then show ?thesis using assms(4) q s1 by (cases e) (auto simp: render_reserved_def)
  next
    case (Inr units)
    obtain x s2 where x: "render_work env key io p use_cache s1 = (x, s2)" by fastforce
    from render_work_ok [OF assms(1) s1 x] show ?thesis
      using assms(4) q s1 Inr x by (cases x) (auto simp: render_reserved_def split: if_splits)
  qed
qed

lemma render_locked_ok:
  assumes "miss_ok mac key io p" "service_ok (te_codecs env) mac svc" "others_ok (te_codecs env) mac (te_budget_wait env)"
    "length key = 32" "render_locked env key io p use_cache svc = (r, svc')"
  shows "service_ok (te_codecs env) mac svc' \<and> (\<forall>bs kind. r = Ok (bs, kind) \<longrightarrow> stored_rendering (te_codecs env) mac key kind bs)"
proof (cases "use_cache \<and> te_lookup_worker env")
  case True
  obtain hit s1 where g: "service_get (te_second_get env) key svc = (hit, s1)" by fastforce
  note get = service_get_ok [OF assms(2,4) g]
  show ?thesis
  proof (cases hit)
    case None
    then have "render_reserved env key io p use_cache s1 = (r, svc')" using assms(5) True g by (simp add: render_locked_def)
    then show ?thesis using render_reserved_ok [OF assms(1) _ assms(3)] get by blast
  qed (use get assms(5) True g in \<open>auto simp: render_locked_def\<close>)
next
  case False
  then show ?thesis using assms(2,5) render_reserved_ok [OF assms(1,2,3), of use_cache r svc']
    by (auto simp: render_locked_def split: if_splits)
qed

lemma render_miss_ok:
  assumes "miss_ok mac key io p" "service_ok (te_codecs env) mac svc" "others_ok (te_codecs env) mac (te_budget_wait env)"
    "others_ok (te_codecs env) mac (te_lock_wait env)" "length key = 32" "render_miss env key io p cacheable svc = (r, svc')"
  shows "service_ok (te_codecs env) mac svc' \<and> (\<forall>bs kind. r = Ok (bs, kind) \<longrightarrow> stored_rendering (te_codecs env) mac key kind bs)"
proof (cases "cacheable \<and> ts_cache svc \<noteq> None")
  case True
  let ?s = "te_lock_wait env (in_flight key svc)"
  have w: "service_ok (te_codecs env) mac ?s" using assms(2,4) by (simp add: others_ok_def)
  obtain x s1 where x: "render_locked env key io p True ?s = (x, s1)" by fastforce
  from render_locked_ok [OF assms(1) w assms(3,5) x] show ?thesis
    using assms(6) True w x by (auto simp: render_miss_def Let_def split: if_splits)
next
  case False
  then have "render_locked env key io p False svc = (r, svc')" using assms(6) by (auto simp: render_miss_def)
  then show ?thesis by (rule render_locked_ok [OF assms(1,2,3,5)])
qed

lemma prepare_ok:
  assumes "prepare env share_id path edge condition svc = (Ok (prepared, key), svc')"
    "service_ok (te_codecs env) mac svc" "mac = fe_mac (te_files env) (ts_key svc)" "\<And>i. length (mac i) = 32"
  obtains opened where "open_file (te_files env) share_id path = Ok opened"
    "key = cache_key mac share_id path edge (identity_of opened)" "service_ok (te_codecs env) mac svc'"
    "prepared = NotModified \<Longrightarrow> if_none_match condition (thumb_etag key)"
    "\<And>bs kind. prepared = Hit bs kind \<Longrightarrow> stored_rendering (te_codecs env) mac key kind bs"
    "\<And>io p c. prepared = Miss io p c \<Longrightarrow> miss_ok mac key io p"
proof (cases "open_file (te_files env) share_id path")
  case (Inr opened)
  let ?key = "cache_key mac share_id path edge (identity_of opened)"
  have l: "length ?key = 32" using assms(4) by (simp add: cache_key_def)
  obtain hit s1 where g: "(if of_modified opened \<noteq> None then service_get (te_first_get env) ?key svc else (None, svc)) = (hit, s1)"
    by fastforce
  have s1: "service_ok (te_codecs env) mac s1 \<and> (\<forall>bs kind. hit = Some (bs, kind) \<longrightarrow> stored_rendering (te_codecs env) mac ?key kind bs)"
    using service_get_ok [OF assms(2) l, of "te_first_get env" hit s1] g assms(2) by (auto split: if_splits)
  show thesis
  proof (cases "if_none_match condition (thumb_etag ?key)")
    case True
    then show thesis using assms Inr by (intro that [of opened]) (auto simp: prepare_def Let_def identity_of_def)
  next
    case False
    have i: "si_len (identity_of opened) = of_len opened" "si_modified (identity_of opened) = of_modified opened"
      by (simp_all add: identity_of_def)
    have len: "\<not> MAX_SOURCE_BYTES < of_len opened"
      using assms(1) Inr False unfolding assms(3) by (auto simp: prepare_def Let_def identity_of_def)
    have c: "(case hit of
                  Some (bs, kind) \<Rightarrow> (Ok (Hit bs kind, ?key), s1)
                | None \<Rightarrow>
                    (and_then (map_err thumbnail_preview_error (plan (fi_at (of_io opened)) (of_len opened) edge)) (\<lambda>p.
                       Ok (Miss (of_io opened) p (of_modified opened \<noteq> None), ?key)), s1)) = (Ok (prepared, key), svc')"
      using assms(1) unfolding prepare_def Inr sum.case Let_def i assms(3) [symmetric] if_not_P [OF False] if_not_P [OF len] g prod.case .
    have key: "key = ?key" "svc' = s1" using c by (auto split: option.splits)
    have m: "miss_ok mac ?key io p" if "prepared = Miss io p x" for io p x
    proof -
      have "plan (fi_at (of_io opened)) (of_len opened) edge = Ok p" "io = of_io opened"
        using c that by (auto split: option.splits)
      then show ?thesis unfolding miss_ok_def using Inr by blast
    qed
    show thesis
      by (rule that [OF Inr key(1)]) (use c s1 m key in \<open>auto split: option.splits\<close>)
  qed
qed (use assms(1) in \<open>simp add: prepare_def\<close>)

lemma thumbnail_response_ok:
  "locked_down (rs_headers (thumbnail_response v bs kind etag))"
  "rs_headers (thumbnail_response v bs kind etag) ''content-type'' = Some (lit (kind_media_type kind))"
  "locked_down (rs_headers (not_modified v etag))"
  by (auto simp: thumbnail_response_def not_modified_def locked_down_def apply_security_headers_def with_etag_def)

lemma answer_prepared_ok:
  assumes "answer_prepared env (prepared, key) svc = (Ok rs, svc')" "service_ok (te_codecs env) mac svc"
    "others_ok (te_codecs env) mac (te_budget_wait env)" "others_ok (te_codecs env) mac (te_lock_wait env)" "length key = 32"
    "\<And>bs kind. prepared = Hit bs kind \<Longrightarrow> stored_rendering (te_codecs env) mac key kind bs"
    "\<And>io p c. prepared = Miss io p c \<Longrightarrow> miss_ok mac key io p"
  shows "service_ok (te_codecs env) mac svc' \<and> locked_down (rs_headers rs)
    \<and> (prepared = NotModified \<and> rs_status rs = 304 \<and> rs_body rs = []
       \<or> rs_status rs = 200 \<and> (\<exists>kind. rs_headers rs ''content-type'' = Some (lit (kind_media_type kind))
            \<and> stored_rendering (te_codecs env) mac key kind (rs_body rs)))"
proof (cases prepared)
  case NotModified
  then show ?thesis using assms(1,2) by (auto simp: answer_prepared_def not_modified_def thumbnail_response_ok(3) [unfolded not_modified_def])
next
  case (Hit bs kind)
  then have "rs = thumbnail_response (fe_valid_header (te_files env)) bs kind (thumb_etag key)" "svc' = svc"
    using assms(1) by (auto simp: answer_prepared_def)
  then show ?thesis using assms(2) assms(6) [OF Hit] thumbnail_response_ok
    by (auto simp: thumbnail_response_def)
next
  case (Miss io p c)
  obtain r s1 where m: "render_miss env key io p c svc = (r, s1)" by fastforce
  note ok = render_miss_ok [OF assms(7) [OF Miss] assms(2-5) m]
  obtain bs kind where "r = Ok (bs, kind)"
    "rs = thumbnail_response (fe_valid_header (te_files env)) bs kind (thumb_etag key)" "svc' = s1"
    using assms(1) Miss m by (auto simp: answer_prepared_def split: if_splits)
  then show ?thesis using ok thumbnail_response_ok by (auto simp: thumbnail_response_def)
qed

lemma thumbnail_target_Ok:
  "thumbnail_target env b identity raw_share_id raw_path raw_size = Ok (share_id, path, edge) \<Longrightarrow> edge \<in> {256, 1600}"
  by (auto simp: thumbnail_target_def SIZES_def bind_eq_Some_conv split: sum.splits if_splits)

text \<open>
  C36: a thumbnail response is always a rendering of the authorised file in its present version. Whatever the caches
  fail, and whatever other requests do meanwhile (as long as they too store renderings under their keys), a 200 response
  carries an encoded rendering of a file whose share, path, requested size, length, modification time and identity have
  the same keyed hash as those of the file just opened for this share and path after authorisation; the only other
  response is an empty 304 to a matching validator. The admission lease is returned and the cache still holds only
  renderings.
\<close>

theorem thumbnail_serves_rendering:
  assumes run: "thumbnail env identity raw_share_id raw_path raw_size headers b svc = (Ok rs, b', svc')"
    and gates: "gates_ok b" and mac: "mac = fe_mac (te_files env) (ts_key svc)" and len: "\<And>i. length (mac i) = 32"
    and svc: "service_ok (te_codecs env) mac svc"
    and others: "others_ok (te_codecs env) mac (te_lock_wait env)" "others_ok (te_codecs env) mac (te_budget_wait env)"
  shows "b' = b \<and> service_ok (te_codecs env) mac svc' \<and> locked_down (rs_headers rs)
    \<and> (\<exists>share_id path edge opened key.
         thumbnail_target (te_files env) b identity raw_share_id raw_path raw_size = Ok (share_id, path, edge)
         \<and> edge \<in> {256, 1600} \<and> open_file (te_files env) share_id path = Ok opened
         \<and> key = cache_key mac share_id path edge (identity_of opened)
         \<and> (rs_status rs = 304 \<and> rs_body rs = [] \<and> if_none_match (header_get headers ''if-none-match'') (thumb_etag key)
            \<or> rs_status rs = 200 \<and> (\<exists>kind. rs_headers rs ''content-type'' = Some (lit (kind_media_type kind))
                 \<and> stored_rendering (te_codecs env) mac key kind (rs_body rs))))"
proof (cases "thumbnail_target (te_files env) b identity raw_share_id raw_path raw_size")
  case (Inr t)
  obtain share_id path edge where t: "t = (share_id, path, edge)" by (cases t)
  obtain q b1 where q: "acquire_buffered_read identity b = (q, b1)" by fastforce
  from acquire_buffered_read_cases [OF gates q] show ?thesis
  proof cases
    case 2
    note admitted = 2
    obtain pk s1 where p: "prepare env share_id path edge (header_get headers ''if-none-match'') svc = (Ok pk, s1)"
      and a: "answer_prepared env pk s1 = (Ok rs, svc')" and b: "b' = drop_buffered_read identity b1"
      using run Inr t q admitted(1) by (auto simp: thumbnail_def split: sum.splits prod.splits)
    obtain prepared key where pk: "pk = (prepared, key)" by (cases pk)
    from prepare_ok [OF p [unfolded pk] svc mac len] obtain opened where
      o: "open_file (te_files env) share_id path = Ok opened" "key = cache_key mac share_id path edge (identity_of opened)"
        "service_ok (te_codecs env) mac s1" "prepared = NotModified \<Longrightarrow> if_none_match (header_get headers ''if-none-match'') (thumb_etag key)"
        "\<And>bs kind. prepared = Hit bs kind \<Longrightarrow> stored_rendering (te_codecs env) mac key kind bs"
        "\<And>io p c. prepared = Miss io p c \<Longrightarrow> miss_ok mac key io p" by metis
    have "length key = 32" using o(2) len by (simp add: cache_key_def)
    then have ans: "service_ok (te_codecs env) mac svc' \<and> locked_down (rs_headers rs)
      \<and> (prepared = NotModified \<and> rs_status rs = 304 \<and> rs_body rs = []
         \<or> rs_status rs = 200 \<and> (\<exists>kind. rs_headers rs ''content-type'' = Some (lit (kind_media_type kind))
              \<and> stored_rendering (te_codecs env) mac key kind (rs_body rs)))"
      by (rule answer_prepared_ok [OF a [unfolded pk] o(3) others(2,1)]) (erule o(5) o(6))+
    have 1: "rs_status rs = 304 \<and> rs_body rs = [] \<and> if_none_match (header_get headers ''if-none-match'') (thumb_etag key)
            \<or> rs_status rs = 200 \<and> (\<exists>kind. rs_headers rs ''content-type'' = Some (lit (kind_media_type kind))
                 \<and> stored_rendering (te_codecs env) mac key kind (rs_body rs))"
      using ans [THEN conjunct2, THEN conjunct2]
    proof (elim disjE conjE)
      assume n: "prepared = NotModified" "rs_status rs = 304" "rs_body rs = []"
      show ?thesis using n(2,3) o(4) [OF n(1)] by blast
    qed (intro disjI2 conjI; assumption)
    have 2: "b' = b" "thumbnail_target (te_files env) b identity raw_share_id raw_path raw_size = Ok (share_id, path, edge)"
      using b admitted(2) Inr t by simp_all
    have 3: "edge \<in> {256, 1600}" by (rule thumbnail_target_Ok [OF 2(2)])
    have 4: "service_ok (te_codecs env) mac svc'" "locked_down (rs_headers rs)"
      by (rule ans [THEN conjunct1]) (rule ans [THEN conjunct2, THEN conjunct1])
    show ?thesis
      by (intro conjI exI [of _ share_id] exI [of _ path] exI [of _ edge] exI [of _ opened] exI [of _ key])
        (rule 1 2 3 4 o)+
  qed (use run Inr t q in \<open>simp add: thumbnail_def\<close>)
qed (use run in \<open>simp add: thumbnail_def\<close>)

subsection \<open>Resources\<close>

text \<open>Every lock object in the map is held by some request.\<close>

definition flights_ok :: "ThumbnailService \<Rightarrow> bool" where
  "flights_ok svc \<longleftrightarrow> distinct (keys (ts_in_flight svc)) \<and> (\<forall>(k, n) \<in> set (ts_in_flight svc). 0 < n)"

lemma put_key_same: "map_of es k = Some v \<Longrightarrow> distinct (keys es) \<Longrightarrow> put_key k v es = es"
proof -
  assume a: "map_of es k = Some v" "distinct (keys es)"
  have "(k', if k' = k then v else v') = (k', v')" if "(k', v') \<in> set es" for k' v'
    using map_of_is_SomeI [OF a(2) that] a(1) by auto
  then have "map (\<lambda>(k', v'). (k', if k' = k then v else v')) es = es" by (induction es) auto
  moreover have "k \<in> fst ` set es" using map_of_SomeD [OF a(1)] by force
  ultimately show ?thesis by (simp add: put_key_def)
qed

lemma release_cancels:
  assumes "flights_ok svc" shows "release_in_flight key (in_flight key svc) = svc"
proof (cases "map_of (ts_in_flight svc) key")
  case None
  then have k: "key \<notin> fst ` set (ts_in_flight svc)" by (simp add: map_of_eq_None_iff)
  then have p: "put_key key 1 (ts_in_flight svc) = ts_in_flight svc @ [(key, 1)]" by (simp add: put_key_def)
  have r: "remove_key key (ts_in_flight svc @ [(key, 1 :: nat)]) = ts_in_flight svc"
    using k by (force simp: remove_key_def filter_id_conv)
  have f: "in_flight key svc = svc\<lparr>ts_in_flight := ts_in_flight svc @ [(key, 1)]\<rparr>"
    using None p by (simp add: in_flight_def flights_def)
  have "flights key (in_flight key svc) = 1"
    using None unfolding in_flight_def flights_def by (simp add: map_of_put_key)
  then show ?thesis using f r by (simp add: release_in_flight_def)
next
  case (Some n)
  have n: "0 < n" "distinct (keys (ts_in_flight svc))" using assms map_of_SomeD [OF Some] by (auto simp: flights_ok_def)
  have "put_key key n (put_key key (Suc n) (ts_in_flight svc)) = put_key key n (ts_in_flight svc)"
    using map_of_SomeD [OF Some] by (force simp: put_key_def image_iff)
  then show ?thesis
    using Some n put_key_same [OF Some n(2)]
    by (simp add: release_in_flight_def abandon_in_flight_def in_flight_def flights_def map_of_put_key)
qed

text \<open>Equal but for the cache.\<close>

definition same_resources :: "ThumbnailService \<Rightarrow> ThumbnailService \<Rightarrow> bool" where
  "same_resources s t \<longleftrightarrow> ts_budget t = ts_budget s \<and> ts_capacity t = ts_capacity s \<and> ts_in_flight t = ts_in_flight s
     \<and> ts_key t = ts_key s"

lemma same_resources_get: "service_get faults key svc = (hit, svc') \<Longrightarrow> same_resources svc svc'"
  by (auto simp: service_get_def same_resources_def split: option.splits prod.splits)

lemma same_resources_work: "render_work env key io p u svc = (r, svc') \<Longrightarrow> same_resources svc svc'"
  by (auto simp: render_work_def same_resources_def split: sum.splits prod.splits option.splits if_splits)

lemma same_resources_reserved:
  assumes "te_budget_wait env = id" "render_reserved env key io p u svc = (r, svc')"
  shows "same_resources svc svc'"
proof -
  obtain q s1 where q: "reserve (te_granted env) (pl_estimate p) svc = (q, s1)" by fastforce
  show ?thesis
  proof (cases q)
    case (Inl e)
    then have "s1 = svc" using q by (auto simp: reserve_def Let_def split: if_splits)
    then show ?thesis using assms q Inl by (cases e) (auto simp: render_reserved_def same_resources_def)
  next
    case (Inr units)
    then have s1: "s1 = svc\<lparr>ts_budget := ts_budget svc - units\<rparr>" "units \<le> ts_budget svc"
      using q by (auto simp: reserve_def Let_def split: if_splits)
    obtain x s2 where x: "render_work env key io p u s1 = (x, s2)" by fastforce
    show ?thesis using assms q Inr s1 same_resources_work [OF x] x
      by (auto simp: render_reserved_def drop_reservation_def same_resources_def split: if_splits)
  qed
qed

lemma same_resources_trans: "same_resources a b \<Longrightarrow> same_resources b c \<Longrightarrow> same_resources a c"
  by (simp add: same_resources_def)

lemma same_resources_locked:
  assumes "te_budget_wait env = id" "render_locked env key io p u svc = (r, svc')"
  shows "same_resources svc svc'"
proof -
  obtain hit s1 where g: "service_get (te_second_get env) key svc = (hit, s1)" by fastforce
  have "same_resources svc svc" by (simp add: same_resources_def)
  then show ?thesis
    using assms(2) g same_resources_get [OF g] same_resources_reserved [OF assms(1)]
    by (auto simp: render_locked_def split: if_splits option.splits intro: same_resources_trans)
qed

lemma same_resources_release:
  assumes "same_resources (in_flight key svc) s" "flights_ok svc"
  shows "same_resources svc (release_in_flight key s)"
proof -
  have "release_in_flight key s = (s\<lparr>ts_in_flight := ts_in_flight (release_in_flight key (in_flight key svc))\<rparr>)"
    using assms(1) by (simp add: same_resources_def release_in_flight_def abandon_in_flight_def flights_def)
  then show ?thesis
    using assms(1) release_cancels [OF assms(2)] by (simp add: same_resources_def in_flight_def)
qed

lemma same_resources_miss:
  assumes "te_budget_wait env = id" "te_lock_wait env = id" "te_locked env" "flights_ok svc"
    "render_miss env key io p c svc = (r, svc')"
  shows "same_resources svc svc'"
proof (cases "c \<and> ts_cache svc \<noteq> None")
  case True
  obtain x s1 where x: "render_locked env key io p True (in_flight key svc) = (x, s1)" by fastforce
  then have "svc' = release_in_flight key s1" using assms(2,3,5) True by (auto simp: render_miss_def)
  with same_resources_release [OF same_resources_locked [OF assms(1) x] assms(4)] show ?thesis by simp
next
  case False
  then have "render_locked env key io p False svc = (r, svc')" using assms(5) by (auto simp: render_miss_def)
  then show ?thesis by (rule same_resources_locked [OF assms(1)])
qed


text \<open>
  A request that is cancelled while it holds the lock object of its key leaves the object in the map, though nobody holds
  it any more: \<open>render_miss\<close> is dropped at an await point and \<open>release_in_flight\<close> never runs.
\<close>

lemma cancelled_request_leaves_lock:
  assumes "ts_in_flight svc = []"
  shows "ts_in_flight (abandon_in_flight key (in_flight key svc)) = [(key, 0)]"
    and "ts_in_flight (release_in_flight key (in_flight key svc)) = []"
  using assms by (simp_all add: abandon_in_flight_def release_in_flight_def in_flight_def flights_def put_key_def remove_key_def)

subsection \<open>Keys distinguish versions\<close>

text \<open>
  the input of the keyed hash determines the request: two requests with the same input agree in share, path, size,
  length, file identity and modification time (to the nanosecond, all times before the epoch alike), so under a
  collision-free MAC a cached thumbnail is only ever served for the file version it was made from.
\<close>

theorem cache_key_input_injective:
  assumes "cache_key_input i p e s = cache_key_input i' p' e' s'"
    and "list_all is_char i" "list_all is_char i'" "str_len i < 2 ^ 64" "str_len i' < 2 ^ 64"
    and "list_all is_char (path_display p)" "list_all is_char (path_display p')"
      "str_len (path_display p) < 2 ^ 64" "str_len (path_display p') < 2 ^ 64"
    and "e < 2 ^ 32" "e' < 2 ^ 32" "si_len s < 2 ^ 64" "si_len s' < 2 ^ 64" "si_file_id s < 2 ^ 64" "si_file_id s' < 2 ^ 64"
    and "\<forall>t. si_modified s = Some t \<longrightarrow> t < 2 ^ 64 * 1000000000" "\<forall>t. si_modified s' = Some t \<longrightarrow> t < 2 ^ 64 * 1000000000"
  shows "i = i' \<and> path_display p = path_display p' \<and> e = e' \<and> si_len s = si_len s' \<and> si_file_id s = si_file_id s'
    \<and> Option.bind (si_modified s) duration_since_epoch = Option.bind (si_modified s') duration_since_epoch"
proof -
  let ?r = "\<lambda>e s. be_bytes 4 e @ be_bytes 8 (si_len s) @ be_bytes 8 (si_file_id s) @ time_mac (si_modified s)"
  have a: "str_bytes i = str_bytes i' \<and> framed (str_bytes (path_display p)) @ ?r e s = framed (str_bytes (path_display p')) @ ?r e' s'"
    using assms(1) unfolding cache_key_input_def same_append_eq by (rule framed_append_inj) (use assms(4,5) in simp_all)
  then have b: "str_bytes (path_display p) = str_bytes (path_display p') \<and> ?r e s = ?r e' s'"
    by (intro framed_append_inj) (use assms(8,9) in simp_all)
  then have c: "be_bytes 4 e = be_bytes 4 e'" "be_bytes 8 (si_len s) = be_bytes 8 (si_len s')"
    "be_bytes 8 (si_file_id s) = be_bytes 8 (si_file_id s')" "time_mac (si_modified s) = time_mac (si_modified s')"
    by (simp_all add: append_eq_append_conv)
  have "e = e'" "si_len s = si_len s'" "si_file_id s = si_file_id s'" using be_bytes_inj c(1-3) assms(10-15) by simp_all
  then show ?thesis using a b time_mac_inj [OF c(4) assms(16,17)] str_bytes_inj assms(2,3,6,7) by blast
qed

theorem cache_key_input_injective_witness:
  "cache_key_input [115] [[97]] 256 \<lparr> si_len = 3, si_modified = None, si_file_id = 7 \<rparr> =
     cache_key_input [115] [[97]] 256 \<lparr> si_len = 3, si_modified = Some (-5), si_file_id = 7 \<rparr>
   \<and> Option.bind None duration_since_epoch = Option.bind (Some (-5)) duration_since_epoch"
proof -
  have e: "cache_key_input [115] [[97]] 256 \<lparr> si_len = 3, si_modified = None, si_file_id = 7 \<rparr> =
      cache_key_input [115] [[97]] 256 \<lparr> si_len = 3, si_modified = Some (-5), si_file_id = 7 \<rparr>"
    by (simp add: cache_key_input_def time_mac_def duration_since_epoch_def)
  have "path_display [[97]] = [97]" by (simp add: path_display_def)
  with cache_key_input_injective [OF e] e show ?thesis
    by (simp add: is_char_def str_len_def utf8_char_def)
qed

subsection \<open>Thumbnails fit their size\<close>

lemma flush_column_shape [simp]:
  "length (ds_output (flush_column c d)) = length (ds_output d)" "ds_out_width (flush_column c d) = ds_out_width d"
  "ds_out_height (flush_column c d) = ds_out_height d"
  by (simp_all add: flush_column_def Let_def split: option.split)

lemma Downscaler_flush_frame [simp]:
  "length (ds_output (Downscaler_flush d)) = length (ds_output d)"
proof -
  have "length (ds_output (fold flush_column cs d)) = length (ds_output d)" for cs
    by (induction cs arbitrary: d) simp_all
  then show ?thesis by (simp add: Downscaler_flush_def)
qed

lemma Downscaler_push_frame: "Downscaler_push layout row d = Ok d' \<Longrightarrow> length (ds_output d') = length (ds_output d)"
  by (auto simp: Downscaler_push_def Let_def split: if_splits)

lemma scale_rows_length: "scale_rows layout rows d = Ok (out, opaque) \<Longrightarrow> length out = length (ds_output d)"
proof -
  have "fold_res (Downscaler_push layout) rows d = Ok d' \<Longrightarrow> length (ds_output d') = length (ds_output d)" for d'
    by (induction rows arbitrary: d) (auto dest: Downscaler_push_frame)
  then show "scale_rows layout rows d = Ok (out, opaque) \<Longrightarrow> ?thesis"
    by (auto simp: scale_rows_def Downscaler_finish_def Let_def split: if_splits)
qed

lemma orient_length: "orient rgba w h orientation = (out, w', h') \<Longrightarrow> length out = length rgba \<and> {w', h'} = {w, h} \<and> w' * h' = w * h"
proof -
  have inner: "length (fold (\<lambda>x output. case f x of (dx, dy) \<Rightarrow> output[g dx dy := v x]) xs out) = length out" for f :: "nat \<Rightarrow> nat \<times> nat" and g v xs and out :: "rgba list"
    by (induction xs arbitrary: out) (simp_all add: split_def)
  have "length (fold (\<lambda>y. fold (\<lambda>x output. let (dx, dy) = f y x in output[g dx dy := v y x]) xs) ys out) = length out"
    for f :: "nat \<Rightarrow> nat \<Rightarrow> nat \<times> nat" and g v xs ys and out :: "rgba list" by (induction ys arbitrary: out) (simp_all add: inner)
  then show "orient rgba w h orientation = (out, w', h') \<Longrightarrow> ?thesis"
    by (auto simp: orient_def Let_def split: if_splits)
qed

lemma downscaler_for_bounds:
  assumes "downscaler_for p width height = Ok d" "0 < pl_out_width p" "pl_out_width p \<le> edge" "0 < pl_out_height p"
    "pl_out_height p \<le> edge" "pl_long_edge p = edge" "0 < edge" "edge < 2 ^ 32"
  shows "0 < ds_out_width d \<and> ds_out_width d \<le> edge \<and> 0 < ds_out_height d \<and> ds_out_height d \<le> edge
    \<and> length (ds_output d) = ds_out_width d * ds_out_height d"
proof -
  obtain ow oh where o: "(case pl_codec p of CJpeg _ _ \<Rightarrow> (min (pl_out_width p) width, min (pl_out_height p) height)
      | _ \<Rightarrow> output_size width height (pl_long_edge p)) = (ow, oh)" by fastforce
  have pos: "0 < width" "0 < height" using assms(1) by (auto simp: downscaler_for_def split: if_splits)
  have d: "d = Downscaler_new width height ow oh" using assms(1) o by (auto simp: downscaler_for_def split: if_splits)
  have "0 < ow \<and> ow \<le> edge \<and> 0 < oh \<and> oh \<le> edge"
    using o pos assms(2-8) output_size_bounds [OF pos assms(7,8), of ow oh] by (cases "pl_codec p") auto
  then show ?thesis by (simp add: d Downscaler_new_def Let_def)
qed

lemma plan_edge:
  assumes "plan rd len edge = Ok p" "0 < edge" "edge < 2 ^ 32"
  shows "0 < pl_out_width p \<and> pl_out_width p \<le> edge \<and> 0 < pl_out_height p \<and> pl_out_height p \<le> edge \<and> pl_long_edge p = edge"
proof -
  obtain x1 x2 x3 x4 width height x5 where c: "check_pixels width height = Ok ()"
    "(let (out_width, out_height) = output_size width height edge;
              codec = (case x2 of CJpeg h _ \<Rightarrow> CJpeg h (jpeg_scale width height out_width out_height) | c \<Rightarrow> c);
              p = \<lparr> pl_kind = x1, pl_codec = codec, pl_window_start = x3, pl_window_len = x4,
                    pl_width = width, pl_height = height, pl_out_width = out_width, pl_out_height = out_height,
                    pl_orientation = x5, pl_long_edge = edge, pl_estimate = 0 \<rparr>
          in Ok (p\<lparr>pl_estimate := estimate p\<rparr>)) = (Ok p :: ThumbnailError + Plan)"
    using assms(1) by (auto simp: plan_def split: if_splits)
  obtain ow oh where o: "output_size width height edge = (ow, oh)" by fastforce
  have "p = p\<lparr>pl_long_edge := edge, pl_out_width := ow, pl_out_height := oh\<rparr>" using c(2) o by (auto simp: Let_def)
  then have "pl_out_width p = ow" "pl_out_height p = oh" "pl_long_edge p = edge"
    by (metis Plan.select_convs Plan.surjective Plan.update_convs)+
  then show ?thesis using output_size_bounds [OF _ _ assms(2,3) o] c(1)
    by (auto simp: check_pixels_def split: if_splits)
qed

text \<open>
  C38: whatever the image decoder returns, a rendered thumbnail has the requested size at most. If a file was planned
  for an edge and the plan rendered, what was encoded is a picture with one pixel value for each of its positions, at
  least one pixel on each side and neither side longer than the edge; it is a JPEG only if no output pixel is
  translucent, else a PNG.
\<close>

theorem rendered_size_bounded:
  assumes "plan rd len edge = Ok p" "0 < edge" "edge < 2 ^ 16" "render co io p = Ok encoded"
  shows "\<exists>rgba width height. 0 < width \<and> width \<le> edge \<and> 0 < height \<and> height \<le> edge \<and> length rgba = width * height
    \<and> (en_media_type encoded = ''image/jpeg'' \<and> co_encode_jpeg co rgba width height = Some (en_bytes encoded)
       \<or> en_media_type encoded = ''image/png'' \<and> co_encode_png co rgba width height = Some (en_bytes encoded))"
proof -
  have e: "edge < 2 ^ 32" using assms(3) by simp
  obtain width height layout rows rgba w h opaque where r: "render_decoded p width height layout rows = Ok ((rgba, w, h), opaque)"
    "encode co rgba w h opaque = Ok encoded"
    using assms(4) by (auto simp: render_def Let_def split: if_splits)
  from r(1) obtain d out where d: "downscaler_for p width height = Ok d" "scale_rows layout rows d = Ok (out, opaque)"
    "orient out (ds_out_width d) (ds_out_height d) (pl_orientation p) = (rgba, w, h)" by (auto simp: render_decoded_def)
  have b: "0 < ds_out_width d \<and> ds_out_width d \<le> edge \<and> 0 < ds_out_height d \<and> ds_out_height d \<le> edge
    \<and> length (ds_output d) = ds_out_width d * ds_out_height d"
    using downscaler_for_bounds [OF d(1)] plan_edge [OF assms(1,2) e] assms(2) e by blast
  have o: "length rgba = length out" "{w, h} = {ds_out_width d, ds_out_height d}" "w * h = ds_out_width d * ds_out_height d"
    using orient_length [OF d(3)] by simp_all
  have l: "length rgba = w * h" using o(1,3) scale_rows_length [OF d(2)] b by simp
  have "w \<in> {ds_out_width d, ds_out_height d}" "h \<in> {ds_out_width d, ds_out_height d}" using o(2) by blast+
  then have "0 < w \<and> w \<le> edge \<and> 0 < h \<and> h \<le> edge" using b by auto
  with l r(2) show ?thesis
    by (intro exI [of _ rgba] exI [of _ w] exI [of _ h]) (auto simp: encode_def encode_jpeg_def split: if_splits)
qed

lemma forget_misses:
  assumes "ts_cache svc = Some c" "edge \<in> set SIZES"
  shows "\<exists>c'. ts_cache (forget faults mac share_id path m svc) = Some c'
    \<and> fst (cache_get faults' (cache_key mac share_id path edge \<lparr> si_len = em_size m, si_modified = em_modified m, si_file_id = em_file_id m \<rparr>) c')
        = None"
proof -
  have "map_of (ix_entries (tc_index (cache_remove faults k c))) k' = (if k' = k then None else map_of (ix_entries (tc_index c)) k')" for k k' c
    using Index_remove_get [of k "tc_index c" k'] by (auto simp: cache_remove_def split: prod.splits option.splits)
  then show ?thesis using assms by (auto simp: forget_def SIZES_def cache_get_def Let_def)
qed

subsection \<open>A sample request\<close>

definition sample_codecs :: codecs where
  "sample_codecs = codecs.make (\<lambda>_. None) (\<lambda>_ _ _. None) (\<lambda>_ _. None) (\<lambda>_ _. None) (\<lambda>_. None) (\<lambda>_. None) (\<lambda>_. None)
     (\<lambda>_ _. Some (1, 1, [255, 0, 0, 255])) (\<lambda>_. None) (\<lambda>_. None) (\<lambda>_ _. None) (\<lambda>_ _ _. Some [1, 2, 3]) (\<lambda>_ _ _. None)"

definition sample_thumb_plan :: Plan where
  "sample_thumb_plan = (let p = \<lparr> pl_kind = GifSource, pl_codec = CGif, pl_window_start = 0, pl_window_len = 16, pl_width = 4000,
     pl_height = 2000, pl_out_width = 256, pl_out_height = 128, pl_orientation = 1, pl_long_edge = 256, pl_estimate = 0 \<rparr>
     in p\<lparr>pl_estimate := estimate p\<rparr>)"

lemma plan_sample: "plan (cursor_reader tiny_gif) 16 256 = Ok sample_thumb_plan"
proof -
  have sig: "thumb_read_at (cursor_reader tiny_gif) 0 16 16 = Ok tiny_gif"
    by (simp add: thumb_read_at_def checked_add_def read_exact_at_def cursor_reader_def slice_def tiny_gif_def byte_lit_def)
  have screen: "thumb_read_at (cursor_reader tiny_gif) 6 4 16 = Ok [0xA0, 0x0F, 0xD0, 0x07]"
    by (simp add: thumb_read_at_def checked_add_def read_exact_at_def cursor_reader_def slice_def tiny_gif_def byte_lit_def)
  have src: "plan_source (cursor_reader tiny_gif) 16 tiny_gif = Ok (GifSource, CGif, 0, 16, 4000, 2000, 1)"
    unfolding plan_source_def screen
    by (simp add: tiny_gif_def byte_lit_def starts_with_def PNG_MAGIC_def sub_def)
  show ?thesis
    by (simp add: plan_def MAX_SOURCE_BYTES_def sig src check_pixels_def MAX_IMAGE_PIXELS_def output_size_def sample_thumb_plan_def)
qed

lemma render_sample: "render sample_codecs (sample_io bs) sample_thumb_plan = Ok \<lparr> en_bytes = [1, 2, 3], en_media_type = ''image/jpeg'' \<rparr>"
proof -
  have c: "pl_codec sample_thumb_plan = CGif" "pl_width sample_thumb_plan = 4000" "pl_height sample_thumb_plan = 2000" "pl_long_edge sample_thumb_plan = 256"
    "pl_orientation sample_thumb_plan = 1" by (simp_all add: sample_thumb_plan_def Let_def)
  have f: "downscaler_for sample_thumb_plan 1 1 = Ok (Downscaler_new 1 1 1 1)"
    by (simp add: downscaler_for_def c output_size_def)
  have ch: "chunks_exact 4 [255, 0, 0, 255 :: u8] = [[255, 0, 0, 255]]" by (simp add: chunks_exact_unfold)
  have g: "decode_gif sample_codecs sample_thumb_plan input = Ok (1, 1, Rgba, [[255, 0, 0, 255]])" for input
    by (simp add: decode_gif_def c sample_codecs_def codecs.make_def f ch del: One_nat_def)
  have s: "scale_rows Rgba [[255, 0, 0, 255]] (Downscaler_new 1 1 1 1) = Ok ([(255, 0, 0, 255)], True)"
    by (simp add: scale_rows_def Downscaler_push_def Downscaler_new_def Let_def ch to_rgba_def push_pixels_def Downscaler_finish_def
        Downscaler_flush_def flush_column_def flush_pixel_def)
  have r: "render_decoded sample_thumb_plan 1 1 Rgba [[255, 0, 0, 255]] = Ok (([(255, 0, 0, 255)], 1, 1), True)"
    using f s by (simp add: render_decoded_def orient_def c) (simp add: Downscaler_new_def Let_def)
  have e: "co_encode_jpeg sample_codecs = (\<lambda>_ _ _. Some [1, 2, 3])" by (simp add: sample_codecs_def codecs.make_def)
  show ?thesis
    unfolding render_def Let_def c Codec.case g and_then.simps prod.case r
    by (simp add: sample_io_def encode_def encode_jpeg_def e)
qed

theorem rendered_size_bounded_witness:
  "\<exists>rgba width height. 0 < width \<and> width \<le> 256 \<and> 0 < height \<and> height \<le> 256 \<and> length rgba = width * height
    \<and> co_encode_jpeg sample_codecs rgba width height = Some [1, 2, 3]"
  using rendered_size_bounded [OF plan_sample _ _ render_sample [of "[]"]] by auto

definition sample_thumb_env :: thumb_env where
  "sample_thumb_env = thumb_env.make ((sample_file_env tiny_gif)\<lparr>fe_mac := (\<lambda>_ _. replicate 32 5)\<rparr>) sample_codecs no_faults no_faults no_faults
     (Some (replicate 8 1)) None True True id True id True"

definition sample_service :: ThumbnailService where
  "sample_service = \<lparr> ts_budget = 131072, ts_capacity = 134217728, ts_cache = Some (ThumbnailCache.make [] 10 Index_default),
     ts_key = [], ts_in_flight = [] \<rparr>"

lemma sample_open_env: "open_file (env\<lparr>fe_mac := m\<rparr>) i p = open_file env i p"
  by (simp add: open_file_def open_handle_def)

lemma sample_thumb_env_fields [simp]:
  "te_files sample_thumb_env = (sample_file_env tiny_gif)\<lparr>fe_mac := (\<lambda>_ _. replicate 32 5)\<rparr>"
  "te_codecs sample_thumb_env = sample_codecs" "te_lock_wait sample_thumb_env = id" "te_budget_wait sample_thumb_env = id"
  "te_locked sample_thumb_env" "te_granted sample_thumb_env" "te_lookup_worker sample_thumb_env" "te_render_worker sample_thumb_env"
  by (simp_all add: sample_thumb_env_def thumb_env.make_def)

lemma sample_unicode: "be_unicode (fe_browse (sample_file_env bs)) = ascii_unicode"
  by (simp add: sample_file_env_def sample_browse_env_def)

lemma sample_authorized: "\<exists>x. authorize_owned (bs_shares sample_browse) (bs_policy sample_browse) sample_identity [100] = Ok x"
  by (simp add: sample_browse_def sample_identity_def authorize_owned_def authorize_def grant_for_def with_gates_def)

lemma sample_thumb_target:
  "thumbnail_target (te_files sample_thumb_env) sample_browse sample_identity [100] (Some [98]) (Some [50, 53, 54]) = Ok ([100], [[98]], 256)"
proof -
  have a: "ShareId_new [100] = Ok [100]" "VirtualPath_parse ascii_unicode [98] = Ok [[98]]" by code_simp+
  have n: "parse_uint 32 [50, 53, 54] = Some 256" by (simp add: parse_uint_def is_ascii_digit_def)
  obtain x where "authorize_owned (bs_shares sample_browse) (bs_policy sample_browse) sample_identity [100] = Ok x"
    using sample_authorized by blast
  then show ?thesis by (simp add: thumbnail_target_def a n sample_unicode SIZES_def)
qed

lemma sample_cache_run: "cache_run R (ThumbnailCache.make [] 10 Index_default)"
  by (rule cache_run.opened [OF _ sample_cache_open]) simp

lemma sample_service_ok: "service_ok co mac sample_service"
  by (simp add: service_ok_def sample_service_def sample_cache_run)

lemma sample_buffered: "fst (acquire_buffered_read sample_identity sample_browse) = Ok ()"
  by (simp add: acquire_buffered_read_def split_def try_acquire_admitted sample_browse_def with_gates_def SubjectGate_new_def
      MAX_CONCURRENT_BUFFERED_READS_def MAX_CONCURRENT_BUFFERED_READS_PER_SUBJECT_def active_def Let_def)

lemma sample_miss:
  "service_get f key sample_service = (None, sample_service)"
  by (simp add: service_get_def sample_service_def cache_get_def ThumbnailCache.defs Index_default_def)

lemma sample_prepare:
  "prepare sample_thumb_env [100] [[98]] 256 None sample_service = (Ok (Miss (sample_io tiny_gif) sample_thumb_plan True, replicate 32 5), sample_service)"
proof -
  have o: "open_file (te_files sample_thumb_env) [100] [[98]] =
      Ok \<lparr> of_len = 16, of_modified = Some 0, of_file_id = 7, of_io = sample_io tiny_gif \<rparr>"
    using sample_open [of tiny_gif "[98]"] by (simp add: sample_open_env) (simp add: tiny_gif_def byte_lit_def)
  have p: "plan (fi_at (sample_io tiny_gif)) 16 256 = Ok sample_thumb_plan" by (simp add: sample_io_def plan_sample)
  have k: "cache_key (fe_mac (te_files sample_thumb_env) k) i path e s = replicate 32 5" for k i path e s
    by (simp add: cache_key_def)
  show ?thesis
    unfolding prepare_def o sum.case Let_def k
    by (simp add: if_none_match_def identity_of_def MAX_SOURCE_BYTES_def sample_miss p)
qed

lemma sample_estimate: "0 < pl_estimate sample_thumb_plan" "pl_estimate sample_thumb_plan \<le> 134217728"
  by (simp_all add: sample_thumb_plan_def Let_def estimate_def decode_estimate_def encode_estimate_def jpeg_output_reserve_def FIXED_OVERHEAD_def
      saturating_add_def div_ceil_def)

lemma sample_thumbnail:
  "\<exists>rs b' svc'. thumbnail sample_thumb_env sample_identity [100] (Some [98]) (Some [50, 53, 54]) [] sample_browse sample_service
     = (Ok rs, b', svc') \<and> rs_body rs = [1, 2, 3] \<and> rs_status rs = 200"
proof -
  obtain q b1 where q: "acquire_buffered_read sample_identity sample_browse = (q, b1)" by fastforce
  then have "q = Ok ()" using sample_buffered by simp
  have h: "header_get [] ''if-none-match'' = None" by (simp add: header_get_def get_all_def)
  have w: "run_blocking (fe_browse (te_files sample_thumb_env)) () = Ok ()" by simp
  have work: "\<exists>svc'. render_work sample_thumb_env key (sample_io tiny_gif) sample_thumb_plan True svc = (Ok ([1, 2, 3], Jpeg), svc')" for key svc
    by (simp add: render_work_def render_sample from_media_type_def)
  let ?s = "in_flight (replicate 32 5) sample_service"
  have get: "\<exists>s. service_get f key ?s = (None, s) \<and> ts_budget s = 131072 \<and> ts_capacity s = 134217728" for f key
    by (simp add: in_flight_def service_get_def sample_service_def cache_get_def ThumbnailCache.defs Index_default_def)
  then obtain s where s: "service_get (te_second_get sample_thumb_env) (replicate 32 5) ?s = (None, s)" "ts_budget s = 131072" "ts_capacity s = 134217728"
    by blast
  have u: "max (div_ceil (pl_estimate sample_thumb_plan) BUDGET_UNIT) 1 \<le> 131072"
    using div_le_mono [of "pl_estimate sample_thumb_plan + 1024 - 1" "134217728 + 1023" 1024] sample_estimate(2)
    by (simp add: div_ceil_def BUDGET_UNIT_def)
  then have "\<not> 2 ^ 32 \<le> max (div_ceil (pl_estimate sample_thumb_plan) BUDGET_UNIT) 1" by (simp only: not_le) simp
  moreover have "fits s (pl_estimate sample_thumb_plan)" using s(3) sample_estimate(2) by (simp add: fits_def)
  ultimately obtain units s2 where r: "reserve True (pl_estimate sample_thumb_plan) s = (Ok units, s2)"
    using u s(2) unfolding reserve_def Let_def by (metis)
  obtain s3 where s3: "render_work sample_thumb_env (replicate 32 5) (sample_io tiny_gif) sample_thumb_plan True s2 = (Ok ([1, 2, 3], Jpeg), s3)"
    using work by blast
  have locked: "render_locked sample_thumb_env (replicate 32 5) (sample_io tiny_gif) sample_thumb_plan True ?s
      = (Ok ([1, 2, 3], Jpeg), drop_reservation units s3)"
    by (simp add: render_locked_def s(1) render_reserved_def r s3)
  have miss: "\<exists>t. render_miss sample_thumb_env (replicate 32 5) (sample_io tiny_gif) sample_thumb_plan True sample_service = (Ok ([1, 2, 3], Jpeg), t)"
    unfolding render_miss_def by (simp add: locked) (simp add: sample_service_def)
  have fit: "fits sample_service (pl_estimate sample_thumb_plan)"
    using sample_estimate(2) by (simp add: fits_def sample_service_def)
  from miss obtain t where "render_miss sample_thumb_env (replicate 32 5) (sample_io tiny_gif) sample_thumb_plan True sample_service
      = (Ok ([1, 2, 3], Jpeg), t)" by blast
  then have "\<exists>rs. answer_prepared sample_thumb_env (Miss (sample_io tiny_gif) sample_thumb_plan True, replicate 32 5) sample_service = (Ok rs, t)
      \<and> rs_body rs = [1, 2, 3] \<and> rs_status rs = 200"
    using fit by (simp add: answer_prepared_def thumbnail_response_def)
  then show ?thesis
    using q \<open>q = Ok ()\<close> w by (auto simp: thumbnail_def sample_thumb_target [simplified] h sample_prepare [simplified])
qed

theorem thumbnail_serves_rendering_witness:
  "\<exists>rs svc' key kind. thumbnail sample_thumb_env sample_identity [100] (Some [98]) (Some [50, 53, 54]) [] sample_browse sample_service
      = (Ok rs, sample_browse, svc') \<and> rs_body rs = [1, 2, 3] \<and> locked_down (rs_headers rs)
    \<and> stored_rendering sample_codecs (\<lambda>_. replicate 32 5) key kind [1, 2, 3]"
proof -
  obtain rs b' svc' where t: "thumbnail sample_thumb_env sample_identity [100] (Some [98]) (Some [50, 53, 54]) [] sample_browse sample_service
     = (Ok rs, b', svc')" "rs_body rs = [1, 2, 3]" "rs_status rs = 200" using sample_thumbnail by blast
  have o: "others_ok sample_codecs mac id" for mac by (simp add: others_ok_def)
  from thumbnail_serves_rendering [OF t(1) sample_gates, of "\<lambda>_. replicate 32 5"] sample_service_ok o t show ?thesis by auto
qed


end
