(* ===== verification/Spec2Isabelle.thy ===== *)
theory Spec2Isabelle
  imports ClientAddress ArchiveRoutes FolderSizes Publish Thumbnails
begin

text \<open>
  Verification of crabinet, a file server.
\<close>


text \<open>The witness: a share \<open>d\<close> that holds one file \<open>a\<close> of two bytes.\<close>

definition tiny_metadata :: "bool \<Rightarrow> nat \<Rightarrow> Metadata" where
  "tiny_metadata is_file len = (sample_metadata is_file len 1) \<lparr> md_modified := None \<rparr>"

definition tiny_folder :: Dir where
  "tiny_folder = Dir (Inr [Inr (DirEntry [97] (Inr (tiny_metadata True 2)) (Inr False) (Inl no_entry))])"

definition tiny_os :: os where
  "tiny_os = \<lparr> os_open_dir = (\<lambda>_ _. Inl no_entry), os_dir_metadata = (\<lambda>_. Inr (tiny_metadata False 0)),
     os_open_with = (\<lambda>_ _. Inl no_entry) \<rparr>"

definition tiny_layout :: ArchiveLayout where
  "tiny_layout =
     \<lparr> ar_sources = [\<lparr> src_name = [100], src_size = None, src_modified = None \<rparr>,
                     \<lparr> src_name = [100, 47, 97], src_size = Some 2, src_modified = None \<rparr>],
       ar_base = [], ar_prefix_len = 2, ar_filename = lit ''d.zip'' \<rparr>"

definition tiny_plan :: ZipPlan where
  "tiny_plan =
     \<lparr> zp_entries =
         [\<lparr> ze_name = [100, 47], ze_size = None, ze_method = Stored, ze_dos_time = 0,
            ze_dos_date = 33, ze_mtime = None, ze_offset = 0, ze_crc = 0, ze_compressed = 0 \<rparr>,
          \<lparr> ze_name = [100, 47, 97], ze_size = Some 2, ze_method = Stored, ze_dos_time = 0,
            ze_dos_date = 33, ze_mtime = None, ze_offset = 32, ze_crc = 0, ze_compressed = 0 \<rparr>],
       zp_variable = False, zp_position = 0, zp_central_offset = 83, zp_central_len = 97,
       zp_len = 202 \<rparr>"

lemma tiny_folder_layout: "folder_layout ascii_unicode tiny_os [100] tiny_folder [] sample_limits = Ok tiny_layout"
proof -
  have t: "dir_tally ascii_unicode [] 0 tiny_folder =
      Some \<lparr> ty_items = [\<lparr> ai_relative = [97], ai_kind = File, ai_size = 2, ai_modified = None \<rparr>],
        ty_scanned = 1, ty_bytes = 2, ty_names = 1 \<rparr>" by code_simp
  have "visit ascii_unicode (\<lambda>_. True) tiny_folder [] 0 (walk_start sample_limits) =
      Ok (grow (walk_start sample_limits) (the (dir_tally ascii_unicode [] 0 tiny_folder)))"
    by (subst visit_start) (simp_all add: sample_limits_def t)
  then show ?thesis
    by (simp add: folder_layout_def archive_items_def tiny_os_def open_directory_def depth_def tiny_metadata_def
        sample_metadata_def t tiny_layout_def item_source_def file_name_def str_len_def utf8_def utf8_char_def lit_def,
      simp add: walk_start_def)
qed

lemma tiny_plan_new: "ZipPlan_new (\<lambda>_. None) (ar_sources tiny_layout) Auto = Some tiny_plan"
  by (simp add: tiny_layout_def tiny_plan_def ZipPlan_new_def plan_entry_def plan_method_def may_deflate_def
      MIN_DEFLATE_BYTES_def dos_timestamp_def unix_mtime_def DOS_MIN_def entry_end_def plan_eval Let_def)

lemma tiny_write_archive: "\<exists>q out. write_archive sample_feeds tiny_plan = Ok (q, out)"
  by (simp add: plan_eval tiny_plan_def write_archive_def write_local_header_def write_data_descriptor_def
      finish_entries_def Let_def)


end
